(* ===== verification/Prelude.thy ===== *)
theory Prelude
  imports Main "HOL-Library.Word"
begin

text \<open>
  Shared vocabulary of the development: the C integer types at their widths, pointers, the
  collections of proof hints, and the generic facts about words, lists and maps that the component
  theories share. A pointer is its 64-bit address and the NULL pointer is address 0. A C operation
  that may dereference NULL or divide by zero, or that may not return, has an \<open>option\<close> result in
  which \<open>None\<close> stands for that fault.
\<close>

unbundle bit_operations_syntax

section \<open>Types\<close>

type_synonym u8 = "8 word"
type_synonym u16 = "16 word"
type_synonym u32 = "32 word"
type_synonym u64 = "64 word"
type_synonym ptr = "64 word"

abbreviation NULL :: ptr where
  "NULL \<equiv> 0"

abbreviation minus_one :: u64 where
  "minus_one \<equiv> - 1"

named_theorems alloc_simps "live maps and successors of the allocators"
named_theorems inv_intros "operations that keep an invariant"

text \<open>The characters of a string literal.\<close>

definition str_bytes :: "string \<Rightarrow> u8 list" where
  "str_bytes = map (\<lambda>c. of_char c)"

section \<open>Words read as natural numbers\<close>

lemma unat_plus_no_wrap:
  fixes a b :: "'a::len word"
  shows "unat a + unat b < 2 ^ LENGTH('a) \<Longrightarrow> unat (a + b) = unat a + unat b"
  by (simp add: unat_word_ariths)

lemma unat_minus_no_wrap:
  fixes a b :: "'a::len word"
  shows "unat b \<le> unat a \<Longrightarrow> unat (a - b) = unat a - unat b"
  by (simp add: unat_sub word_le_nat_alt)

lemma unat_u64_less: "unat (x :: u64) < 18446744073709551616"
  using unsigned_less [of x] by simp

lemma unat_u32_less: "unat (x :: u32) < 4294967296"
  using unsigned_less [of x] by simp

lemma unat_ucast_u32: "unat (ucast x :: u64) = unat x" for x :: u32
proof -
  have "unat x < 2 ^ 64" using unat_u32_less [of x] by simp
  then show ?thesis by (simp add: unsigned_ucast_eq take_bit_nat_eq_self)
qed

lemma unat_of_nat_u64: "i < 2 ^ 64 \<Longrightarrow> unat (of_nat i :: u64) = i"
  by (simp add: unat_of_nat)

lemma unat_half: "unat (drop_bit 1 x) = unat x div 2" for x :: "'a::len word"
  by (metis drop_bit_eq_div power_one_right unat_drop_bit_eq)

lemma sint_small:
  fixes x :: "'a::len word"
  assumes "unat x < 2 ^ (LENGTH('a) - 1)"
  shows "sint x = int (unat x)"
proof -
  have "int (unat x) < int (2 ^ (LENGTH('a) - 1))" using assms by (simp only: of_nat_less_iff)
  then have "int (unat x) < 2 ^ (LENGTH('a) - 1)" by simp
  moreover have "- (2 ^ (LENGTH('a) - 1)) \<le> int (unat x)"
    by (rule order_trans [of _ 0]) simp_all
  ultimately show ?thesis by (simp add: sint_uint signed_take_bit_int_eq_self)
qed

section \<open>Lists, options and maps\<close>

lemma option_bind_Some_iff:
  "Option.bind m f = Some y \<longleftrightarrow> (\<exists>x. m = Some x \<and> f x = Some y)"
  by (cases m) auto

lemma if_Some_eq: "(if c then Some a else Some b) = Some x \<longleftrightarrow> x = (if c then a else b)"
  by auto

end
