(* ===== verification/Allocator.thy ===== *)
theory Allocator
  imports Prelude
begin

text \<open>
  What the clients of the three memory managers rely on, as one interface. An allocator has a state,
  an invariant, a map from the addresses of its live blocks to their lengths, an allocation that
  answers a pointer (NULL for "no room") and a release. The laws say that a successful allocation
  adds one fresh block, at least as long as was asked, that a release removes exactly the block it
  is given, and that live blocks never overlap. The kernel heap (\<open>Kmem\<close>), the process heaps
  (\<open>Pmem\<close>) and the block allocator (\<open>Memlib\<close>) each interpret it.
\<close>

definition apart :: "nat \<Rightarrow> nat \<Rightarrow> nat \<Rightarrow> nat \<Rightarrow> bool" where
  "apart p m q n \<longleftrightarrow> p + m \<le> q \<or> q + n \<le> p"

lemma apart_sym: "apart p m q n \<longleftrightarrow> apart q n p m"
  by (auto simp: apart_def)

definition blocks_apart :: "(ptr \<rightharpoonup> nat) \<Rightarrow> bool" where
  "blocks_apart m \<longleftrightarrow>
     (\<forall>p q a b. m p = Some a \<longrightarrow> m q = Some b \<longrightarrow> p \<noteq> q \<longrightarrow> apart (unat p) a (unat q) b)"

text \<open>
  A client's history: the state of the allocator and the blocks the client owns. It asks for blocks
  of admissible length, and releases only pointers it was given and has not released since.
\<close>

inductive client_run ::
  "('s \<Rightarrow> u64 \<Rightarrow> ('s \<times> ptr) option) \<Rightarrow> ('s \<Rightarrow> ptr \<Rightarrow> 's) \<Rightarrow> (u64 \<Rightarrow> bool) \<Rightarrow> 's \<Rightarrow> 's \<Rightarrow> ptr set \<Rightarrow> bool"
  for alloc release admissible s0
  where
    client_start: "client_run alloc release admissible s0 s0 {}"
  | client_alloc: "client_run alloc release admissible s0 s own \<Longrightarrow> admissible n \<Longrightarrow>
      alloc s n = Some (s', p) \<Longrightarrow> p \<noteq> NULL \<Longrightarrow>
      client_run alloc release admissible s0 s' (insert p own)"
  | client_refused: "client_run alloc release admissible s0 s own \<Longrightarrow> admissible n \<Longrightarrow>
      alloc s n = Some (s', NULL) \<Longrightarrow> client_run alloc release admissible s0 s' own"
  | client_release: "client_run alloc release admissible s0 s own \<Longrightarrow> p \<in> own \<Longrightarrow>
      client_run alloc release admissible s0 (release s p) (own - {p})"

lemma client_run_first:
  assumes "admissible n" "alloc s0 n = Some (s', p)" "p \<noteq> NULL"
  shows "client_run alloc release admissible s0 s' {p}"
proof -
  have "client_run alloc release admissible s0 s0 {}" by (rule client_start)
  from this assms have "client_run alloc release admissible s0 s' (insert p {})"
    by (rule client_alloc)
  then show ?thesis by simp
qed

locale allocator =
  fixes inv :: "'s \<Rightarrow> bool"
    and live :: "'s \<Rightarrow> ptr \<rightharpoonup> nat"
    and admissible :: "u64 \<Rightarrow> bool"
    and alloc :: "'s \<Rightarrow> u64 \<Rightarrow> ('s \<times> ptr) option"
    and release :: "'s \<Rightarrow> ptr \<Rightarrow> 's"
  assumes inv_alloc: "inv s \<Longrightarrow> admissible n \<Longrightarrow> alloc s n = Some (s', p) \<Longrightarrow> inv s'"
    and alloc_null: "inv s \<Longrightarrow> admissible n \<Longrightarrow> alloc s n = Some (s', NULL) \<Longrightarrow> live s' = live s"
    and alloc_block: "inv s \<Longrightarrow> admissible n \<Longrightarrow> alloc s n = Some (s', p) \<Longrightarrow> p \<noteq> NULL \<Longrightarrow>
      live s p = None \<and> (\<exists>m \<ge> unat n. live s' = (live s)(p \<mapsto> m))"
    and inv_release: "inv s \<Longrightarrow> p \<in> dom (live s) \<Longrightarrow> inv (release s p)"
    and live_release: "inv s \<Longrightarrow> p \<in> dom (live s) \<Longrightarrow> live (release s p) = (live s)(p := None)"
    and live_apart: "inv s \<Longrightarrow> blocks_apart (live s)"
begin

lemma alloc_dom:
  assumes "inv s" "admissible n" "alloc s n = Some (s', p)" "p \<noteq> NULL"
  shows "dom (live s') = insert p (dom (live s))" "p \<notin> dom (live s)"
  using alloc_block [OF assms] by auto

lemma alloc_then_release:
  assumes "inv s" "admissible n" "alloc s n = Some (s', p)" "p \<noteq> NULL"
  shows "live (release s' p) = live s"
proof -
  from alloc_block [OF assms] obtain m where
    m: "live s p = None" "live s' = (live s)(p \<mapsto> m)" by blast
  have "inv s'" using assms(1-3) by (rule inv_alloc)
  with m have "live (release s' p) = (live s')(p := None)" by (intro live_release) auto
  with m show ?thesis by auto
qed

lemma new_block_apart:
  assumes "inv s" "admissible n" "alloc s n = Some (s', p)" "p \<noteq> NULL" "live s q = Some k"
  shows "apart (unat p) (unat n) (unat q) k"
proof -
  from alloc_block [OF assms(1-4)] obtain m where
    m: "m \<ge> unat n" "live s p = None" "live s' = (live s)(p \<mapsto> m)" by blast
  have "blocks_apart (live s')" using assms(1-3) by (blast intro: live_apart inv_alloc)
  moreover have "p \<noteq> q" using m assms(5) by auto
  ultimately have "apart (unat p) m (unat q) k"
    using m assms(5) by (auto simp: blocks_apart_def split: if_splits)
  with m(1) show ?thesis by (auto simp: apart_def)
qed

lemma client_run_inv:
  "client_run alloc release admissible s0 s own \<Longrightarrow> inv s0 \<Longrightarrow>
     inv s \<and> own \<subseteq> dom (live s) \<and> dom (live s) = own \<union> dom (live s0) \<and> own \<inter> dom (live s0) = {}"
proof (induction rule: client_run.induct)
  case client_start
  then show ?case by simp
next
  case (client_alloc s own n s' p)
  then have "inv s'" by (blast intro: inv_alloc)
  with client_alloc show ?case using alloc_dom [of s n s' p] by auto
next
  case (client_refused s own n s')
  then have "inv s'" "live s' = live s" by (blast intro: inv_alloc alloc_null)+
  with client_refused show ?case by simp
next
  case (client_release s own p)
  then have "p \<in> dom (live s)" "inv s" by auto
  then have "inv (release s p)" "live (release s p) = (live s)(p := None)"
    by (blast intro: inv_release live_release)+
  then have "inv (release s p)" "dom (live (release s p)) = dom (live s) - {p}" by simp_all
  moreover have "p \<in> own" "dom (live s) = own \<union> dom (live s0)" "own \<inter> dom (live s0) = {}"
    using client_release by auto
  ultimately show ?case by (simp only:) blast
qed

lemma client_blocks_apart:
  assumes "client_run alloc release admissible s0 s own" "inv s0"
  shows "own \<subseteq> dom (live s) \<and> blocks_apart (live s)"
  using client_run_inv [OF assms] live_apart by blast

lemma client_no_leak:
  assumes "client_run alloc release admissible s0 s {}" "inv s0"
  shows "dom (live s) = dom (live s0)"
  using client_run_inv [OF assms] by simp

end

end
