(* ===== verification/Kmem.thy ===== *)
theory Kmem
  imports Allocator
begin

text \<open>
  The kernel heap: \<open>Kernel/system/MemoryManagement/kmem.c\<close> with the structures of \<open>chunk.h\<close>. The
  global \<open>allocated\<close> is a singly linked list whose nodes point to chunk descriptors, each node
  directly behind the descriptor it points to; the list is modelled by the list of descriptors in
  the order of the \<open>next\<close> pointers, the empty list standing for a NULL \<open>allocated\<close>. The loops over
  \<open>curr\<close> and \<open>prev\<close> are recursions along that list which carry \<open>prev\<close>. The same code appears again in
  \<open>pmem.c\<close> with another list head and another limit, so the loops take the limit as an argument.
\<close>

section \<open>State and operations\<close>

record mem_chunk_t =
  start :: ptr
  chunk_size :: u64
  used :: bool

type_synonym chunk_list = "mem_chunk_t list"

definition sizeof_mem_chunk_t :: u64 where
  "sizeof_mem_chunk_t = 24"

definition sizeof_mem_chunk_list_t :: u64 where
  "sizeof_mem_chunk_list_t = 16"

definition MEMORY_START :: u64 where
  "MEMORY_START = 0x600000"

definition AVAILABLE_MEMORY :: u64 where
  "AVAILABLE_MEMORY = 0x300000"

definition MEMORY_END :: u64 where
  "MEMORY_END = MEMORY_START + AVAILABLE_MEMORY - 1"

lemmas memory_layout =
  sizeof_mem_chunk_t_def sizeof_mem_chunk_list_t_def MEMORY_START_def AVAILABLE_MEMORY_def MEMORY_END_def

text \<open>\<open>abs\<close> on \<open>int64_t\<close>; its result is compared with an unsigned size.\<close>

definition abs64 :: "u64 \<Rightarrow> u64" where
  "abs64 n = (if 0 <s n then n else - n)"

text \<open>
  The search for a free chunk that is large enough, the reuse of the one found (its size becomes the
  requested one) and, at the end of the list, the limit test and the new chunk behind the last one.
\<close>

fun malloc_loop :: "u64 \<Rightarrow> u64 \<Rightarrow> mem_chunk_t option \<Rightarrow> chunk_list \<Rightarrow> (chunk_list \<times> ptr) option" where
  "malloc_loop limit sz prev (cur # rest) =
     (if used cur \<or> chunk_size cur < sz
      then (case malloc_loop limit sz (Some cur) rest of
              None \<Rightarrow> None
            | Some (rest', p) \<Rightarrow> Some (cur # rest', p))
      else Some (cur\<lparr>chunk_size := sz, used := True\<rparr> # rest, start cur))"
| "malloc_loop limit sz (Some prev) [] =
     (if start prev + chunk_size prev + sz > limit then Some ([], NULL)
      else let chunk = start prev + chunk_size prev;
               p = chunk + sizeof_mem_chunk_t + sizeof_mem_chunk_list_t
           in Some ([\<lparr>start = p, chunk_size = sz, used = True\<rparr>], p))"
| "malloc_loop limit sz None [] = None"

definition kmalloc :: "chunk_list \<Rightarrow> u64 \<Rightarrow> (chunk_list \<times> ptr) option" where
  "kmalloc allocated sz = malloc_loop MEMORY_END sz None allocated"

definition far_from :: "ptr \<Rightarrow> mem_chunk_t \<Rightarrow> bool" where
  "far_from mem cur \<longleftrightarrow> abs64 (mem - start cur) > chunk_size cur"

fun merge_next :: "mem_chunk_t \<Rightarrow> chunk_list \<Rightarrow> chunk_list" where
  "merge_next c (n # rest) =
     (if \<not> used n then c\<lparr>chunk_size := chunk_size c + chunk_size n\<rparr> # rest else c # n # rest)"
| "merge_next c [] = [c]"

fun free_chunk :: "mem_chunk_t option \<Rightarrow> mem_chunk_t \<Rightarrow> chunk_list \<Rightarrow> chunk_list" where
  "free_chunk None cur rest = merge_next (cur\<lparr>used := False\<rparr>) rest"
| "free_chunk (Some prev) cur rest =
     (if \<not> used prev
      then merge_next (prev\<lparr>chunk_size := chunk_size prev + chunk_size cur\<rparr>) rest
      else prev # merge_next (cur\<lparr>used := False\<rparr>) rest)"

fun free_loop :: "ptr \<Rightarrow> mem_chunk_t option \<Rightarrow> chunk_list \<Rightarrow> chunk_list" where
  "free_loop mem prev (cur # rest) =
     (if far_from mem cur
      then (case prev of None \<Rightarrow> [] | Some p \<Rightarrow> [p]) @ free_loop mem (Some cur) rest
      else free_chunk prev cur rest)"
| "free_loop mem prev [] = (case prev of None \<Rightarrow> [] | Some p \<Rightarrow> [p])"

definition kfree :: "chunk_list \<Rightarrow> ptr \<Rightarrow> chunk_list" where
  "kfree allocated mem = free_loop mem None allocated"

text \<open>The header of the heap itself is its first, used, chunk.\<close>

definition init_chunks :: "ptr \<Rightarrow> chunk_list" where
  "init_chunks base =
     [\<lparr>start = base, chunk_size = sizeof_mem_chunk_t + sizeof_mem_chunk_list_t, used = True\<rparr>]"

definition init_kheap :: chunk_list where
  "init_kheap = init_chunks MEMORY_START"


section \<open>What the list of chunks means\<close>

text \<open>
  \<open>before c d\<close>: the data of \<open>c\<close> and the header of \<open>d\<close> (descriptor and node, 40 bytes) fit between
  the two starts. The invariant of a heap between \<open>lo\<close> and \<open>hi\<close>: the list is not empty, is
  in address order with room for the headers, every chunk starts at \<open>lo\<close> or after and ends at
  \<open>hi\<close> or before. \<open>hi\<close> is 40 more
  than the limit the code tests, since the test leaves the header of the new chunk out.
\<close>

definition header_size :: nat where
  "header_size = 40"

definition before :: "mem_chunk_t \<Rightarrow> mem_chunk_t \<Rightarrow> bool" where
  "before c d \<longleftrightarrow> unat (start c) + unat (chunk_size c) + header_size \<le> unat (start d)"

definition chunks_inv :: "nat \<Rightarrow> nat \<Rightarrow> chunk_list \<Rightarrow> bool" where
  "chunks_inv lo hi cs \<longleftrightarrow>
     0 < lo \<and> cs \<noteq> [] \<and> sorted_wrt before cs \<and>
     (\<forall>c \<in> set cs. lo \<le> unat (start c) \<and> unat (start c) + unat (chunk_size c) \<le> hi)"

definition chunks_live :: "chunk_list \<Rightarrow> ptr \<rightharpoonup> nat" where
  "chunks_live cs = map_of (map (\<lambda>c. (start c, unat (chunk_size c))) (filter used cs))"

text \<open>A limit and a request for which none of the 64-bit sums wraps around.\<close>

definition heap_limit_ok :: "u64 \<Rightarrow> bool" where
  "heap_limit_ok limit \<longleftrightarrow> unat limit < 2 ^ 62"

definition size_ok :: "u64 \<Rightarrow> bool" where
  "size_ok n \<longleftrightarrow> unat n < 2 ^ 63"

abbreviation heap_top :: "u64 \<Rightarrow> nat" where
  "heap_top limit \<equiv> unat limit + header_size"

lemma before_trans: "before a b \<Longrightarrow> before b c \<Longrightarrow> before a c"
  by (auto simp: before_def)

lemma before_start_less: "before c d \<Longrightarrow> unat (start c) < unat (start d)"
  by (auto simp: before_def header_size_def)

lemma distinct_starts: "sorted_wrt before cs \<Longrightarrow> distinct (map start cs)"
  by (induction cs) (force dest: before_start_less)+

lemma live_lookup:
  assumes "sorted_wrt before cs"
  shows "chunks_live cs p = Some n \<longleftrightarrow> (\<exists>c \<in> set cs. used c \<and> start c = p \<and> unat (chunk_size c) = n)"
proof -
  have "distinct (map start (filter used cs))"
    using distinct_starts [OF assms] by (rule distinct_map_filter)
  then have "distinct (map fst (map (\<lambda>c. (start c, unat (chunk_size c))) (filter used cs)))"
    by (simp add: comp_def)
  then show ?thesis
    unfolding chunks_live_def by (subst map_of_eq_Some_iff) auto
qed

lemma live_None:
  "chunks_live cs p = None \<longleftrightarrow> p \<notin> start ` set (filter used cs)"
  by (simp add: chunks_live_def map_of_eq_None_iff image_image)

lemma chunks_live_simps [simp]:
  "chunks_live [] = Map.empty"
  "chunks_live (c # cs) = (if used c then (chunks_live cs)(start c \<mapsto> unat (chunk_size c)) else chunks_live cs)"
  "chunks_live (xs @ cs) = chunks_live cs ++ chunks_live xs"
  by (simp_all add: chunks_live_def)

lemma dom_chunks_live: "dom (chunks_live cs) = start ` set (filter used cs)"
  by (simp add: chunks_live_def dom_map_of_conv_image_fst image_image)

lemma chunks_live_apart:
  assumes "chunks_inv lo hi cs"
  shows "blocks_apart (chunks_live cs)"
proof -
  have sorted: "sorted_wrt before cs" using assms by (simp add: chunks_inv_def)
  have "apart (unat (start c)) (unat (chunk_size c)) (unat (start d)) (unat (chunk_size d))"
    if "c \<in> set cs" "d \<in> set cs" "start c \<noteq> start d" for c d
  proof -
    from that obtain i j where ij: "i < length cs" "cs ! i = c" "j < length cs" "cs ! j = d"
      by (auto simp: in_set_conv_nth)
    with that(3) consider "i < j" | "j < i" by (cases i j rule: linorder_cases) auto
    then show ?thesis
      using sorted ij by cases (force simp: sorted_wrt_iff_nth_less before_def apart_def)+
  qed
  then show ?thesis
    by (auto simp: blocks_apart_def live_lookup [OF sorted])
qed

section \<open>Allocation\<close>

text \<open>What the search returns, read off the list it was given.\<close>

lemma malloc_loop_cases:
  assumes "malloc_loop limit sz prev cs = Some (cs', p)"
  obtains
    (reuse) xs c ys where "cs = xs @ c # ys" "cs' = xs @ c\<lparr>chunk_size := sz, used := True\<rparr> # ys"
      "p = start c" "\<not> used c" "sz \<le> chunk_size c"
  | (full) lst where "cs' = cs" "p = NULL" "lst = (if cs = [] then the prev else last cs)"
      "limit < start lst + chunk_size lst + sz"
  | (grow) lst where "lst = (if cs = [] then the prev else last cs)"
      "p = start lst + chunk_size lst + 40"
      "start lst + chunk_size lst + sz \<le> limit"
      "cs' = cs @ [\<lparr>start = p, chunk_size = sz, used = True\<rparr>]"
proof -
  have "(\<exists>xs c ys. cs = xs @ c # ys \<and> cs' = xs @ c\<lparr>chunk_size := sz, used := True\<rparr> # ys \<and>
           p = start c \<and> \<not> used c \<and> sz \<le> chunk_size c) \<or>
        (let lst = (if cs = [] then the prev else last cs) in
           cs' = cs \<and> p = NULL \<and> limit < start lst + chunk_size lst + sz \<or>
           p = start lst + chunk_size lst + 40 \<and> start lst + chunk_size lst + sz \<le> limit \<and>
           cs' = cs @ [\<lparr>start = p, chunk_size = sz, used = True\<rparr>])"
    (is "?P prev cs cs'")
    using assms
  proof (induction limit sz prev cs arbitrary: cs' rule: malloc_loop.induct)
    case (1 limit sz prev cur rest)
    show ?case
    proof (cases "used cur \<or> chunk_size cur < sz")
      case True
      with "1.prems" obtain rest' where r: "malloc_loop limit sz (Some cur) rest = Some (rest', p)"
        "cs' = cur # rest'" by (auto split: option.splits)
      from "1.IH" [OF True r(1)] show ?thesis
        using r(2) by (auto simp: Let_def intro: exI [of _ "cur # _"] split: if_splits)
          (metis append_Cons)+
    next
      case False
      with "1.prems" show ?thesis
        by (intro disjI1 exI [of _ "[]"]) (auto simp: not_less)
    qed
  qed (auto simp: Let_def memory_layout not_less add.assoc split: if_splits)
  then show thesis
    by (auto simp: Let_def intro: that)
qed


lemma live_insert:
  assumes "sorted_wrt before (xs @ c # ys)" "\<not> used c"
  shows "chunks_live (xs @ c # ys) (start c) = None"
    and "chunks_live (xs @ c\<lparr>chunk_size := sz, used := True\<rparr> # ys)
           = (chunks_live (xs @ c # ys))(start c \<mapsto> unat sz)"
proof -
  have d: "start c \<notin> start ` set xs" "start c \<notin> start ` set ys"
    using distinct_starts [OF assms(1)] by auto
  then show "chunks_live (xs @ c # ys) (start c) = None"
    using assms(2) by (auto simp: live_None)
  from d show "chunks_live (xs @ c\<lparr>chunk_size := sz, used := True\<rparr> # ys)
           = (chunks_live (xs @ c # ys))(start c \<mapsto> unat sz)"
    using assms(2) by (simp add: map_add_upd_left dom_chunks_live image_iff)
qed

lemma malloc_grow:
  assumes "chunks_inv lo (heap_top limit) cs" "heap_limit_ok limit" "size_ok sz"
    and "start (last cs) + chunk_size (last cs) + sz \<le> limit"
  defines "p \<equiv> start (last cs) + chunk_size (last cs) + 40"
  defines "c \<equiv> \<lparr>start = p, chunk_size = sz, used = True\<rparr>"
  shows "chunks_inv lo (heap_top limit) (cs @ [c])" "p \<noteq> NULL" "p \<notin> start ` set cs"
proof -
  let ?l = "last cs"
  have ne: "cs \<noteq> []" and sorted: "sorted_wrt before cs"
    and ends: "\<forall>c \<in> set cs. lo \<le> unat (start c) \<and> unat (start c) + unat (chunk_size c) \<le> heap_top limit"
    using assms(1) by (auto simp: chunks_inv_def)
  have l: "lo \<le> unat (start ?l)" "unat (start ?l) + unat (chunk_size ?l) \<le> heap_top limit"
    using ends ne by auto
  have bound: "heap_top limit + unat sz + 40 < 2 ^ 64"
    using assms(2,3) by (simp add: heap_limit_ok_def size_ok_def header_size_def)
  have s: "unat (start ?l + chunk_size ?l) = unat (start ?l) + unat (chunk_size ?l)"
    using l(2) bound by (intro unat_plus_no_wrap) simp
  have "unat (start ?l + chunk_size ?l + sz) = unat (start ?l) + unat (chunk_size ?l) + unat sz"
    using s l(2) bound by (subst unat_plus_no_wrap) simp_all
  with assms(4) have fits: "unat (start ?l) + unat (chunk_size ?l) + unat sz \<le> unat limit"
    by (simp add: word_le_nat_alt)
  have p: "unat p = unat (start ?l) + unat (chunk_size ?l) + header_size"
    unfolding p_def using s l(2) bound
    by (subst unat_plus_no_wrap) (simp_all add: header_size_def)
  show "p \<noteq> NULL" using p by (auto simp: header_size_def)
  have lp: "lo \<le> unat p" using p l(1) by simp
  have last_before: "before ?l c" using p by (simp add: before_def c_def)
  moreover have "before d ?l" if "d \<in> set (butlast cs)" for d
    using sorted ne that by (metis append_butlast_last_id list.set_intros(1) sorted_wrt_append)
  ultimately have all: "\<forall>d \<in> set cs. before d c"
    using ne before_trans by (metis append_butlast_last_id rotate1.simps(2) set_ConsD set_rotate1)
  then show "p \<notin> start ` set cs" using before_start_less by (fastforce simp: c_def)
  show "chunks_inv lo (heap_top limit) (cs @ [c])"
    using sorted ends all lp assms(1) p fits
    by (auto simp: chunks_inv_def sorted_wrt_append c_def header_size_def)
qed

lemma live_append_new:
  "p \<notin> start ` set cs \<Longrightarrow>
     chunks_live (cs @ [\<lparr>start = p, chunk_size = sz, used = True\<rparr>]) = (chunks_live cs)(p \<mapsto> unat sz)"
  by (simp add: map_add_upd_left dom_chunks_live image_iff)

lemma malloc_spec:
  assumes "chunks_inv lo (heap_top limit) cs" "heap_limit_ok limit" "size_ok sz"
    and "malloc_loop limit sz None cs = Some (cs', p)"
  shows "chunks_inv lo (heap_top limit) cs' \<and>
     (if p = NULL then cs' = cs
      else chunks_live cs p = None \<and> chunks_live cs' = (chunks_live cs)(p \<mapsto> unat sz))"
  using assms(4)
proof (cases rule: malloc_loop_cases)
  case (reuse xs c ys)
  have sorted: "sorted_wrt before (xs @ c # ys)"
    using assms(1) reuse(1) by (simp add: chunks_inv_def)
  have le: "unat sz \<le> unat (chunk_size c)" using reuse(5) by (simp add: word_le_nat_alt)
  have "chunks_inv lo (heap_top limit) cs'"
    using assms(1) le unfolding reuse(1,2)
    by (auto simp: chunks_inv_def sorted_wrt_append before_def)
  moreover have "p \<noteq> NULL" using assms(1) reuse(1,3) by (auto simp: chunks_inv_def)
  ultimately show ?thesis
    using live_insert [OF sorted reuse(4)] reuse(1-3) by simp
next
  case (full lst)
  then show ?thesis using assms(1) by simp
next
  case (grow lst)
  have "cs \<noteq> []" using assms(1) by (simp add: chunks_inv_def)
  with grow have "start (last cs) + chunk_size (last cs) + sz \<le> limit" by simp
  from malloc_grow [OF assms(1-3) this] grow \<open>cs \<noteq> []\<close> show ?thesis
    by (auto simp: live_append_new live_None simp del: chunks_live_simps)
qed

text \<open>A list with at least one chunk never makes the search dereference a NULL \<open>prev\<close>.\<close>

lemma malloc_loop_defined:
  "cs \<noteq> [] \<or> prev \<noteq> None \<Longrightarrow> \<exists>r. malloc_loop limit sz prev cs = Some r"
proof (induction limit sz prev cs rule: malloc_loop.induct)
  case (1 limit sz prev cur rest)
  then show ?case by (cases "used cur \<or> chunk_size cur < sz") (auto split: option.splits)
qed (auto simp: Let_def)

section \<open>Release\<close>

text \<open>
  \<open>kfree\<close> takes the first chunk whose start lies within its size of the pointer, on either side.
  For the start of a chunk of the list that is the chunk itself: every earlier one is shorter than
  the distance to it, since a header lies in between.
\<close>

lemma far_from_before:
  assumes "before c d" "unat (start d) < 2 ^ 63"
  shows "far_from (start d) c"
proof -
  let ?d = "start d - start c"
  have le: "unat (start c) \<le> unat (start d)" using assms(1) by (simp add: before_def)
  then have u: "unat ?d = unat (start d) - unat (start c)" by (rule unat_minus_no_wrap)
  then have gt: "unat (chunk_size c) < unat ?d" using assms(1) by (simp add: before_def header_size_def)
  have "sint ?d = int (unat ?d)"
    using u assms(2) by (intro sint_small) simp
  moreover have "0 < int (unat ?d)" using gt by linarith
  ultimately have "0 <s ?d" by (simp only: word_sless_alt sint_0)
  with gt show ?thesis by (simp add: far_from_def abs64_def word_less_nat_alt)
qed

lemma not_far_from_self: "\<not> far_from (start c) c"
  by (simp add: far_from_def abs64_def)

lemma free_loop_skip:
  "\<forall>x \<in> set xs. far_from mem x \<Longrightarrow> \<not> far_from mem c \<Longrightarrow>
     free_loop mem prev (xs @ c # ys) =
       (if xs = [] then free_chunk prev c ys
        else (case prev of None \<Rightarrow> [] | Some p \<Rightarrow> [p]) @ butlast xs @ free_chunk (Some (last xs)) c ys)"
  by (induction xs arbitrary: prev) (auto split: option.splits)

lemma free_start_split:
  assumes "chunks_inv lo hi cs" "hi < 2 ^ 63" "c \<in> set cs"
  obtains xs ys where "cs = xs @ c # ys"
    "free_loop (start c) None cs =
       (if xs = [] then free_chunk None c ys else butlast xs @ free_chunk (Some (last xs)) c ys)"
proof -
  obtain xs ys where cs: "cs = xs @ c # ys" using assms(3) by (meson split_list)
  have "unat (start c) < 2 ^ 63" using assms by (force simp: chunks_inv_def)
  then have "\<forall>x \<in> set xs. far_from (start c) x"
    using assms(1) cs by (auto simp: chunks_inv_def sorted_wrt_append intro: far_from_before)
  from free_loop_skip [OF this not_far_from_self, of None ys] show thesis
    by (intro that [OF cs]) (simp add: cs)
qed

lemma merge_next_used: "\<not> used c \<Longrightarrow> filter used (merge_next c ys) = filter used ys"
  by (cases ys) auto

lemma free_chunk_used:
  "filter used (free_chunk None c ys) = filter used ys"
  "filter used (free_chunk (Some p) c ys) = filter used (p # ys)"
  by (auto simp: merge_next_used)

lemma free_used:
  "filter used (if xs = [] then free_chunk None c ys else butlast xs @ free_chunk (Some (last xs)) c ys)
     = filter used (xs @ ys)"
proof (cases "xs = []")
  case False
  then have "xs = butlast xs @ [last xs]" by simp
  then have "filter used xs = filter used (butlast xs) @ filter used [last xs]" by (metis filter_append)
  with False show ?thesis by (simp add: free_chunk_used del: free_chunk.simps)
qed (simp add: free_chunk_used del: free_chunk.simps)

lemma merged_size:
  assumes "before c d" "unat (start d) + unat (chunk_size d) < 2 ^ 64"
  shows "unat (chunk_size c + chunk_size d) = unat (chunk_size c) + unat (chunk_size d)"
  using assms by (intro unat_plus_no_wrap) (simp add: before_def)

lemma chunks_inv_Cons:
  "chunks_inv lo hi (c # ys) \<longleftrightarrow>
     0 < lo \<and> (\<forall>y \<in> set ys. before c y) \<and> lo \<le> unat (start c) \<and> unat (start c) + unat (chunk_size c) \<le> hi \<and>
     (ys = [] \<or> chunks_inv lo hi ys)"
  by (auto simp: chunks_inv_def)

lemma chunks_inv_append:
  "xs \<noteq> [] \<Longrightarrow> ys \<noteq> [] \<Longrightarrow>
     chunks_inv lo hi (xs @ ys) \<longleftrightarrow> chunks_inv lo hi xs \<and> chunks_inv lo hi ys \<and> (\<forall>x \<in> set xs. \<forall>y \<in> set ys. before x y)"
  by (auto simp: chunks_inv_def sorted_wrt_append)

lemma absorb_chunk:
  assumes "chunks_inv lo hi (c # n # ys)" "hi < 2 ^ 63"
  shows "chunks_inv lo hi (c\<lparr>chunk_size := chunk_size c + chunk_size n\<rparr> # ys)"
proof -
  let ?c = "c\<lparr>chunk_size := chunk_size c + chunk_size n\<rparr>"
  have cn: "before c n" and n: "chunks_inv lo hi (n # ys)"
    using assms(1) by (auto simp: chunks_inv_Cons)
  have sz: "unat (chunk_size c + chunk_size n) = unat (chunk_size c) + unat (chunk_size n)"
    using cn n assms(2) by (intro merged_size) (auto simp: chunks_inv_Cons)
  have "before ?c y" if "before n y" for y
    using that cn sz by (simp add: before_def)
  moreover have "unat (start c) + unat (chunk_size c + chunk_size n) \<le> hi"
    using cn n sz by (simp add: before_def chunks_inv_Cons)
  ultimately show ?thesis
    using assms(1) n by (simp add: chunks_inv_Cons)
qed

lemma chunks_inv_unused: "chunks_inv lo hi (c # ys) \<Longrightarrow> chunks_inv lo hi (c\<lparr>used := False\<rparr> # ys)"
  by (simp add: chunks_inv_Cons before_def)

lemma merge_next_inv:
  assumes "chunks_inv lo hi (c # ys)" "hi < 2 ^ 63"
  shows "chunks_inv lo hi (merge_next c ys)"
  using assms absorb_chunk [OF _ assms(2), of lo c] by (cases ys) auto

text \<open>Nothing moves down: what lies before the first chunk lies before every chunk of the result.\<close>

lemma merge_next_above:
  assumes "chunks_inv lo hi (c # ys)" "before d c" "y \<in> set (merge_next c ys)"
  shows "before d y"
proof -
  have "before d (c\<lparr>chunk_size := k\<rparr>)" for k using assms(2) by (simp add: before_def)
  moreover have "before d y" if "y \<in> set ys"
    using assms(1,2) that before_trans by (auto simp: chunks_inv_Cons)
  ultimately show ?thesis
    using assms(2,3) by (cases ys) (auto split: if_splits)
qed

lemma free_chunk_inv:
  assumes "chunks_inv lo hi (p # c # ys)" "hi < 2 ^ 63"
  shows "chunks_inv lo hi (free_chunk (Some p) c ys)"
proof (cases "used p")
  case True
  have c: "chunks_inv lo hi (c\<lparr>used := False\<rparr> # ys)" and pc: "before p (c\<lparr>used := False\<rparr>)"
    using assms(1) by (auto simp: chunks_inv_Cons before_def)
  show ?thesis
    using merge_next_inv [OF c assms(2)] merge_next_above [OF c pc] assms(1) True
    by (simp add: chunks_inv_Cons)
next
  case False
  then show ?thesis
    using merge_next_inv [OF absorb_chunk [OF assms] assms(2)] by simp
qed

lemma free_chunk_above:
  assumes "chunks_inv lo hi (p # c # ys)" "hi < 2 ^ 63" "before d p" "y \<in> set (free_chunk (Some p) c ys)"
  shows "before d y"
proof (cases "used p")
  case True
  have c: "chunks_inv lo hi (c\<lparr>used := False\<rparr> # ys)" and pc: "before p (c\<lparr>used := False\<rparr>)"
    using assms(1) by (auto simp: chunks_inv_Cons before_def)
  show ?thesis
    using merge_next_above [OF c before_trans [OF assms(3) pc]] assms(3,4) True by auto
next
  case False
  have "before d (p\<lparr>chunk_size := chunk_size p + chunk_size c\<rparr>)"
    using assms(3) by (simp add: before_def)
  then show ?thesis
    using merge_next_above [OF absorb_chunk [OF assms(1,2)]] assms(4) False by simp
qed

lemma free_chunk_not_Nil: "free_chunk prev c ys \<noteq> []"
proof -
  have "merge_next d ys \<noteq> []" for d by (cases ys) auto
  then show ?thesis by (cases prev) auto
qed

lemma free_inv_parts:
  assumes "chunks_inv lo hi (xs @ c # ys)" "hi < 2 ^ 63"
  shows "chunks_inv lo hi
    (if xs = [] then free_chunk None c ys else butlast xs @ free_chunk (Some (last xs)) c ys)"
proof (cases xs rule: rev_cases)
  case Nil
  have "chunks_inv lo hi (c\<lparr>used := False\<rparr> # ys)"
    using chunks_inv_unused assms(1) Nil by simp
  from merge_next_inv [OF this assms(2)] Nil show ?thesis by simp
next
  case (snoc zs p)
  have inv: "chunks_inv lo hi (p # c # ys)"
    using assms(1) snoc by (cases "zs = []") (auto simp: chunks_inv_append)
  have zs: "zs \<noteq> [] \<Longrightarrow> chunks_inv lo hi zs" "\<forall>z \<in> set zs. before z p"
    using assms(1) snoc by (cases "zs = []"; auto simp: chunks_inv_append)+
  from zs free_chunk_inv [OF inv assms(2)] free_chunk_above [OF inv assms(2)] snoc show ?thesis
    by (cases "zs = []") (simp_all add: chunks_inv_append free_chunk_not_Nil del: free_chunk.simps)
qed

lemma free_spec:
  assumes "chunks_inv lo hi cs" "hi < 2 ^ 63" "p \<in> dom (chunks_live cs)"
  shows "chunks_inv lo hi (free_loop p None cs) \<and>
    chunks_live (free_loop p None cs) = (chunks_live cs)(p := None)"
proof -
  obtain c where c: "c \<in> set cs" "used c" "start c = p"
    using assms(3) by (auto simp: dom_chunks_live)
  obtain xs ys where cs: "cs = xs @ c # ys" and res: "free_loop p None cs =
       (if xs = [] then free_chunk None c ys else butlast xs @ free_chunk (Some (last xs)) c ys)"
    using free_start_split [OF assms(1,2) c(1)] c(3) by metis
  have d: "p \<notin> start ` set xs" "p \<notin> start ` set ys"
    using assms(1) distinct_starts [of cs] c(3) by (auto simp: cs chunks_inv_def)
  then have n: "chunks_live xs p = None" "chunks_live ys p = None"
    by (auto simp: live_None)
  have "chunks_live (free_loop p None cs) = chunks_live (xs @ ys)"
    unfolding res chunks_live_def free_used ..
  also have "\<dots> = (chunks_live cs)(p := None)"
    using c n by (auto simp: cs fun_eq_iff map_add_def split: option.splits)
  finally show ?thesis
    using free_inv_parts [of lo hi xs c ys] assms(1,2) unfolding res by (simp only: cs simp_thms)
qed

section \<open>The kernel heap as an allocator\<close>

definition kheap_inv :: "chunk_list \<Rightarrow> bool" where
  "kheap_inv cs \<longleftrightarrow> chunks_inv (unat MEMORY_START) (heap_top MEMORY_END) cs"

lemma MEMORY_END_ok: "heap_limit_ok MEMORY_END" "heap_top MEMORY_END < 2 ^ 63"
  by (simp_all add: heap_limit_ok_def memory_layout header_size_def)

lemma init_kheap_inv [inv_intros]: "kheap_inv init_kheap"
  by (simp add: kheap_inv_def chunks_inv_def init_kheap_def init_chunks_def memory_layout header_size_def)

lemma kmalloc_inv [inv_intros]:
  "kheap_inv cs \<Longrightarrow> size_ok n \<Longrightarrow> kmalloc cs n = Some (cs', p) \<Longrightarrow> kheap_inv cs'"
  unfolding kheap_inv_def kmalloc_def by (rule malloc_spec [OF _ MEMORY_END_ok(1), THEN conjunct1])

lemma kfree_inv [inv_intros]: "kheap_inv cs \<Longrightarrow> p \<in> dom (chunks_live cs) \<Longrightarrow> kheap_inv (kfree cs p)"
  unfolding kheap_inv_def kfree_def by (rule free_spec [OF _ MEMORY_END_ok(2), THEN conjunct1])

lemma kmalloc_live:
  "kheap_inv cs \<Longrightarrow> size_ok n \<Longrightarrow> kmalloc cs n = Some (cs', p) \<Longrightarrow>
     if p = NULL then cs' = cs
     else chunks_live cs p = None \<and> chunks_live cs' = (chunks_live cs)(p \<mapsto> unat n)"
  unfolding kheap_inv_def kmalloc_def by (rule malloc_spec [OF _ MEMORY_END_ok(1), THEN conjunct2])

lemma kfree_live [alloc_simps]:
  "kheap_inv cs \<Longrightarrow> p \<in> dom (chunks_live cs) \<Longrightarrow> chunks_live (kfree cs p) = (chunks_live cs)(p := None)"
  unfolding kheap_inv_def kfree_def by (rule free_spec [OF _ MEMORY_END_ok(2), THEN conjunct2])

lemma kfree_block:
  assumes "kheap_inv cs" "chunks_live cs p = Some n"
  shows "kheap_inv (kfree cs p) \<and> chunks_live (kfree cs p) = (chunks_live cs)(p := None)"
proof -
  have "p \<in> dom (chunks_live cs)" using assms(2) by blast
  with assms(1) show ?thesis by (simp add: inv_intros alloc_simps)
qed

lemma kheap_apart: "kheap_inv cs \<Longrightarrow> blocks_apart (chunks_live cs)"
  unfolding kheap_inv_def by (rule chunks_live_apart)

lemma kmalloc_defined: "kheap_inv cs \<Longrightarrow> \<exists>cs' p. kmalloc cs n = Some (cs', p)"
  using malloc_loop_defined [of cs None MEMORY_END n]
  by (auto simp: kheap_inv_def chunks_inv_def kmalloc_def)

interpretation kheap: allocator kheap_inv chunks_live size_ok kmalloc kfree
proof unfold_locales
  fix cs cs' n p
  assume a: "kheap_inv cs" "size_ok n" "kmalloc cs n = Some (cs', p)" "p \<noteq> NULL"
  then show "chunks_live cs p = None \<and> (\<exists>m\<ge>unat n. chunks_live cs' = (chunks_live cs)(p \<mapsto> m))"
    using kmalloc_live [OF a(1-3)] by auto
next
  fix cs cs' n
  assume a: "kheap_inv cs" "size_ok n" "kmalloc cs n = Some (cs', NULL)"
  then show "chunks_live cs' = chunks_live cs" using kmalloc_live [OF a] by simp
qed (auto intro: inv_intros kheap_apart alloc_simps)

lemma kmalloc_100:
  "size_ok 100"
  "kmalloc init_kheap 100 =
     Some (init_kheap @ [\<lparr>start = 0x600050, chunk_size = 100, used = True\<rparr>], 0x600050)"
  by (simp_all add: size_ok_def kmalloc_def init_kheap_def init_chunks_def memory_layout)

section \<open>Properties\<close>

text \<open>
  C3: \<open>kmalloc\<close> on every branch, for every size below \<open>2 ^ 63\<close>. It always returns. A NULL answer leaves the heap as it was; any
  other answer is the address of a block that was not live, that has exactly the size asked for and
  overlaps no live block, and nothing else in the map of live blocks changes.
\<close>

theorem kmalloc_correct:
  assumes "kheap_inv cs" "size_ok n"
  shows "\<exists>cs' p. kmalloc cs n = Some (cs', p) \<and> kheap_inv cs' \<and>
    (if p = NULL then cs' = cs
     else chunks_live cs p = None \<and> chunks_live cs' = (chunks_live cs)(p \<mapsto> unat n) \<and>
       (\<forall>q k. chunks_live cs q = Some k \<longrightarrow> apart (unat p) (unat n) (unat q) k))"
proof -
  obtain cs' p where r: "kmalloc cs n = Some (cs', p)" using kmalloc_defined [OF assms(1)] by blast
  with assms show ?thesis
    using kmalloc_inv [OF assms r] kmalloc_live [OF assms r] kheap.new_block_apart [OF assms r] by auto
qed

theorem kmalloc_correct_witness:
  "kheap_inv init_kheap \<and> size_ok 100 \<and> (\<exists>cs' p. kmalloc init_kheap 100 = Some (cs', p) \<and> kheap_inv cs')"
proof -
  have "size_ok 100" by (simp add: size_ok_def)
  with kmalloc_correct [OF init_kheap_inv this] show ?thesis using init_kheap_inv by blast
qed

text \<open>
  C19: \<open>kfree\<close> gives back exactly the block it is handed: the heap stays well formed, the block is no
  longer live and every other live block keeps its address and size, whatever merging took place.
\<close>

theorem kfree_correct:
  assumes "kheap_inv cs" "chunks_live cs p = Some n"
  shows "kheap_inv (kfree cs p) \<and> chunks_live (kfree cs p) = (chunks_live cs)(p := None)"
  using assms by (rule kfree_block)

theorem kfree_correct_witness:
  "\<exists>cs p. kheap_inv cs \<and> chunks_live cs p = Some 100 \<and>
     chunks_live (kfree cs p) = (chunks_live cs)(p := None)"
proof -
  let ?cs = "init_kheap @ [\<lparr>start = 0x600050, chunk_size = 100, used = True\<rparr>]"
  have i: "kheap_inv ?cs" by (rule kmalloc_inv [OF init_kheap_inv kmalloc_100])
  have l: "chunks_live ?cs 0x600050 = Some 100"
    by (simp add: init_kheap_def init_chunks_def memory_layout)
  from kfree_correct [OF i l] i l show ?thesis by blast
qed

text \<open>
  C20: any history of the kernel heap that starts at \<open>init_kheap\<close>, allocates blocks of sensible size
  and releases only blocks it owns keeps all live blocks pairwise disjoint, never loses a block a
  client still owns, and leaks none: what is live is the heap's own header and what clients own.
\<close>

theorem kheap_history:
  assumes "client_run kmalloc kfree size_ok init_kheap cs own"
  shows "kheap_inv cs \<and> blocks_apart (chunks_live cs) \<and>
    dom (chunks_live cs) = insert MEMORY_START own \<and> MEMORY_START \<notin> own"
proof -
  have "dom (chunks_live init_kheap) = {MEMORY_START}"
    by (simp add: init_kheap_def init_chunks_def)
  then show ?thesis
    using kheap.client_run_inv [OF assms init_kheap_inv] kheap.client_blocks_apart [OF assms init_kheap_inv]
    by auto
qed

theorem kheap_history_witness:
  "\<exists>cs own. own \<noteq> {} \<and> client_run kmalloc kfree size_ok init_kheap cs own \<and> kheap_inv cs"
proof -
  have run: "client_run kmalloc kfree size_ok init_kheap
      (init_kheap @ [\<lparr>start = 0x600050, chunk_size = 100, used = True\<rparr>]) {0x600050}"
    using kmalloc_100 by (rule client_run_first) simp
  from kheap_history [OF run] run show ?thesis by blast
qed

text \<open>
  the limit test of \<open>kmalloc\<close> leaves out the header of the new chunk, so blocks stay below
  \<open>MEMORY_END + 40\<close> and not below \<open>MEMORY_END\<close>; and its 64-bit sum wraps around, so a request of
  \<open>2 ^ 64 - 1\<close> bytes is granted. Both happen on a heap that was just initialised.
\<close>

theorem kmalloc_limit_escapes:
  "(\<exists>cs p. kmalloc init_kheap 0x2FFFD7 = Some (cs, p) \<and> p \<noteq> NULL \<and>
      unat p + unat (0x2FFFD7 :: u64) = unat MEMORY_END + 40) \<and>
   (\<exists>cs p. kmalloc init_kheap (- 1) = Some (cs, p) \<and> p \<noteq> NULL)"
  by (simp add: kmalloc_def init_kheap_def init_chunks_def memory_layout Let_def)

end
