(* ===== verification/Buddy.thy ===== *)
theory Buddy
  imports Kmem "HOL-Library.Monad_Syntax"
begin

text \<open>
  The buddy allocator, \<open>Kernel/system/MemoryManagement/buddy.c\<close>. Its tree nodes are structures that
  \<open>kmalloc\<close> provides and \<open>kfree\<close> takes back, so every operation passes the kernel heap along. A
  \<open>node_t\<close> of the model carries the address of the C structure, and has one constructor per value of
  the \<open>state\<close> field: \<open>left\<close> and \<open>right\<close> exist under \<open>SPLIT\<close> only, the one state in which the code
  follows them.
\<close>

section \<open>State and operations\<close>

datatype node_state = FREE | SPLIT | ALLOC

datatype node_t =
    Free (addr: ptr) (idx: u64) (nsize: u64)
  | Split (addr: ptr) (idx: u64) (nsize: u64) (left: node_t) (right: node_t)
  | Alloc (addr: ptr) (idx: u64) (nsize: u64)

fun state :: "node_t \<Rightarrow> node_state" where
  "state (Free p i s) = FREE"
| "state (Split p i s l r) = SPLIT"
| "state (Alloc p i s) = ALLOC"

definition sizeof_node_t :: u64 where
  "sizeof_node_t = 40"

text \<open>
  \<open>None\<close>: \<open>kmalloc\<close> had no room for a node and the code wrote through the NULL pointer it got, or the
  recursion did not end. \<open>rt >= 0\<close> is a signed comparison.
\<close>

partial_function (option) buddy_alloc_node ::
  "chunk_list \<Rightarrow> node_t \<Rightarrow> u64 \<Rightarrow> (chunk_list \<times> node_t \<times> u64) option" where
  "buddy_alloc_node h n sz =
     (case n of
        Split p i s l r \<Rightarrow>
          do {
            (h1, l1, rt) \<leftarrow> buddy_alloc_node h l sz;
            if 0 \<le>s rt then Some (h1, Split p i s l1 r, rt)
            else do {
              (h2, r1, rt2) \<leftarrow> buddy_alloc_node h1 r sz;
              Some (h2, Split p i s l1 r1, rt2)
            }
          }
      | Alloc p i s \<Rightarrow> Some (h, Alloc p i s, minus_one)
      | Free p i s \<Rightarrow>
          if s < sz then Some (h, Free p i s, minus_one)
          else if sz \<le> drop_bit 1 s
          then do {
            (h1, lp) \<leftarrow> kmalloc h sizeof_node_t;
            (h2, rp) \<leftarrow> kmalloc h1 sizeof_node_t;
            if lp = NULL \<or> rp = NULL then None
            else do {
              (h3, l, rt) \<leftarrow> buddy_alloc_node h2 (Free lp i (drop_bit 1 s)) sz;
              Some (h3, Split p i s l (Free rp (i + drop_bit 1 s) (drop_bit 1 s)), rt)
            }
          }
          else Some (h, Alloc p i s, i))"

fun buddy_free_node :: "chunk_list \<Rightarrow> node_t \<Rightarrow> u64 \<Rightarrow> chunk_list \<times> node_t \<times> u64" where
  "buddy_free_node h (Split p i s l r) k =
     (let (h1, l1, rt_left) = buddy_free_node h l k;
          (h2, r1, rt_right) = buddy_free_node h1 r k;
          (h3, n) =
            (if state l1 = FREE \<and> state r1 = FREE
             then (kfree (kfree h2 (addr l1)) (addr r1), Free p i s)
             else (h2, Split p i s l1 r1))
      in (h3, n, if rt_left = 0 \<or> rt_right = 0 then 0 else minus_one))"
| "buddy_free_node h (Alloc p i s) k =
     (if i = k then (h, Free p i s, 0) else (h, Alloc p i s, minus_one))"
| "buddy_free_node h (Free p i s) k = (h, Free p i s, minus_one)"

text \<open>\<open>rt < 0\<close> compares an unsigned value, so the second call of the code is never made.\<close>

fun buddy_size_node :: "node_t \<Rightarrow> u64 \<Rightarrow> u64" where
  "buddy_size_node (Split p i s l r) k =
     (let rt = buddy_size_node r k in if rt < 0 then buddy_size_node l k else rt)"
| "buddy_size_node (Alloc p i s) k = (if i \<le> k \<and> k < i + s then (i + s) - k else minus_one)"
| "buddy_size_node (Free p i s) k = minus_one"

fun buddy_kill_node :: "chunk_list \<Rightarrow> node_t \<Rightarrow> chunk_list" where
  "buddy_kill_node h (Split p i s l r) = kfree (buddy_kill_node (buddy_kill_node h l) r) p"
| "buddy_kill_node h (Free p i s) = kfree h p"
| "buddy_kill_node h (Alloc p i s) = kfree h p"

section \<open>What the tree means\<close>

text \<open>
  \<open>node_ok i s n\<close>: the node covers \<open>s\<close> bytes from index \<open>i\<close> on, and a split node has two halves
  (rounded down) side by side. The live blocks of a tree are its allocated leaves.
\<close>

fun node_ok :: "nat \<Rightarrow> nat \<Rightarrow> node_t \<Rightarrow> bool" where
  "node_ok i s (Free p j t) \<longleftrightarrow> unat j = i \<and> unat t = s \<and> 0 < s"
| "node_ok i s (Alloc p j t) \<longleftrightarrow> unat j = i \<and> unat t = s \<and> 0 < s"
| "node_ok i s (Split p j t l r) \<longleftrightarrow>
     unat j = i \<and> unat t = s \<and> node_ok i (s div 2) l \<and> node_ok (i + s div 2) (s div 2) r"

fun buddy_live :: "node_t \<Rightarrow> u64 \<rightharpoonup> nat" where
  "buddy_live (Free p i s) = Map.empty"
| "buddy_live (Alloc p i s) = [i \<mapsto> unat s]"
| "buddy_live (Split p i s l r) = buddy_live l ++ buddy_live r"

text \<open>No split node has two free halves: what \<open>_buddy_free\<close> merges.\<close>

fun coalesced :: "node_t \<Rightarrow> bool" where
  "coalesced (Split p i s l r) \<longleftrightarrow> coalesced l \<and> coalesced r \<and> \<not> (state l = FREE \<and> state r = FREE)"
| "coalesced n \<longleftrightarrow> True"

text \<open>The structures the tree is made of, each a live block of the kernel heap.\<close>

fun node_ptrs :: "node_t \<Rightarrow> ptr list" where
  "node_ptrs (Split p i s l r) = p # node_ptrs l @ node_ptrs r"
| "node_ptrs (Free p i s) = [p]"
| "node_ptrs (Alloc p i s) = [p]"

definition tree_heap :: "chunk_list \<Rightarrow> node_t \<Rightarrow> bool" where
  "tree_heap h n \<longleftrightarrow> kheap_inv h \<and> distinct (node_ptrs n) \<and>
     (\<forall>p \<in> set (node_ptrs n). chunks_live h p = Some 40)"

definition others :: "chunk_list \<Rightarrow> node_t \<Rightarrow> ptr \<rightharpoonup> nat" where
  "others h n = chunks_live h |` (- set (node_ptrs n))"

lemma node_ok_pos: "node_ok i s n \<Longrightarrow> 0 < s"
  by (induction i s n rule: node_ok.induct) auto

lemma addr_in_ptrs: "addr n \<in> set (node_ptrs n)"
  by (cases n) auto

lemma live_in_range:
  "node_ok i s n \<Longrightarrow> buddy_live n k = Some m \<Longrightarrow> i \<le> unat k \<and> unat k + m \<le> i + s \<and> 0 < m"
proof (induction i s n rule: node_ok.induct)
  case (3 i s p j t l r)
  then show ?case by (force simp: map_add_Some_iff)
qed (auto split: if_splits)

lemma live_halves:
  assumes "node_ok i s l" "node_ok (i + s) s' r"
  shows "dom (buddy_live l) \<inter> dom (buddy_live r) = {}"
proof -
  have False if "buddy_live l k = Some a" "buddy_live r k = Some b" for k a b
    using live_in_range [OF assms(1) that(1)] live_in_range [OF assms(2) that(2)] by simp
  then show ?thesis by blast
qed

lemma live_halves_None:
  assumes "node_ok i s l" "node_ok (i + s) s' r"
  shows "buddy_live l k \<noteq> None \<Longrightarrow> buddy_live r k = None"
    and "buddy_live r k \<noteq> None \<Longrightarrow> buddy_live l k = None"
  using live_halves [OF assms] by auto

lemma buddy_live_apart: "node_ok i s n \<Longrightarrow> blocks_apart (buddy_live n)"
proof (induction i s n rule: node_ok.induct)
  case (3 i s p j t l r)
  note ok = "3.prems" [simplified]
  have "apart (unat k) a (unat k') b"
    if "buddy_live l k = Some a" "buddy_live r k' = Some b" for k k' a b
    using live_in_range [of i "s div 2" l k a] live_in_range [of "i + s div 2" "s div 2" r k' b] ok that
    by (auto simp: apart_def)
  moreover from this have "apart (unat k') b (unat k) a"
    if "buddy_live l k = Some a" "buddy_live r k' = Some b" for k k' a b
    using that apart_sym by blast
  ultimately show ?case
    using 3 by (auto simp: blocks_apart_def map_add_Some_iff)
qed (auto simp: blocks_apart_def)

section \<open>The tree in the kernel heap\<close>

lemma tree_heap_parts:
  "tree_heap h (Split p i s l r) \<Longrightarrow> tree_heap h l"
  "tree_heap h (Split p i s l r) \<Longrightarrow> tree_heap h r"
  by (auto simp: tree_heap_def)

lemma tree_heap_retag:
  "node_ptrs n' = node_ptrs n \<Longrightarrow> tree_heap h n' = tree_heap h n \<and> others h n' = others h n"
  by (simp add: tree_heap_def others_def)

lemma others_keeps:
  assumes "others h' n' = others h n" "q \<notin> set (node_ptrs n)" "chunks_live h q = Some k"
  shows "q \<notin> set (node_ptrs n') \<and> chunks_live h' q = Some k"
proof -
  have "others h n q = Some k" using assms(2,3) by (simp add: others_def)
  then have "others h' n' q = Some k" using assms(1) by simp
  then show ?thesis by (auto simp: others_def restrict_map_def split: if_splits)
qed

text \<open>
  Replacing one part of a tree by the result of an operation on that part: nothing outside the part
  is affected, be it the rest of the tree or what other clients hold.
\<close>

lemma replace_part:
  assumes "set (node_ptrs n) = insert p (set (node_ptrs l) \<union> set (node_ptrs r))"
    and "set (node_ptrs n') = insert p (set (node_ptrs l') \<union> set (node_ptrs r))"
    and "others h' l' = others h l" "p \<notin> set (node_ptrs l)" "set (node_ptrs l) \<inter> set (node_ptrs r) = {}"
    and "\<forall>q \<in> insert p (set (node_ptrs r)). chunks_live h q = Some 40"
  shows "(\<forall>q \<in> insert p (set (node_ptrs r)). q \<notin> set (node_ptrs l') \<and> chunks_live h' q = Some 40) \<and>
    others h' n' = others h n"
proof -
  have keep: "\<forall>q \<in> insert p (set (node_ptrs r)). q \<notin> set (node_ptrs l') \<and> chunks_live h' q = Some 40"
    using others_keeps [OF assms(3)] assms(4-6) by blast
  have "others h' n' x = others h n x" for x
  proof (cases "x \<in> insert p (set (node_ptrs r))")
    case True
    then show ?thesis using assms(1,2) by (auto simp: others_def)
  next
    case False
    then have "others h' n' x = others h' l' x" "others h n x = others h l x"
      using assms(1,2) by (auto simp: others_def restrict_map_def)
    with assms(3) show ?thesis by simp
  qed
  with keep show ?thesis by blast
qed

lemma replace_left:
  assumes "tree_heap h (Split p i s l r)" "tree_heap h' l'" "others h' l' = others h l"
  shows "tree_heap h' (Split p i s l' r) \<and> others h' (Split p i s l' r) = others h (Split p i s l r)"
proof -
  have "(\<forall>q \<in> insert p (set (node_ptrs r)). q \<notin> set (node_ptrs l') \<and> chunks_live h' q = Some 40) \<and>
      others h' (Split p i s l' r) = others h (Split p i s l r)"
    using assms by (intro replace_part [where l = l]) (auto simp: tree_heap_def)
  then show ?thesis using assms by (auto simp: tree_heap_def)
qed

lemma replace_right:
  assumes "tree_heap h (Split p i s l r)" "tree_heap h' r'" "others h' r' = others h r"
  shows "tree_heap h' (Split p i s l r') \<and> others h' (Split p i s l r') = others h (Split p i s l r)"
proof -
  have "(\<forall>q \<in> insert p (set (node_ptrs l)). q \<notin> set (node_ptrs r') \<and> chunks_live h' q = Some 40) \<and>
      others h' (Split p i s l r') = others h (Split p i s l r)"
    using assms by (intro replace_part [where l = r]) (auto simp: tree_heap_def)
  then show ?thesis using assms by (auto simp: tree_heap_def)
qed

lemma size_ok_node: "size_ok sizeof_node_t" "unat sizeof_node_t = 40"
  by (simp_all add: size_ok_def sizeof_node_t_def)

lemma split_heap:
  assumes "tree_heap h (Free p i s)" "kmalloc h sizeof_node_t = Some (h1, lp)"
    "kmalloc h1 sizeof_node_t = Some (h2, rp)" "lp \<noteq> NULL" "rp \<noteq> NULL"
  shows "tree_heap h2 (Split p i s (Free lp j t) (Free rp j' t')) \<and>
    others h2 (Split p i s (Free lp j t) (Free rp j' t')) = others h (Free p i s)"
proof -
  have h: "kheap_inv h" "chunks_live h p = Some 40" using assms(1) by (auto simp: tree_heap_def)
  have h1: "kheap_inv h1" using kmalloc_inv [OF h(1) size_ok_node(1) assms(2)] .
  have l1: "chunks_live h lp = None" "chunks_live h1 = (chunks_live h)(lp \<mapsto> 40)"
    using kmalloc_live [OF h(1) size_ok_node(1) assms(2)] assms(4) size_ok_node(2) by auto
  have h2: "kheap_inv h2" using kmalloc_inv [OF h1 size_ok_node(1) assms(3)] .
  have l2: "chunks_live h1 rp = None" "chunks_live h2 = (chunks_live h1)(rp \<mapsto> 40)"
    using kmalloc_live [OF h1 size_ok_node(1) assms(3)] assms(5) size_ok_node(2) by auto
  have ne: "lp \<noteq> p" "rp \<noteq> p" "rp \<noteq> lp" using h(2) l1 l2(1) by (auto split: if_splits)
  have "tree_heap h2 (Split p i s (Free lp j t) (Free rp j' t'))"
    using h h2 l1(2) l2(2) ne by (auto simp: tree_heap_def)
  moreover have "others h2 (Split p i s (Free lp j t) (Free rp j' t')) = others h (Free p i s)"
    using l1 l2 ne by (auto simp: others_def restrict_map_def fun_eq_iff split: if_splits)
  ultimately show ?thesis by blast
qed

lemma merge_heap:
  assumes "tree_heap h (Split p i s l r)" "state l = FREE" "state r = FREE"
  shows "tree_heap (kfree (kfree h (addr l)) (addr r)) (Free p i s) \<and>
    others (kfree (kfree h (addr l)) (addr r)) (Free p i s) = others h (Split p i s l r)"
proof -
  obtain lp lj lt rp rj rt where lr: "l = Free lp lj lt" "r = Free rp rj rt"
    using assms(2,3) by (cases l; cases r) auto
  let ?h1 = "kfree h lp" let ?h2 = "kfree ?h1 rp"
  have h: "kheap_inv h" "chunks_live h p = Some 40" "chunks_live h lp = Some 40"
    "chunks_live h rp = Some 40" "p \<noteq> lp" "p \<noteq> rp" "lp \<noteq> rp"
    using assms(1) by (auto simp: tree_heap_def lr)
  have h1: "kheap_inv ?h1" "chunks_live ?h1 = (chunks_live h)(lp := None)"
    using kfree_block [OF h(1,3)] by auto
  then have "chunks_live ?h1 rp = Some 40" using h by simp
  then have h2: "kheap_inv ?h2" "chunks_live ?h2 = (chunks_live h)(lp := None, rp := None)"
    using kfree_block [OF h1(1)] h1(2) by auto
  show ?thesis
    using h h2 by (auto simp: tree_heap_def others_def restrict_map_def fun_eq_iff lr)
qed

text \<open>The effect of \<open>_buddy_free\<close> on the tree alone, as a reference definition.\<close>

fun tree_free :: "node_t \<Rightarrow> u64 \<Rightarrow> node_t" where
  "tree_free (Split p i s l r) k =
     (if state (tree_free l k) = FREE \<and> state (tree_free r k) = FREE then Free p i s
      else Split p i s (tree_free l k) (tree_free r k))"
| "tree_free (Alloc p i s) k = (if i = k then Free p i s else Alloc p i s)"
| "tree_free (Free p i s) k = Free p i s"

lemma tree_free_absent: "coalesced n \<Longrightarrow> k \<notin> dom (buddy_live n) \<Longrightarrow> tree_free n k = n"
  by (induction n) auto

section \<open>Allocation\<close>

lemma small_not_negative: "unat (x :: u64) < 2 ^ 63 \<Longrightarrow> 0 \<le>s x"
  using sint_small [of x] by (simp add: word_sle_eq)

lemma minus_one_negative: "\<not> 0 \<le>s minus_one"
  by simp

lemma small_not_minus_one: "unat (x :: u64) < 2 ^ 63 \<Longrightarrow> x \<noteq> minus_one"
  using small_not_negative minus_one_negative by blast

text \<open>
  What one call guarantees when it returns: it fails without a trace, or it answers the index of a
  new block of the tree, at least as long as was asked, and only the tree's own nodes were added to
  the kernel heap.
\<close>

definition alloc_post :: "chunk_list \<Rightarrow> node_t \<Rightarrow> u64 \<Rightarrow> chunk_list \<times> node_t \<times> u64 \<Rightarrow> bool" where
  "alloc_post h n sz r =
     (case r of (h', n', rt) \<Rightarrow>
        (\<forall>i s. node_ok i s n \<longrightarrow> i + s < 2 ^ 63 \<longrightarrow> tree_heap h n \<longrightarrow> sz \<noteq> 0 \<longrightarrow>
          tree_heap h' n' \<and> others h' n' = others h n \<and> node_ok i s n' \<and>
          (coalesced n \<longrightarrow> coalesced n') \<and>
          (if rt = minus_one then h' = h \<and> n' = n
           else unat rt < 2 ^ 63 \<and> state n' \<noteq> FREE \<and> buddy_live n rt = None \<and>
             (coalesced n \<longrightarrow> tree_free n' rt = n) \<and>
             (\<exists>m \<ge> unat sz. m < 2 * unat sz \<and> buddy_live n' = (buddy_live n)(rt \<mapsto> m)))))"

lemma alloc_postD:
  assumes "alloc_post h n sz (h', n', rt)" "node_ok i s n" "i + s < 2 ^ 63" "tree_heap h n" "sz \<noteq> 0"
  shows "tree_heap h' n'" "others h' n' = others h n" "node_ok i s n'" "coalesced n \<Longrightarrow> coalesced n'"
    and "rt = minus_one \<Longrightarrow> h' = h \<and> n' = n"
    and "rt \<noteq> minus_one \<Longrightarrow> unat rt < 2 ^ 63 \<and> state n' \<noteq> FREE \<and> buddy_live n rt = None \<and>
             (coalesced n \<longrightarrow> tree_free n' rt = n) \<and>
             (\<exists>m \<ge> unat sz. m < 2 * unat sz \<and> buddy_live n' = (buddy_live n)(rt \<mapsto> m))"
  using assms unfolding alloc_post_def prod.case by presburger+

lemma alloc_post_split_left:
  assumes "alloc_post h l sz (h1, l1, rt)" "0 \<le>s rt"
  shows "alloc_post h (Split p j t l r) sz (h1, Split p j t l1 r, rt)"
  unfolding alloc_post_def prod.case
proof (intro allI impI)
  fix i s
  assume ok: "node_ok i s (Split p j t l r)" "i + s < 2 ^ 63" "tree_heap h (Split p j t l r)" "sz \<noteq> 0"
  have l: "node_ok i (s div 2) l" "i + s div 2 < 2 ^ 63" using ok(1,2) by auto
  note post = alloc_postD [OF assms(1) l tree_heap_parts(1) [OF ok(3)] ok(4)]
  have rt: "rt \<noteq> minus_one" using assms(2) by auto
  from post(6) [OF rt] obtain m where m: "unat rt < 2 ^ 63" "state l1 \<noteq> FREE" "buddy_live l rt = None"
    "unat sz \<le> m" "m < 2 * unat sz" "buddy_live l1 = (buddy_live l)(rt \<mapsto> m)" by blast
  have r: "buddy_live r rt = None"
    using live_halves_None(1) [OF post(3), of "s div 2" r rt] ok(1) m(6) by auto
  have undo: "coalesced l \<Longrightarrow> tree_free l1 rt = l" using post(6) [OF rt] by blast
  have keep: "coalesced r \<Longrightarrow> tree_free r rt = r" using r by (intro tree_free_absent) auto
  have "buddy_live (Split p j t l1 r) = (buddy_live (Split p j t l r))(rt \<mapsto> m)"
    using m(6) r by (auto simp: map_add_def fun_eq_iff split: option.splits)
  then show "tree_heap h1 (Split p j t l1 r) \<and> others h1 (Split p j t l1 r) = others h (Split p j t l r) \<and>
      node_ok i s (Split p j t l1 r) \<and> (coalesced (Split p j t l r) \<longrightarrow> coalesced (Split p j t l1 r)) \<and>
      (if rt = minus_one then h1 = h \<and> Split p j t l1 r = Split p j t l r
       else unat rt < 2 ^ 63 \<and> state (Split p j t l1 r) \<noteq> FREE \<and> buddy_live (Split p j t l r) rt = None \<and>
         (coalesced (Split p j t l r) \<longrightarrow> tree_free (Split p j t l1 r) rt = Split p j t l r) \<and>
         (\<exists>k \<ge> unat sz. k < 2 * unat sz \<and>
            buddy_live (Split p j t l1 r) = (buddy_live (Split p j t l r))(rt \<mapsto> k)))"
    using replace_left [OF ok(3) post(1,2)] post(3,4) ok(1) rt m r undo keep by auto
qed

lemma alloc_post_split_right:
  assumes "alloc_post h l sz (h1, l1, rt)" "\<not> 0 \<le>s rt" "alloc_post h1 r sz (h2, r1, rt2)"
  shows "alloc_post h (Split p j t l r) sz (h2, Split p j t l1 r1, rt2)"
  unfolding alloc_post_def prod.case
proof (intro allI impI)
  fix i s
  assume ok: "node_ok i s (Split p j t l r)" "i + s < 2 ^ 63" "tree_heap h (Split p j t l r)" "sz \<noteq> 0"
  have l: "node_ok i (s div 2) l" "i + s div 2 < 2 ^ 63"
    and r: "node_ok (i + s div 2) (s div 2) r" "(i + s div 2) + s div 2 < 2 ^ 63" using ok(1,2) by auto
  note postl = alloc_postD [OF assms(1) l tree_heap_parts(1) [OF ok(3)] ok(4)]
  have same: "h1 = h" "l1 = l"
    using postl(5,6) assms(2) small_not_negative by blast+
  note post = alloc_postD [OF assms(3) [unfolded same] r tree_heap_parts(2) [OF ok(3)] ok(4)]
  show "tree_heap h2 (Split p j t l1 r1) \<and> others h2 (Split p j t l1 r1) = others h (Split p j t l r) \<and>
      node_ok i s (Split p j t l1 r1) \<and> (coalesced (Split p j t l r) \<longrightarrow> coalesced (Split p j t l1 r1)) \<and>
      (if rt2 = minus_one then h2 = h \<and> Split p j t l1 r1 = Split p j t l r
       else unat rt2 < 2 ^ 63 \<and> state (Split p j t l1 r1) \<noteq> FREE \<and> buddy_live (Split p j t l r) rt2 = None \<and>
         (coalesced (Split p j t l r) \<longrightarrow> tree_free (Split p j t l1 r1) rt2 = Split p j t l r) \<and>
         (\<exists>k \<ge> unat sz. k < 2 * unat sz \<and>
            buddy_live (Split p j t l1 r1) = (buddy_live (Split p j t l r))(rt2 \<mapsto> k)))"
  proof (cases "rt2 = minus_one")
    case True
    then show ?thesis
      using replace_right [OF ok(3) post(1,2)] post(3-5) ok(1) same by auto
  next
    case False
    from post(6) [OF False] obtain m where m: "unat rt2 < 2 ^ 63" "state r1 \<noteq> FREE"
      "buddy_live r rt2 = None" "unat sz \<le> m" "m < 2 * unat sz" "buddy_live r1 = (buddy_live r)(rt2 \<mapsto> m)"
      by blast
    have undo: "coalesced r \<Longrightarrow> tree_free r1 rt2 = r" using post(6) [OF False] by blast
    have lnone: "buddy_live l rt2 = None"
      using live_halves_None(2) [OF l(1) post(3), of rt2] m(6) by auto
    then have keep: "coalesced l \<Longrightarrow> tree_free l rt2 = l" by (intro tree_free_absent) auto
    from lnone show ?thesis
      using replace_right [OF ok(3) post(1,2)] post(3,4) ok(1) same m False undo keep by auto
  qed
qed

lemma alloc_post_grow:
  assumes "kmalloc h sizeof_node_t = Some (h1, lp)" "kmalloc h1 sizeof_node_t = Some (h2, rp)"
    "lp \<noteq> NULL" "rp \<noteq> NULL" "\<not> t < sz" "sz \<le> drop_bit 1 t"
    and "alloc_post h2 (Free lp j (drop_bit 1 t)) sz (h3, l, rt)" "rt = j"
  shows "alloc_post h (Free p j t) sz
    (h3, Split p j t l (Free rp (j + drop_bit 1 t) (drop_bit 1 t)), rt)"
  unfolding alloc_post_def prod.case
proof (intro allI impI)
  fix i s
  assume ok: "node_ok i s (Free p j t)" "i + s < 2 ^ 63" "tree_heap h (Free p j t)" "sz \<noteq> 0"
  let ?l0 = "Free lp j (drop_bit 1 t)" and ?r = "Free rp (j + drop_bit 1 t) (drop_bit 1 t)"
  have half: "unat (drop_bit 1 t) = s div 2" using ok(1) unat_half [of t] by simp
  have pos: "0 < s div 2" using assms(6) ok(4) half by (auto simp: word_le_nat_alt unat_gt_0 [symmetric])
  have "unat (j + drop_bit 1 t) = i + s div 2"
    using ok(1,2) half by (subst unat_plus_no_wrap) auto
  then have nodes: "node_ok i (s div 2) ?l0" "node_ok (i + s div 2) (s div 2) ?r"
    using ok(1) half pos by auto
  have small: "i + s div 2 < 2 ^ 63" using ok(2) by linarith
  have rt: "rt \<noteq> minus_one" using ok(1,2) assms(8) by (intro small_not_minus_one) simp
  have th: "tree_heap h2 (Split p j t ?l0 ?r)" "others h2 (Split p j t ?l0 ?r) = others h (Free p j t)"
    using split_heap [OF ok(3) assms(1-4)] by auto
  note post = alloc_postD [OF assms(7) nodes(1) small tree_heap_parts(1) [OF th(1)] ok(4)]
  from post(6) [OF rt] obtain m where m: "unat rt < 2 ^ 63" "state l \<noteq> FREE" "unat sz \<le> m"
    "m < 2 * unat sz" "buddy_live l = [rt \<mapsto> m]" by auto
  have undo: "tree_free l rt = ?l0" using post(6) [OF rt] by auto
  show "tree_heap h3 (Split p j t l ?r) \<and> others h3 (Split p j t l ?r) = others h (Free p j t) \<and>
      node_ok i s (Split p j t l ?r) \<and> (coalesced (Free p j t) \<longrightarrow> coalesced (Split p j t l ?r)) \<and>
      (if rt = minus_one then h3 = h \<and> Split p j t l ?r = Free p j t
       else unat rt < 2 ^ 63 \<and> state (Split p j t l ?r) \<noteq> FREE \<and> buddy_live (Free p j t) rt = None \<and>
         (coalesced (Free p j t) \<longrightarrow> tree_free (Split p j t l ?r) rt = Free p j t) \<and>
         (\<exists>k \<ge> unat sz. k < 2 * unat sz \<and>
            buddy_live (Split p j t l ?r) = (buddy_live (Free p j t))(rt \<mapsto> k)))"
    using replace_left [OF th(1) post(1,2)] th(2) post(3,4) nodes(2) ok(1) m rt undo by auto
qed

lemma alloc_post_leaf:
  assumes "\<not> t < sz" "\<not> sz \<le> drop_bit 1 t"
  shows "alloc_post h (Free p j t) sz (h, Alloc p j t, j)"
  unfolding alloc_post_def prod.case
proof (intro allI impI)
  fix i s
  assume ok: "node_ok i s (Free p j t)" "i + s < 2 ^ 63" "tree_heap h (Free p j t)" "sz \<noteq> 0"
  have "unat sz \<le> s" "s < 2 * unat sz"
    using assms ok(1) unat_half [of t] by (auto simp: word_le_nat_alt word_less_nat_alt)
  moreover have "j \<noteq> minus_one" using ok(1,2) by (intro small_not_minus_one) simp
  ultimately show "tree_heap h (Alloc p j t) \<and> others h (Alloc p j t) = others h (Free p j t) \<and>
      node_ok i s (Alloc p j t) \<and> (coalesced (Free p j t) \<longrightarrow> coalesced (Alloc p j t)) \<and>
      (if j = minus_one then h = h \<and> Alloc p j t = Free p j t
       else unat j < 2 ^ 63 \<and> state (Alloc p j t) \<noteq> FREE \<and> buddy_live (Free p j t) j = None \<and>
         (coalesced (Free p j t) \<longrightarrow> tree_free (Alloc p j t) j = Free p j t) \<and>
         (\<exists>k \<ge> unat sz. k < 2 * unat sz \<and> buddy_live (Alloc p j t) = (buddy_live (Free p j t))(j \<mapsto> k)))"
    using ok by (auto simp: tree_heap_retag [of "Alloc p j t" "Free p j t"] intro!: exI [of _ s])
qed

lemma alloc_post_refuse: "alloc_post h n sz (h, n, minus_one)"
  by (simp add: alloc_post_def)

lemma buddy_alloc_post:
  "buddy_alloc_node h n sz = Some r \<Longrightarrow>
    alloc_post h n sz r \<and> (state n = FREE \<longrightarrow> \<not> nsize n < sz \<longrightarrow> snd (snd r) = idx n)"
proof (induction h n sz r rule: buddy_alloc_node.raw_induct [rotated, consumes 1, case_names step])
  case (step f h n sz r)
  note IH = step(1) and eq = step(2)
  show ?case
  proof (cases n)
    case (Free p j t)
    show ?thesis
    proof (cases "\<not> t < sz \<and> sz \<le> drop_bit 1 t")
      case True
      with eq Free obtain h1 lp h2 rp h3 l rt where k: "kmalloc h sizeof_node_t = Some (h1, lp)"
        "kmalloc h1 sizeof_node_t = Some (h2, rp)" "lp \<noteq> NULL" "rp \<noteq> NULL"
        "f h2 (Free lp j (drop_bit 1 t)) sz = Some (h3, l, rt)"
        "r = (h3, Split p j t l (Free rp (j + drop_bit 1 t) (drop_bit 1 t)), rt)"
        by (auto simp: option_bind_Some_iff split: if_splits)
      have ih: "alloc_post h2 (Free lp j (drop_bit 1 t)) sz (h3, l, rt)" "rt = j"
        using IH [OF k(5)] True by auto
      then show ?thesis
        using alloc_post_grow [OF k(1-4) _ _ ih] True k(6) Free by simp
    next
      case False
      then consider "t < sz" | "\<not> t < sz" "\<not> sz \<le> drop_bit 1 t" by blast
      then show ?thesis
      proof cases
        case 1
        with eq Free have "r = (h, n, minus_one)" by simp
        with 1 Free show ?thesis by (simp add: alloc_post_refuse)
      next
        case 2
        with eq Free have "r = (h, Alloc p j t, j)" by simp
        with 2 Free show ?thesis by (simp add: alloc_post_leaf)
      qed
    qed
  next
    case (Split p j t nl nr)
    with eq obtain h1 l1 rt where l: "f h nl sz = Some (h1, l1, rt)"
      and rest: "(if 0 \<le>s rt then Some (h1, Split p j t l1 nr, rt)
         else f h1 nr sz \<bind> (\<lambda>(h2, r1, rt2). Some (h2, Split p j t l1 r1, rt2))) = Some r"
      by (auto simp: option_bind_Some_iff simp del: bind_eq_Some_conv)
    have postl: "alloc_post h nl sz (h1, l1, rt)" using IH [OF l] by blast
    show ?thesis
    proof (cases "0 \<le>s rt")
      case True
      with rest have "r = (h1, Split p j t l1 nr, rt)" by simp
      with alloc_post_split_left [OF postl True] Split show ?thesis by simp
    next
      case False
      with rest obtain h2 r1 rt2 where r: "f h1 nr sz = Some (h2, r1, rt2)" "r = (h2, Split p j t l1 r1, rt2)"
        by (auto simp: option_bind_Some_iff)
      have "alloc_post h1 nr sz (h2, r1, rt2)" using IH [OF r(1)] by blast
      from alloc_post_split_right [OF postl False this] r(2) Split show ?thesis by simp
    qed
  next
    case (Alloc p j t)
    with eq show ?thesis by (auto simp: alloc_post_refuse)
  qed
qed

section \<open>Release\<close>

lemma tree_free_coalesced: "coalesced (tree_free n k)"
  by (induction n) auto

lemma tree_free_ok: "node_ok i s n \<Longrightarrow> node_ok i s (tree_free n k)"
proof (induction i s n rule: node_ok.induct)
  case (3 i s p j t l r)
  then have "0 < s div 2" using node_ok_pos by fastforce
  with 3 show ?case by auto
qed auto

lemma state_free_live: "state n = FREE \<Longrightarrow> buddy_live n = Map.empty"
  by (cases n) auto

lemma tree_free_live: "node_ok i s n \<Longrightarrow> buddy_live (tree_free n k) = (buddy_live n)(k := None)"
proof (induction i s n rule: node_ok.induct)
  case (3 i s p j t l r)
  note ok = "3.prems" [simplified]
  have ih: "buddy_live (tree_free l k) = (buddy_live l)(k := None)"
    "buddy_live (tree_free r k) = (buddy_live r)(k := None)" using 3 by auto
  have "(buddy_live l)(k := None) ++ (buddy_live r)(k := None) = (buddy_live l ++ buddy_live r)(k := None)"
    by (auto simp: map_add_def fun_eq_iff split: option.splits)
  then show ?case
    using ih state_free_live [of "tree_free l k"] state_free_live [of "tree_free r k"]
    by (auto simp: fun_upd_def)
qed auto

lemma buddy_free_result:
  "buddy_free_node h n k = (h', n', rt) \<Longrightarrow>
     n' = tree_free n k \<and> rt = (if k \<in> dom (buddy_live n) then 0 else minus_one)"
proof (induction n arbitrary: h h' n' rt)
  case (Split p i s l r)
  obtain h1 l1 rl where l: "buddy_free_node h l k = (h1, l1, rl)" by (metis prod_cases3)
  obtain h2 r1 rr where r: "buddy_free_node h1 r k = (h2, r1, rr)" by (metis prod_cases3)
  show ?case
    using Split.prems Split.IH(1) [OF l] Split.IH(2) [OF r] l r
    by (auto simp: Let_def split: if_splits)
qed (auto split: if_splits)

lemma tree_free_addr: "addr (tree_free n k) = addr n"
  by (cases n) auto

lemma buddy_free_heap:
  "tree_heap h n \<Longrightarrow> buddy_free_node h n k = (h', n', rt) \<Longrightarrow> tree_heap h' n' \<and> others h' n' = others h n"
proof (induction n arbitrary: h h' n' rt)
  case (Split p i s l r)
  obtain h1 l1 rl where l: "buddy_free_node h l k = (h1, l1, rl)" by (metis prod_cases3)
  obtain h2 r1 rr where r: "buddy_free_node h1 r k = (h2, r1, rr)" by (metis prod_cases3)
  have s1: "tree_heap h1 (Split p i s l1 r)" "others h1 (Split p i s l1 r) = others h (Split p i s l r)"
    using replace_left [OF Split.prems(1)] Split.IH(1) [OF tree_heap_parts(1) [OF Split.prems(1)] l] by auto
  have s2: "tree_heap h2 (Split p i s l1 r1)" "others h2 (Split p i s l1 r1) = others h1 (Split p i s l1 r)"
    using replace_right [OF s1(1)] Split.IH(2) [OF tree_heap_parts(2) [OF s1(1)] r] by auto
  show ?case
  proof (cases "state l1 = FREE \<and> state r1 = FREE")
    case True
    then show ?thesis
      using Split.prems(2) l r s1(2) s2 merge_heap [OF s2(1)] by (auto simp: Let_def)
  next
    case False
    then show ?thesis using Split.prems(2) l r s1(2) s2 by (auto simp: Let_def)
  qed
qed (auto simp: tree_heap_def others_def split: if_splits)

section \<open>Enough room means an answer\<close>

text \<open>
  The only way a request of at least one byte can go wrong is that \<open>kmalloc\<close> has no room for two
  nodes. Each level of splitting takes at most 160 bytes of kernel heap: two structures of 40 bytes
  and two headers of 40.
\<close>

definition heap_end :: "chunk_list \<Rightarrow> nat" where
  "heap_end h = unat (start (last h)) + unat (chunk_size (last h))"

lemma kmalloc_room:
  assumes "kheap_inv h" "size_ok n" "heap_end h + unat n \<le> unat MEMORY_END"
  shows "\<exists>h' p. kmalloc h n = Some (h', p) \<and> p \<noteq> NULL \<and> heap_end h' \<le> heap_end h + unat n + 40"
proof -
  obtain h' p where r: "kmalloc h n = Some (h', p)" using kmalloc_defined [OF assms(1)] by blast
  have inv: "chunks_inv (unat MEMORY_START) (heap_top MEMORY_END) h" and ne: "h \<noteq> []"
    using assms(1) by (auto simp: kheap_inv_def chunks_inv_def)
  have bound: "heap_end h + unat n < 2 ^ 64"
    using assms(3) by (simp add: memory_layout)
  have e: "unat (start (last h) + chunk_size (last h)) = heap_end h"
    unfolding heap_end_def using bound by (intro unat_plus_no_wrap) (simp add: heap_end_def)
  have e2: "unat (start (last h) + chunk_size (last h) + n) = heap_end h + unat n"
    using e bound by (subst unat_plus_no_wrap) simp_all
  have "p \<noteq> NULL \<and> heap_end h' \<le> heap_end h + unat n + 40"
    using r [unfolded kmalloc_def]
  proof (cases rule: malloc_loop_cases)
    case (reuse xs c ys)
    then have "p \<noteq> NULL" using inv by (auto simp: chunks_inv_def memory_layout)
    moreover have "heap_end h' \<le> heap_end h"
      using reuse by (cases "ys = []") (auto simp: heap_end_def word_le_nat_alt)
    ultimately show ?thesis by simp
  next
    case (full lst)
    then show ?thesis using ne e2 assms(3) by (simp add: word_less_nat_alt)
  next
    case (grow lst)
    have "unat p = heap_end h + 40"
      using grow(1,2) ne e assms(3) by (simp add: memory_layout) (subst unat_plus_no_wrap, simp_all)
    moreover from this have "p \<noteq> NULL" by auto
    moreover have "heap_end h' = unat p + unat n" using grow(4) by (simp add: heap_end_def)
    ultimately show ?thesis by simp
  qed
  with r show ?thesis by blast
qed

lemma alloc_free_defined:
  assumes "tree_heap h (Free p j t)" "unat j + unat t < 2 ^ 63" "sz \<noteq> 0" "unat t < 2 ^ d"
    and "heap_end h + 160 * d \<le> unat MEMORY_END"
  shows "\<exists>r. buddy_alloc_node h (Free p j t) sz = Some r"
  using assms
proof (induction d arbitrary: h p j t)
  case 0
  then have "t = 0" by (simp add: unat_eq_0)
  with 0 show ?case
    by (subst buddy_alloc_node.simps) (simp add: word_gt_0 word_less_nat_alt unat_eq_0)
next
  case (Suc d)
  show ?case
  proof (cases "t < sz \<or> \<not> sz \<le> drop_bit 1 t")
    case True
    then show ?thesis by (subst buddy_alloc_node.simps) auto
  next
    case False
    have inv: "kheap_inv h" using Suc.prems(1) by (simp add: tree_heap_def)
    obtain h1 lp where k1: "kmalloc h sizeof_node_t = Some (h1, lp)" "lp \<noteq> NULL" "heap_end h1 \<le> heap_end h + 80"
      using kmalloc_room [OF inv size_ok_node(1)] Suc.prems(5) size_ok_node(2) by fastforce
    have inv1: "kheap_inv h1" using kmalloc_inv [OF inv size_ok_node(1) k1(1)] .
    obtain h2 rp where k2: "kmalloc h1 sizeof_node_t = Some (h2, rp)" "rp \<noteq> NULL" "heap_end h2 \<le> heap_end h1 + 80"
      using kmalloc_room [OF inv1 size_ok_node(1)] Suc.prems(5) size_ok_node(2) k1(3) by fastforce
    have th: "tree_heap h2 (Free lp j (drop_bit 1 t))"
      using tree_heap_parts(1) [OF split_heap [OF Suc.prems(1) k1(1) k2(1) k1(2) k2(2), THEN conjunct1]] .
    have half: "unat (drop_bit 1 t) = unat t div 2" by (rule unat_half)
    obtain r where "buddy_alloc_node h2 (Free lp j (drop_bit 1 t)) sz = Some r"
      using Suc.IH [OF th] Suc.prems half k1(3) k2(3) by fastforce
    with False k1 k2 show ?thesis
      by (subst buddy_alloc_node.simps) (cases r, auto)
  qed
qed

lemma alloc_defined:
  assumes "tree_heap h n" "node_ok i s n" "i + s < 2 ^ 63" "sz \<noteq> 0"
    and "heap_end h + 160 * 63 \<le> unat MEMORY_END"
  shows "\<exists>r. buddy_alloc_node h n sz = Some r"
  using assms
proof (induction n arbitrary: h i s)
  case (Free p j t)
  then show ?case by (intro alloc_free_defined [where d = 63]) auto
next
  case (Split p j t l r)
  have ok: "node_ok i (s div 2) l" "node_ok (i + s div 2) (s div 2) r" using Split.prems(2) by auto
  have small: "i + s div 2 < 2 ^ 63" "(i + s div 2) + s div 2 < 2 ^ 63" using Split.prems(3) by auto
  obtain h1 l1 rt where l: "buddy_alloc_node h l sz = Some (h1, l1, rt)"
    using Split.IH(1) [OF tree_heap_parts(1) [OF Split.prems(1)] ok(1) small(1) Split.prems(4,5)]
    by (auto simp: split_paired_Ex)
  show ?case
  proof (cases "0 \<le>s rt")
    case True
    with l show ?thesis by (subst buddy_alloc_node.simps) simp
  next
    case False
    note post = alloc_postD [OF buddy_alloc_post [OF l, THEN conjunct1] ok(1) small(1)
        tree_heap_parts(1) [OF Split.prems(1)] Split.prems(4)]
    have "h1 = h" using post(5,6) False small_not_negative by blast
    obtain q where "buddy_alloc_node h1 r sz = Some q"
      using Split.IH(2) [OF tree_heap_parts(2) [OF Split.prems(1)] ok(2) small(2) Split.prems(4,5)]
        \<open>h1 = h\<close> by blast
    with l False show ?thesis by (subst buddy_alloc_node.simps) (cases q, simp)
  qed
next
  case (Alloc p j t)
  show ?case by (subst buddy_alloc_node.simps) simp
qed

section \<open>The outcome of a request\<close>

text \<open>
  What a request does, without the recursion over the tree: it takes the leftmost free leaf that is long enough, halves
  it as long as a half suffices, and asks the kernel heap for two structures at every halving.
\<close>

fun first_fit :: "node_t \<Rightarrow> u64 \<Rightarrow> (u64 \<times> u64) option" where
  "first_fit (Free p i s) sz = (if s < sz then None else Some (i, s))"
| "first_fit (Alloc p i s) sz = None"
| "first_fit (Split p i s l r) sz =
     (case first_fit l sz of None \<Rightarrow> first_fit r sz | Some x \<Rightarrow> Some x)"

fun splits :: "nat \<Rightarrow> nat \<Rightarrow> nat" where
  "splits sz s = (if 0 < sz \<and> sz \<le> s div 2 then Suc (splits sz (s div 2)) else 0)"

declare splits.simps [simp del]

primrec grab :: "nat \<Rightarrow> chunk_list \<Rightarrow> chunk_list option" where
  "grab 0 h = Some h"
| "grab (Suc k) h =
     do {
       (h1, lp) \<leftarrow> kmalloc h sizeof_node_t;
       (h2, rp) \<leftarrow> kmalloc h1 sizeof_node_t;
       if lp = NULL \<or> rp = NULL then None else grab k h2
     }"

text \<open>The code's recursion takes exactly these steps: the outcome of a request of at least one byte on every tree and heap.\<close>

lemma grab_Suc: "grab (Suc k) h = grab 1 h \<bind> grab k"
proof (cases "kmalloc h sizeof_node_t")
  case (Some x)
  then show ?thesis by (cases "kmalloc (fst x) sizeof_node_t") (auto split: prod.splits)
qed simp

lemma first_fit_range:
  "node_ok i s n \<Longrightarrow> first_fit n sz = Some (j, t) \<Longrightarrow>
     i \<le> unat j \<and> unat j + unat t \<le> i + s \<and> 0 < unat t \<and> \<not> t < sz"
proof (induction i s n rule: node_ok.induct)
  case (3 i s p k u l r)
  then show ?case by (fastforce split: option.splits)
qed (auto split: if_splits)

lemma alloc_leaf_exact:
  assumes "unat j + unat t < 2 ^ 63" "sz \<noteq> 0" "\<not> t < sz"
  shows "case grab (splits (unat sz) (unat t)) h of
      None \<Rightarrow> buddy_alloc_node h (Free p j t) sz = None
    | Some h' \<Rightarrow> \<exists>n'. buddy_alloc_node h (Free p j t) sz = Some (h', n', j) \<and>
        buddy_live n' = [j \<mapsto> unat t div 2 ^ splits (unat sz) (unat t)]"
  using assms
proof (induction "splits (unat sz) (unat t)" arbitrary: h p t)
  case 0
  then have "\<not> sz \<le> drop_bit 1 t"
    using unat_half [of t] by (subst (asm) splits.simps) (auto simp: word_le_nat_alt unat_eq_0 split: if_splits)
  with 0 show ?case by (subst (1 2) buddy_alloc_node.simps) (simp flip: "0.hyps")
next
  case (Suc k)
  have half: "unat (drop_bit 1 t) = unat t div 2" by (rule unat_half)
  have le: "sz \<le> drop_bit 1 t" and k: "k = splits (unat sz) (unat (drop_bit 1 t))"
    using Suc.hyps(2) half by (subst (asm) splits.simps, auto simp: word_le_nat_alt split: if_splits)+
  have rr: "unat j + unat (drop_bit 1 t) < 2 ^ 63" using Suc.prems(1) half by linarith
  have nl: "\<not> drop_bit 1 t < sz" using le by simp
  note IH = Suc.hyps(1) [OF k rr Suc.prems(2) nl]
  show ?case
  proof (cases "grab 1 h")
    case None
    then have no: "buddy_alloc_node h (Free p j t) sz = None"
      using Suc.prems le
      by (subst buddy_alloc_node.simps, cases "kmalloc h sizeof_node_t")
        (auto simp: bind_eq_None_conv split: if_splits option.splits prod.splits)
    moreover have "grab (Suc k) h = None" unfolding grab_Suc None by simp
    ultimately show ?thesis unfolding Suc.hyps(2) [symmetric] by simp
  next
    case (Some h2)
    then obtain h1 lp rp where m: "kmalloc h sizeof_node_t = Some (h1, lp)"
      "kmalloc h1 sizeof_node_t = Some (h2, rp)" "lp \<noteq> NULL" "rp \<noteq> NULL"
      by (auto simp: option_bind_Some_iff split: if_splits)
    have g: "grab (Suc k) h = grab k h2" using m by simp
    have e: "unat t div 2 ^ Suc k = unat (drop_bit 1 t) div 2 ^ k"
      by (simp only: half div_mult2_eq power_Suc)
    show ?thesis
      using IH [of h2 lp] m Suc.prems le
      unfolding Suc.hyps(2) [symmetric] g e k [symmetric]
      by (subst (1 2) buddy_alloc_node.simps) (auto split: option.splits)
  qed
qed

lemma alloc_exact:
  assumes "node_ok i s n" "i + s < 2 ^ 63" "sz \<noteq> 0"
  shows "case first_fit n sz of
      None \<Rightarrow> buddy_alloc_node h n sz = Some (h, n, minus_one)
    | Some (j, t) \<Rightarrow>
        (case grab (splits (unat sz) (unat t)) h of
           None \<Rightarrow> buddy_alloc_node h n sz = None
         | Some h' \<Rightarrow> \<exists>n'. buddy_alloc_node h n sz = Some (h', n', j) \<and>
             buddy_live n' j = Some (unat t div 2 ^ splits (unat sz) (unat t)))"
  using assms
proof (induction i s n rule: node_ok.induct)
  case (1 i s p j t)
  then show ?case
    using alloc_leaf_exact [of j t sz h p]
    by (cases "t < sz") (subst buddy_alloc_node.simps, simp, auto split: option.splits)
next
  case (2 i s p j t)
  then show ?case by (subst buddy_alloc_node.simps) simp
next
  case (3 i s p j t l r)
  have ok: "node_ok i (s div 2) l" "i + s div 2 < 2 ^ 63" "node_ok (i + s div 2) (s div 2) r"
    "i + s div 2 + s div 2 < 2 ^ 63" using "3.prems" by auto
  note IHl = "3.IH"(1) [OF ok(1,2) "3.prems"(3)] and IHr = "3.IH"(2) [OF ok(3,4) "3.prems"(3)]
  show ?case
  proof (cases "first_fit l sz")
    case None
    with IHl have l: "buddy_alloc_node h l sz = Some (h, l, minus_one)" by simp
    have eq: "buddy_alloc_node h (Split p j t l r) sz =
        map_option (\<lambda>(h2, r1, rt). (h2, Split p j t l r1, rt)) (buddy_alloc_node h r sz)"
      using l by (subst buddy_alloc_node.simps) (cases "buddy_alloc_node h r sz"; auto)
    show ?thesis
    proof (cases "first_fit r sz")
      case None
      with IHr eq \<open>first_fit l sz = None\<close> show ?thesis by simp
    next
      case (Some x)
      then obtain k u where x: "first_fit r sz = Some (k, u)" by (cases x) auto
      show ?thesis
        using IHr eq x \<open>first_fit l sz = None\<close> by (auto split: option.splits simp: map_add_def)
    qed
  next
    case (Some x)
    then obtain k u where x: "first_fit l sz = Some (k, u)" by (cases x) auto
    from first_fit_range [OF ok(1) x] have rng: "unat k + unat u \<le> i + s div 2" "0 < unat u" by auto
    then have pos: "0 \<le>s k" using ok(2) by (intro small_not_negative) linarith
    have rn: "buddy_live r k = None"
      using live_in_range [OF ok(3), of k] rng by (cases "buddy_live r k") auto
    have "buddy_alloc_node h (Split p j t l r) sz =
        map_option (\<lambda>(h1, l1, rt). (h1, Split p j t l1 r, rt)) (buddy_alloc_node h l sz)"
      if "\<forall>h1 l1 rt. buddy_alloc_node h l sz = Some (h1, l1, rt) \<longrightarrow> rt = k"
      using that pos by (subst buddy_alloc_node.simps) (cases "buddy_alloc_node h l sz"; auto)
    with IHl x rn show ?thesis by (auto split: option.splits simp: map_add_def)
  qed
qed

section \<open>Requests of no bytes\<close>

fun has_free :: "node_t \<Rightarrow> bool" where
  "has_free (Split p i s l r) \<longleftrightarrow> has_free l \<or> has_free r"
| "has_free n \<longleftrightarrow> state n = FREE"

lemma alloc_zero_no_free:
  assumes "buddy_alloc_node h n sz = Some r"
  shows "sz = 0 \<longrightarrow> \<not> has_free n \<and> snd (snd r) = minus_one"
proof (rule buddy_alloc_node.raw_induct [where P = "\<lambda>h n sz r. sz = 0 \<longrightarrow>
    \<not> has_free n \<and> snd (snd r) = minus_one", OF _ assms])
  fix f h n sz r
  assume IH: "\<And>h n sz r. f h n sz = Some r \<Longrightarrow> sz = 0 \<longrightarrow> \<not> has_free n \<and> snd (snd r) = minus_one"
    and eq: "(case n of
        Free p i s \<Rightarrow>
          if s < sz then Some (h, Free p i s, minus_one)
          else if sz \<le> drop_bit 1 s
          then do {
            (h1, lp) \<leftarrow> kmalloc h sizeof_node_t;
            (h2, rp) \<leftarrow> kmalloc h1 sizeof_node_t;
            if lp = NULL \<or> rp = NULL then None
            else do {
              (h3, l, rt) \<leftarrow> f h2 (Free lp i (drop_bit 1 s)) sz;
              Some (h3, Split p i s l (Free rp (i + drop_bit 1 s) (drop_bit 1 s)), rt)
            }
          }
          else Some (h, Alloc p i s, i)
      | Split p i s l r \<Rightarrow>
          do {
            (h1, l1, rt) \<leftarrow> f h l sz;
            if 0 \<le>s rt then Some (h1, Split p i s l1 r, rt)
            else do {
              (h2, r1, rt2) \<leftarrow> f h1 r sz;
              Some (h2, Split p i s l1 r1, rt2)
            }
          }
      | Alloc p i s \<Rightarrow> Some (h, Alloc p i s, minus_one)) = Some r"
  show "sz = 0 \<longrightarrow> \<not> has_free n \<and> snd (snd r) = minus_one"
  proof
    assume "sz = 0"
    with IH eq show "\<not> has_free n \<and> snd (snd r) = minus_one"
      by (cases n) (fastforce simp: option_bind_Some_iff split: if_splits)+
  qed
qed

lemma alloc_no_free: "\<not> has_free n \<Longrightarrow> buddy_alloc_node h n sz = Some (h, n, minus_one)"
proof (induction n)
  case (Split p i s l r)
  then show ?case by (subst buddy_alloc_node.simps) simp
qed (auto simp: buddy_alloc_node.simps)

section \<open>Sizes and tear-down\<close>

lemma buddy_size_split: "buddy_size_node (Split p i s l r) k = buddy_size_node r k"
  by (simp add: Let_def)

lemma buddy_size_below:
  "node_ok i s n \<Longrightarrow> unat k < i \<Longrightarrow> buddy_size_node n k = minus_one"
  by (induction i s n rule: node_ok.induct) (auto simp: word_le_nat_alt)

lemma kill_parts:
  assumes "tree_heap h n"
  shows "kheap_inv (buddy_kill_node h n) \<and> chunks_live (buddy_kill_node h n) = others h n"
  using assms
proof (induction n arbitrary: h)
  case (Split p i s l r)
  note th = Split.prems
  let ?h1 = "buddy_kill_node h l" let ?h2 = "buddy_kill_node ?h1 r"
  have h1: "kheap_inv ?h1" "chunks_live ?h1 = others h l"
    using Split.IH(1) [OF tree_heap_parts(1) [OF th]] by auto
  have "tree_heap ?h1 r" "chunks_live ?h1 p = Some 40"
    using th h1 by (auto simp: tree_heap_def others_def restrict_map_def)
  with Split.IH(2) have h2: "kheap_inv ?h2" "chunks_live ?h2 = others ?h1 r" by auto
  have "chunks_live ?h2 p = Some 40"
    using h2(2) \<open>chunks_live ?h1 p = Some 40\<close> th by (auto simp: tree_heap_def others_def)
  from kfree_block [OF h2(1) this] show ?case
    using h1(2) h2(2) by (auto simp: others_def restrict_map_def fun_eq_iff)
next
  case (Free p i s)
  then have "kheap_inv h" "chunks_live h p = Some 40" by (auto simp: tree_heap_def)
  from kfree_block [OF this] show ?case by (auto simp: others_def restrict_map_def fun_eq_iff)
next
  case (Alloc p i s)
  then have "kheap_inv h" "chunks_live h p = Some 40" by (auto simp: tree_heap_def)
  from kfree_block [OF this] show ?case by (auto simp: others_def restrict_map_def fun_eq_iff)
qed

end
