(* ===== verification/Memlib.thy ===== *)
theory Memlib
  imports Buddy
begin

text \<open>
  The memory interface of the kernel, \<open>Kernel/system/MemoryManagement/memlib.c\<close>, with the wrappers
  of \<open>buddy.c\<close> over the global \<open>buddy_head\<close>: blocks are handed out at \<open>MEM_START\<close> plus the index the
  buddy tree gives.
\<close>

section \<open>State and operations\<close>

record memory =
  kheap :: chunk_list
  buddy_pool :: ptr
  buddy_head :: "node_t option"

definition PAGE_SIZE :: u64 where
  "PAGE_SIZE = 4096"

definition MEM_START :: u64 where
  "MEM_START = 0x600000"

definition paged_size :: "u64 \<Rightarrow> u64" where
  "paged_size sz =
     (if sz mod PAGE_SIZE = 0 then sz
      else let fits = sz div PAGE_SIZE in PAGE_SIZE * (fits + 1))"

definition buddy_init :: "memory \<Rightarrow> u64 \<Rightarrow> (memory \<times> u64) option" where
  "buddy_init s sz =
     do {
       (h1, pool) \<leftarrow> kmalloc (kheap s) sz;
       let s1 = s\<lparr>kheap := h1, buddy_pool := pool\<rparr>;
       if pool = NULL then Some (s1, minus_one)
       else do {
         (h2, head) \<leftarrow> kmalloc h1 sizeof_node_t;
         if head = NULL then Some (s1\<lparr>kheap := h2, buddy_head := None\<rparr>, minus_one)
         else Some (s1\<lparr>kheap := h2, buddy_head := Some (Free head 0 sz)\<rparr>, 0)
       }
     }"

definition buddy_alloc :: "memory \<Rightarrow> u64 \<Rightarrow> (memory \<times> u64) option" where
  "buddy_alloc s sz =
     do {
       n \<leftarrow> buddy_head s;
       (h, n', rt) \<leftarrow> buddy_alloc_node (kheap s) n sz;
       Some (s\<lparr>kheap := h, buddy_head := Some n'\<rparr>, rt)
     }"

definition buddy_free :: "memory \<Rightarrow> u64 \<Rightarrow> (memory \<times> u64) option" where
  "buddy_free s k =
     do {
       n \<leftarrow> buddy_head s;
       let (h, n', rt) = buddy_free_node (kheap s) n k;
       Some (s\<lparr>kheap := h, buddy_head := Some n'\<rparr>, rt)
     }"

definition buddy_size :: "memory \<Rightarrow> u64 \<Rightarrow> u64 option" where
  "buddy_size s k = map_option (\<lambda>n. buddy_size_node n k) (buddy_head s)"

text \<open>\<open>buddy_kill\<close> frees every node; \<open>buddy_head\<close> keeps pointing to the freed root.\<close>

definition buddy_kill :: "memory \<Rightarrow> memory option" where
  "buddy_kill s = map_option (\<lambda>n. s\<lparr>kheap := buddy_kill_node (kheap s) n\<rparr>) (buddy_head s)"

definition init_mem :: "memory \<Rightarrow> u64 \<Rightarrow> (memory \<times> u64) option" where
  "init_mem s sz = buddy_init (s\<lparr>kheap := init_kheap\<rparr>) (paged_size sz)"

text \<open>The index is cut to an \<open>int\<close>, and the sum with \<open>MEM_START\<close> is one of \<open>int\<close>s.\<close>

definition get_memblock :: "memory \<Rightarrow> u64 \<Rightarrow> (memory \<times> ptr) option" where
  "get_memblock s sz =
     do {
       (s', rt) \<leftarrow> buddy_alloc s (paged_size sz);
       let index = (ucast rt :: u32);
       if index = - 1 then Some (s', NULL)
       else Some (s', scast (ucast MEM_START + index))
     }"

definition free_memblock :: "memory \<Rightarrow> ptr \<Rightarrow> (memory \<times> u64) option" where
  "free_memblock s block_pointer =
     (if block_pointer < MEM_START then Some (s, minus_one)
      else buddy_free s (block_pointer - MEM_START))"

section \<open>Invariant and live blocks\<close>

text \<open>
  The pool is short enough for an index to fit an \<open>int\<close> and for \<open>MEM_START\<close> plus the index not to
  pass the largest \<open>int\<close>; the kernel asks for 160 kB.
\<close>

definition memory_inv :: "memory \<Rightarrow> bool" where
  "memory_inv s \<longleftrightarrow>
     (case buddy_head s of
        None \<Rightarrow> False
      | Some n \<Rightarrow> (\<exists>len < 2 ^ 30. node_ok 0 len n) \<and> coalesced n \<and> tree_heap (kheap s) n)"

definition memory_live :: "memory \<Rightarrow> ptr \<rightharpoonup> nat" where
  "memory_live s p =
     (case buddy_head s of
        None \<Rightarrow> None
      | Some n \<Rightarrow> if p < MEM_START then None else buddy_live n (p - MEM_START))"

definition block_request :: "u64 \<Rightarrow> bool" where
  "block_request n \<longleftrightarrow> n \<noteq> 0 \<and> unat n < 2 ^ 62"

lemma page_ceiling:
  "(n + 4095) div 4096 * 4096 = (if n mod 4096 = 0 then n else 4096 * (n div 4096 + 1))" for n :: nat
proof -
  let ?q = "n div 4096" and ?r = "n mod 4096"
  have n: "n = ?r + ?q * 4096" by simp
  have "(n + 4095) div 4096 = (?r + 4095 + ?q * 4096) div 4096"
    by (subst (1) n) (simp only: ac_simps)
  also have "\<dots> = ?q + (?r + 4095) div 4096" by (rule div_mult_self1) simp
  also have "(?r + 4095) div 4096 = (if ?r = 0 then 0 else 1)"
    by (cases "?r = 0") (simp, intro div_nat_eqI, auto)
  finally show ?thesis by auto
qed

lemma paged_size_total:
  "unat (paged_size sz) = (if unat sz + 4095 < 2 ^ 64 then (unat sz + 4095) div 4096 * 4096 else 0)"
proof (cases "sz mod PAGE_SIZE = 0")
  case True
  then have "unat (sz mod PAGE_SIZE) = 0" by simp
  then have m: "unat sz mod 4096 = 0" by (simp add: PAGE_SIZE_def unat_mod)
  have "unat sz + 4095 < 2 ^ 64"
  proof (rule ccontr)
    assume ge: "\<not> unat sz + 4095 < 2 ^ 64"
    have "unat sz < 2 ^ 64" using unsigned_less [of sz] by simp
    moreover obtain q where "unat sz = 4096 * q" using m by (auto simp: mod_eq_0_iff_dvd)
    ultimately show False using ge by simp
  qed
  with True m show ?thesis unfolding page_ceiling by (simp add: paged_size_def)
next
  case False
  then have "unat (sz mod PAGE_SIZE) \<noteq> 0" by (simp add: unat_eq_0)
  then have ne: "unat sz mod 4096 \<noteq> 0" by (simp add: PAGE_SIZE_def unat_mod)
  have lt: "unat sz < 2 ^ 64" using unsigned_less [of sz] by simp
  define q r where q: "q = unat sz div 4096" and r': "r = unat sz mod 4096"
  have r: "unat sz = 4096 * q + r" "0 < r" "r < 4096" using ne by (simp_all add: q r')
  have s: "unat (sz div 4096 + 1) = unat sz div 4096 + 1"
    using lt by (subst unat_plus_no_wrap) (simp_all add: unat_div)
  have "unat (4096 * (sz div 4096 + 1)) = 4096 * (unat sz div 4096 + 1) mod 2 ^ 64"
    by (subst unat_word_ariths(2)) (simp only: s, simp)
  moreover have "4096 * (q + 1) mod 2 ^ 64 = (if unat sz + 4095 < 2 ^ 64 then 4096 * (q + 1) else 0)"
  proof (cases "unat sz + 4095 < 2 ^ 64")
    case True
    with r have "4096 * (q + 1) < 2 ^ 64" by simp
    with True show ?thesis by simp
  next
    case False
    with r lt have "q + 1 = 2 ^ 52" by simp
    then have "4096 * (q + 1) = 2 ^ 64" by simp
    with False show ?thesis by simp
  qed
  ultimately show ?thesis
    using False ne q unfolding page_ceiling by (simp add: paged_size_def PAGE_SIZE_def Let_def)
qed

lemma paged_size_spec:
  assumes "unat sz < 2 ^ 62"
  shows "unat (paged_size sz) = (unat sz + 4095) div 4096 * 4096"
  using assms by (simp add: paged_size_total)

lemma paged_size_request:
  assumes "block_request sz"
  shows "paged_size sz \<noteq> 0" "unat sz \<le> unat (paged_size sz)" "4096 dvd unat (paged_size sz)"
proof -
  have "unat sz \<noteq> 0" using assms by (simp add: block_request_def unat_eq_0)
  moreover have spec: "unat (paged_size sz) = (unat sz + 4095) div 4096 * 4096"
    using assms by (intro paged_size_spec) (simp add: block_request_def)
  ultimately have "0 < unat (paged_size sz)" by (simp add: div_greater_zero_iff)
  then show "paged_size sz \<noteq> 0" by auto
  have "unat sz + 4095 < 4096 + (unat sz + 4095) div 4096 * 4096" by (rule dividend_less_div_times) simp
  then show "unat sz \<le> unat (paged_size sz)" using spec by simp
  show "4096 dvd unat (paged_size sz)" using spec by simp
qed

lemma block_address:
  assumes "unat rt < 2 ^ 30"
  shows "(ucast rt :: u32) \<noteq> - 1" "scast (ucast MEM_START + ucast rt :: u32) = MEM_START + rt"
    and "MEM_START + rt \<noteq> NULL" "\<not> MEM_START + rt < MEM_START" "unat (MEM_START + rt) = unat MEM_START + unat rt"
proof -
  have u: "unat (ucast rt :: u32) = unat rt" using assms by (simp add: unsigned_ucast_eq take_bit_nat_eq_self)
  then have "unat (ucast rt :: u32) < 2 ^ 30" using assms by simp
  moreover have "unat (4294967295 :: u32) = 4294967295" by simp
  moreover have "(- 1 :: u32) = 4294967295" by simp
  ultimately show "(ucast rt :: u32) \<noteq> - 1" by (simp only:) auto
  have a: "unat (ucast MEM_START + ucast rt :: u32) = unat MEM_START + unat rt"
    using u assms by (subst unat_plus_no_wrap) (simp_all add: MEM_START_def)
  then have "sint (ucast MEM_START + ucast rt :: u32) = int (unat MEM_START + unat rt)"
    using assms by (subst sint_small) (simp_all add: MEM_START_def)
  then have "scast (ucast MEM_START + ucast rt :: u32) = (word_of_int (int (unat MEM_START + unat rt)) :: u64)"
    by (simp only: scast_eq)
  then show "scast (ucast MEM_START + ucast rt :: u32) = MEM_START + rt" by simp
  show b: "unat (MEM_START + rt) = unat MEM_START + unat rt"
    using assms by (intro unat_plus_no_wrap) (simp add: MEM_START_def)
  show "MEM_START + rt \<noteq> NULL" using b by (auto simp: MEM_START_def)
  show "\<not> MEM_START + rt < MEM_START" using b by (simp add: word_less_nat_alt)
qed

section \<open>The block allocator\<close>

lemma memory_invE:
  assumes "memory_inv s"
  obtains n len where "buddy_head s = Some n" "len < 2 ^ 30" "node_ok 0 len n" "coalesced n"
    "tree_heap (kheap s) n"
  using assms by (auto simp: memory_inv_def split: option.splits)

lemma ucast_minus_one: "(ucast minus_one :: u32) = - 1"
proof -
  have "minus_one = 0xFFFFFFFFFFFFFFFF" "(- 1 :: u32) = 0xFFFFFFFF" by simp_all
  then show ?thesis by (simp only:) simp
qed

lemma get_memblock_cases:
  assumes "memory_inv s" "get_memblock s sz = Some (s', p)"
  obtains (refused) "p = NULL" "s' = s"
  | (granted) n n' rt m where "p = MEM_START + rt" "unat rt < 2 ^ 30" "p \<noteq> NULL" "p \<ge> MEM_START"
      "buddy_head s = Some n" "buddy_head s' = Some n'" "buddy_pool s' = buddy_pool s"
      "buddy_alloc_node (kheap s) n (paged_size sz) = Some (kheap s', n', rt)"
      "memory_inv s'" "tree_heap (kheap s') n'" "others (kheap s') n' = others (kheap s) n"
      "tree_free n' rt = n"
      "buddy_live n rt = None" "buddy_live n' = (buddy_live n)(rt \<mapsto> m)"
      "unat (paged_size sz) \<le> m" "m < 2 * unat (paged_size sz)"
proof -
  obtain n len where n: "buddy_head s = Some n" "len < 2 ^ 30" "node_ok 0 len n" "coalesced n"
    "tree_heap (kheap s) n" using assms(1) by (rule memory_invE)
  have "buddy_alloc_node (kheap s) n (paged_size sz) \<noteq> None"
    using assms(2) n(1) by (intro notI) (simp add: get_memblock_def buddy_alloc_def)
  then obtain h n' rt where r: "buddy_alloc_node (kheap s) n (paged_size sz) = Some (h, n', rt)"
    by fast
  let ?s = "s\<lparr>kheap := h, buddy_head := Some n'\<rparr>"
  have res: "(s', p) = (if (ucast rt :: u32) = - 1 then (?s, NULL)
      else (?s, scast (ucast MEM_START + ucast rt :: u32)))"
    using assms(2)
    by (simp only: get_memblock_def buddy_alloc_def n(1) Let_def r bind.simps prod.case if_Some_eq)
  have "0 + len < 2 ^ 63" using n(2) by simp
  note small = this
  have still: "p = NULL \<and> s' = s" if "h = kheap s \<and> n' = n \<and> rt = minus_one"
    using res n(1) unfolding that [THEN conjunct2, THEN conjunct2] ucast_minus_one by (simp add: that)
  show thesis
  proof (cases "paged_size sz = 0 \<or> rt = minus_one")
    case True
    have "h = kheap s \<and> n' = n \<and> rt = minus_one"
    proof (cases "paged_size sz = 0")
      case True
      with alloc_zero_no_free [OF r] have "\<not> has_free n" by simp
      from alloc_no_free [OF this, of "kheap s" "paged_size sz"] r show ?thesis by simp
    next
      case False
      with True alloc_postD(5) [OF buddy_alloc_post [OF r, THEN conjunct1] n(3) small n(5)] show ?thesis by simp
    qed
    then have "p = NULL" "s' = s" using still by auto
    then show thesis by (rule refused)
  next
    case no: False
    then have pos: "paged_size sz \<noteq> 0" and False: "rt \<noteq> minus_one" by auto
    note post = alloc_postD [OF buddy_alloc_post [OF r, THEN conjunct1] n(3) small n(5) pos]
    from post(6) [OF False] obtain m where m: "buddy_live n rt = None" "tree_free n' rt = n"
      "unat (paged_size sz) \<le> m" "m < 2 * unat (paged_size sz)" "buddy_live n' = (buddy_live n)(rt \<mapsto> m)"
      using n(4) by blast
    have rt: "unat rt < 2 ^ 30"
      using live_in_range [OF post(3), of rt m] m(5) n(2) by simp
    note addr = block_address [OF rt]
    have s': "s' = ?s" "p = MEM_START + rt"
      using res [unfolded if_not_P [OF addr(1)] addr(2)] by simp_all
    have "memory_inv s'"
      unfolding s'(1) memory_inv_def using n(2) post(1,3) post(4) [OF n(4)] by auto
    moreover have "MEM_START \<le> p" using addr(4) s'(2) by simp
    moreover have "p \<noteq> NULL" using addr(3) s'(2) by simp
    ultimately show thesis
      using s' n(1) r post(1,2) m rt by (intro granted [of rt n n' m]) simp_all
  qed
qed

lemma memory_live_at:
  "memory_live s p = Some m \<longleftrightarrow>
     (\<exists>n. buddy_head s = Some n \<and> MEM_START \<le> p \<and> buddy_live n (p - MEM_START) = Some m)"
  by (auto simp: memory_live_def not_less split: option.splits if_splits)

lemma get_memblock_spec:
  assumes "memory_inv s" "get_memblock s sz = Some (s', p)"
  shows "memory_inv s' \<and>
    (if p = NULL then s' = s
     else memory_live s p = None \<and> (\<exists>m \<ge> unat (paged_size sz). m < 2 * unat (paged_size sz) \<and>
       memory_live s' = (memory_live s)(p \<mapsto> m)))"
  using assms
proof (cases rule: get_memblock_cases)
  case refused
  then show ?thesis using assms(1) by simp
next
  case (granted n n' rt m)
  have "memory_live s' = (memory_live s)(p \<mapsto> m)"
    using granted by (auto simp: memory_live_def fun_eq_iff)
  moreover have "memory_live s p = None"
    using granted by (simp add: memory_live_def)
  ultimately show ?thesis using granted by auto
qed

lemma free_memblock_cases:
  assumes "memory_inv s" "free_memblock s p = Some (s', rt)"
  obtains (below) "p < MEM_START" "s' = s" "rt = minus_one"
  | (tree) n h n' where "MEM_START \<le> p" "buddy_head s = Some n" "n' = tree_free n (p - MEM_START)"
      "s' = s\<lparr>kheap := h, buddy_head := Some n'\<rparr>"
      "rt = (if p \<in> dom (memory_live s) then 0 else minus_one)"
      "tree_heap h n'" "others h n' = others (kheap s) n" "memory_inv s'"
      "memory_live s' = (memory_live s)(p := None)"
proof (cases "p < MEM_START")
  case True
  then show thesis using assms(2) by (intro below) (auto simp: free_memblock_def)
next
  case False
  obtain n len where n: "buddy_head s = Some n" "len < 2 ^ 30" "node_ok 0 len n" "coalesced n"
    "tree_heap (kheap s) n" using assms(1) by (rule memory_invE)
  let ?k = "p - MEM_START"
  obtain h n' rt' where r: "buddy_free_node (kheap s) n ?k = (h, n', rt')" by (metis prod_cases3)
  have s': "s' = s\<lparr>kheap := h, buddy_head := Some n'\<rparr>" "rt = rt'"
    using assms(2) False n(1) r by (auto simp: free_memblock_def buddy_free_def)
  have res: "n' = tree_free n ?k" "rt' = (if ?k \<in> dom (buddy_live n) then 0 else minus_one)"
    using buddy_free_result [OF r] by auto
  have heap: "tree_heap h n'" "others h n' = others (kheap s) n"
    using buddy_free_heap [OF n(5) r] by auto
  have live: "buddy_live n' = (buddy_live n)(?k := None)"
    using tree_free_live [OF n(3)] res(1) by simp
  have "memory_inv s'"
    using s' heap(1) res(1) n(2) tree_free_ok [OF n(3)] tree_free_coalesced by (auto simp: memory_inv_def)
  moreover have "memory_live s' = (memory_live s)(p := None)"
    using s' n(1) live False by (auto simp: memory_live_def fun_eq_iff)
  moreover have "p \<in> dom (memory_live s) \<longleftrightarrow> ?k \<in> dom (buddy_live n)"
    using n(1) False by (simp add: memory_live_def domIff)
  ultimately show thesis
    using False n(1) s' res heap by (intro tree [of n n' h]) (auto simp: not_less)
qed

definition release_block :: "memory \<Rightarrow> ptr \<Rightarrow> memory" where
  "release_block s p = (case free_memblock s p of None \<Rightarrow> s | Some (s', rt) \<Rightarrow> s')"

lemma free_memblock_defined: "memory_inv s \<Longrightarrow> \<exists>s' rt. free_memblock s p = Some (s', rt)"
  by (erule memory_invE) (auto simp: free_memblock_def buddy_free_def split: prod.split)

lemma free_memblock_spec:
  assumes "memory_inv s" "p \<in> dom (memory_live s)"
  shows "memory_inv (release_block s p) \<and> memory_live (release_block s p) = (memory_live s)(p := None) \<and>
    free_memblock s p = Some (release_block s p, 0)"
proof -
  obtain s' rt where r: "free_memblock s p = Some (s', rt)" using free_memblock_defined [OF assms(1)] by blast
  have "MEM_START \<le> p" using assms(2) by (auto simp: memory_live_at)
  then show ?thesis
    using free_memblock_cases [OF assms(1) r] assms(2) r by (cases rule: free_memblock_cases [OF assms(1) r])
      (auto simp: release_block_def)
qed

lemma memory_live_apart:
  assumes "memory_inv s"
  shows "blocks_apart (memory_live s)"
proof -
  obtain n len where n: "buddy_head s = Some n" "len < 2 ^ 30" "node_ok 0 len n"
    using assms by (rule memory_invE)
  have "apart (unat p) a (unat q) b"
    if "memory_live s p = Some a" "memory_live s q = Some b" "p \<noteq> q" for p q a b
  proof -
    have live: "MEM_START \<le> p" "buddy_live n (p - MEM_START) = Some a"
      "MEM_START \<le> q" "buddy_live n (q - MEM_START) = Some b"
      using that n(1) by (auto simp: memory_live_at)
    have "apart (unat (p - MEM_START)) a (unat (q - MEM_START)) b"
      using buddy_live_apart [OF n(3)] live that(3) by (auto simp: blocks_apart_def)
    moreover have "unat p = unat MEM_START + unat (p - MEM_START)"
      "unat q = unat MEM_START + unat (q - MEM_START)"
      using live by (simp_all add: unat_minus_no_wrap word_le_nat_alt)
    ultimately show ?thesis by (simp add: apart_def)
  qed
  then show ?thesis by (auto simp: blocks_apart_def)
qed

interpretation memblock: allocator memory_inv memory_live block_request get_memblock release_block
proof unfold_locales
  fix s s' n p
  assume a: "memory_inv s" "block_request n" "get_memblock s n = Some (s', p)" "p \<noteq> NULL"
  then show "memory_live s p = None \<and> (\<exists>m\<ge>unat n. memory_live s' = (memory_live s)(p \<mapsto> m))"
    using get_memblock_spec [OF a(1,3)] paged_size_request(2) [OF a(2)] by (auto intro: order_trans)
next
  fix s s' n
  assume a: "memory_inv s" "block_request n" "get_memblock s n = Some (s', NULL)"
  then show "memory_live s' = memory_live s" using get_memblock_spec [OF a(1,3)] by simp
qed (blast dest: get_memblock_spec free_memblock_spec intro: memory_live_apart)+

section \<open>The memory the kernel boots with\<close>

text \<open>\<open>main\<close> calls \<open>init_mem(1024*4*40)\<close> on zeroed globals.\<close>

definition zeroed_memory :: memory where
  "zeroed_memory = \<lparr>kheap = [], buddy_pool = NULL, buddy_head = None\<rparr>"

definition booted_memory :: memory where
  "booted_memory =
     \<lparr>kheap = init_kheap @
        [\<lparr>start = 0x600050, chunk_size = 163840, used = True\<rparr>,
         \<lparr>start = 0x628078, chunk_size = 40, used = True\<rparr>],
      buddy_pool = 0x600050, buddy_head = Some (Free 0x628078 0 163840)\<rparr>"

lemma init_mem_booted: "init_mem zeroed_memory 163840 = Some (booted_memory, 0)"
  by (simp add: init_mem_def buddy_init_def zeroed_memory_def booted_memory_def paged_size_def PAGE_SIZE_def
      kmalloc_def init_kheap_def init_chunks_def memory_layout sizeof_node_t_def Let_def)

lemma booted_kheap: "kheap_inv (kheap booted_memory)"
  by (simp add: kheap_inv_def chunks_inv_def booted_memory_def init_kheap_def init_chunks_def memory_layout
      header_size_def before_def)

lemma booted_inv: "memory_inv booted_memory"
proof -
  have "chunks_live (kheap booted_memory) 0x628078 = Some 40"
    by (simp add: booted_memory_def init_kheap_def init_chunks_def memory_layout)
  moreover have "node_ok 0 163840 (Free 0x628078 0 163840)" by simp
  moreover have "(163840 :: nat) < 2 ^ 30" by simp
  ultimately show ?thesis
    using booted_kheap unfolding memory_inv_def tree_heap_def by (auto simp: booted_memory_def)
qed

lemma booted_room: "heap_end (kheap booted_memory) + 160 * 63 \<le> unat MEMORY_END"
  by (simp add: booted_memory_def heap_end_def memory_layout)

lemma booted_live: "memory_live booted_memory = Map.empty"
  by (simp add: memory_live_def booted_memory_def fun_eq_iff)

lemma get_memblock_eq:
  assumes "buddy_head s = Some n" "buddy_alloc_node (kheap s) n (paged_size sz) = Some (h, n', rt)"
  shows "get_memblock s sz =
    (if (ucast rt :: u32) = - 1 then Some (s\<lparr>kheap := h, buddy_head := Some n'\<rparr>, NULL)
     else Some (s\<lparr>kheap := h, buddy_head := Some n'\<rparr>, scast (ucast MEM_START + ucast rt :: u32)))"
  by (simp only: get_memblock_def buddy_alloc_def assms Let_def bind.simps prod.case)

lemma get_memblock_defined:
  assumes "memory_inv s" "block_request sz" "heap_end (kheap s) + 160 * 63 \<le> unat MEMORY_END"
  shows "\<exists>s' p. get_memblock s sz = Some (s', p)"
proof -
  obtain n len where n: "buddy_head s = Some n" "len < 2 ^ 30" "node_ok 0 len n" "tree_heap (kheap s) n"
    using assms(1) by (rule memory_invE)
  have "0 + len < 2 ^ 63" using n(2) by simp
  from alloc_defined [OF n(4,3) this paged_size_request(1) [OF assms(2)] assms(3)]
  obtain h n' rt where "buddy_alloc_node (kheap s) n (paged_size sz) = Some (h, n', rt)"
    by (auto simp: split_paired_Ex)
  from get_memblock_eq [OF n(1) this] show ?thesis by (cases "(ucast rt :: u32) = - 1") (metis if_P, metis if_not_P)
qed

text \<open>The outcome of a request, branch by branch.\<close>

lemma get_memblock_outcome:
  assumes "memory_inv s" "buddy_head s = Some n"
  shows "if paged_size sz = 0 then get_memblock s sz = (if has_free n then None else Some (s, NULL))
     else (case first_fit n (paged_size sz) of
         None \<Rightarrow> get_memblock s sz = Some (s, NULL)
       | Some (j, t) \<Rightarrow>
           let k = splits (unat (paged_size sz)) (unat t); m = unat t div 2 ^ k; p = MEM_START + j in
           case grab k (kheap s) of
             None \<Rightarrow> get_memblock s sz = None
           | Some h \<Rightarrow> \<exists>s'. get_memblock s sz = Some (s', p) \<and> p \<noteq> NULL \<and> memory_inv s' \<and> kheap s' = h \<and>
               unat (paged_size sz) \<le> m \<and> m < 2 * unat (paged_size sz) \<and>
               memory_live s p = None \<and> memory_live s' = (memory_live s)(p \<mapsto> m) \<and>
               (\<forall>q l. memory_live s q = Some l \<longrightarrow> apart (unat p) m (unat q) l) \<and>
               others (kheap s') (the (buddy_head s')) = others (kheap s) n)"
proof -
  obtain len where n: "len < 2 ^ 30" "node_ok 0 len n"
    using assms by (elim memory_invE) auto
  have small: "0 + len < 2 ^ 63" using n(1) by simp
  have nowhere: "get_memblock s sz = None" if "buddy_alloc_node (kheap s) n (paged_size sz) = None"
    using that assms(2) by (simp add: get_memblock_def buddy_alloc_def)
  have refused: "get_memblock s sz = Some (s, NULL)"
    if "buddy_alloc_node (kheap s) n (paged_size sz) = Some (kheap s, n, minus_one)"
    using get_memblock_eq [OF assms(2) that] assms(2) by (simp only: ucast_minus_one if_True) simp
  show ?thesis
  proof (cases "paged_size sz = 0")
    case True
    have "buddy_alloc_node (kheap s) n (paged_size sz) = None" if "has_free n"
      using alloc_zero_no_free [of "kheap s" n "paged_size sz"] that True
      by (cases "buddy_alloc_node (kheap s) n (paged_size sz)") auto
    with True nowhere refused [OF alloc_no_free] show ?thesis by auto
  next
    case False
    note exact = alloc_exact [OF n(2) small False, of "kheap s"]
    show ?thesis
    proof (cases "first_fit n (paged_size sz)")
      case None
      with exact refused False show ?thesis by simp
    next
      case (Some x)
      then obtain j t where x: "first_fit n (paged_size sz) = Some (j, t)" by (cases x) auto
      define k where k: "k = splits (unat (paged_size sz)) (unat t)"
      have j: "unat j < 2 ^ 30" using first_fit_range [OF n(2) x] n(1) by simp
      note addr = block_address [OF j]
      show ?thesis
      proof (cases "grab k (kheap s)")
        case None
        with exact nowhere False x show ?thesis by (simp add: k [symmetric])
      next
        case (Some h)
        then obtain n' where a: "buddy_alloc_node (kheap s) n (paged_size sz) = Some (h, n', j)"
          and live: "buddy_live n' j = Some (unat t div 2 ^ k)"
          using exact x by (auto simp: k [symmetric])
        let ?s = "s\<lparr>kheap := h, buddy_head := Some n'\<rparr>"
        have r: "get_memblock s sz = Some (?s, MEM_START + j)"
          using get_memblock_eq [OF assms(2) a] addr(1,2) by simp
        have off: "\<not> MEM_START + j < MEM_START" "MEM_START + j \<noteq> NULL" using addr by auto
        have at: "memory_live ?s (MEM_START + j) = Some (unat t div 2 ^ k)"
          using live off(1) by (simp add: memory_live_def)
        from get_memblock_spec [OF assms(1) r] off(2) obtain m where
          spec: "memory_inv ?s" "memory_live s (MEM_START + j) = None" "unat (paged_size sz) \<le> m"
            "m < 2 * unat (paged_size sz)" "memory_live ?s = (memory_live s)(MEM_START + j \<mapsto> m)" by auto
        have m: "m = unat t div 2 ^ k" using spec(5) at by (simp only: fun_upd_same option.inject)
        have "apart (unat (MEM_START + j)) m (unat q) l" if "memory_live s q = Some l" for q l
          using memory_live_apart [OF spec(1)] that spec(2,5) unfolding blocks_apart_def by (metis fun_upd_apply option.distinct(1))
        moreover have "others h n' = others (kheap s) n"
          using alloc_postD(2) [OF buddy_alloc_post [OF a, THEN conjunct1] n(2) small _ False] assms
          by (auto simp: memory_inv_def)
        ultimately show ?thesis
          using False x Some r spec off(2) by (simp add: k [symmetric] m [symmetric] Let_def)
      qed
    qed
  qed
qed

text \<open>A free root that is long enough grants the request at index 0.\<close>

lemma get_memblock_free_root:
  assumes "memory_inv s" "block_request sz" "heap_end (kheap s) + 160 * 63 \<le> unat MEMORY_END"
    and "buddy_head s = Some (Free q 0 len)" "paged_size sz \<le> len"
  shows "\<exists>s'. get_memblock s sz = Some (s', MEM_START)"
proof -
  obtain s' p where r: "get_memblock s sz = Some (s', p)" using get_memblock_defined [OF assms(1-3)] by blast
  have ne: "buddy_alloc_node (kheap s) (Free q 0 len) (paged_size sz) \<noteq> None"
    using r assms(4) by (intro notI) (simp add: get_memblock_def buddy_alloc_def)
  then obtain h n' rt where a: "buddy_alloc_node (kheap s) (Free q 0 len) (paged_size sz) = Some (h, n', rt)"
    by fast
  have rt: "rt = 0" using buddy_alloc_post [OF a] assms(5) by auto
  have "unat (0 :: u64) < 2 ^ 30" by simp
  note z = block_address [OF this]
  show ?thesis
    using get_memblock_eq [OF assms(4) a] unfolding rt if_not_P [OF z(1)] z(2) by simp
qed

lemma others_same:
  assumes "tree_heap h n" "tree_heap h' n" "others h' n = others h n"
  shows "chunks_live h' = chunks_live h"
proof
  fix q
  show "chunks_live h' q = chunks_live h q"
  proof (cases "q \<in> set (node_ptrs n)")
    case True
    then show ?thesis using assms(1,2) by (simp add: tree_heap_def)
  next
    case False
    then show ?thesis using fun_cong [OF assms(3), of q] by (simp add: others_def)
  qed
qed

lemma get_then_free:
  assumes "memory_inv s" "block_request sz" "get_memblock s sz = Some (s', p)" "p \<noteq> NULL"
  shows "\<exists>s''. free_memblock s' p = Some (s'', 0) \<and> memory_inv s'' \<and> buddy_head s'' = buddy_head s \<and>
    buddy_pool s'' = buddy_pool s \<and> chunks_live (kheap s'') = chunks_live (kheap s)"
  using assms(1,3)
proof (cases rule: get_memblock_cases)
  case refused
  with assms(4) show ?thesis by simp
next
  case (granted n n' rt m)
  have off: "p - MEM_START = rt" using granted(1) by simp
  obtain s'' r where f: "free_memblock s' p = Some (s'', r)" using free_memblock_defined [OF granted(9)] by blast
  have live: "p \<in> dom (memory_live s')"
    using granted(4,6,14) off by (simp add: memory_live_def domIff)
  have th: "tree_heap (kheap s) n" using assms(1) granted(5) by (auto simp: memory_inv_def)
  from granted(9) f show ?thesis
  proof (cases rule: free_memblock_cases)
    case below
    with granted(4) show ?thesis by simp
  next
    case (tree k h k')
    have "k = n'" "k' = n" using tree(2,3) granted(6,12) off by auto
    then have "chunks_live h = chunks_live (kheap s)"
      using others_same [OF th] tree(6,7) granted(11) by simp
    then show ?thesis using tree f live granted(5,7) \<open>k' = n\<close> by auto
  qed
qed

section \<open>Properties\<close>

text \<open>
  C1: \<open>get_memblock\<close> on every request and every consistent memory. The size is rounded up to pages, and wraps to 0
  for the last 4095 sizes. A request of no pages does not return when the tree has a free leaf, and is
  refused when it has none. Any other request goes to the leftmost free leaf that is long enough; with no such leaf
  the answer is NULL and nothing changes. Otherwise the leaf is halved as long as a half holds the pages, and each
  halving takes two structures from the kernel heap: when the heap has no room for one, there is no answer, the node
  being written through NULL. When it has, the answer is \<open>MEM_START\<close> plus the index of the leaf; the block
  was not live and is live now, with exactly the length of the last half, which is at least the pages and
  less than twice that; it overlaps no other live block over its full length; and what other clients hold of the kernel
  heap is untouched.
\<close>

theorem get_memblock_correct:
  assumes "memory_inv s" "buddy_head s = Some n"
  shows "unat (paged_size sz) = (if unat sz + 4095 < 2 ^ 64 then (unat sz + 4095) div 4096 * 4096 else 0) \<and>
    (if paged_size sz = 0 then get_memblock s sz = (if has_free n then None else Some (s, NULL))
     else (case first_fit n (paged_size sz) of
         None \<Rightarrow> get_memblock s sz = Some (s, NULL)
       | Some (j, t) \<Rightarrow>
           let k = splits (unat (paged_size sz)) (unat t); m = unat t div 2 ^ k; p = MEM_START + j in
           case grab k (kheap s) of
             None \<Rightarrow> get_memblock s sz = None
           | Some h \<Rightarrow> \<exists>s'. get_memblock s sz = Some (s', p) \<and> p \<noteq> NULL \<and> memory_inv s' \<and> kheap s' = h \<and>
               unat (paged_size sz) \<le> m \<and> m < 2 * unat (paged_size sz) \<and>
               memory_live s p = None \<and> memory_live s' = (memory_live s)(p \<mapsto> m) \<and>
               (\<forall>q l. memory_live s q = Some l \<longrightarrow> apart (unat p) m (unat q) l) \<and>
               others (kheap s') (the (buddy_head s')) = others (kheap s) n))"
  by (intro conjI get_memblock_outcome [OF assms] paged_size_total)

theorem get_memblock_correct_witness:
  "(\<exists>s'. get_memblock booted_memory 10000 = Some (s', MEM_START) \<and> memory_live s' MEM_START = Some 20480) \<and>
   get_memblock booted_memory 0 = None"
proof
  let ?n = "Free 0x628078 0 163840"
  have h: "buddy_head booted_memory = Some ?n" by (simp add: booted_memory_def)
  have p: "paged_size 10000 = 12288" by (simp add: paged_size_def PAGE_SIZE_def Let_def)
  have k: "splits 12288 163840 = 3" by (simp add: splits.simps)
  have "heap_end (kheap booted_memory) + 160 * 63 \<le> unat MEMORY_END" by (rule booted_room)
  from get_memblock_defined [OF booted_inv _ this, of 10000]
  have d: "get_memblock booted_memory 10000 \<noteq> None" by (auto simp: block_request_def)
  show "\<exists>s'. get_memblock booted_memory 10000 = Some (s', MEM_START) \<and> memory_live s' MEM_START = Some 20480"
    using get_memblock_correct [OF booted_inv h, of 10000] d by (auto simp: p k split: option.splits)
  show "get_memblock booted_memory 0 = None"
    using get_memblock_correct [OF booted_inv h, of 0] by (simp add: paged_size_def)
qed

text \<open>
  C21: a block that is given back leaves no trace: \<open>free_memblock\<close> returns 0 on it, the buddy tree is the
  very tree it was before \<open>get_memblock\<close>, all splits merged again, and the kernel heap has the same live
  blocks, so no tree node is leaked.
\<close>

theorem memblock_roundtrip:
  assumes "memory_inv s" "block_request sz" "get_memblock s sz = Some (s', p)" "p \<noteq> NULL"
  shows "\<exists>s''. free_memblock s' p = Some (s'', 0) \<and> buddy_head s'' = buddy_head s \<and>
    chunks_live (kheap s'') = chunks_live (kheap s)"
  using get_then_free [OF assms] by blast

theorem memblock_roundtrip_witness:
  "\<exists>s' p s''. get_memblock booted_memory 10000 = Some (s', p) \<and> free_memblock s' p = Some (s'', 0) \<and>
     buddy_head s'' = buddy_head booted_memory"
proof -
  have b: "block_request 10000" by (simp add: block_request_def)
  have "paged_size 10000 \<le> 163840" by (simp add: paged_size_def PAGE_SIZE_def Let_def)
  then obtain s' where r: "get_memblock booted_memory 10000 = Some (s', MEM_START)"
    using get_memblock_free_root [OF booted_inv b booted_room] by (auto simp: booted_memory_def)
  have "MEM_START \<noteq> NULL" by (simp add: MEM_START_def)
  from memblock_roundtrip [OF booted_inv b r this] r show ?thesis by blast
qed

text \<open>
  C2: any history of the blocks of the kernel from boot on, in which a client asks for at least one
  byte and gives back only what it owns, keeps the tree and its nodes in the kernel heap consistent, all
  live blocks disjoint, and the live blocks exactly those the client owns.
\<close>

theorem memblock_history:
  assumes "client_run get_memblock release_block block_request booted_memory s own"
  shows "memory_inv s \<and> blocks_apart (memory_live s) \<and> dom (memory_live s) = own"
  using memblock.client_run_inv [OF assms booted_inv] memblock.client_blocks_apart [OF assms booted_inv]
  by (simp add: booted_live)

theorem memblock_history_witness:
  "\<exists>s own. own \<noteq> {} \<and> client_run get_memblock release_block block_request booted_memory s own \<and> memory_inv s"
proof -
  have b: "block_request 10000" by (simp add: block_request_def)
  have "paged_size 10000 \<le> 163840" by (simp add: paged_size_def PAGE_SIZE_def Let_def)
  then obtain s' where r: "get_memblock booted_memory 10000 = Some (s', MEM_START)"
    using get_memblock_free_root [OF booted_inv b booted_room] by (auto simp: booted_memory_def)
  have "MEM_START \<noteq> NULL" by (simp add: MEM_START_def)
  with b r have run: "client_run get_memblock release_block block_request booted_memory s' {MEM_START}"
    by (rule client_run_first)
  from memblock_history [OF run] run show ?thesis by blast
qed

text \<open>
  at boot, \<open>init_mem\<close> succeeds, and the first block \<open>get_memblock\<close> then hands out is \<open>MEM_START\<close>
  itself: the address of the first live chunk of the kernel heap, which holds that heap's own list, and
  not an address of the pool that \<open>buddy_init\<close> reserved behind it.
\<close>

theorem first_block_overlaps_kernel_heap:
  "init_mem zeroed_memory 163840 = Some (booted_memory, 0) \<and>
   (\<exists>s. get_memblock booted_memory 4096 = Some (s, MEM_START)) \<and>
   chunks_live (kheap booted_memory) MEM_START = Some 40 \<and> MEM_START < buddy_pool booted_memory"
proof -
  have "block_request 4096" by (simp add: block_request_def)
  moreover have "paged_size 4096 \<le> 163840" by (simp add: paged_size_def PAGE_SIZE_def)
  ultimately have "\<exists>s. get_memblock booted_memory 4096 = Some (s, MEM_START)"
    using get_memblock_free_root [OF booted_inv _ booted_room] by (auto simp: booted_memory_def)
  then show ?thesis
    by (simp add: init_mem_booted)
      (simp add: booted_memory_def init_kheap_def init_chunks_def memory_layout MEM_START_def)
qed

text \<open>
  a request of no bytes never returns while any block of the tree is free: every free node is
  split for ever, its halves being long enough for 0 bytes down to length 0 and beyond.
\<close>

theorem get_memblock_zero_diverges:
  assumes "buddy_head s = Some n" "has_free n"
  shows "get_memblock s 0 = None"
proof (cases "buddy_alloc_node (kheap s) n (paged_size 0)")
  case None
  with assms(1) show ?thesis by (simp add: get_memblock_def buddy_alloc_def)
next
  case (Some r)
  with alloc_zero_no_free [OF Some] assms(2) show ?thesis by (simp add: paged_size_def)
qed

theorem get_memblock_zero_diverges_witness: "get_memblock booted_memory 0 = None"
  by (rule get_memblock_zero_diverges [where n = "Free 0x628078 0 163840"]) (simp_all add: booted_memory_def)

text \<open>
  once the root is split, \<open>buddy_size\<close> answers -1 for every index of the left half, allocated or
  not, because the second lookup hangs on a test for a negative unsigned value.
\<close>

theorem buddy_size_misses_left_half:
  assumes "buddy_head s = Some (Split p i sz l r)" "node_ok 0 len (Split p i sz l r)" "unat k < len div 2"
  shows "buddy_size s k = Some minus_one"
  using assms buddy_size_below [of "0 + len div 2" "len div 2" r k]
  by (simp add: buddy_size_def buddy_size_split del: buddy_size_node.simps)

theorem buddy_size_misses_left_half_witness:
  "buddy_size \<lparr>kheap = [], buddy_pool = 0, buddy_head =
     Some (Split 8 0 8192 (Alloc 16 0 4096) (Free 24 4096 4096))\<rparr> 0 = Some minus_one"
  by (rule buddy_size_misses_left_half [where len = 8192 and r = "Free 24 4096 4096" and l = "Alloc 16 0 4096"
        and p = 8 and i = 0 and sz = 8192]) simp_all

text \<open>
  \<open>buddy_kill\<close> gives exactly the nodes of the tree back to the kernel heap, which stays well
  formed; nothing else that is live there is touched.
\<close>

theorem buddy_kill_correct:
  assumes "memory_inv s" "buddy_head s = Some n"
  shows "\<exists>s'. buddy_kill s = Some s' \<and> kheap_inv (kheap s') \<and>
    chunks_live (kheap s') = chunks_live (kheap s) |` (- set (node_ptrs n))"
  using assms kill_parts [of "kheap s" n] by (auto simp: buddy_kill_def memory_inv_def others_def)

theorem buddy_kill_correct_witness:
  "\<exists>s'. buddy_kill booted_memory = Some s' \<and> chunks_live (kheap s') 0x628078 = None"
  using buddy_kill_correct [OF booted_inv, of "Free 0x628078 0 163840"] by (auto simp: booted_memory_def)

end
