(* ===== verification/CLib.thy ===== *)
theory CLib
  imports Prelude
begin

text \<open>
  The kernel's byte routines, \<open>Kernel/lib.c\<close>, on a byte-addressed memory. Pointers wrap around at
  64 bits as in C, multi-byte values are little endian as on the x86-64 target, and the loops are
  recursions on the number of steps that are left.
\<close>

section \<open>Memory\<close>

type_synonym mem = "ptr \<Rightarrow> u8"

definition load32 :: "mem \<Rightarrow> ptr \<Rightarrow> u32" where
  "load32 m a =
     ucast (m a) OR push_bit 8 (ucast (m (a + 1))) OR
     push_bit 16 (ucast (m (a + 2))) OR push_bit 24 (ucast (m (a + 3)))"

definition store32 :: "mem \<Rightarrow> ptr \<Rightarrow> u32 \<Rightarrow> mem" where
  "store32 m a w =
     m(a := ucast w, a + 1 := ucast (drop_bit 8 w), a + 2 := ucast (drop_bit 16 w),
       a + 3 := ucast (drop_bit 24 w))"

section \<open>Operations\<close>

text \<open>\<open>while (length--) dst[length] = chr\<close>.\<close>

fun memset_loop :: "mem \<Rightarrow> ptr \<Rightarrow> u8 \<Rightarrow> nat \<Rightarrow> mem" where
  "memset_loop m dst chr 0 = m"
| "memset_loop m dst chr (Suc len) = memset_loop (m(dst + of_nat len := chr)) dst chr len"

definition memset :: "mem \<Rightarrow> ptr \<Rightarrow> u32 \<Rightarrow> u64 \<Rightarrow> mem" where
  "memset m destination c len = memset_loop m destination (ucast c) (unat len)"

text \<open>\<open>memsetw\<close> stores \<open>count\<close> 16-bit values; a negative \<open>count\<close> stores none.\<close>

definition store16 :: "mem \<Rightarrow> ptr \<Rightarrow> u16 \<Rightarrow> mem" where
  "store16 m a w = m(a := ucast w, a + 1 := ucast (drop_bit 8 w))"

fun memsetw_loop :: "mem \<Rightarrow> ptr \<Rightarrow> u16 \<Rightarrow> nat \<Rightarrow> nat \<Rightarrow> mem" where
  "memsetw_loop m d v i 0 = m"
| "memsetw_loop m d v i (Suc k) = memsetw_loop (store16 m (d + 2 * of_nat i) v) d v (Suc i) k"

definition memsetw :: "mem \<Rightarrow> ptr \<Rightarrow> u16 \<Rightarrow> int \<Rightarrow> mem" where
  "memsetw m dest v count = memsetw_loop m dest v 0 (nat count)"

text \<open>The two loops of \<open>memcpy\<close>; the index \<open>i\<close> counts up and \<open>k\<close> is what is left of the bound.\<close>

fun copy_bytes :: "mem \<Rightarrow> ptr \<Rightarrow> ptr \<Rightarrow> nat \<Rightarrow> nat \<Rightarrow> mem" where
  "copy_bytes m d s i 0 = m"
| "copy_bytes m d s i (Suc k) = copy_bytes (m(d + of_nat i := m (s + of_nat i))) d s (Suc i) k"

fun copy_words :: "mem \<Rightarrow> ptr \<Rightarrow> ptr \<Rightarrow> nat \<Rightarrow> nat \<Rightarrow> mem" where
  "copy_words m d s i 0 = m"
| "copy_words m d s i (Suc k) =
     copy_words (store32 m (d + 4 * of_nat i) (load32 m (s + 4 * of_nat i))) d s (Suc i) k"

definition memcpy :: "mem \<Rightarrow> ptr \<Rightarrow> ptr \<Rightarrow> u64 \<Rightarrow> mem" where
  "memcpy m destination source len =
     (if destination mod 4 = 0 \<and> source mod 4 = 0 \<and> len mod 4 = 0
      then copy_words m destination source 0 (unat (len div 4))
      else copy_bytes m destination source 0 (unat len))"

fun memcmp_loop :: "mem \<Rightarrow> ptr \<Rightarrow> ptr \<Rightarrow> nat \<Rightarrow> int" where
  "memcmp_loop m p1 p2 0 = 0"
| "memcmp_loop m p1 p2 (Suc n) =
     (if m p1 \<noteq> m p2 then uint (m p1) - uint (m p2) else memcmp_loop m (p1 + 1) (p2 + 1) n)"

definition memcmp :: "mem \<Rightarrow> ptr \<Rightarrow> ptr \<Rightarrow> u64 \<Rightarrow> int" where
  "memcmp m s1 s2 n = memcmp_loop m s1 s2 (unat n)"

section \<open>Regions\<close>

definition region :: "ptr \<Rightarrow> nat \<Rightarrow> ptr set" where
  "region a n = (\<lambda>i. a + of_nat i) ` {..<n}"

definition bytes_at :: "mem \<Rightarrow> ptr \<Rightarrow> nat \<Rightarrow> u8 list" where
  "bytes_at m a n = map (\<lambda>i. m (a + of_nat i)) [0..<n]"

lemma of_nat_u64_inj:
  "i < 2 ^ 64 \<Longrightarrow> j < 2 ^ 64 \<Longrightarrow> (of_nat i :: u64) = of_nat j \<longleftrightarrow> i = j"
  by (simp add: word_of_nat_eq_iff take_bit_nat_eq_self)

lemma in_region_iff: "n \<le> 2 ^ 64 \<Longrightarrow> x \<in> region a n \<longleftrightarrow> unat (x - a) < n"
proof
  assume n: "n \<le> 2 ^ 64" and "x \<in> region a n"
  then obtain i where "x = a + of_nat i" "i < n" by (auto simp: region_def)
  then show "unat (x - a) < n" using n by (simp add: unat_of_nat)
next
  assume "unat (x - a) < n"
  moreover have "x = a + of_nat (unat (x - a))" by simp
  ultimately show "x \<in> region a n" unfolding region_def by blast
qed

lemma region_0 [simp]: "region a 0 = {}"
  by (simp add: region_def)

lemma region_Suc: "region a (Suc n) = insert (a + of_nat n) (region a n)"
  by (simp add: region_def lessThan_Suc)

lemma region_shift: "region a (Suc n) = insert a (region (a + 1) n)"
  by (simp add: region_def lessThan_Suc_eq_insert_0 image_image ac_simps)

section \<open>Filling\<close>

lemma memset_loop_at: "memset_loop m d c n x = (if x \<in> region d n then c else m x)"
  by (induction n arbitrary: m) (auto simp: region_Suc)

lemma memset_at:
  "memset m d c len x = (if unat (x - d) < unat len then ucast c else m x)"
  using in_region_iff [of "unat len" x d] unat_u64_less [of len]
  by (simp add: memset_def memset_loop_at)

text \<open>
  \<open>memset\<close> writes the low byte of its argument to every byte of the destination, for any length,
  and changes no other byte.
\<close>

theorem memset_correct: "memset m d c len x = (if unat (x - d) < unat len then ucast c else m x)"
  by (rule memset_at)

section \<open>Copying\<close>

lemma copy_bytes_frame:
  "x \<notin> (\<lambda>j. d + of_nat j) ` {i..<i + k} \<Longrightarrow> copy_bytes m d s i k x = m x"
proof (induction k arbitrary: m i)
  case (Suc k)
  then have "x \<notin> (\<lambda>j. d + of_nat j) ` {Suc i..<Suc i + k}" "x \<noteq> d + of_nat i"
    by (auto simp: image_iff)
  with Suc.IH show ?case by simp
qed simp

text \<open>
  The forward loop copies what the source held at the start as long as no destination byte is
  a source byte that is still to be read: the regions do not meet, or the destination lies below.
\<close>

lemma copy_bytes_at:
  assumes "i + k \<le> 2 ^ 64" "i + k \<le> unat (d - s) \<or> d = s" "i \<le> j" "j < i + k"
  shows "copy_bytes m d s i k (d + of_nat j) = m (s + of_nat j)"
  using assms
proof (induction k arbitrary: m i)
  case (Suc k)
  let ?m = "m(d + of_nat i := m (s + of_nat i))"
  have keep: "?m (s + of_nat j) = m (s + of_nat j)"
  proof (cases "i = j")
    case True
    then show ?thesis by auto
  next
    case False
    have "s + of_nat j \<noteq> d + of_nat i"
    proof
      assume e: "s + of_nat j = d + of_nat i"
      then have ds: "d - s = of_nat (j - i)"
        using Suc.prems(3) by (simp add: algebra_simps of_nat_diff)
      have "unat (d - s) = j - i"
        unfolding ds using Suc.prems by (intro unat_of_nat_u64) simp
      moreover have "d \<noteq> s" using False e Suc.prems of_nat_u64_inj [of j i] by auto
      ultimately show False using Suc.prems(2-4) by auto
    qed
    then show ?thesis by simp
  qed
  show ?case
  proof (cases "i = j")
    case True
    have "d + of_nat i \<notin> (\<lambda>j. d + of_nat j) ` {Suc i..<Suc i + k}"
    proof
      assume "d + of_nat i \<in> (\<lambda>j. d + of_nat j) ` {Suc i..<Suc i + k}"
      then obtain l where "l \<in> {Suc i..<Suc i + k}" "(of_nat i :: u64) = of_nat l" by auto
      with Suc.prems(1) show False by (simp add: of_nat_u64_inj)
    qed
    with copy_bytes_frame [of "d + of_nat i" d "Suc i" k ?m s] True show ?thesis by simp
  next
    case False
    then have "copy_bytes ?m d s (Suc i) k (d + of_nat j) = ?m (s + of_nat j)"
      using Suc.prems by (intro Suc.IH) auto
    then show ?thesis using keep by (simp only: copy_bytes.simps)
  qed
qed simp

lemma load32_byte:
  "ucast (load32 m a) = m a" "ucast (drop_bit 8 (load32 m a)) = m (a + 1)"
  "ucast (drop_bit 16 (load32 m a)) = m (a + 2)" "ucast (drop_bit 24 (load32 m a)) = m (a + 3)"
  by (rule bit_word_eqI; auto simp: load32_def bit_simps dest: bit_imp_le_length)+

lemma store_load32:
  "store32 m d (load32 m' s) =
     m(d := m' s, d + 1 := m' (s + 1), d + 2 := m' (s + 2), d + 3 := m' (s + 3))"
  by (simp add: store32_def load32_byte)

text \<open>
  One step of the word loop does what four steps of the byte loop do, when destination and source
  are not one, two or three bytes apart.
\<close>

lemma four_steps:
  fixes D S :: ptr
  assumes "D - S \<notin> {1, 2, 3}"
  shows "(let m1 = m(D := m S); m2 = m1(D + 1 := m1 (S + 1)); m3 = m2(D + 2 := m2 (S + 2))
          in m3(D + 3 := m3 (S + 3))) = store32 m D (load32 m S)"
proof -
  have "S + 1 \<noteq> D" "S + 2 \<noteq> D" "S + 3 \<noteq> D" "S + 2 \<noteq> D + 1" "S + 3 \<noteq> D + 1" "S + 3 \<noteq> D + 2"
    using assms by (auto simp: algebra_simps)
  then show ?thesis by (simp add: store_load32 Let_def)
qed

lemma four_bytes:
  assumes "d - s \<notin> {1, 2, 3 :: u64}"
  shows "copy_bytes m d s n (4 + k) =
    copy_bytes (store32 m (d + of_nat n) (load32 m (s + of_nat n))) d s (n + 4) k"
proof -
  let ?D = "d + of_nat n" and ?S = "s + of_nat n"
  have addr: "x + of_nat (Suc n) = x + of_nat n + 1" "x + of_nat (Suc (Suc n)) = x + of_nat n + 2"
    "x + of_nat (Suc (Suc (Suc n))) = x + of_nat n + 3" for x :: ptr
    by simp_all
  have "?D - ?S \<notin> {1, 2, 3}" using assms by simp
  note steps = four_steps [OF this, of m, unfolded Let_def]
  have "4 + k = Suc (Suc (Suc (Suc k)))" "n + 4 = Suc (Suc (Suc (Suc n)))" by simp_all
  then show ?thesis
    by (simp only: copy_bytes.simps addr steps)
qed

lemma copy_words_bytes:
  "d - s \<notin> {1, 2, 3 :: u64} \<Longrightarrow> copy_words m d s i k = copy_bytes m d s (4 * i) (4 * k)"
proof (induction k arbitrary: m i)
  case (Suc k)
  have "copy_bytes m d s (4 * i) (4 * Suc k) = copy_bytes m d s (4 * i) (4 + 4 * k)" by simp
  with Suc four_bytes [OF Suc.prems, of m "4 * i" "4 * k"] show ?case by (simp add: add.commute)
qed simp

lemma aligned_difference:
  assumes "(d :: u64) mod 4 = 0" "s mod 4 = 0"
  shows "d - s \<notin> {1, 2, 3}"
proof -
  obtain a b where "d = 4 * a" "s = 4 * b"
    using assms by (auto elim!: dvdE)
  then have "d - s = push_bit 2 (a - b)"
    by (simp add: push_bit_eq_mult algebra_simps)
  then have "\<not> bit (d - s) 0" "\<not> bit (d - s) 1"
    by (simp_all only: bit_push_bit_iff) simp_all
  then show ?thesis by auto
qed

lemma memcpy_bytes: "memcpy m d s len = copy_bytes m d s 0 (unat len)"
proof (cases "d mod 4 = 0 \<and> s mod 4 = 0 \<and> len mod 4 = 0")
  case True
  then have "unat (len mod 4) = 0" by simp
  then have "unat len mod 4 = 0" by (simp add: unat_mod)
  then have len: "4 * unat (len div 4) = unat len" by (auto simp: unat_div)
  have "d - s \<notin> {1, 2, 3}" by (rule aligned_difference) (use True in blast)+
  from copy_words_bytes [OF this, of m 0 "unat (len div 4)"] show ?thesis
    using True by (simp only: memcpy_def if_True simp_thms len mult_0_right)
next
  case False
  then show ?thesis by (simp only: memcpy_def if_False)
qed

text \<open>
  C39: the word-at-a-time path that \<open>memcpy\<close> takes on aligned arguments has the same effect as the
  byte loop, overlapping regions included, so \<open>memcpy\<close> is the byte loop on every input.
\<close>

theorem memcpy_is_byte_loop: "memcpy m d s len = copy_bytes m d s 0 (unat len)"
  by (rule memcpy_bytes)

lemma memcpy_correct:
  assumes "unat len \<le> unat (d - s) \<or> d = s"
  shows "memcpy m d s len x = (if unat (x - d) < unat len then m (s + (x - d)) else m x)"
proof (cases "unat (x - d) < unat len")
  case True
  have "copy_bytes m d s 0 (unat len) (d + of_nat (unat (x - d))) = m (s + of_nat (unat (x - d)))"
    using assms True unat_u64_less [of len] by (intro copy_bytes_at) auto
  with True show ?thesis by (simp add: memcpy_bytes)
next
  case False
  have "x \<notin> region d (unat len)"
    using False in_region_iff [of "unat len" x d] unat_u64_less [of len] by simp
  then have "copy_bytes m d s 0 (unat len) x = m x"
    by (intro copy_bytes_frame) (auto simp: region_def)
  with False show ?thesis by (simp add: memcpy_bytes)
qed

lemma bytes_at_memcpy:
  assumes "unat len \<le> unat (d - s) \<or> d = s"
  shows "bytes_at (memcpy m d s len) d (unat len) = bytes_at m s (unat len)"
  using memcpy_correct [OF assms] unat_u64_less [of len]
  by (auto simp: bytes_at_def unat_of_nat_u64 intro!: map_cong)

section \<open>Comparing\<close>

lemma bytes_at_Suc: "bytes_at m x (Suc n) = m x # bytes_at m (x + 1) n"
  unfolding bytes_at_def upt_conv_Cons [OF zero_less_Suc] map_Suc_upt [symmetric]
  by (simp add: ac_simps)

lemma memcmp_loop_eq_0: "memcmp_loop m a b n = 0 \<longleftrightarrow> bytes_at m a n = bytes_at m b n"
proof (induction n arbitrary: a b)
  case (Suc n)
  show ?case using Suc.IH by (auto simp: bytes_at_Suc dest: word_uint_eqI)
qed (simp add: bytes_at_def)

text \<open>
  \<open>memcmp\<close> answers 0 exactly for equal contents, and otherwise the difference of the first two
  bytes that differ, read as unsigned characters.
\<close>

theorem memcmp_correct:
  "(memcmp m a b n = 0 \<longleftrightarrow> bytes_at m a (unat n) = bytes_at m b (unat n)) \<and>
   (memcmp m a b n \<noteq> 0 \<longrightarrow>
     (\<exists>i < unat n. bytes_at m a i = bytes_at m b i \<and>
        memcmp m a b n = uint (m (a + of_nat i)) - uint (m (b + of_nat i))))"
proof -
  have "memcmp_loop m a b k \<noteq> 0 \<Longrightarrow>
     (\<exists>i < k. bytes_at m a i = bytes_at m b i \<and>
        memcmp_loop m a b k = uint (m (a + of_nat i)) - uint (m (b + of_nat i)))" for k
  proof (induction k arbitrary: a b)
    case (Suc k)
    show ?case
    proof (cases "m a = m b")
      case True
      with Suc obtain i where i: "i < k" "bytes_at m (a + 1) i = bytes_at m (b + 1) i"
        "memcmp_loop m (a + 1) (b + 1) k = uint (m (a + 1 + of_nat i)) - uint (m (b + 1 + of_nat i))"
        by fastforce
      from i True show ?thesis
        by (intro exI [of _ "Suc i"]) (simp add: bytes_at_Suc ac_simps)
    qed (auto simp: bytes_at_def intro: exI [of _ 0])
  qed simp
  then show ?thesis by (simp add: memcmp_def memcmp_loop_eq_0)
qed

end
