(* ===== verification/Pmem.thy ===== *)
theory Pmem
  imports Kmem CLib
begin

text \<open>
  Process heaps, \<open>Kernel/system/MemoryManagement/pmem.c\<close>, on the process descriptor of \<open>process.h\<close>,
  and the zeroing allocations \<open>kcalloc\<close> and \<open>pcalloc\<close>. A process heap is a list of chunks like the
  kernel heap, in the block \<open>heap_start\<close>, \<open>heap_size\<close> of the process.
\<close>

section \<open>State and operations\<close>

datatype ProcessState = RUNNING | BLOCKED | READY | ENDED

record process_t =
  heap_start :: ptr
  stack_start :: ptr
  heap_size :: u64
  stack_size :: u64
  heap_node :: chunk_list
  name :: ptr
  pid :: u64
  processState :: ProcessState
  signalHandler :: ptr
  userStack :: ptr
  kernelStack :: ptr
  entryPoint :: ptr

definition heap_limit :: "process_t \<Rightarrow> u64" where
  "heap_limit process = heap_start process + heap_size process"

definition pmalloc :: "process_t \<Rightarrow> u64 \<Rightarrow> (process_t \<times> ptr) option" where
  "pmalloc process sz =
     (case malloc_loop (heap_limit process) sz None (heap_node process) of
        None \<Rightarrow> None
      | Some (cs, p) \<Rightarrow> Some (process\<lparr>heap_node := cs\<rparr>, p))"

definition pfree :: "process_t \<Rightarrow> ptr \<Rightarrow> process_t" where
  "pfree process mem = process\<lparr>heap_node := free_loop mem None (heap_node process)\<rparr>"

definition pinit_heap :: "process_t \<Rightarrow> process_t" where
  "pinit_heap process = process\<lparr>heap_node := init_chunks (heap_start process)\<rparr>"

text \<open>The product is computed in 64 bits, and only a block that was granted is filled with zeros.\<close>

definition kcalloc :: "chunk_list \<Rightarrow> mem \<Rightarrow> u32 \<Rightarrow> u64 \<Rightarrow> (chunk_list \<times> mem \<times> ptr) option" where
  "kcalloc allocated m amount sz =
     (case kmalloc allocated (sz * ucast amount) of
        None \<Rightarrow> None
      | Some (cs, p) \<Rightarrow> Some (cs, if p \<noteq> NULL then memset m p 0 (sz * ucast amount) else m, p))"

definition pcalloc :: "process_t \<Rightarrow> mem \<Rightarrow> u32 \<Rightarrow> u64 \<Rightarrow> (process_t \<times> mem \<times> ptr) option" where
  "pcalloc process m amount sz =
     (case pmalloc process (sz * ucast amount) of
        None \<Rightarrow> None
      | Some (process', p) \<Rightarrow>
          Some (process', if p \<noteq> NULL then memset m p 0 (sz * ucast amount) else m, p))"

text \<open>The entry points of \<open>memlib.c\<close>, through which the system calls reach the process heap.\<close>

definition init_process_heap :: "process_t \<Rightarrow> process_t \<times> u64" where
  "init_process_heap process = (pinit_heap process, 0)"

definition malloc :: "process_t \<Rightarrow> u64 \<Rightarrow> (process_t \<times> ptr) option" where
  "malloc process sz = pmalloc process sz"

text \<open>\<open>pcalloc\<close> takes the amount as a 32-bit number.\<close>

definition calloc :: "process_t \<Rightarrow> mem \<Rightarrow> u64 \<Rightarrow> u64 \<Rightarrow> (process_t \<times> mem \<times> ptr) option" where
  "calloc process m amount sz = pcalloc process m (ucast amount) sz"

definition free :: "process_t \<Rightarrow> ptr \<Rightarrow> process_t \<times> u64" where
  "free process mem = (pfree process mem, 0)"

section \<open>The process heap as an allocator\<close>

definition pheap_inv :: "process_t \<Rightarrow> bool" where
  "pheap_inv process \<longleftrightarrow> heap_limit_ok (heap_limit process) \<and>
     chunks_inv (unat (heap_start process)) (heap_top (heap_limit process)) (heap_node process)"

definition pheap_live :: "process_t \<Rightarrow> ptr \<rightharpoonup> nat" where
  "pheap_live process = chunks_live (heap_node process)"

lemma heap_limit_update [simp]: "heap_limit (process\<lparr>heap_node := cs\<rparr>) = heap_limit process"
  by (simp add: heap_limit_def)

lemma heap_top_less: "heap_limit_ok l \<Longrightarrow> heap_top l < 2 ^ 63"
  by (simp add: heap_limit_ok_def header_size_def)

lemma pinit_heap_inv [inv_intros]:
  assumes "heap_start process \<noteq> NULL" "unat (heap_start process) + unat (heap_size process) < 2 ^ 62"
  shows "pheap_inv (pinit_heap process)"
proof -
  have "unat (heap_limit process) = unat (heap_start process) + unat (heap_size process)"
    unfolding heap_limit_def using assms(2) by (intro unat_plus_no_wrap) simp
  then show ?thesis
    using assms by (simp add: pheap_inv_def pinit_heap_def heap_limit_ok_def chunks_inv_def
        init_chunks_def memory_layout header_size_def unat_gt_0)
qed

lemma pmalloc_cases:
  assumes "pmalloc process n = Some (process', p)"
  obtains cs where "process' = process\<lparr>heap_node := cs\<rparr>"
    "malloc_loop (heap_limit process) n None (heap_node process) = Some (cs, p)"
  using assms by (auto simp: pmalloc_def split: option.splits)

lemma pmalloc_spec:
  assumes "pheap_inv process" "size_ok n" "pmalloc process n = Some (process', p)"
  shows "pheap_inv process' \<and> (if p = NULL then process' = process
     else pheap_live process p = None \<and> pheap_live process' = (pheap_live process)(p \<mapsto> unat n))"
proof -
  obtain cs where cs: "process' = process\<lparr>heap_node := cs\<rparr>"
    "malloc_loop (heap_limit process) n None (heap_node process) = Some (cs, p)"
    using assms(3) by (rule pmalloc_cases)
  show ?thesis
    using malloc_spec [OF _ _ assms(2) cs(2)] assms(1) cs(1) by (auto simp: pheap_inv_def pheap_live_def)
qed

lemma pfree_spec:
  assumes "pheap_inv process" "p \<in> dom (pheap_live process)"
  shows "pheap_inv (pfree process p) \<and> pheap_live (pfree process p) = (pheap_live process)(p := None)"
  using assms free_spec [OF _ heap_top_less, of "unat (heap_start process)" _ "heap_node process" p]
  by (auto simp: pheap_inv_def pheap_live_def pfree_def)

lemma pheap_apart: "pheap_inv process \<Longrightarrow> blocks_apart (pheap_live process)"
  unfolding pheap_inv_def pheap_live_def using chunks_live_apart by blast

interpretation pheap: allocator pheap_inv pheap_live size_ok pmalloc pfree
proof unfold_locales
  fix s s' n p
  assume a: "pheap_inv s" "size_ok n" "pmalloc s n = Some (s', p)" "p \<noteq> NULL"
  then show "pheap_live s p = None \<and> (\<exists>m\<ge>unat n. pheap_live s' = (pheap_live s)(p \<mapsto> m))"
    using pmalloc_spec [OF a(1-3)] by auto
next
  fix s s' n
  assume a: "pheap_inv s" "size_ok n" "pmalloc s n = Some (s', NULL)"
  then show "pheap_live s' = pheap_live s" using pmalloc_spec [OF a] by simp
qed (blast dest: pmalloc_spec pfree_spec intro: pheap_apart)+

section \<open>Properties\<close>

lemma pheap_live_bounds:
  assumes "pheap_inv process" "pheap_live process p = Some n"
  shows "unat (heap_start process) \<le> unat p \<and> unat p + n \<le> heap_top (heap_limit process)"
  using assms by (auto simp: pheap_inv_def pheap_live_def chunks_inv_def live_lookup)

text \<open>
  C22: what a process does with its own heap. Starting from \<open>pinit_heap\<close> on a block that does not wrap
  around, any sequence of \<open>pmalloc\<close> and \<open>pfree\<close> on blocks it owns keeps its blocks disjoint from each
  other and from the header at \<open>heap_start\<close>, inside the heap block but for the 40 bytes the limit test
  forgets, and leaks nothing.
\<close>

theorem process_heap_history:
  assumes "heap_start process \<noteq> NULL"
    and "unat (heap_start process) + unat (heap_size process) < 2 ^ 62"
    and "client_run pmalloc pfree size_ok (pinit_heap process) process' own"
  shows "blocks_apart (pheap_live process') \<and>
    dom (pheap_live process') = insert (heap_start process) own \<and> heap_start process \<notin> own \<and>
    (\<forall>p n. pheap_live process' p = Some n \<longrightarrow>
       unat (heap_start process') \<le> unat p \<and> unat p + n \<le> unat (heap_limit process') + 40)"
proof -
  have inv: "pheap_inv (pinit_heap process)" using assms(1,2) by (rule pinit_heap_inv)
  have "dom (pheap_live (pinit_heap process)) = {heap_start process}"
    by (simp add: pheap_live_def pinit_heap_def init_chunks_def)
  then show ?thesis
    using pheap.client_run_inv [OF assms(3) inv] pheap.client_blocks_apart [OF assms(3) inv]
      pheap_live_bounds [of process'] by (auto simp: header_size_def)
qed

definition sample_process :: process_t where
  "sample_process =
     \<lparr>heap_start = 0x601400, stack_start = 0x602800, heap_size = 4096, stack_size = 4096,
      heap_node = [], name = 0, pid = 1, processState = READY, signalHandler = 0,
      userStack = 0, kernelStack = 0, entryPoint = 0x400000\<rparr>"

lemma sample_process_malloc:
  "pmalloc (pinit_heap sample_process) 1000 =
     Some (sample_process\<lparr>heap_node :=
       init_chunks 0x601400 @ [\<lparr>start = 0x601450, chunk_size = 1000, used = True\<rparr>]\<rparr>, 0x601450)"
  by (simp add: pmalloc_def pinit_heap_def sample_process_def init_chunks_def heap_limit_def
      memory_layout Let_def)

theorem process_heap_history_witness:
  "\<exists>process process' own. own \<noteq> {} \<and>
     client_run pmalloc pfree size_ok (pinit_heap process) process' own \<and> blocks_apart (pheap_live process')"
proof -
  have s: "size_ok 1000" by (simp add: size_ok_def)
  have run: "client_run pmalloc pfree size_ok (pinit_heap sample_process)
     (sample_process\<lparr>heap_node :=
       init_chunks 0x601400 @ [\<lparr>start = 0x601450, chunk_size = 1000, used = True\<rparr>]\<rparr>) {0x601450}"
    using s sample_process_malloc by (rule client_run_first) simp
  have h: "heap_start sample_process \<noteq> NULL"
    "unat (heap_start sample_process) + unat (heap_size sample_process) < 2 ^ 62"
    by (simp_all add: sample_process_def)
  from process_heap_history [OF h run] run show ?thesis by blast
qed

text \<open>
  a successful \<open>pcalloc\<close> is a \<open>pmalloc\<close> of the product whose block reads as zeros; no byte outside
  the block changes, and a refused one changes no byte at all.
\<close>

theorem pcalloc_correct:
  assumes "pcalloc process m amount sz = Some (process', m', p)"
  shows "pmalloc process (sz * ucast amount) = Some (process', p) \<and>
    (if p = NULL then m' = m
     else \<forall>x. m' x = (if unat (x - p) < unat (sz * ucast amount) then 0 else m x))"
  using assms by (auto simp: pcalloc_def memset_at split: option.splits if_splits)

theorem pcalloc_correct_witness:
  "\<exists>process' m' p. pcalloc (pinit_heap sample_process) (\<lambda>_. 7) 10 100 = Some (process', m', p) \<and>
     p \<noteq> NULL \<and> m' p = 0"
proof -
  obtain process' m' p where r: "pcalloc (pinit_heap sample_process) (\<lambda>_. 7) 10 100 = Some (process', m', p)"
    "p \<noteq> NULL"
    using sample_process_malloc by (auto simp: pcalloc_def split: option.splits)
  from pcalloc_correct [OF r(1)] r show ?thesis by auto
qed

end
