(* ===== verification/Shared.thy ===== *)
theory Shared
  imports Memlib
begin

text \<open>
  Shared memory, \<open>Kernel/system/sharedMemory/shared.c\<close>: a table of named blocks that processes open by
  name, attach by identifier and detach by address. A table entry is a structure \<open>kmalloc\<close> provides; the
  model keeps its address and, beside the pointer to the name, the bytes \<open>strcpy\<close> stored there, which no
  other code writes. \<open>None\<close> stands for a step that faults or does not return.
\<close>

section \<open>State and operations\<close>

record mem_shared_t =
  self :: ptr
  shm_start :: ptr
  name_ptr :: ptr
  shm_name :: "u8 list"
  sim_access :: u64

record shared =
  shm_memory :: memory
  current :: u64
  mems :: "mem_shared_t option list"

definition MAX_SHBLOCKS :: nat where
  "MAX_SHBLOCKS = 10"

definition sizeof_mem_shared_t :: u64 where
  "sizeof_mem_shared_t = 24"

definition init_shared :: "memory \<Rightarrow> shared" where
  "init_shared m = \<lparr>shm_memory = m, current = 1, mems = replicate MAX_SHBLOCKS None\<rparr>"

text \<open>The scan of \<open>shmget\<close>: the slot of the given name, or else the last empty one before \<open>current\<close>.\<close>

fun find_slot :: "u8 list \<Rightarrow> u64 \<Rightarrow> u64 \<Rightarrow> mem_shared_t option list \<Rightarrow> u64 \<times> bool" where
  "find_slot nm j pos [] = (pos, False)"
| "find_slot nm j pos (None # ms) = find_slot nm (j + 1) j ms"
| "find_slot nm j pos (Some m # ms) =
     (if shm_name m = nm then (j, True) else find_slot nm (j + 1) pos ms)"

definition freeSpace :: "shared \<Rightarrow> bool" where
  "freeSpace s \<longleftrightarrow> None \<in> set (take (unat (current s)) (mems s))"

text \<open>
  \<open>None\<close> as a name is the NULL pointer; \<open>size < 0\<close> never holds of an unsigned size. Only the first of the two
  structures is tested for NULL: \<open>strcpy\<close> writes through the second as it is.
\<close>

definition new_entry :: "memory \<Rightarrow> u8 list \<Rightarrow> u64 \<Rightarrow> (memory \<times> mem_shared_t option) option" where
  "new_entry mem nm sz =
     (case kmalloc (kheap mem) sizeof_mem_shared_t of
        None \<Rightarrow> None
      | Some (h1, aux) \<Rightarrow>
          if aux = NULL then Some (mem\<lparr>kheap := h1\<rparr>, None)
          else case kmalloc h1 (of_nat (length nm) + 1) of
                 None \<Rightarrow> None
               | Some (h2, np) \<Rightarrow>
                   if np = NULL then None
                   else (case get_memblock (mem\<lparr>kheap := h2\<rparr>) sz of
                      None \<Rightarrow> None
                    | Some (mem', p) \<Rightarrow>
                        Some (mem', Some \<lparr>self = aux, shm_start = p, name_ptr = np, shm_name = nm, sim_access = 0\<rparr>)))"

definition shmget :: "shared \<Rightarrow> u8 list option \<Rightarrow> u64 \<Rightarrow> bool \<Rightarrow> (shared \<times> u64) option" where
  "shmget s nm_ptr sz overwrite =
     (if current s = of_nat MAX_SHBLOCKS then Some (s, minus_one)
      else case nm_ptr of
        None \<Rightarrow> Some (s, minus_one)
      | Some nm \<Rightarrow>
          (case find_slot nm 0 minus_one (take (unat (current s)) (mems s)) of
             (pos, equals) \<Rightarrow>
               if pos = minus_one then Some (s, minus_one)
               else
                 let id' = pos + 1;
                     finish = (\<lambda>s'. Some (if \<not> equals \<and> \<not> freeSpace s'
                                         then s'\<lparr>current := current s' + 1\<rparr> else s', id'))
                 in if overwrite \<or> (\<not> overwrite \<and> \<not> equals)
                    then (case new_entry (shm_memory s) nm sz of
                            None \<Rightarrow> None
                          | Some (mem', None) \<Rightarrow> Some (s\<lparr>shm_memory := mem'\<rparr>, minus_one)
                          | Some (mem', Some e) \<Rightarrow>
                              finish (s\<lparr>shm_memory := mem', mems := (mems s)[unat pos := Some e]\<rparr>))
                    else finish s))"

definition shmat :: "shared \<Rightarrow> u64 \<Rightarrow> shared \<times> ptr" where
  "shmat s shmid =
     (if shmid \<le> 0 then (s, NULL)
      else let i = shmid - 1
           in if i \<ge> current s then (s, NULL)
              else case mems s ! unat i of
                     None \<Rightarrow> (s, NULL)
                   | Some m \<Rightarrow>
                       (s\<lparr>mems := (mems s)[unat i := Some (m\<lparr>sim_access := sim_access m + 1\<rparr>)]\<rparr>, shm_start m))"

text \<open>The entries are freed in the order block, name, structure.\<close>

definition free_entry :: "memory \<Rightarrow> mem_shared_t \<Rightarrow> memory option" where
  "free_entry mem m =
     (case free_memblock mem (shm_start m) of
        None \<Rightarrow> None
      | Some (mem', rt) \<Rightarrow> Some (mem'\<lparr>kheap := kfree (kfree (kheap mem') (name_ptr m)) (self m)\<rparr>))"

fun detach_loop ::
  "memory \<Rightarrow> ptr \<Rightarrow> mem_shared_t option list \<Rightarrow> (memory \<times> mem_shared_t option list \<times> u32) option" where
  "detach_loop mem address [] = Some (mem, [], - 1)"
| "detach_loop mem address (None # ms) =
     map_option (\<lambda>(mem', ms', rt). (mem', None # ms', rt)) (detach_loop mem address ms)"
| "detach_loop mem address (Some m # ms) =
     (if shm_start m = address
      then let m' = m\<lparr>sim_access := sim_access m - 1\<rparr>
           in if sim_access m' = 0
              then map_option (\<lambda>mem'. (mem', None # ms, 0)) (free_entry mem m')
              else map_option (\<lambda>(mem', ms', rt). (mem', Some m' # ms', rt)) (detach_loop mem address ms)
      else map_option (\<lambda>(mem', ms', rt). (mem', Some m # ms', rt)) (detach_loop mem address ms))"

definition shmdetach :: "shared \<Rightarrow> ptr \<Rightarrow> (shared \<times> u32) option" where
  "shmdetach s address =
     map_option
       (\<lambda>(mem', ms', rt). (s\<lparr>shm_memory := mem', mems := ms' @ drop (unat (current s)) (mems s)\<rparr>, rt))
       (detach_loop (shm_memory s) address (take (unat (current s)) (mems s)))"

section \<open>The memory of the entries\<close>

text \<open>What is live in the kernel heap besides the nodes of the buddy tree.\<close>

definition kowned :: "memory \<Rightarrow> ptr \<rightharpoonup> nat" where
  "kowned mem = others (kheap mem) (the (buddy_head mem))"

lemma kmalloc_owned:
  assumes "memory_inv mem" "size_ok n" "kmalloc (kheap mem) n = Some (h, p)" "p \<noteq> NULL"
  shows "memory_inv (mem\<lparr>kheap := h\<rparr>)" "kowned mem p = None" "kowned (mem\<lparr>kheap := h\<rparr>) = (kowned mem)(p \<mapsto> unat n)"
    and "memory_live (mem\<lparr>kheap := h\<rparr>) = memory_live mem"
proof -
  obtain t len where t: "buddy_head mem = Some t" "len < 2 ^ 30" "node_ok 0 len t" "coalesced t"
    "tree_heap (kheap mem) t" using assms(1) by (rule memory_invE)
  have inv: "kheap_inv (kheap mem)" using t(5) by (simp add: tree_heap_def)
  note k = kmalloc_inv [OF inv assms(2,3)] kmalloc_live [OF inv assms(2,3)]
  have live: "chunks_live (kheap mem) p = None" "chunks_live h = (chunks_live (kheap mem))(p \<mapsto> unat n)"
    using k(2) assms(4) by auto
  have p: "p \<notin> set (node_ptrs t)" using live(1) t(5) by (auto simp: tree_heap_def)
  have "tree_heap h t" using t(5) k(1) live p by (auto simp: tree_heap_def)
  then show "memory_inv (mem\<lparr>kheap := h\<rparr>)" using t by (auto simp: memory_inv_def)
  show "kowned mem p = None" using live(1) t(1) by (simp add: kowned_def others_def restrict_map_def)
  show "kowned (mem\<lparr>kheap := h\<rparr>) = (kowned mem)(p \<mapsto> unat n)"
    using live(2) p t(1) by (auto simp: kowned_def others_def restrict_map_def fun_eq_iff)
  show "memory_live (mem\<lparr>kheap := h\<rparr>) = memory_live mem" by (simp add: memory_live_def fun_eq_iff)
qed

lemma kfree_owned:
  assumes "memory_inv mem" "kowned mem p = Some n"
  shows "memory_inv (mem\<lparr>kheap := kfree (kheap mem) p\<rparr>)"
    "kowned (mem\<lparr>kheap := kfree (kheap mem) p\<rparr>) = (kowned mem)(p := None)"
    "memory_live (mem\<lparr>kheap := kfree (kheap mem) p\<rparr>) = memory_live mem"
proof -
  obtain t len where t: "buddy_head mem = Some t" "len < 2 ^ 30" "node_ok 0 len t" "coalesced t"
    "tree_heap (kheap mem) t" using assms(1) by (rule memory_invE)
  have p: "p \<notin> set (node_ptrs t)" "chunks_live (kheap mem) p = Some n"
    using assms(2) t(1) by (auto simp: kowned_def others_def restrict_map_def split: if_splits)
  have inv: "kheap_inv (kheap mem)" using t(5) by (simp add: tree_heap_def)
  note k = kfree_block [OF inv p(2)]
  have "tree_heap (kfree (kheap mem) p) t" using t(5) k p(1) by (auto simp: tree_heap_def)
  then show "memory_inv (mem\<lparr>kheap := kfree (kheap mem) p\<rparr>)" using t by (auto simp: memory_inv_def)
  show "kowned (mem\<lparr>kheap := kfree (kheap mem) p\<rparr>) = (kowned mem)(p := None)"
    using k t(1) by (auto simp: kowned_def others_def restrict_map_def fun_eq_iff)
  show "memory_live (mem\<lparr>kheap := kfree (kheap mem) p\<rparr>) = memory_live mem" by (simp add: memory_live_def fun_eq_iff)
qed

lemma get_memblock_owned:
  assumes "memory_inv mem" "get_memblock mem sz = Some (mem', p)"
  shows "kowned mem' = kowned mem"
  using assms by (cases rule: get_memblock_cases) (simp_all add: kowned_def)

lemma free_memblock_owned:
  assumes "memory_inv mem" "free_memblock mem p = Some (mem', rt)"
  shows "memory_inv mem' \<and> kowned mem' = kowned mem \<and> memory_live mem' = (memory_live mem)(p := None)"
  using assms
proof (cases rule: free_memblock_cases)
  case below
  then show ?thesis using assms(1) by (auto simp: memory_live_def fun_eq_iff split: option.splits)
next
  case (tree n h n')
  then show ?thesis by (simp add: kowned_def)
qed

section \<open>The invariant of the table\<close>

fun entries :: "mem_shared_t option list \<Rightarrow> mem_shared_t list" where
  "entries [] = []"
| "entries (None # ms) = entries ms"
| "entries (Some e # ms) = e # entries ms"

lemma entries_append [simp]: "entries (xs @ ys) = entries xs @ entries ys"
  by (induction xs rule: entries.induct) auto

lemma in_entries: "e \<in> set (entries ms) \<longleftrightarrow> Some e \<in> set ms"
  by (induction ms rule: entries.induct) auto

lemma entries_sub:
  "set (entries (take k ms)) \<subseteq> set (entries ms)" "set (entries (drop k ms)) \<subseteq> set (entries ms)"
  by (metis append_take_drop_id entries_append set_append Un_upper1 Un_upper2)+

definition entry_ok :: "memory \<Rightarrow> mem_shared_t \<Rightarrow> bool" where
  "entry_ok mem e \<longleftrightarrow>
     kowned mem (self e) = Some 24 \<and> kowned mem (name_ptr e) = Some (length (shm_name e) + 1) \<and>
     (shm_start e \<noteq> NULL \<longrightarrow> shm_start e \<in> dom (memory_live mem))"

definition entries_apart :: "mem_shared_t list \<Rightarrow> bool" where
  "entries_apart es \<longleftrightarrow> distinct (concat (map (\<lambda>e. [self e, name_ptr e]) es)) \<and>
     distinct (filter (\<lambda>p. p \<noteq> NULL) (map shm_start es)) \<and> distinct (map shm_name es)"

definition differ :: "mem_shared_t \<Rightarrow> mem_shared_t \<Rightarrow> bool" where
  "differ e x \<longleftrightarrow> {self x, name_ptr x} \<inter> {self e, name_ptr e} = {} \<and>
     (shm_start e \<noteq> NULL \<longrightarrow> shm_start x \<noteq> shm_start e) \<and> shm_name x \<noteq> shm_name e"

lemma entries_apart_mid:
  "entries_apart (xs @ e # ys) \<longleftrightarrow>
     entries_apart (xs @ ys) \<and> self e \<noteq> name_ptr e \<and> (\<forall>x \<in> set xs \<union> set ys. differ e x)"
proof -
  let ?f = "\<lambda>e. [self e, name_ptr e]"
  have "distinct (concat (map ?f (xs @ e # ys))) \<longleftrightarrow> distinct (concat (map ?f (xs @ ys))) \<and>
      self e \<noteq> name_ptr e \<and> (\<forall>x \<in> set xs \<union> set ys. {self x, name_ptr x} \<inter> {self e, name_ptr e} = {})"
    by auto
  moreover have "distinct (filter (\<lambda>p. p \<noteq> NULL) (map shm_start (xs @ e # ys))) \<longleftrightarrow>
      distinct (filter (\<lambda>p. p \<noteq> NULL) (map shm_start (xs @ ys))) \<and>
      (\<forall>x \<in> set xs \<union> set ys. shm_start e \<noteq> NULL \<longrightarrow> shm_start x \<noteq> shm_start e)"
    by (auto simp: image_iff) (metis, metis)?
  moreover have "distinct (map shm_name (xs @ e # ys)) \<longleftrightarrow> distinct (map shm_name (xs @ ys)) \<and>
      (\<forall>x \<in> set xs \<union> set ys. shm_name x \<noteq> shm_name e)"
    by (auto simp: image_iff) (metis, metis)?
  ultimately show ?thesis unfolding entries_apart_def differ_def by blast
qed

text \<open>
  While \<open>current\<close> is below its limit there is an empty slot before it, so the scan of \<open>shmget\<close> never
  runs out of slots; the slots from \<open>current\<close> on are empty.
\<close>

definition shared_inv :: "shared \<Rightarrow> bool" where
  "shared_inv s \<longleftrightarrow> memory_inv (shm_memory s) \<and> length (mems s) = MAX_SHBLOCKS \<and>
     1 \<le> unat (current s) \<and> unat (current s) \<le> MAX_SHBLOCKS \<and>
     set (drop (unat (current s)) (mems s)) \<subseteq> {None} \<and> (unat (current s) < MAX_SHBLOCKS \<longrightarrow> freeSpace s) \<and>
     (\<forall>e \<in> set (entries (mems s)). entry_ok (shm_memory s) e) \<and> entries_apart (entries (mems s))"

lemma init_shared_inv: "memory_inv m \<Longrightarrow> shared_inv (init_shared m)"
  by (simp add: shared_inv_def init_shared_def MAX_SHBLOCKS_def numeral_eq_Suc freeSpace_def entries_apart_def)

lemma slot_split:
  assumes "i < length ms"
  shows "ms = take i ms @ ms ! i # drop (Suc i) ms" "ms[i := x] = take i ms @ x # drop (Suc i) ms"
  using assms by (simp_all add: id_take_nth_drop upd_conv_take_nth_drop)

lemma free_entry_spec:
  assumes "memory_inv mem" "entry_ok mem e" "self e \<noteq> name_ptr e"
  shows "\<exists>mem'. free_entry mem e = Some mem' \<and> memory_inv mem' \<and>
    kowned mem' = (kowned mem)(name_ptr e := None, self e := None) \<and>
    memory_live mem' = (memory_live mem)(shm_start e := None)"
proof -
  obtain m1 rt where m1: "free_memblock mem (shm_start e) = Some (m1, rt)"
    using free_memblock_defined [OF assms(1)] by blast
  note f1 = free_memblock_owned [OF assms(1) m1]
  let ?m2 = "m1\<lparr>kheap := kfree (kheap m1) (name_ptr e)\<rparr>"
  have "kowned m1 (name_ptr e) = Some (length (shm_name e) + 1)" using f1 assms(2) by (simp add: entry_ok_def)
  note f2 = kfree_owned [OF f1 [THEN conjunct1] this]
  have "kowned ?m2 (self e) = Some 24" using f1 f2(2) assms(2,3) by (simp add: entry_ok_def)
  note f3 = kfree_owned [OF f2(1) this]
  have "free_entry mem e = Some (?m2\<lparr>kheap := kfree (kheap ?m2) (self e)\<rparr>)"
    using m1 by (simp add: free_entry_def)
  then show ?thesis using f1 f2 f3 by auto
qed

lemma entry_ok_mono:
  assumes "entry_ok mem e" "kowned mem (self e) = kowned mem' (self e)" "kowned mem (name_ptr e) = kowned mem' (name_ptr e)"
    "shm_start e \<noteq> NULL \<Longrightarrow> memory_live mem (shm_start e) = memory_live mem' (shm_start e)"
  shows "entry_ok mem' e"
  using assms by (auto simp: entry_ok_def domIff)

section \<open>Detaching\<close>

lemma detach_loop_none:
  "\<forall>e \<in> set (entries ms). shm_start e \<noteq> a \<Longrightarrow> detach_loop mem a ms = Some (mem, ms, - 1)"
  by (induction ms rule: entries.induct) auto

lemma detach_loop_skip:
  "\<forall>e \<in> set (entries xs). shm_start e \<noteq> a \<Longrightarrow>
     detach_loop mem a (xs @ ys) = map_option (\<lambda>(mem', ms', rt). (mem', xs @ ms', rt)) (detach_loop mem a ys)"
  by (induction xs rule: entries.induct) (auto simp: option.map_comp comp_def split_def option.map_ident)

lemma shared_entry:
  assumes "shared_inv s" "i < MAX_SHBLOCKS" "mems s ! i = Some e"
  shows "i < unat (current s)" "entry_ok (shm_memory s) e" "self e \<noteq> name_ptr e"
    and "\<And>x. entries ((mems s)[i := x]) =
      entries (take i (mems s)) @ entries [x] @ entries (drop (Suc i) (mems s))"
    and "entries (mems s) = entries (take i (mems s)) @ e # entries (drop (Suc i) (mems s))"
    and "\<forall>x \<in> set (entries (take i (mems s))) \<union> set (entries (drop (Suc i) (mems s))). differ e x"
    and "entries_apart (entries (take i (mems s)) @ entries (drop (Suc i) (mems s)))"
proof -
  have i: "i < length (mems s)" using assms(1,2) by (simp add: shared_inv_def)
  note sp = slot_split [OF i]
  show "entries ((mems s)[i := x]) = entries (take i (mems s)) @ entries [x] @ entries (drop (Suc i) (mems s))" for x
    unfolding sp(2) by (cases x) simp_all
  show all: "entries (mems s) = entries (take i (mems s)) @ e # entries (drop (Suc i) (mems s))"
    using sp(1) assms(3) by (metis entries.simps(3) entries_append)
  show "i < unat (current s)"
  proof (rule ccontr)
    assume "\<not> i < unat (current s)"
    then have "mems s ! i \<in> set (drop (unat (current s)) (mems s))"
      using i by (auto simp: in_set_conv_nth intro!: exI [of _ "i - unat (current s)"])
    with assms(1,3) show False by (auto simp: shared_inv_def)
  qed
  show "entry_ok (shm_memory s) e" "self e \<noteq> name_ptr e"
    "\<forall>x \<in> set (entries (take i (mems s))) \<union> set (entries (drop (Suc i) (mems s))). differ e x"
    "entries_apart (entries (take i (mems s)) @ entries (drop (Suc i) (mems s)))"
    using assms(1) unfolding shared_inv_def all entries_apart_mid by auto
qed

lemma shared_take_drop:
  "i < n \<Longrightarrow> take n (xs[i := x]) @ drop n xs = xs[i := x]"
  by (metis append_take_drop_id drop_update_cancel)

lemma detach_found:
  assumes "shared_inv s" "i < MAX_SHBLOCKS" "mems s ! i = Some e" "shm_start e \<noteq> NULL"
  shows "shmdetach s (shm_start e) =
    (if sim_access e = 1
     then map_option (\<lambda>mem'. (s\<lparr>shm_memory := mem', mems := (mems s)[i := None]\<rparr>, 0))
            (free_entry (shm_memory s) (e\<lparr>sim_access := 0\<rparr>))
     else Some (s\<lparr>mems := (mems s)[i := Some (e\<lparr>sim_access := sim_access e - 1\<rparr>)]\<rparr>, - 1))"
proof -
  note sh = shared_entry [OF assms(1-3)]
  let ?n = "unat (current s)" and ?a = "shm_start e"
  let ?m = "take ?n (mems s)"
  have i: "i < length ?m" using sh(1) assms(1,2) by (simp add: shared_inv_def)
  have m: "?m = take i (mems s) @ Some e # drop (Suc i) ?m"
    using slot_split(1) [OF i] sh(1) assms(3) by (simp add: min_def)
  have "set (entries (drop (Suc i) ?m)) \<subseteq> set (entries (drop (Suc i) (mems s)))"
    unfolding drop_take by (rule entries_sub(1))
  with sh(6) assms(4) have other: "\<forall>x \<in> set (entries (take i (mems s))). shm_start x \<noteq> ?a"
    "\<forall>x \<in> set (entries (drop (Suc i) ?m)). shm_start x \<noteq> ?a"
    by (auto simp: differ_def)
  have whole: "take i (mems s) @ x # drop (Suc i) ?m @ drop ?n (mems s) = (mems s)[i := x]" for x
  proof -
    have "take i (mems s) @ x # drop (Suc i) ?m = ?m[i := x]"
      using slot_split(2) [OF i, of x] sh(1) by (simp add: min_def)
    also have "\<dots> = take ?n ((mems s)[i := x])" by (simp add: take_update_swap)
    finally show ?thesis
      using shared_take_drop [OF sh(1), of "mems s" x] by (metis append.assoc append_Cons)
  qed
  have one: "sim_access e - 1 = 0 \<longleftrightarrow> sim_access e = 1" by auto
  have "detach_loop (shm_memory s) ?a ?m =
      (if sim_access e = 1
       then map_option (\<lambda>mem'. (mem', take i (mems s) @ None # drop (Suc i) ?m, 0))
              (free_entry (shm_memory s) (e\<lparr>sim_access := 0\<rparr>))
       else Some (shm_memory s, take i (mems s) @ Some (e\<lparr>sim_access := sim_access e - 1\<rparr>) # drop (Suc i) ?m, - 1))"
    by (subst m, subst detach_loop_skip [OF other(1)])
      (use detach_loop_none [OF other(2)] one in \<open>auto simp: Let_def option.map_comp comp_def\<close>)
  then show ?thesis
    unfolding shmdetach_def using whole by (simp add: option.map_comp comp_def)
qed

lemma detach_absent:
  assumes "shared_inv s" "\<forall>e \<in> set (entries (mems s)). shm_start e \<noteq> a"
  shows "shmdetach s a = Some (s, - 1)"
proof -
  have "\<forall>e \<in> set (entries (take (unat (current s)) (mems s))). shm_start e \<noteq> a"
    using assms(2) entries_sub(1) by blast
  from detach_loop_none [OF this] show ?thesis by (simp add: shmdetach_def)
qed

section \<open>The invariant under attaching and detaching\<close>

lemma freeSpace_iff:
  "unat (current s) \<le> length (mems s) \<Longrightarrow> freeSpace s \<longleftrightarrow> (\<exists>i < unat (current s). mems s ! i = None)"
  by (auto simp: freeSpace_def in_set_conv_nth)

lemma shared_bounds: "shared_inv s \<Longrightarrow> unat (current s) \<le> length (mems s)"
  by (simp add: shared_inv_def)

lemma current_of_nat: "current s = of_nat MAX_SHBLOCKS \<longleftrightarrow> unat (current s) = MAX_SHBLOCKS"
  by (simp add: MAX_SHBLOCKS_def word_unat_eq_iff)

text \<open>An entry is replaced by one with the same pointers and name, or taken out.\<close>

lemma retag_entry_inv:
  assumes "shared_inv s" "i < MAX_SHBLOCKS" "mems s ! i = Some e"
  shows "shared_inv (s\<lparr>mems := (mems s)[i := Some (e\<lparr>sim_access := k\<rparr>)]\<rparr>)"
proof -
  note sh = shared_entry [OF assms]
  let ?s = "s\<lparr>mems := (mems s)[i := Some (e\<lparr>sim_access := k\<rparr>)]\<rparr>"
  have e: "entries (mems ?s) = entries (take i (mems s)) @ (e\<lparr>sim_access := k\<rparr>) # entries (drop (Suc i) (mems s))"
    using sh(4) by simp
  have "freeSpace s \<Longrightarrow> freeSpace ?s"
    using shared_bounds [OF assms(1)] assms(3) by (auto simp: freeSpace_iff) (metis nth_list_update_neq option.distinct(1))
  moreover have "entry_ok (shm_memory s) (e\<lparr>sim_access := k\<rparr>)" using sh(2) by (simp add: entry_ok_def)
  moreover have "entries_apart (entries (mems ?s)) = entries_apart (entries (mems s))"
    unfolding e sh(5) by (simp add: entries_apart_def)
  ultimately show ?thesis
    using assms(1) sh(1) unfolding shared_inv_def e by (auto simp: sh(5))
qed

lemma clear_entry_inv:
  assumes "shared_inv s" "i < MAX_SHBLOCKS" "mems s ! i = Some e" "shm_start e \<noteq> NULL"
    and "memory_inv mem'" "kowned mem' = (kowned (shm_memory s))(name_ptr e := None, self e := None)"
    and "memory_live mem' = (memory_live (shm_memory s))(shm_start e := None)"
  shows "shared_inv (s\<lparr>shm_memory := mem', mems := (mems s)[i := None]\<rparr>)"
proof -
  note sh = shared_entry [OF assms(1-3)]
  let ?s = "s\<lparr>shm_memory := mem', mems := (mems s)[i := None]\<rparr>"
  have e: "entries (mems ?s) = entries (take i (mems s)) @ entries (drop (Suc i) (mems s))"
    using sh(4) by simp
  have "freeSpace ?s"
    using sh(1) shared_bounds [OF assms(1)] by (auto simp: freeSpace_iff nth_list_update intro!: exI [of _ i])
  moreover have "entries_apart (entries (mems ?s))" unfolding e by (rule sh(7))
  moreover have "entry_ok mem' x" if "x \<in> set (entries (mems ?s))" for x
  proof (rule entry_ok_mono [of "shm_memory s"])
    show "entry_ok (shm_memory s) x" using that assms(1) unfolding shared_inv_def e sh(5) by auto
    have d: "differ e x" using that sh(6) unfolding e by auto
    then show "kowned (shm_memory s) (self x) = kowned mem' (self x)"
      "kowned (shm_memory s) (name_ptr x) = kowned mem' (name_ptr x)"
      "shm_start x \<noteq> NULL \<Longrightarrow> memory_live (shm_memory s) (shm_start x) = memory_live mem' (shm_start x)"
      using assms(4) unfolding assms(6,7) differ_def by auto
  qed
  ultimately show ?thesis
    using assms(1,5) sh(1) unfolding shared_inv_def by auto
qed

lemma shmat_inv: "shared_inv s \<Longrightarrow> shared_inv (fst (shmat s k))"
proof -
  assume inv: "shared_inv s"
  have "unat (k - 1) < MAX_SHBLOCKS" if "\<not> k - 1 \<ge> current s"
    using that inv by (simp add: shared_inv_def word_le_nat_alt)
  then show ?thesis
    using inv retag_entry_inv [OF inv, of "unat (k - 1)"]
    by (auto simp: shmat_def Let_def split: option.split)
qed

lemma entry_index:
  assumes "shared_inv s" "e \<in> set (entries (mems s))"
  obtains i where "i < MAX_SHBLOCKS" "mems s ! i = Some e"
proof -
  have "Some e \<in> set (mems s)" using assms(2) by (simp add: in_entries)
  then obtain i where "i < length (mems s)" "mems s ! i = Some e" by (auto simp: in_set_conv_nth)
  then show thesis using assms(1) by (intro that) (simp_all add: shared_inv_def)
qed

lemma shmdetach_inv:
  assumes "shared_inv s" "a \<noteq> NULL"
  shows "\<exists>s' rt. shmdetach s a = Some (s', rt) \<and> shared_inv s'"
proof (cases "\<exists>e \<in> set (entries (mems s)). shm_start e = a")
  case False
  with detach_absent [OF assms(1)] assms(1) show ?thesis by auto
next
  case True
  then obtain e i where e: "shm_start e = a" "i < MAX_SHBLOCKS" "mems s ! i = Some e"
    using entry_index [OF assms(1)] by metis
  note sh = shared_entry [OF assms(1) e(2,3)]
  have a: "shm_start e \<noteq> NULL" using e(1) assms(2) by simp
  note found = detach_found [OF assms(1) e(2,3) a]
  show ?thesis
  proof (cases "sim_access e = 1")
    case True
    have "memory_inv (shm_memory s)" "entry_ok (shm_memory s) (e\<lparr>sim_access := 0\<rparr>)"
      "self (e\<lparr>sim_access := 0\<rparr>) \<noteq> name_ptr (e\<lparr>sim_access := 0\<rparr>)"
      using assms(1) sh(2,3) by (simp_all add: shared_inv_def entry_ok_def)
    from free_entry_spec [OF this] obtain mem' where
      f: "free_entry (shm_memory s) (e\<lparr>sim_access := 0\<rparr>) = Some mem'" "memory_inv mem'"
      "kowned mem' = (kowned (shm_memory s))(name_ptr e := None, self e := None)"
      "memory_live mem' = (memory_live (shm_memory s))(shm_start e := None)" by auto
    with found True e(1) clear_entry_inv [OF assms(1) e(2,3) a f(2-4)] show ?thesis by simp
  next
    case False
    with found e(1) retag_entry_inv [OF assms(1) e(2,3)] show ?thesis by simp
  qed
qed

section \<open>Opening a block\<close>

lemma find_slot_absent:
  "nm \<notin> shm_name ` set (entries ms) \<Longrightarrow>
     \<exists>b. find_slot nm j pos ms = (b, False) \<and>
       (if None \<in> set ms then \<exists>i < length ms. ms ! i = None \<and> b = j + of_nat i else b = pos)"
proof (induction nm j pos ms rule: find_slot.induct)
  case (2 nm j pos ms)
  then obtain b where b: "find_slot nm (j + 1) j ms = (b, False)"
    "if None \<in> set ms then \<exists>i < length ms. ms ! i = None \<and> b = j + 1 + of_nat i else b = j" by auto
  show ?case
  proof (cases "None \<in> set ms")
    case True
    with b(2) obtain i where "i < length ms" "ms ! i = None" "b = j + 1 + of_nat i" by auto
    then show ?thesis using b(1) by (auto intro!: exI [of _ "Suc i"] simp: ac_simps)
  next
    case False
    with b show ?thesis by (auto intro!: exI [of _ 0])
  qed
next
  case (3 nm j pos m ms)
  then obtain b where b: "find_slot nm (j + 1) pos ms = (b, False)"
    "if None \<in> set ms then \<exists>i < length ms. ms ! i = None \<and> b = j + 1 + of_nat i else b = pos" by auto
  show ?case
  proof (cases "None \<in> set ms")
    case True
    with b(2) obtain i where "i < length ms" "ms ! i = None" "b = j + 1 + of_nat i" by auto
    then show ?thesis using b(1) 3 True by (auto intro!: exI [of _ "Suc i"] simp: ac_simps)
  next
    case False
    with b 3 show ?thesis by auto
  qed
qed simp

lemma find_slot_present:
  "nm \<notin> shm_name ` set (entries xs) \<Longrightarrow> shm_name e = nm \<Longrightarrow>
     find_slot nm j pos (xs @ Some e # ys) = (j + of_nat (length xs), True)"
  by (induction nm j pos xs rule: find_slot.induct) (auto simp: ac_simps)

lemma small_of_nat: "i < MAX_SHBLOCKS \<Longrightarrow> (of_nat i :: u64) \<noteq> minus_one \<and> unat (of_nat i :: u64) = i"
proof -
  assume "i < MAX_SHBLOCKS"
  then have u: "unat (of_nat i :: u64) = i" by (simp add: MAX_SHBLOCKS_def unat_of_nat_u64)
  then have "unat (of_nat i :: u64) < 2 ^ 63" using \<open>i < MAX_SHBLOCKS\<close> by (simp add: MAX_SHBLOCKS_def)
  with u small_not_minus_one show ?thesis by blast
qed

definition shm_room :: "memory \<Rightarrow> u8 list \<Rightarrow> bool" where
  "shm_room mem nm \<longleftrightarrow> heap_end (kheap mem) + length nm + 160 * 64 \<le> unat MEMORY_END"

lemma sizes_ok: "size_ok sizeof_mem_shared_t" "unat sizeof_mem_shared_t = 24"
  by (simp_all add: size_ok_def sizeof_mem_shared_t_def)

lemma room_name: "shm_room mem nm \<Longrightarrow> length nm < 2 ^ 62"
  by (simp add: shm_room_def memory_layout)

lemma name_size:
  assumes "length nm < 2 ^ 62"
  shows "unat (of_nat (length nm) + 1 :: u64) = length nm + 1" "size_ok (of_nat (length nm) + 1)"
proof -
  have "unat (of_nat (length nm) :: u64) = length nm" using assms by (intro unat_of_nat_u64) simp
  with assms show u: "unat (of_nat (length nm) + 1 :: u64) = length nm + 1"
    using unat_plus_no_wrap [of "of_nat (length nm) :: u64" 1] by simp
  show "size_ok (of_nat (length nm) + 1)" unfolding size_ok_def u using assms by simp
qed

text \<open>What a fresh entry of the table owns afterwards.\<close>

definition fresh_entry :: "memory \<Rightarrow> memory \<Rightarrow> u64 \<Rightarrow> mem_shared_t \<Rightarrow> bool" where
  "fresh_entry mem mem' sz e \<longleftrightarrow> memory_inv mem' \<and> sim_access e = 0 \<and> self e \<noteq> name_ptr e \<and>
     kowned mem (self e) = None \<and> kowned mem (name_ptr e) = None \<and>
     kowned mem' = (kowned mem)(self e \<mapsto> 24, name_ptr e \<mapsto> length (shm_name e) + 1) \<and>
     (if shm_start e = NULL then memory_live mem' = memory_live mem
      else memory_live mem (shm_start e) = None \<and>
        (\<exists>m \<ge> unat (paged_size sz). memory_live mem' = (memory_live mem)(shm_start e \<mapsto> m)))"

text \<open>What \<open>new_entry\<close> gives once the three allocations have answered, whatever the size asked for.\<close>

lemma new_entry_fresh:
  assumes "memory_inv mem" "length nm < 2 ^ 62"
    and "kmalloc (kheap mem) sizeof_mem_shared_t = Some (h1, aux)" "aux \<noteq> NULL"
    and "kmalloc h1 (of_nat (length nm) + 1) = Some (h2, np)" "np \<noteq> NULL"
  shows "memory_inv (mem\<lparr>kheap := h2\<rparr>)"
    and "get_memblock (mem\<lparr>kheap := h2\<rparr>) sz = Some (mem', p) \<Longrightarrow>
      e = \<lparr>self = aux, shm_start = p, name_ptr = np, shm_name = nm, sim_access = 0\<rparr> \<Longrightarrow>
      new_entry mem nm sz = Some (mem', Some e) \<and> fresh_entry mem mem' sz e"
proof -
  let ?m1 = "mem\<lparr>kheap := h1\<rparr>" and ?m2 = "mem\<lparr>kheap := h2\<rparr>"
  note nsz = name_size [OF assms(2)]
  note o1 = kmalloc_owned [OF assms(1) sizes_ok(1) assms(3,4)]
  have "kmalloc (kheap ?m1) (of_nat (length nm) + 1) = Some (h2, np)" using assms(5) by simp
  note o2 = kmalloc_owned [OF o1(1) nsz(2) this assms(6), simplified]
  show "memory_inv (mem\<lparr>kheap := h2\<rparr>)" using o2(1) .
  assume g: "get_memblock ?m2 sz = Some (mem', p)"
    and e: "e = \<lparr>self = aux, shm_start = p, name_ptr = np, shm_name = nm, sim_access = 0\<rparr>"
  note gs = get_memblock_spec [OF o2(1) g] get_memblock_owned [OF o2(1) g]
  have "new_entry mem nm sz = Some (mem', Some e)"
    using assms(3-6) g e by (simp add: new_entry_def)
  moreover have "np \<noteq> aux" "kowned mem np = None"
    using o2(2) o1(2,3) by (auto split: if_splits)
  moreover have "kowned mem' = (kowned mem)(aux \<mapsto> 24, np \<mapsto> length nm + 1)"
    using gs(2) o1(3) o2(3) nsz(1) sizes_ok(2) by simp
  moreover have "if p = NULL then memory_live mem' = memory_live mem
      else memory_live mem p = None \<and> (\<exists>m \<ge> unat (paged_size sz). memory_live mem' = (memory_live mem)(p \<mapsto> m))"
    using gs(1) o1(4) o2(4) by (auto split: if_splits)
  ultimately show "new_entry mem nm sz = Some (mem', Some e) \<and> fresh_entry mem mem' sz e"
    using o1(2) gs(1) unfolding fresh_entry_def e by auto
qed

lemma new_entry_spec:
  assumes "memory_inv mem" "block_request sz" "shm_room mem nm"
  shows "\<exists>mem' e mem2. new_entry mem nm sz = Some (mem', Some e) \<and> shm_name e = nm \<and> fresh_entry mem mem' sz e \<and>
    memory_inv mem2 \<and> buddy_head mem2 = buddy_head mem \<and> heap_end (kheap mem2) + 160 * 63 \<le> unat MEMORY_END \<and>
    get_memblock mem2 sz = Some (mem', shm_start e)"
proof -
  have kh: "kheap_inv (kheap mem)" using assms(1) by (rule memory_invE) (simp add: tree_heap_def)
  have room: "heap_end (kheap mem) + length nm + 160 * 64 \<le> unat MEMORY_END"
    using assms(3) by (simp add: shm_room_def)
  then have "heap_end (kheap mem) + unat sizeof_mem_shared_t \<le> unat MEMORY_END"
    unfolding sizes_ok(2) by linarith
  from kmalloc_room [OF kh sizes_ok(1) this] obtain h1 aux where
    k1: "kmalloc (kheap mem) sizeof_mem_shared_t = Some (h1, aux)" "aux \<noteq> NULL"
    and e1: "heap_end h1 \<le> heap_end (kheap mem) + 64" unfolding sizes_ok(2) by auto
  have kh1: "kheap_inv h1" using kmalloc_inv [OF kh sizes_ok(1) k1(1)] .
  note len = room_name [OF assms(3)]
  note nsz = name_size [OF len]
  have "heap_end h1 + unat (of_nat (length nm) + 1 :: u64) \<le> unat MEMORY_END"
    unfolding nsz(1) using e1 room by linarith
  from kmalloc_room [OF kh1 nsz(2) this] obtain h2 np where
    k2: "kmalloc h1 (of_nat (length nm) + 1) = Some (h2, np)" "np \<noteq> NULL"
    and e2: "heap_end h2 \<le> heap_end h1 + (length nm + 1) + 40" unfolding nsz(1) by auto
  let ?m2 = "mem\<lparr>kheap := h2\<rparr>"
  note fresh = new_entry_fresh [OF assms(1) len k1 k2]
  have room2: "heap_end (kheap ?m2) + 160 * 63 \<le> unat MEMORY_END" using e1 e2 room by simp
  from get_memblock_defined [OF fresh(1) assms(2) room2] obtain mem' p where
    g: "get_memblock ?m2 sz = Some (mem', p)" by blast
  from fresh(2) [OF g refl] fresh(1) room2 g show ?thesis
    by (intro exI [of _ mem'] exI [of _ "\<lparr>self = aux, shm_start = p, name_ptr = np, shm_name = nm, sim_access = 0\<rparr>"]
        exI [of _ ?m2]) simp
qed

text \<open>A fresh entry goes into an empty slot, or replaces the entry of the same name.\<close>

lemma put_entry:
  assumes "shared_inv s" "i < unat (current s)" "fresh_entry (shm_memory s) mem' sz e"
    and "case mems s ! i of None \<Rightarrow> \<forall>x \<in> set (entries (mems s)). shm_name x \<noteq> shm_name e | Some old \<Rightarrow> shm_name old = shm_name e"
  shows "(\<forall>x \<in> set (entries ((mems s)[i := Some e])). entry_ok mem' x) \<and>
    entries_apart (entries ((mems s)[i := Some e]))"
proof -
  let ?xs = "entries (take i (mems s))" and ?ys = "entries (drop (Suc i) (mems s))"
  have i: "i < length (mems s)" using assms(1,2) shared_bounds by fastforce
  note sp = slot_split [OF i]
  have all: "entries (mems s) = ?xs @ entries [mems s ! i] @ ?ys"
    by (subst sp(1)) (cases "mems s ! i", simp_all)
  have new: "entries ((mems s)[i := Some e]) = ?xs @ e # ?ys" unfolding sp(2) by simp
  have ap: "entries_apart (entries (mems s))" "\<forall>x \<in> set (entries (mems s)). entry_ok (shm_memory s) x"
    using assms(1) by (auto simp: shared_inv_def)
  have apart: "entries_apart (?xs @ ?ys)"
    using ap(1) unfolding all by (cases "mems s ! i") (simp_all add: entries_apart_mid)
  have name: "shm_name x \<noteq> shm_name e" if "x \<in> set ?xs \<union> set ?ys" for x
    using that assms(4) ap(1) unfolding all
    by (cases "mems s ! i") (auto simp: entries_apart_mid differ_def)
  have ok: "entry_ok (shm_memory s) x" if "x \<in> set ?xs \<union> set ?ys" for x
    using that ap(2) unfolding all by auto
  note fr = assms(3) [unfolded fresh_entry_def]
  have dif: "differ e x" if "x \<in> set ?xs \<union> set ?ys" for x
    using ok [OF that] name [OF that] fr by (auto simp: entry_ok_def differ_def split: if_splits)
  have "entry_ok mem' x" if "x \<in> set ?xs \<union> set ?ys" for x
  proof (rule entry_ok_mono [OF ok [OF that]])
    show "kowned (shm_memory s) (self x) = kowned mem' (self x)"
      "kowned (shm_memory s) (name_ptr x) = kowned mem' (name_ptr x)"
      using dif [OF that] fr by (auto simp: differ_def)
    show "memory_live (shm_memory s) (shm_start x) = memory_live mem' (shm_start x)" if "shm_start x \<noteq> NULL"
      using dif [OF \<open>x \<in> _\<close>] fr that by (auto simp: differ_def split: if_splits)
  qed
  moreover have "entry_ok mem' e" using fr by (auto simp: entry_ok_def split: if_splits)
  ultimately show ?thesis
    using apart dif fr unfolding new entries_apart_mid by auto
qed

lemma scan_present:
  assumes "shared_inv s" "i < MAX_SHBLOCKS" "mems s ! i = Some e"
  shows "find_slot (shm_name e) 0 minus_one (take (unat (current s)) (mems s)) = (of_nat i, True)"
proof -
  note sh = shared_entry [OF assms]
  let ?m = "take (unat (current s)) (mems s)"
  have i: "i < length ?m" using sh(1) assms(1,2) by (simp add: shared_inv_def)
  have m: "?m = take i (mems s) @ Some e # drop (Suc i) ?m"
    using slot_split(1) [OF i] sh(1) assms(3) by (simp add: min_def)
  have "shm_name e \<notin> shm_name ` set (entries (take i (mems s)))" using sh(6) by (auto simp: differ_def)
  moreover have "length (take i (mems s)) = i" using i by simp
  ultimately show ?thesis by (subst m, subst find_slot_present) simp_all
qed

lemma scan_absent:
  assumes "shared_inv s" "unat (current s) < MAX_SHBLOCKS" "\<forall>x \<in> set (entries (mems s)). shm_name x \<noteq> nm"
  obtains i where "i < unat (current s)" "mems s ! i = None"
    "find_slot nm 0 minus_one (take (unat (current s)) (mems s)) = (of_nat i, False)"
proof -
  have "nm \<notin> shm_name ` set (entries (take (unat (current s)) (mems s)))"
    using assms(3) entries_sub(1) by blast
  moreover have "None \<in> set (take (unat (current s)) (mems s))"
    using assms(1,2) by (simp add: shared_inv_def freeSpace_def)
  ultimately obtain i where
    "find_slot nm 0 minus_one (take (unat (current s)) (mems s)) = (0 + of_nat i, False)"
    "i < length (take (unat (current s)) (mems s))" "take (unat (current s)) (mems s) ! i = None"
    using find_slot_absent [of nm "take (unat (current s)) (mems s)" 0 minus_one] by auto
  then show thesis by (intro that) auto
qed

text \<open>The table after a fresh entry, before and after the step of \<open>current\<close>.\<close>

lemma put_inv:
  assumes "shared_inv s" "unat (current s) < MAX_SHBLOCKS" "i < unat (current s)"
    and "fresh_entry (shm_memory s) mem' sz e"
    and "case mems s ! i of None \<Rightarrow> \<forall>x \<in> set (entries (mems s)). shm_name x \<noteq> shm_name e | Some old \<Rightarrow> shm_name old = shm_name e"
    and s1: "s1 = s\<lparr>shm_memory := mem', mems := (mems s)[i := Some e]\<rparr>"
  shows "freeSpace s1 \<Longrightarrow> shared_inv s1"
    and "\<not> freeSpace s1 \<Longrightarrow> shared_inv (s1\<lparr>current := current s1 + 1\<rparr>)"
    and "mems s ! i \<noteq> None \<Longrightarrow> freeSpace s1"
proof -
  note put = put_entry [OF assms(1,3,4,5)]
  have mem: "memory_inv mem'" using assms(4) by (simp add: fresh_entry_def)
  have base: "length (mems s1) = MAX_SHBLOCKS" "1 \<le> unat (current s1)"
    "set (drop (unat (current s1)) (mems s1)) \<subseteq> {None}"
    using assms(1,3) unfolding s1 by (auto simp: shared_inv_def)
  show "freeSpace s1 \<Longrightarrow> shared_inv s1"
    using base put mem assms(2) unfolding shared_inv_def s1 by auto
  have n: "unat (current s + 1) = unat (current s) + 1"
    using assms(2) unat_plus_no_wrap [of "current s" 1] by (simp add: MAX_SHBLOCKS_def)
  have "drop (unat (current s)) (mems s1) = mems s1 ! unat (current s) # drop (unat (current s) + 1) (mems s1)"
    using assms(2) base(1) by (simp add: Cons_nth_drop_Suc)
  then have last: "mems s1 ! unat (current s) = None" "set (drop (unat (current s) + 1) (mems s1)) \<subseteq> {None}"
    using base(3) unfolding s1 by auto
  have "freeSpace (s1\<lparr>current := current s1 + 1\<rparr>)"
    using last(1) assms(2) base(1) n unfolding s1 by (subst freeSpace_iff) auto
  then show "shared_inv (s1\<lparr>current := current s1 + 1\<rparr>)" if "\<not> freeSpace s1"
    using base put mem assms(2) last(2) n unfolding shared_inv_def s1 by auto
  show "freeSpace s1" if some: "mems s ! i \<noteq> None"
  proof -
    have "freeSpace s" using assms(1,2) by (simp add: shared_inv_def)
    then obtain j where "j < unat (current s)" "mems s ! j = None"
      using freeSpace_iff [OF shared_bounds [OF assms(1)]] by blast
    moreover have "unat (current s1) \<le> length (mems s1)" using base(1) assms(2) by (simp add: s1)
    moreover from calculation(2) have "i \<noteq> j" using some by auto
    ultimately show ?thesis by (subst freeSpace_iff) (auto simp: s1 intro!: exI [of _ j])
  qed
qed

lemma shmget_put:
  assumes "shared_inv s" "unat (current s) < MAX_SHBLOCKS"
    and "i < unat (current s)" "find_slot nm 0 minus_one (take (unat (current s)) (mems s)) = (of_nat i, b)"
    and "b \<longleftrightarrow> mems s ! i \<noteq> None" "\<not> b \<or> overwrite"
    and "case mems s ! i of None \<Rightarrow> \<forall>x \<in> set (entries (mems s)). shm_name x \<noteq> nm | Some old \<Rightarrow> shm_name old = nm"
    and e: "new_entry (shm_memory s) nm sz = Some (mem', Some e)" "shm_name e = nm" "fresh_entry (shm_memory s) mem' sz e"
  shows "\<exists>s'. shmget s (Some nm) sz overwrite = Some (s', of_nat i + 1) \<and> shared_inv s' \<and>
    shm_memory s' = mem' \<and> mems s' = (mems s)[i := Some e]"
proof -
  let ?s1 = "s\<lparr>shm_memory := mem', mems := (mems s)[i := Some e]\<rparr>"
  have i: "(of_nat i :: u64) \<noteq> minus_one" "unat (of_nat i :: u64) = i"
    using small_of_nat [of i] assms(2,3) by auto
  have ten: "current s \<noteq> of_nat MAX_SHBLOCKS" using assms(2) current_of_nat [of s] by simp
  have get: "shmget s (Some nm) sz overwrite =
      Some (if \<not> b \<and> \<not> freeSpace ?s1 then ?s1\<lparr>current := current ?s1 + 1\<rparr> else ?s1, of_nat i + 1)"
    using ten assms(4,6) i e(1) by (auto simp: shmget_def Let_def simp del: of_nat_add)
  note put = put_inv [OF assms(1,2,3) e(3) _ refl, unfolded e(2), OF assms(7)]
  show ?thesis
  proof (cases "\<not> b \<and> \<not> freeSpace ?s1")
    case True
    with get put(2) show ?thesis by auto
  next
    case False
    then have "freeSpace ?s1" using put(3) assms(5) by blast
    with get put(1) show ?thesis by auto
  qed
qed

lemma shmget_new:
  assumes "shared_inv s" "block_request sz" "shm_room (shm_memory s) nm" "unat (current s) < MAX_SHBLOCKS"
    and "i < unat (current s)" "find_slot nm 0 minus_one (take (unat (current s)) (mems s)) = (of_nat i, b)"
    and "b \<longleftrightarrow> mems s ! i \<noteq> None" "\<not> b \<or> overwrite"
    and "case mems s ! i of None \<Rightarrow> \<forall>x \<in> set (entries (mems s)). shm_name x \<noteq> nm | Some old \<Rightarrow> shm_name old = nm"
  shows "\<exists>s' e. shmget s (Some nm) sz overwrite = Some (s', of_nat i + 1) \<and> shared_inv s' \<and>
    shm_name e = nm \<and> fresh_entry (shm_memory s) (shm_memory s') sz e \<and> mems s' = (mems s)[i := Some e]"
proof -
  obtain mem' e where e: "new_entry (shm_memory s) nm sz = Some (mem', Some e)" "shm_name e = nm"
    "fresh_entry (shm_memory s) mem' sz e"
    using new_entry_spec [OF _ assms(2,3)] assms(1) unfolding shared_inv_def by blast
  from shmget_put [OF assms(1,4-9) e] e(2,3) show ?thesis by blast
qed

section \<open>Histories\<close>

text \<open>
  The operations as processes can call them: blocks of at least one byte while the kernel heap has room
  for the entry and for nodes of the tree, any identifier, any address but NULL.
\<close>

inductive shared_run :: "shared \<Rightarrow> shared \<Rightarrow> bool" for s0 where
  run_start: "shared_run s0 s0"
| run_shmget: "shared_run s0 s \<Longrightarrow> block_request sz \<Longrightarrow> shm_room (shm_memory s) nm \<Longrightarrow>
    shmget s (Some nm) sz overwrite = Some (s', k) \<Longrightarrow> shared_run s0 s'"
| run_shmat: "shared_run s0 s \<Longrightarrow> shared_run s0 (fst (shmat s k))"
| run_shmdetach: "shared_run s0 s \<Longrightarrow> a \<noteq> NULL \<Longrightarrow> shmdetach s a = Some (s', rt) \<Longrightarrow> shared_run s0 s'"

definition names :: "shared \<Rightarrow> u8 list set" where
  "names s = shm_name ` set (entries (mems s))"

lemma shmget_spec:
  assumes "shared_inv s" "block_request sz" "shm_room (shm_memory s) nm"
  shows "\<exists>s' k. shmget s (Some nm) sz overwrite = Some (s', k) \<and> shared_inv s' \<and>
    (if unat (current s) = MAX_SHBLOCKS then s' = s \<and> k = minus_one
     else \<exists>i e. i < unat (current s) \<and> k = of_nat i + 1 \<and> mems s' ! i = Some e \<and> shm_name e = nm \<and>
       (if nm \<in> names s \<and> \<not> overwrite then s' = s
        else fresh_entry (shm_memory s) (shm_memory s') sz e \<and> mems s' = (mems s)[i := Some e] \<and>
          (nm \<in> names s \<longleftrightarrow> mems s ! i \<noteq> None)))"
proof (cases "unat (current s) = MAX_SHBLOCKS")
  case True
  then show ?thesis using assms(1) by (simp add: shmget_def current_of_nat)
next
  case False
  then have less: "unat (current s) < MAX_SHBLOCKS" using assms(1) by (simp add: shared_inv_def)
  have len: "unat (current s) \<le> length (mems s)" using assms(1) by (rule shared_bounds)
  show ?thesis
  proof (cases "nm \<in> names s")
    case True
    then obtain old where "old \<in> set (entries (mems s))" and nm: "shm_name old = nm" by (auto simp: names_def)
    then obtain i where i: "i < MAX_SHBLOCKS" "mems s ! i = Some old" using entry_index [OF assms(1)] by metis
    note scan = scan_present [OF assms(1) i, unfolded nm]
    have ic: "i < unat (current s)" using shared_entry(1) [OF assms(1) i] .
    show ?thesis
    proof (cases overwrite)
      case True
      from shmget_new [OF assms less ic scan, of overwrite] i(2) nm True obtain s' e where
        g: "shmget s (Some nm) sz overwrite = Some (s', of_nat i + 1)" "shared_inv s'" "shm_name e = nm"
        "fresh_entry (shm_memory s) (shm_memory s') sz e" "mems s' = (mems s)[i := Some e]" by auto
      then have "mems s' ! i = Some e" using ic len by simp
      with g False True ic i(2) \<open>nm \<in> names s\<close> show ?thesis
        by (intro exI [of _ s'] exI [of _ "of_nat i + 1"]) auto
    next
      case False
      have "(of_nat i :: u64) \<noteq> minus_one" using small_of_nat [OF i(1)] by blast
      then have "shmget s (Some nm) sz overwrite = Some (s, of_nat i + 1)"
        using less scan False current_of_nat [of s] by (simp add: shmget_def Let_def)
      with assms(1) False less ic i(2) nm \<open>nm \<in> names s\<close> show ?thesis
        by (intro exI [of _ s] exI [of _ "of_nat i + 1"]) auto
    qed
  next
    case absent: False
    then have all: "\<forall>x \<in> set (entries (mems s)). shm_name x \<noteq> nm" by (auto simp: names_def)
    obtain i where i: "i < unat (current s)" "mems s ! i = None"
      "find_slot nm 0 minus_one (take (unat (current s)) (mems s)) = (of_nat i, False)"
      using scan_absent [OF assms(1) less all] .
    from shmget_new [OF assms less i(1,3), of overwrite] i(2) all obtain s' e where
      g: "shmget s (Some nm) sz overwrite = Some (s', of_nat i + 1)" "shared_inv s'" "shm_name e = nm"
      "fresh_entry (shm_memory s) (shm_memory s') sz e" "mems s' = (mems s)[i := Some e]" by auto
    then have "mems s' ! i = Some e" using i(1) len by simp
    with g False i absent show ?thesis
      by (intro exI [of _ s'] exI [of _ "of_nat i + 1"]) auto
  qed
qed

text \<open>Every branch of \<open>shmget\<close>, with nothing assumed of the room in the kernel heap.\<close>

lemma scan_slot:
  assumes "shared_inv s" "unat (current s) < MAX_SHBLOCKS"
  obtains i where "i < unat (current s)"
    "find_slot nm 0 minus_one (take (unat (current s)) (mems s)) = (of_nat i, nm \<in> names s)"
    "nm \<in> names s \<longleftrightarrow> mems s ! i \<noteq> None"
    "case mems s ! i of None \<Rightarrow> \<forall>x \<in> set (entries (mems s)). shm_name x \<noteq> nm | Some old \<Rightarrow> shm_name old = nm"
proof (cases "nm \<in> names s")
  case True
  then obtain old where "old \<in> set (entries (mems s))" and nm: "shm_name old = nm" by (auto simp: names_def)
  then obtain i where i: "i < MAX_SHBLOCKS" "mems s ! i = Some old" using entry_index [OF assms(1)] by metis
  from that [OF shared_entry(1) [OF assms(1) i]] scan_present [OF assms(1) i] i True nm show thesis by simp
next
  case False
  then have all: "\<forall>x \<in> set (entries (mems s)). shm_name x \<noteq> nm" by (auto simp: names_def)
  obtain i where "i < unat (current s)" "mems s ! i = None"
    "find_slot nm 0 minus_one (take (unat (current s)) (mems s)) = (of_nat i, False)"
    using scan_absent [OF assms all] .
  with that all False show thesis by simp
qed

lemma shmget_current:
  assumes "shmget s (Some nm) sz overwrite = Some (s', k)" "k = of_nat i + 1" "i < MAX_SHBLOCKS"
    and "find_slot nm 0 minus_one (take (unat (current s)) (mems s)) = (of_nat i, nm \<in> names s)"
    and "mems s' = (mems s)[i := Some e]" "\<not> (nm \<in> names s \<and> \<not> overwrite)" "nm \<in> names s \<Longrightarrow> freeSpace (s'\<lparr>current := current s\<rparr>)"
  shows "current s' = (if None \<in> set (take (unat (current s)) (mems s')) then current s else current s + 1)"
proof -
  have i: "(of_nat i :: u64) \<noteq> minus_one" "unat (of_nat i :: u64) = i" using small_of_nat [OF assms(3)] by auto
  have k: "k \<noteq> minus_one"
    using assms(2,3) i(2) unat_plus_no_wrap [of "of_nat i :: u64" 1]
    by (intro small_not_minus_one) (simp add: MAX_SHBLOCKS_def)
  then show ?thesis
    using assms(1,4-7) i
    by (auto simp: shmget_def Let_def freeSpace_def split: if_splits option.splits)
qed

lemma shmget_outcome:
  assumes "shared_inv s" "case nm_ptr of None \<Rightarrow> True | Some nm \<Rightarrow> length nm < 2 ^ 62"
  shows "if unat (current s) = MAX_SHBLOCKS \<or> nm_ptr = None
     then shmget s nm_ptr sz overwrite = Some (s, minus_one)
     else \<exists>i < unat (current s).
       (the nm_ptr \<in> names s \<longleftrightarrow> mems s ! i \<noteq> None) \<and>
       (\<forall>old. mems s ! i = Some old \<longrightarrow> shm_name old = the nm_ptr) \<and>
       (if the nm_ptr \<in> names s \<and> \<not> overwrite then shmget s nm_ptr sz overwrite = Some (s, of_nat i + 1)
        else \<exists>h1 aux. kmalloc (kheap (shm_memory s)) sizeof_mem_shared_t = Some (h1, aux) \<and>
          (if aux = NULL then shmget s nm_ptr sz overwrite = Some (s, minus_one)
           else \<exists>h2 np. kmalloc h1 (of_nat (length (the nm_ptr)) + 1) = Some (h2, np) \<and>
             (if np = NULL then shmget s nm_ptr sz overwrite = None
              else case get_memblock ((shm_memory s)\<lparr>kheap := h2\<rparr>) sz of
                  None \<Rightarrow> shmget s nm_ptr sz overwrite = None
                | Some (mem', p) \<Rightarrow> \<exists>s' e. shmget s nm_ptr sz overwrite = Some (s', of_nat i + 1) \<and> shared_inv s' \<and>
                    e = \<lparr>self = aux, shm_start = p, name_ptr = np, shm_name = the nm_ptr, sim_access = 0\<rparr> \<and>
                    mems s' = (mems s)[i := Some e] \<and> fresh_entry (shm_memory s) mem' sz e \<and> shm_memory s' = mem' \<and>
                    current s' = (if None \<in> set (take (unat (current s)) (mems s')) then current s else current s + 1))))"
proof (cases "unat (current s) = MAX_SHBLOCKS \<or> nm_ptr = None")
  case True
  then show ?thesis by (auto simp: shmget_def current_of_nat)
next
  case False
  then obtain nm where nm: "nm_ptr = Some nm" and len: "length nm < 2 ^ 62" using assms(2) by auto
  have less: "unat (current s) < MAX_SHBLOCKS" using assms(1) False by (simp add: shared_inv_def)
  have ten: "current s \<noteq> of_nat MAX_SHBLOCKS" using less current_of_nat [of s] by simp
  obtain i where i: "i < unat (current s)"
    and scan: "find_slot nm 0 minus_one (take (unat (current s)) (mems s)) = (of_nat i, nm \<in> names s)"
    and has: "nm \<in> names s \<longleftrightarrow> mems s ! i \<noteq> None"
    and slot: "case mems s ! i of None \<Rightarrow> \<forall>x \<in> set (entries (mems s)). shm_name x \<noteq> nm | Some old \<Rightarrow> shm_name old = nm"
    using scan_slot [OF assms(1) less] .
  have w: "(of_nat i :: u64) \<noteq> minus_one" using small_of_nat [of i] i less by auto
  have old: "\<forall>old. mems s ! i = Some old \<longrightarrow> shm_name old = nm" using slot by auto
  let ?get = "shmget s (Some nm) sz overwrite"
  let ?mem = "shm_memory s"
  have goal: "if nm \<in> names s \<and> \<not> overwrite then ?get = Some (s, of_nat i + 1)
      else \<exists>h1 aux. kmalloc (kheap ?mem) sizeof_mem_shared_t = Some (h1, aux) \<and>
          (if aux = NULL then ?get = Some (s, minus_one)
           else \<exists>h2 np. kmalloc h1 (of_nat (length nm) + 1) = Some (h2, np) \<and>
             (if np = NULL then ?get = None
              else case get_memblock (?mem\<lparr>kheap := h2\<rparr>) sz of
                  None \<Rightarrow> ?get = None
                | Some (mem', p) \<Rightarrow> \<exists>s' e. ?get = Some (s', of_nat i + 1) \<and> shared_inv s' \<and>
                    e = \<lparr>self = aux, shm_start = p, name_ptr = np, shm_name = nm, sim_access = 0\<rparr> \<and>
                    mems s' = (mems s)[i := Some e] \<and> fresh_entry ?mem mem' sz e \<and> shm_memory s' = mem' \<and>
                    current s' = (if None \<in> set (take (unat (current s)) (mems s')) then current s else current s + 1)))"
  proof (cases "nm \<in> names s \<and> \<not> overwrite")
    case True
    then show ?thesis using ten scan w by (simp add: shmget_def Let_def)
  next
    case put: False
    have fault: "?get = None" if "new_entry ?mem nm sz = None"
      using that put ten scan w by (auto simp: shmget_def Let_def)
    have mem: "memory_inv ?mem" using assms(1) by (simp add: shared_inv_def)
    then have kh: "kheap_inv (kheap ?mem)" by (rule memory_invE) (simp add: tree_heap_def)
    obtain h1 aux where k1: "kmalloc (kheap ?mem) sizeof_mem_shared_t = Some (h1, aux)"
      using kmalloc_defined [OF kh] by blast
    have kh1: "kheap_inv h1" using kmalloc_inv [OF kh sizes_ok(1) k1] .
    obtain h2 np where k2: "kmalloc h1 (of_nat (length nm) + 1) = Some (h2, np)"
      using kmalloc_defined [OF kh1] by blast
    consider (no_struct) "aux = NULL" | (no_name) "aux \<noteq> NULL" "np = NULL" | (both) "aux \<noteq> NULL" "np \<noteq> NULL" by blast
    then show ?thesis
    proof cases
      case no_struct
      have "h1 = kheap ?mem" using kmalloc_live [OF kh sizes_ok(1) k1] no_struct by simp
      then have "new_entry ?mem nm sz = Some (?mem, None)" using k1 no_struct by (simp add: new_entry_def)
      then have "?get = Some (s, minus_one)" using put ten scan w by (auto simp: shmget_def Let_def)
      then show ?thesis unfolding if_not_P [OF put] using k1 no_struct by simp
    next
      case no_name
      then have "new_entry ?mem nm sz = None" using k1 k2 by (simp add: new_entry_def)
      then show ?thesis unfolding if_not_P [OF put] using fault k1 k2 no_name by simp
    next
      case both
      show ?thesis
      proof (cases "get_memblock (?mem\<lparr>kheap := h2\<rparr>) sz")
        case None
        then have "new_entry ?mem nm sz = None" using k1 k2 both by (simp add: new_entry_def)
        then show ?thesis unfolding if_not_P [OF put] using fault None k1 k2 both by simp
      next
        case (Some x)
        obtain mem' p where x: "x = (mem', p)" by fastforce
        let ?e = "\<lparr>self = aux, shm_start = p, name_ptr = np, shm_name = nm, sim_access = 0\<rparr>"
        from new_entry_fresh(2) [OF mem len k1 both(1) k2 both(2) Some [unfolded x] refl]
        have e: "new_entry ?mem nm sz = Some (mem', Some ?e)" "fresh_entry ?mem mem' sz ?e" by auto
        have pre: "\<not> nm \<in> names s \<or> overwrite" using put by blast
        have nm_e: "shm_name ?e = nm" by simp
        from shmget_put [OF assms(1) less i scan has pre slot e(1) nm_e e(2)] obtain s' where
          s': "?get = Some (s', of_nat i + 1)" "shared_inv s'" "shm_memory s' = mem'" "mems s' = (mems s)[i := Some ?e]"
          by blast
        have "freeSpace (s'\<lparr>current := current s\<rparr>)" if "nm \<in> names s"
          using put_inv(3) [OF assms(1) less i e(2) _ refl, unfolded nm_e, OF slot] has that s'(4)
          by (simp add: freeSpace_def)
        from shmget_current [OF s'(1) refl _ scan s'(4) put this] i less
        have cur: "current s' = (if None \<in> set (take (unat (current s)) (mems s')) then current s else current s + 1)" by simp
        show ?thesis
          unfolding if_not_P [OF put]
          by (intro exI [of _ h1] exI [of _ aux] conjI k1, unfold if_not_P [OF both(1)],
              intro exI [of _ h2] exI [of _ np] conjI k2, unfold if_not_P [OF both(2)] Some x option.case prod.case,
              intro exI [of _ s'] exI [of _ ?e] conjI refl s' e(2) cur)
      qed
    qed
  qed
  show ?thesis
    unfolding if_not_P [OF False] unfolding nm option.sel by (intro exI [of _ i] conjI i has old goal)
qed

lemma shared_run_inv: "shared_run s0 s \<Longrightarrow> shared_inv s0 \<Longrightarrow> shared_inv s"
proof (induction rule: shared_run.induct)
  case (run_shmget s sz nm overwrite s' k)
  then show ?case using shmget_spec [of s sz nm overwrite] by auto
next
  case (run_shmat s k)
  then show ?case using shmat_inv by blast
next
  case (run_shmdetach s a s' rt)
  then show ?case using shmdetach_inv [of s a] by auto
qed simp

lemma current_shmat [simp]: "current (fst (shmat s k)) = current s"
  by (auto simp: shmat_def Let_def split: option.split)

lemma current_shmdetach: "shmdetach s a = Some (s', rt) \<Longrightarrow> current s' = current s"
  by (auto simp: shmdetach_def)

lemma shmget_full: "current s = of_nat MAX_SHBLOCKS \<Longrightarrow> shmget s nm sz overwrite = Some (s, minus_one)"
  by (simp add: shmget_def)

lemma shared_run_full: "shared_run s0 s \<Longrightarrow> current s0 = of_nat MAX_SHBLOCKS \<Longrightarrow> current s = of_nat MAX_SHBLOCKS"
  by (induction rule: shared_run.induct) (auto simp: shmget_full dest: current_shmdetach)

section \<open>Counting attachments\<close>

lemma shmat_entry:
  assumes "shared_inv s" "i < MAX_SHBLOCKS" "mems s ! i = Some e"
  shows "shmat s (of_nat i + 1) =
    (s\<lparr>mems := (mems s)[i := Some (e\<lparr>sim_access := sim_access e + 1\<rparr>)]\<rparr>, shm_start e)"
proof -
  note sh = shared_entry(1) [OF assms]
  have i: "unat (of_nat i :: u64) = i" using small_of_nat [OF assms(2)] by blast
  have "unat (of_nat i + 1 :: u64) = i + 1"
    using i assms(2) unat_plus_no_wrap [of "of_nat i :: u64" 1] by (simp add: MAX_SHBLOCKS_def)
  then have "(of_nat i + 1 :: u64) \<noteq> 0" by auto
  moreover have "\<not> (of_nat i :: u64) \<ge> current s" using i sh by (simp add: word_le_nat_alt)
  ultimately show ?thesis using assms(3) i by (simp add: shmat_def Let_def word_gt_0)
qed

definition attach :: "nat \<Rightarrow> shared \<Rightarrow> shared" where
  "attach i s = fst (shmat s (of_nat i + 1))"

lemma attach_many:
  assumes "shared_inv s" "i < MAX_SHBLOCKS" "mems s ! i = Some e"
  shows "(attach i ^^ k) s = s\<lparr>mems := (mems s)[i := Some (e\<lparr>sim_access := sim_access e + of_nat k\<rparr>)]\<rparr>"
proof (induction k)
  case 0
  have "(mems s)[i := Some e] = mems s" using assms(3) list_update_id [of "mems s" i] by simp
  then show ?case by simp
next
  case (Suc k)
  let ?e = "e\<lparr>sim_access := sim_access e + of_nat k\<rparr>"
  let ?s = "s\<lparr>mems := (mems s)[i := Some ?e]\<rparr>"
  have inv: "shared_inv ?s" by (rule retag_entry_inv [OF assms])
  have "i < length (mems s)" using assms(1,2) by (simp add: shared_inv_def)
  then have "mems ?s ! i = Some ?e" by simp
  have "(attach i ^^ Suc k) s = attach i ?s" using Suc by simp
  also have "\<dots> = s\<lparr>mems := (mems s)[i := Some (e\<lparr>sim_access := sim_access e + of_nat k + 1\<rparr>)]\<rparr>"
    unfolding attach_def shmat_entry [OF inv assms(2) \<open>mems ?s ! i = Some ?e\<close>] by simp
  also have "sim_access e + of_nat k + 1 = sim_access e + of_nat (Suc k)" by simp
  finally show ?case .
qed

fun detach_many :: "nat \<Rightarrow> shared \<Rightarrow> ptr \<Rightarrow> (shared \<times> u32 list) option" where
  "detach_many 0 s a = Some (s, [])"
| "detach_many (Suc k) s a =
     (case shmdetach s a of
        None \<Rightarrow> None
      | Some (s', rt) \<Rightarrow> map_option (\<lambda>(s'', rts). (s'', rt # rts)) (detach_many k s' a))"

lemma detach_last:
  assumes "shared_inv s" "i < MAX_SHBLOCKS" "mems s ! i = Some e" "shm_start e \<noteq> NULL" "sim_access e = 1"
  shows "\<exists>mem'. shmdetach s (shm_start e) = Some (s\<lparr>shm_memory := mem', mems := (mems s)[i := None]\<rparr>, 0) \<and>
    memory_live mem' = (memory_live (shm_memory s))(shm_start e := None) \<and>
    kowned mem' = (kowned (shm_memory s))(name_ptr e := None, self e := None)"
proof -
  note sh = shared_entry [OF assms(1-3)]
  have "memory_inv (shm_memory s)" "entry_ok (shm_memory s) (e\<lparr>sim_access := 0\<rparr>)"
    "self (e\<lparr>sim_access := 0\<rparr>) \<noteq> name_ptr (e\<lparr>sim_access := 0\<rparr>)"
    using assms(1) sh(2,3) by (simp_all add: shared_inv_def entry_ok_def)
  from free_entry_spec [OF this] detach_found [OF assms(1-4)] assms(5) show ?thesis by auto
qed

lemma detach_counts:
  assumes "shared_inv s" "i < MAX_SHBLOCKS" "mems s ! i = Some e" "shm_start e \<noteq> NULL"
    and "unat (sim_access e) = Suc k"
  shows "\<exists>s'. detach_many (Suc k) s (shm_start e) = Some (s', replicate k (- 1) @ [0]) \<and>
    mems s' = (mems s)[i := None] \<and>
    memory_live (shm_memory s') = (memory_live (shm_memory s))(shm_start e := None) \<and>
    kowned (shm_memory s') = (kowned (shm_memory s))(name_ptr e := None, self e := None)"
  using assms
proof (induction k arbitrary: s e)
  case 0
  then have "sim_access e = 1" by (simp add: word_unat_eq_iff)
  from detach_last [OF 0(1-4) this] show ?case by (auto simp: fun_upd_def)
next
  case (Suc k)
  let ?e = "e\<lparr>sim_access := sim_access e - 1\<rparr>"
  let ?s = "s\<lparr>mems := (mems s)[i := Some ?e]\<rparr>"
  have inv: "shared_inv ?s" by (rule retag_entry_inv [OF Suc.prems(1-3)])
  have "i < length (mems s)" using Suc.prems(1,2) by (simp add: shared_inv_def)
  then have nth: "mems ?s ! i = Some ?e" by simp
  have n: "unat (sim_access ?e) = Suc k"
    using Suc.prems(5) by (simp add: unat_minus_no_wrap word_le_nat_alt)
  have "sim_access e \<noteq> 1" using Suc.prems(5) by auto
  with detach_found [OF Suc.prems(1-4)] have d: "shmdetach s (shm_start e) = Some (?s, - 1)" by simp
  from Suc.IH [OF inv Suc.prems(2) nth _ n] Suc.prems(4) d show ?case by auto
qed

section \<open>Properties\<close>

text \<open>
  C5: \<open>shmget\<close> on every branch, for every size and name, the NULL pointer included, the only condition being that the
  length of the name plus 1 is a size \<open>kmalloc\<close> can be asked for. Once \<open>current\<close> is 10, and on a NULL name, the answer is
  -1 and nothing changes. Otherwise the scan finds a slot, that of the name if the table has it and an empty one if
  not. A name that is there and not to be overwritten is answered with its identifier and nothing changes. Else a
  structure is asked of the kernel heap: without one the answer is -1 and nothing changes. Then the bytes of the
  name: without them the step faults, the name being copied through NULL. Then a block, where the step returns
  when \<open>get_memblock\<close> does. When all three have answered, the answer is the identifier of the slot, which now holds a
  fresh entry of that name with no users and those three addresses, new in the kernel heap and among the
  blocks; all other slots are as they were, \<open>current\<close> moves on exactly when no slot is left, and the table stays well
  formed.
\<close>

theorem shmget_correct:
  assumes "shared_inv s" "case nm_ptr of None \<Rightarrow> True | Some nm \<Rightarrow> length nm < 2 ^ 62"
  shows "if unat (current s) = MAX_SHBLOCKS \<or> nm_ptr = None
     then shmget s nm_ptr sz overwrite = Some (s, minus_one)
     else \<exists>i < unat (current s).
       (the nm_ptr \<in> names s \<longleftrightarrow> mems s ! i \<noteq> None) \<and>
       (\<forall>old. mems s ! i = Some old \<longrightarrow> shm_name old = the nm_ptr) \<and>
       (if the nm_ptr \<in> names s \<and> \<not> overwrite then shmget s nm_ptr sz overwrite = Some (s, of_nat i + 1)
        else \<exists>h1 aux. kmalloc (kheap (shm_memory s)) sizeof_mem_shared_t = Some (h1, aux) \<and>
          (if aux = NULL then shmget s nm_ptr sz overwrite = Some (s, minus_one)
           else \<exists>h2 np. kmalloc h1 (of_nat (length (the nm_ptr)) + 1) = Some (h2, np) \<and>
             (if np = NULL then shmget s nm_ptr sz overwrite = None
              else case get_memblock ((shm_memory s)\<lparr>kheap := h2\<rparr>) sz of
                  None \<Rightarrow> shmget s nm_ptr sz overwrite = None
                | Some (mem', p) \<Rightarrow> \<exists>s' e. shmget s nm_ptr sz overwrite = Some (s', of_nat i + 1) \<and> shared_inv s' \<and>
                    e = \<lparr>self = aux, shm_start = p, name_ptr = np, shm_name = the nm_ptr, sim_access = 0\<rparr> \<and>
                    mems s' = (mems s)[i := Some e] \<and> fresh_entry (shm_memory s) mem' sz e \<and> shm_memory s' = mem' \<and>
                    current s' = (if None \<in> set (take (unat (current s)) (mems s')) then current s else current s + 1))))"
  using assms by (rule shmget_outcome)

lemma booted_shared: "shared_inv (init_shared booted_memory)"
  by (rule init_shared_inv [OF booted_inv])

lemma booted_shm_room: "shm_room booted_memory [102, 111, 111]"
  by (simp add: shm_room_def booted_memory_def heap_end_def memory_layout)

lemma block_600: "block_request 600"
  by (simp add: block_request_def)

lemma init_shared_simps [simp]:
  "shm_memory (init_shared m) = m" "current (init_shared m) = 1" "mems (init_shared m) = replicate 10 None"
  by (simp_all add: init_shared_def MAX_SHBLOCKS_def)

theorem shmget_correct_witness:
  "\<exists>s' e. shmget (init_shared booted_memory) (Some [102, 111, 111]) 600 False = Some (s', 1) \<and> shared_inv s' \<and>
     mems s' = (replicate 10 None)[0 := Some e] \<and> shm_name e = [102, 111, 111] \<and> current s' = 2"
proof -
  let ?s = "init_shared booted_memory" and ?nm = "[102, 111, 111] :: u8 list"
  have room: "shm_room (shm_memory ?s) ?nm" using booted_shm_room by simp
  from shmget_spec [OF booted_shared block_600 room, of False] obtain s' where
    r: "shmget ?s (Some ?nm) 600 False = Some (s', 1)" by (auto simp: MAX_SHBLOCKS_def)
  have len: "case Some ?nm of None \<Rightarrow> True | Some nm \<Rightarrow> length nm < 2 ^ 62" by simp
  have no: "?nm \<notin> names ?s" by (simp add: names_def numeral_eq_Suc)
  have ten: "unat (current ?s) \<noteq> MAX_SHBLOCKS" "unat (current ?s) = 1" by (simp_all add: MAX_SHBLOCKS_def)
  have "take (Suc 0) ((replicate 10 None)[0 := Some e]) = [Some e]" for e :: mem_shared_t by (simp add: numeral_eq_Suc)
  with shmget_correct [OF booted_shared len, of 600 False] r no ten
  show ?thesis by (auto split: if_splits option.splits)
qed

text \<open>
  C23: every history of shared memory from boot on keeps the table well formed, all names and all
  pointers of the table distinct and live where they should be, and the blocks of all entries apart.
\<close>

theorem shared_history:
  assumes "shared_run (init_shared booted_memory) s"
  shows "shared_inv s \<and> blocks_apart (memory_live (shm_memory s)) \<and> distinct (map shm_name (entries (mems s)))"
  using shared_run_inv [OF assms booted_shared]
  by (auto simp: shared_inv_def entries_apart_def intro: memory_live_apart)

theorem shared_history_witness:
  "\<exists>s. shared_run (init_shared booted_memory) s \<and> names s \<noteq> {} \<and> shared_inv s"
proof -
  have room: "shm_room (shm_memory (init_shared booted_memory)) [102, 111, 111]" using booted_shm_room by simp
  obtain s' k where g: "shmget (init_shared booted_memory) (Some [102, 111, 111]) 600 False = Some (s', k)"
    "shared_inv s'" "\<exists>e. mems s' ! 0 = Some e"
    using shmget_spec [OF booted_shared block_600 room, of False] by (auto simp: MAX_SHBLOCKS_def)
  then obtain e where "mems s' ! 0 = Some e" by blast
  moreover have "0 < length (mems s')" using g(2) by (simp add: shared_inv_def MAX_SHBLOCKS_def)
  ultimately have "e \<in> set (entries (mems s'))" by (metis in_entries nth_mem)
  then have "names s' \<noteq> {}" by (auto simp: names_def)
  moreover have run: "shared_run (init_shared booted_memory) s'"
    using run_start block_600 room g(1) by (rule run_shmget)
  ultimately show ?thesis using shared_history [OF run] by blast
qed

lemma shmget_boot:
  "\<exists>s' e. shmget (init_shared booted_memory) (Some [102, 111, 111]) 600 False = Some (s', 1) \<and> shared_inv s' \<and>
     mems s' ! 0 = Some e \<and> shm_name e = [102, 111, 111] \<and> sim_access e = 0 \<and> shm_start e = MEM_START"
proof -
  obtain mem' e mem2 where n: "new_entry booted_memory [102, 111, 111] 600 = Some (mem', Some e)"
    "shm_name e = [102, 111, 111]" "fresh_entry booted_memory mem' 600 e" "memory_inv mem2"
    "buddy_head mem2 = buddy_head booted_memory" "heap_end (kheap mem2) + 160 * 63 \<le> unat MEMORY_END"
    "get_memblock mem2 600 = Some (mem', shm_start e)"
    using new_entry_spec [OF booted_inv block_600 booted_shm_room] by blast
  have "paged_size 600 \<le> 163840" by (simp add: paged_size_def PAGE_SIZE_def)
  then have start: "shm_start e = MEM_START"
    using get_memblock_free_root [OF n(4) block_600 n(6)] n(5,7) by (auto simp: booted_memory_def)
  have room: "shm_room (shm_memory (init_shared booted_memory)) [102, 111, 111]" using booted_shm_room by simp
  have ten: "replicate 10 (None :: mem_shared_t option) = None # replicate 9 None" by (simp add: numeral_eq_Suc)
  obtain s' where g: "shmget (init_shared booted_memory) (Some [102, 111, 111]) 600 False = Some (s', 1)"
    "mems s' ! 0 = Some e"
    using n(1) ten by (auto simp: shmget_def Let_def MAX_SHBLOCKS_def)
  with shmget_spec [OF booted_shared block_600 room, of False] have "shared_inv s'" by auto
  with g n(2,3) start show ?thesis by (auto simp: fresh_entry_def)
qed

text \<open>
  C24: a block attached \<open>k + 1\<close> times after its creation survives \<open>k\<close> detachments, each of which reports
  -1 although it succeeded; the one after that reports 0, empties the slot and gives back the block, the
  name and the structure, and nothing else.
\<close>

theorem shm_reference_count:
  assumes "shared_inv s" "i < MAX_SHBLOCKS" "mems s ! i = Some e" "shm_start e \<noteq> NULL" "sim_access e = 0"
    and "Suc k < 2 ^ 64"
  shows "\<exists>s'. detach_many (Suc k) ((attach i ^^ Suc k) s) (shm_start e) = Some (s', replicate k (- 1) @ [0]) \<and>
    mems s' = (mems s)[i := None] \<and>
    memory_live (shm_memory s') = (memory_live (shm_memory s))(shm_start e := None) \<and>
    kowned (shm_memory s') = (kowned (shm_memory s))(name_ptr e := None, self e := None)"
proof -
  let ?e = "e\<lparr>sim_access := of_nat (Suc k)\<rparr>"
  let ?s = "s\<lparr>mems := (mems s)[i := Some ?e]\<rparr>"
  have at: "(attach i ^^ Suc k) s = ?s" using attach_many [OF assms(1-3), of "Suc k"] assms(5) by simp
  have "i < length (mems s)" using assms(1,2) by (simp add: shared_inv_def)
  then have nth: "mems ?s ! i = Some ?e" by simp
  have n: "unat (sim_access ?e) = Suc k" using unat_of_nat_u64 [OF assms(6)] by simp
  show ?thesis
    using detach_counts [OF retag_entry_inv [OF assms(1-3)] assms(2) nth _ n] assms(4) unfolding at by simp
qed

theorem shm_reference_count_witness:
  "\<exists>s a s'. a \<noteq> NULL \<and> detach_many 3 ((attach 0 ^^ 3) s) a = Some (s', [- 1, - 1, 0]) \<and> mems s' ! 0 = None"
proof -
  obtain s e where s: "shared_inv s" "mems s ! 0 = Some e" "sim_access e = 0" "shm_start e = MEM_START"
    using shmget_boot by blast
  have "0 < MAX_SHBLOCKS" "shm_start e \<noteq> NULL" "Suc 2 < 2 ^ 64"
    using s(4) by (simp_all add: MAX_SHBLOCKS_def MEM_START_def)
  from shm_reference_count [OF s(1) this(1) s(2) this(2) s(3) this(3)] obtain s' where
    "detach_many 3 ((attach 0 ^^ 3) s) (shm_start e) = Some (s', replicate 2 (- 1) @ [0])" "mems s' = (mems s)[0 := None]"
    by (auto simp: numeral_3_eq_3)
  moreover have "replicate 2 (- 1) @ [0 :: u32] = [- 1, - 1, 0]" by (simp add: numeral_2_eq_2)
  moreover have "0 < length (mems s)" using s(1) by (simp add: shared_inv_def MAX_SHBLOCKS_def)
  ultimately show ?thesis using \<open>shm_start e \<noteq> NULL\<close> by (intro exI [of _ s] exI [of _ "shm_start e"] exI [of _ s']) simp
qed

text \<open>
  a detachment from a block nobody has attached does not give the block back: it sets the number of
  users to the largest value, so that \<open>2 ^ 64 - 1\<close> more detachments are needed.
\<close>

theorem detach_underflow:
  assumes "shared_inv s" "i < MAX_SHBLOCKS" "mems s ! i = Some e" "shm_start e \<noteq> NULL" "sim_access e = 0"
  shows "shmdetach s (shm_start e) = Some (s\<lparr>mems := (mems s)[i := Some (e\<lparr>sim_access := - 1\<rparr>)]\<rparr>, - 1)"
  using detach_found [OF assms(1-4)] assms(5) by simp

theorem detach_underflow_witness:
  "\<exists>s s' e. shmdetach s MEM_START = Some (s', - 1) \<and> mems s' ! 0 = Some e \<and> sim_access e = - 1"
proof -
  obtain s e where s: "shared_inv s" "mems s ! 0 = Some e" "sim_access e = 0" "shm_start e = MEM_START"
    using shmget_boot by blast
  have "0 < MAX_SHBLOCKS" "shm_start e \<noteq> NULL" using s(4) by (simp_all add: MAX_SHBLOCKS_def MEM_START_def)
  moreover have "0 < length (mems s)" using s(1) by (simp add: shared_inv_def MAX_SHBLOCKS_def)
  ultimately show ?thesis
    using detach_underflow [OF s(1) _ s(2) _ s(3)] s(4)
    by (intro exI [of _ s] exI [of _ "s\<lparr>mems := (mems s)[0 := Some (e\<lparr>sim_access := - 1\<rparr>)]\<rparr>"]
        exI [of _ "e\<lparr>sim_access := - 1\<rparr>"]) simp
qed

definition one_block :: shared where
  "one_block =
     \<lparr>shm_memory =
        \<lparr>kheap = init_kheap @
           [\<lparr>start = 0x600050, chunk_size = 163840, used = True\<rparr>,
            \<lparr>start = 0x628078, chunk_size = 40, used = True\<rparr>,
            \<lparr>start = 0x6280C8, chunk_size = 24, used = True\<rparr>,
            \<lparr>start = 0x628108, chunk_size = 4, used = True\<rparr>],
         buddy_pool = 0x600050, buddy_head = Some (Alloc 0x628078 0 163840)\<rparr>,
      current = 2,
      mems = Some \<lparr>self = 0x6280C8, shm_start = MEM_START, name_ptr = 0x628108,
               shm_name = [102, 111, 111], sim_access = 0\<rparr> # replicate 9 None\<rparr>"

lemma one_block_memory:
  "memory_inv (shm_memory one_block)"
  "kowned (shm_memory one_block) 0x6280C8 = Some 24" "kowned (shm_memory one_block) 0x628108 = Some 4"
  "MEM_START \<in> dom (memory_live (shm_memory one_block))"
proof -
  have k: "kheap_inv (kheap (shm_memory one_block))"
    by (simp add: one_block_def kheap_inv_def chunks_inv_def init_kheap_def init_chunks_def memory_layout
        header_size_def before_def)
  have live: "chunks_live (kheap (shm_memory one_block)) 0x628078 = Some 40"
    "chunks_live (kheap (shm_memory one_block)) 0x6280C8 = Some 24"
    "chunks_live (kheap (shm_memory one_block)) 0x628108 = Some 4"
    by (simp_all add: one_block_def init_kheap_def init_chunks_def memory_layout)
  have head: "buddy_head (shm_memory one_block) = Some (Alloc 0x628078 0 163840)" by (simp add: one_block_def)
  have "node_ok 0 163840 (Alloc 0x628078 0 163840)" "(163840 :: nat) < 2 ^ 30" by simp_all
  then show "memory_inv (shm_memory one_block)"
    using k live(1) unfolding memory_inv_def tree_heap_def head by auto
  show "kowned (shm_memory one_block) 0x6280C8 = Some 24" "kowned (shm_memory one_block) 0x628108 = Some 4"
    using live(2,3) by (simp_all add: kowned_def others_def head)
  show "MEM_START \<in> dom (memory_live (shm_memory one_block))"
    by (simp add: memory_live_def domIff head)
qed

lemma one_block_inv: "shared_inv one_block"
proof -
  let ?e = "\<lparr>self = 0x6280C8, shm_start = MEM_START, name_ptr = 0x628108, shm_name = [102, 111, 111], sim_access = 0\<rparr>"
  have nine: "replicate 9 (None :: mem_shared_t option) = None # replicate 8 None" "entries (replicate n None) = []" for n
    by (simp add: numeral_eq_Suc) (induction n, simp_all)
  have ms: "mems one_block = Some ?e # replicate 9 None" "current one_block = 2" by (simp_all add: one_block_def)
  have "entries (mems one_block) = [?e]" unfolding ms by (simp add: nine)
  moreover have "entry_ok (shm_memory one_block) ?e"
    using one_block_memory(2-4) by (simp add: entry_ok_def)
  moreover have "freeSpace one_block" by (simp add: freeSpace_def ms nine)
  ultimately show ?thesis
    using one_block_memory(1)
    by (simp add: shared_inv_def ms MAX_SHBLOCKS_def entries_apart_def)
qed

text \<open>
  opening an existing block with \<open>overwrite\<close> loses the old one: its memory stays allocated for good,
  because no entry knows its address any more and detaching from it changes nothing.
\<close>

theorem overwrite_leaks:
  assumes "shared_inv s" "block_request sz" "shm_room (shm_memory s) (shm_name old)" "i < MAX_SHBLOCKS"
    and "mems s ! i = Some old" "shm_start old \<noteq> NULL" "unat (current s) < MAX_SHBLOCKS"
  shows "\<exists>s' k. shmget s (Some (shm_name old)) sz True = Some (s', k) \<and>
    memory_live (shm_memory s') (shm_start old) = memory_live (shm_memory s) (shm_start old) \<and>
    shm_start old \<in> dom (memory_live (shm_memory s')) \<and> shmdetach s' (shm_start old) = Some (s', - 1)"
proof -
  note sh = shared_entry [OF assms(1,4,5)]
  from shmget_new [OF assms(1-3,7) sh(1) scan_present [OF assms(1,4,5)], of True] assms(5) obtain s' e where
    g: "shmget s (Some (shm_name old)) sz True = Some (s', of_nat i + 1)" "shared_inv s'"
    "fresh_entry (shm_memory s) (shm_memory s') sz e" "mems s' = (mems s)[i := Some e]" by auto
  have live: "shm_start old \<in> dom (memory_live (shm_memory s))"
    using sh(2) assms(6) by (simp add: entry_ok_def)
  note fr = g(3) [unfolded fresh_entry_def]
  have ne: "shm_start e \<noteq> shm_start old" using fr live assms(6) by (auto split: if_splits)
  have same: "memory_live (shm_memory s') (shm_start old) = memory_live (shm_memory s) (shm_start old)"
    using fr ne by (auto split: if_splits)
  have "\<forall>x \<in> set (entries (mems s')). shm_start x \<noteq> shm_start old"
    using sh(4) [of "Some e"] sh(6) assms(6) ne unfolding g(4) by (auto simp: differ_def)
  from detach_absent [OF g(2) this] g(1) same live show ?thesis by (auto simp: domIff)
qed

theorem overwrite_leaks_witness:
  "\<exists>s s' k. shmget s (Some [102, 111, 111]) 600 True = Some (s', k) \<and>
     MEM_START \<in> dom (memory_live (shm_memory s')) \<and> shmdetach s' MEM_START = Some (s', - 1)"
proof -
  let ?e = "\<lparr>self = 0x6280C8, shm_start = MEM_START, name_ptr = 0x628108, shm_name = [102, 111, 111], sim_access = 0\<rparr>"
  have "shm_room (shm_memory one_block) (shm_name ?e)"
    by (simp add: shm_room_def one_block_def heap_end_def memory_layout)
  moreover have "0 < MAX_SHBLOCKS" "mems one_block ! 0 = Some ?e" "shm_start ?e \<noteq> NULL"
    "unat (current one_block) < MAX_SHBLOCKS"
    by (simp_all add: MAX_SHBLOCKS_def one_block_def MEM_START_def)
  ultimately show ?thesis
    using overwrite_leaks [OF one_block_inv block_600, of ?e 0] by auto
qed

text \<open>
  once \<open>current\<close> is 10, no history of calls, detachments of every block included, makes \<open>shmget\<close>
  answer anything but -1, not even for names that are in the table.
\<close>

theorem shmget_exhausted:
  assumes "shared_run s0 s" "current s0 = of_nat MAX_SHBLOCKS"
  shows "shmget s nm sz overwrite = Some (s, minus_one)"
  using shared_run_full [OF assms] by (rule shmget_full)

definition full_shared :: shared where
  "full_shared = (init_shared booted_memory)\<lparr>current := 10\<rparr>"

theorem shmget_exhausted_witness: "shmget full_shared (Some [102, 111, 111]) 600 True = Some (full_shared, minus_one)"
  by (rule shmget_exhausted [OF run_start]) (simp add: full_shared_def MAX_SHBLOCKS_def)

end
