(* ===== verification/Timer.thy ===== *)
theory Timer
  imports Prelude
begin

text \<open>
  The timer, \<open>Kernel/system/timer.c\<close>: a table of tasks, the handler of the timer interrupt that calls
  the tasks which are due, and \<open>wait\<close>. A call of a task is modelled by its address in the list of
  calls; the one handler the kernel registers, \<open>show_time\<close>, does not use the timer. \<open>None\<close> stands for
  a division by zero, or for a \<open>wait\<close> that has not returned when the given interrupts are used up.
\<close>

section \<open>State and operations\<close>

record Task =
  seconds :: u32
  handler :: u64
  forever :: bool

record timer =
  ticks :: u64
  tasks :: "Task list"
  tasks_number :: u32

definition TICKS_PER_SECOND :: u32 where
  "TICKS_PER_SECOND = 18"

definition MAX_TASKS :: nat where
  "MAX_TASKS = 5"

function remove_loop :: "u32 \<Rightarrow> u32 \<Rightarrow> Task list \<Rightarrow> Task list" where
  "remove_loop i number ts =
     (if i < number - 1 then remove_loop (i + 1) number (ts[unat i := ts ! unat (i + 1)]) else ts)"
  by pat_completeness auto
termination
proof (relation "measure (\<lambda>(i, number, ts). unat (number - 1) - unat i)")
  fix i number :: u32 and ts :: "Task list"
  assume l: "i < number - 1"
  have "unat (number - 1) < 2 ^ 32" using unat_u32_less by simp
  with l have "unat (i + 1) = unat i + 1"
    by (subst unat_plus_no_wrap) (auto simp: word_less_nat_alt)
  with l show "((i + 1, number, ts[unat i := ts ! unat (i + 1)]), i, number, ts)
      \<in> measure (\<lambda>(i, number, ts). unat (number - 1) - unat i)"
    by (simp add: word_less_nat_alt)
qed simp

declare remove_loop.simps [simp del]

definition remove_at :: "timer \<Rightarrow> u32 \<Rightarrow> timer" where
  "remove_at s index =
     s\<lparr>tasks := remove_loop index (tasks_number s) (tasks s), tasks_number := tasks_number s - 1\<rparr>"

lemma unat_succ: "i < n \<Longrightarrow> unat (i + 1) = unat i + 1" for i n :: u32
proof -
  assume "i < n"
  moreover have "unat n < 2 ^ 32" using unat_u32_less by simp
  ultimately show ?thesis by (subst unat_plus_no_wrap) (auto simp: word_less_nat_alt)
qed

lemma unat_pred: "i < n \<Longrightarrow> unat (n - 1) = unat n - 1" for i n :: u32
  by (subst unat_minus_no_wrap) (auto simp: word_less_nat_alt word_le_nat_alt)

text \<open>After a one-shot task was removed, \<open>i--\<close> and the \<open>i++\<close> of the loop stay at the same index.\<close>

function timer_loop :: "u32 \<Rightarrow> timer \<Rightarrow> (timer \<times> u64 list) option" where
  "timer_loop i s =
     (if i < tasks_number s
      then let task = tasks s ! unat i;
               period = TICKS_PER_SECOND * seconds task
           in if period = 0 then None
              else if ticks s mod ucast period = 0
              then map_option (\<lambda>(s', calls). (s', handler task # calls))
                     (if \<not> forever task then timer_loop i (remove_at s i) else timer_loop (i + 1) s)
              else timer_loop (i + 1) s
      else Some (s, []))"
  by pat_completeness auto
termination
  by (relation "measure (\<lambda>(i, s). unat (tasks_number s) - unat i)")
    (auto simp: remove_at_def unat_succ unat_pred word_less_nat_alt)

declare timer_loop.simps [simp del]

definition timer_handler :: "timer \<Rightarrow> (timer \<times> u64 list) option" where
  "timer_handler s = timer_loop 0 (s\<lparr>ticks := ticks s + 1\<rparr>)"

text \<open>The searches of \<open>contains\<close> and \<open>remove_task\<close>: the first index with the handler, if any.\<close>

function find_task :: "u32 \<Rightarrow> timer \<Rightarrow> u64 \<Rightarrow> u32 option" where
  "find_task i s h =
     (if i < tasks_number s
      then if handler (tasks s ! unat i) = h then Some i else find_task (i + 1) s h
      else None)"
  by pat_completeness auto
termination
  by (relation "measure (\<lambda>(i, s, h). unat (tasks_number s) - unat i)")
    (auto simp: unat_succ word_less_nat_alt)

declare find_task.simps [simp del]

definition contains :: "timer \<Rightarrow> u64 \<Rightarrow> bool" where
  "contains s h = (case find_task 0 s h of Some i \<Rightarrow> True | None \<Rightarrow> False)"

definition remove_task :: "timer \<Rightarrow> u64 \<Rightarrow> timer \<times> bool" where
  "remove_task s h = (case find_task 0 s h of Some i \<Rightarrow> (remove_at s i, True) | None \<Rightarrow> (s, False))"

definition add_task :: "timer \<Rightarrow> u32 \<Rightarrow> u64 \<Rightarrow> bool \<Rightarrow> timer \<times> bool" where
  "add_task s sec h fv =
     (if contains s h then (s, False)
      else if tasks_number s = of_nat MAX_TASKS - 1 then (s, False)
      else (s\<lparr>tasks := (tasks s)[unat (tasks_number s) := \<lparr>seconds = sec, handler = h, forever = fv\<rparr>],
              tasks_number := tasks_number s + 1\<rparr>, True))"

text \<open>
  \<open>_hlt\<close> resumes at the next interrupt, which need not be the timer's: \<open>True\<close> stands for a timer
  interrupt, whose handler runs first, \<open>False\<close> for any other.
\<close>

fun wait_loop :: "u64 \<Rightarrow> bool list \<Rightarrow> timer \<Rightarrow> (timer \<times> u64 list \<times> bool list) option" where
  "wait_loop waiting_ticks irqs s =
     (if waiting_ticks > ticks s
      then (case irqs of
              [] \<Rightarrow> None
            | False # irqs' \<Rightarrow> wait_loop waiting_ticks irqs' s
            | True # irqs' \<Rightarrow>
                (case timer_handler s of
                   None \<Rightarrow> None
                 | Some (s', calls) \<Rightarrow>
                     map_option (\<lambda>(s'', calls', rest). (s'', calls @ calls', rest))
                       (wait_loop waiting_ticks irqs' s')))
      else Some (s, [], irqs))"

declare wait_loop.simps [simp del]

definition wait :: "u64 \<Rightarrow> bool list \<Rightarrow> timer \<Rightarrow> (timer \<times> u64 list \<times> bool list) option" where
  "wait millis irqs s =
     wait_loop ((millis div 1000) * ucast TICKS_PER_SECOND) irqs (s\<lparr>ticks := 0\<rparr>)"

section \<open>The table as a list\<close>

definition active :: "timer \<Rightarrow> Task list" where
  "active s = take (unat (tasks_number s)) (tasks s)"

definition period :: "Task \<Rightarrow> nat" where
  "period t = unat (TICKS_PER_SECOND * seconds t)"

text \<open>
  \<open>add_task\<close> itself does not refuse a task of no seconds, so the last condition is the callers'; a
  period of \<open>2 ^ 32\<close> ticks is 0 as well.
\<close>

definition timer_inv :: "timer \<Rightarrow> bool" where
  "timer_inv s \<longleftrightarrow> length (tasks s) = MAX_TASKS \<and> unat (tasks_number s) < MAX_TASKS \<and>
     distinct (map handler (active s)) \<and> (\<forall>t \<in> set (active s). period t \<noteq> 0)"

definition due :: "u64 \<Rightarrow> Task \<Rightarrow> bool" where
  "due now t \<longleftrightarrow> unat now mod period t = 0"

lemma active_length: "timer_inv s \<Longrightarrow> length (active s) = unat (tasks_number s)"
  by (simp add: active_def timer_inv_def)

lemma active_nth: "timer_inv s \<Longrightarrow> i < tasks_number s \<Longrightarrow> tasks s ! unat i = active s ! unat i"
  by (simp add: active_def word_less_nat_alt)

lemma remove_loop_shift:
  "unat number \<le> length ts \<Longrightarrow> i < number \<Longrightarrow>
     length (remove_loop i number ts) = length ts \<and>
     take (unat number - 1) (remove_loop i number ts) = take (unat i) ts @ drop (unat i + 1) (take (unat number) ts)"
proof (induction i number ts rule: remove_loop.induct)
  case (1 i number ts)
  note pred = unat_pred [OF "1.prems"(2)]
  show ?case
  proof (cases "i < number - 1")
    case True
    then have i: "unat i + 1 < unat number" "unat (i + 1) = unat i + 1"
      using pred unat_succ [OF True] by (auto simp: word_less_nat_alt)
    then have "i + 1 < number" by (simp add: word_less_nat_alt)
    with "1.IH" [OF True] "1.prems" have ih:
      "length (remove_loop (i + 1) number (ts[unat i := ts ! unat (i + 1)])) = length ts"
      "take (unat number - 1) (remove_loop (i + 1) number (ts[unat i := ts ! unat (i + 1)])) =
         take (unat i + 1) (ts[unat i := ts ! (unat i + 1)]) @
         drop (unat i + 2) (take (unat number) (ts[unat i := ts ! (unat i + 1)]))"
      using i(2) by auto
    have len: "unat i + 1 < length ts" using i(1) "1.prems"(1) by simp
    have a: "take (unat i + 1) (ts[unat i := ts ! (unat i + 1)]) = take (unat i) ts @ [ts ! (unat i + 1)]"
      using len by (simp add: take_Suc_conv_app_nth)
    have b: "drop (unat i + 2) (take (unat number) (ts[unat i := ts ! (unat i + 1)])) =
        drop (unat i + 2) (take (unat number) ts)"
      by (simp add: take_update_swap)
    have c: "drop (unat i + 1) (take (unat number) ts) =
        ts ! (unat i + 1) # drop (unat i + 2) (take (unat number) ts)"
      using i(1) len by (subst Cons_nth_drop_Suc [symmetric]) auto
    show ?thesis using True ih a b c by (subst (1 2) remove_loop.simps) simp
  next
    case False
    then have "unat i = unat number - 1"
      using pred "1.prems"(2) by (auto simp: word_less_nat_alt)
    with False show ?thesis by (subst (1 2) remove_loop.simps) simp
  qed
qed

lemma remove_at_active:
  assumes "timer_inv s" "i < tasks_number s"
  shows "active (remove_at s i) = take (unat i) (active s) @ drop (unat i + 1) (active s)"
    and "length (tasks (remove_at s i)) = MAX_TASKS"
    and "unat (tasks_number (remove_at s i)) = unat (tasks_number s) - 1" "ticks (remove_at s i) = ticks s"
proof -
  have "unat (tasks_number s) \<le> length (tasks s)" using assms(1) by (simp add: timer_inv_def)
  note shift = remove_loop_shift [OF this assms(2)]
  show n: "unat (tasks_number (remove_at s i)) = unat (tasks_number s) - 1"
    using unat_pred [OF assms(2)] by (simp add: remove_at_def)
  have "take (unat i) (take (unat (tasks_number s)) (tasks s)) = take (unat i) (tasks s)"
    using assms(2) by (simp add: word_less_nat_alt min_def)
  then show "active (remove_at s i) = take (unat i) (active s) @ drop (unat i + 1) (active s)"
    using shift n by (simp add: active_def remove_at_def)
  show "length (tasks (remove_at s i)) = MAX_TASKS"
    using shift assms(1) by (simp add: remove_at_def timer_inv_def)
qed (simp add: remove_at_def)

lemma remove_at_inv [inv_intros]:
  assumes "timer_inv s" "i < tasks_number s"
  shows "timer_inv (remove_at s i)"
proof -
  let ?a = "active s"
  have a: "distinct (map handler ?a)" "\<forall>t \<in> set ?a. period t \<noteq> 0" "unat (tasks_number s) < MAX_TASKS"
    using assms(1) by (auto simp: timer_inv_def)
  have split: "?a = take (unat i) ?a @ drop (unat i) ?a" by simp
  have "unat i < length ?a" using assms by (simp add: active_length word_less_nat_alt)
  then have d: "drop (unat i) ?a = ?a ! unat i # drop (unat i + 1) ?a" by (simp add: Cons_nth_drop_Suc)
  have "distinct (map handler (take (unat i) ?a @ drop (unat i + 1) ?a))"
    using a(1) by (subst (asm) split, subst (asm) d) simp
  moreover have "set (take (unat i) ?a @ drop (unat i + 1) ?a) \<subseteq> set ?a"
    by (auto dest: in_set_takeD in_set_dropD)
  ultimately show ?thesis
    using a remove_at_active [OF assms] unfolding timer_inv_def by auto
qed

section \<open>The handler\<close>

lemma period_zero: "TICKS_PER_SECOND * seconds t = 0 \<longleftrightarrow> period t = 0"
  by (simp add: period_def unat_eq_0)

lemma due_iff: "now mod ucast (TICKS_PER_SECOND * seconds t) = 0 \<longleftrightarrow> due now t"
proof -
  have "unat (ucast (TICKS_PER_SECOND * seconds t) :: u64) = period t"
    by (simp add: period_def unat_ucast_u32)
  then have "unat (now mod ucast (TICKS_PER_SECOND * seconds t)) = unat now mod period t"
    by (simp add: unat_mod)
  then show ?thesis unfolding due_def by (metis unat_eq_0)
qed

abbreviation stays :: "u64 \<Rightarrow> Task \<Rightarrow> bool" where
  "stays now t \<equiv> \<not> due now t \<or> forever t"

lemma timer_loop_spec:
  assumes "timer_inv s" "unat i \<le> unat (tasks_number s)"
  shows "\<exists>s'. timer_loop i s = Some (s', map handler (filter (due (ticks s)) (drop (unat i) (active s)))) \<and>
    timer_inv s' \<and> ticks s' = ticks s \<and>
    active s' = take (unat i) (active s) @ filter (stays (ticks s)) (drop (unat i) (active s))"
  using assms
proof (induction i s rule: timer_loop.induct)
  case (1 i s)
  note inv = "1.prems"(1)
  show ?case
  proof (cases "i < tasks_number s")
    case False
    then have "drop (unat i) (active s) = []"
      using active_length [OF inv] by (simp add: word_less_nat_alt)
    with False inv show ?thesis by (subst timer_loop.simps) simp
  next
    case True
    let ?t = "tasks s ! unat i"
    have len: "unat i < length (active s)" using True active_length [OF inv] by (simp add: word_less_nat_alt)
    have d: "drop (unat i) (active s) = ?t # drop (unat i + 1) (active s)"
      using active_nth [OF inv True] len by (simp add: Cons_nth_drop_Suc)
    have k: "take (unat i + 1) (active s) = take (unat i) (active s) @ [?t]"
      using active_nth [OF inv True] len by (simp add: take_Suc_conv_app_nth)
    have mem: "?t \<in> set (active s)" using active_nth [OF inv True] len by simp
    have p: "TICKS_PER_SECOND * seconds ?t \<noteq> 0"
      unfolding period_zero using inv mem by (auto simp: timer_inv_def)
    have succ: "unat (i + 1) = unat i + 1" "unat (i + 1) \<le> unat (tasks_number s)"
      using unat_succ [OF True] True by (auto simp: word_less_nat_alt)
    show ?thesis
    proof (cases "due (ticks s) ?t \<and> \<not> forever ?t")
      case True
      note rem = remove_at_active [OF inv \<open>i < tasks_number s\<close>] remove_at_inv [OF inv \<open>i < tasks_number s\<close>]
      have "unat i \<le> unat (tasks_number (remove_at s i))"
        using \<open>i < tasks_number s\<close> rem(3) by (simp add: word_less_nat_alt)
      from "1.IH"(1) [OF \<open>i < tasks_number s\<close> refl refl p _ _ rem(5) this] True
      obtain s' where s': "timer_loop i (remove_at s i) =
          Some (s', map handler (filter (due (ticks s)) (drop (unat i) (active (remove_at s i)))))"
        "timer_inv s'" "ticks s' = ticks s"
        "active s' = take (unat i) (active (remove_at s i)) @
           filter (stays (ticks s)) (drop (unat i) (active (remove_at s i)))"
        unfolding rem(4) due_iff by auto
      have "timer_loop i s = map_option (\<lambda>(s', calls). (s', handler ?t # calls)) (timer_loop i (remove_at s i))"
        using \<open>i < tasks_number s\<close> p True by (subst timer_loop.simps) (simp add: Let_def due_iff)
      then show ?thesis using s' True len d unfolding rem(1) by (simp add: min_def)
    next
      case False
      have "\<exists>s'. timer_loop (i + 1) s = Some (s', map handler (filter (due (ticks s)) (drop (unat i + 1) (active s)))) \<and>
          timer_inv s' \<and> ticks s' = ticks s \<and>
          active s' = take (unat i + 1) (active s) @ filter (stays (ticks s)) (drop (unat i + 1) (active s))"
      proof (cases "due (ticks s) ?t")
        case True
        with False have "forever ?t" by blast
        then show ?thesis
          using "1.IH"(2) [OF \<open>i < tasks_number s\<close> refl refl p _ _ inv succ(2)] True unfolding due_iff succ(1) by simp
      next
        case False
        then show ?thesis
          using "1.IH"(3) [OF \<open>i < tasks_number s\<close> refl refl p _ inv succ(2)] unfolding due_iff succ(1) by simp
      qed
      moreover have "timer_loop i s = (if due (ticks s) ?t
          then map_option (\<lambda>(s', calls). (s', handler ?t # calls)) (timer_loop (i + 1) s) else timer_loop (i + 1) s)"
        using \<open>i < tasks_number s\<close> p False by (subst timer_loop.simps) (simp add: Let_def due_iff)
      ultimately show ?thesis using False unfolding d k by auto
    qed
  qed
qed

lemma active_ticks [simp]: "active (s\<lparr>ticks := n\<rparr>) = active s"
  by (simp add: active_def)

lemma timer_inv_ticks [simp]: "timer_inv (s\<lparr>ticks := n\<rparr>) = timer_inv s"
  by (simp add: timer_inv_def)

lemma timer_handler_spec:
  assumes "timer_inv s"
  shows "\<exists>s'. timer_handler s = Some (s', map handler (filter (due (ticks s + 1)) (active s))) \<and>
    timer_inv s' \<and> ticks s' = ticks s + 1 \<and> active s' = filter (stays (ticks s + 1)) (active s)"
  using timer_loop_spec [of "s\<lparr>ticks := ticks s + 1\<rparr>" 0] assms by (simp add: timer_handler_def)

section \<open>Searching, adding and removing\<close>

lemma find_task_spec:
  assumes "timer_inv s" "unat i \<le> unat (tasks_number s)"
  shows "(case find_task i s h of
      None \<Rightarrow> h \<notin> handler ` set (drop (unat i) (active s))
    | Some j \<Rightarrow> j < tasks_number s \<and> handler (active s ! unat j) = h)"
  using assms
proof (induction i s h rule: find_task.induct)
  case (1 i s h)
  show ?case
  proof (cases "i < tasks_number s")
    case False
    then have "drop (unat i) (active s) = []"
      using active_length [OF "1.prems"(1)] by (simp add: word_less_nat_alt)
    with False show ?thesis by (subst find_task.simps) simp
  next
    case True
    have d: "drop (unat i) (active s) = tasks s ! unat i # drop (unat i + 1) (active s)"
      using active_nth [OF "1.prems"(1) True] True active_length [OF "1.prems"(1)]
      by (simp add: Cons_nth_drop_Suc word_less_nat_alt)
    have succ: "unat (i + 1) = unat i + 1" "unat (i + 1) \<le> unat (tasks_number s)"
      using unat_succ [OF True] True by (auto simp: word_less_nat_alt)
    show ?thesis
    proof (cases "handler (tasks s ! unat i) = h")
      case True
      with \<open>i < tasks_number s\<close> show ?thesis
        using active_nth [OF "1.prems"(1)] by (subst find_task.simps) simp
    next
      case False
      with "1.IH" [OF True False "1.prems"(1) succ(2)] True d succ(1) show ?thesis
        by (subst find_task.simps) (simp split: option.splits)
    qed
  qed
qed

lemma contains_iff: "timer_inv s \<Longrightarrow> contains s h \<longleftrightarrow> h \<in> handler ` set (active s)"
  using find_task_spec [of s 0 h] active_length [of s]
  by (auto simp: contains_def word_less_nat_alt image_iff split: option.splits)

lemma filter_out_nth:
  "distinct (map f xs) \<Longrightarrow> i < length xs \<Longrightarrow> f (xs ! i) = h \<Longrightarrow>
     take i xs @ drop (Suc i) xs = filter (\<lambda>x. f x \<noteq> h) xs"
proof (induction xs arbitrary: i)
  case (Cons x xs)
  show ?case
  proof (cases i)
    case 0
    with Cons have "h \<notin> f ` set xs" "f x = h" by auto
    then have "filter (\<lambda>x. f x \<noteq> h) xs = xs" by (induction xs) auto
    with 0 \<open>f x = h\<close> show ?thesis by simp
  next
    case (Suc j)
    then have "f (xs ! j) = h" "j < length xs" using Cons.prems by auto
    then have "h \<in> f ` set xs" by (metis imageI nth_mem)
    then have "f x \<noteq> h" using Cons.prems(1) by auto
    with \<open>f (xs ! j) = h\<close> \<open>j < length xs\<close> Suc Cons show ?thesis by simp
  qed
qed simp

lemma remove_task_spec:
  assumes "timer_inv s" "remove_task s h = (s', b)"
  shows "timer_inv s' \<and> (b \<longleftrightarrow> h \<in> handler ` set (active s)) \<and> ticks s' = ticks s \<and>
    active s' = filter (\<lambda>t. handler t \<noteq> h) (active s)"
proof (cases "find_task 0 s h")
  case None
  then have "h \<notin> handler ` set (active s)" using find_task_spec [OF assms(1), of 0 h] by simp
  then have "filter (\<lambda>t. handler t \<noteq> h) (active s) = active s" by (intro filter_True) auto
  with None assms \<open>h \<notin> _\<close> show ?thesis by (auto simp: remove_task_def)
next
  case (Some i)
  then have i: "i < tasks_number s" "handler (active s ! unat i) = h"
    using find_task_spec [OF assms(1), of 0 h] by auto
  have len: "unat i < length (active s)" using i(1) active_length [OF assms(1)] by (simp add: word_less_nat_alt)
  have s': "s' = remove_at s i" "b" using Some assms(2) by (auto simp: remove_task_def)
  have "distinct (map handler (active s))" using assms(1) by (simp add: timer_inv_def)
  from filter_out_nth [OF this len i(2)]
  have "active s' = filter (\<lambda>t. handler t \<noteq> h) (active s)"
    using remove_at_active(1) [OF assms(1) i(1)] s'(1) by simp
  moreover have "h \<in> handler ` set (active s)" using i(2) len by (metis imageI nth_mem)
  ultimately show ?thesis
    using remove_at_inv [OF assms(1) i(1)] remove_at_active(4) [OF assms(1) i(1)] s' by simp
qed

lemma add_task_spec:
  assumes "timer_inv s" "unat (TICKS_PER_SECOND * sec) \<noteq> 0" "add_task s sec h fv = (s', b)"
  shows "timer_inv s' \<and> (b \<longleftrightarrow> h \<notin> handler ` set (active s) \<and> length (active s) < 4) \<and> ticks s' = ticks s \<and>
    active s' = active s @ (if b then [\<lparr>seconds = sec, handler = h, forever = fv\<rparr>] else [])"
proof -
  have n: "unat (tasks_number s) < 5" and len: "length (tasks s) = 5"
    using assms(1) by (auto simp: timer_inv_def MAX_TASKS_def)
  have full: "tasks_number s = of_nat MAX_TASKS - 1 \<longleftrightarrow> unat (tasks_number s) = 4"
    by (simp add: MAX_TASKS_def word_unat_eq_iff)
  show ?thesis
  proof (cases "contains s h \<or> unat (tasks_number s) = 4")
    case True
    with assms n full active_length [OF assms(1)] contains_iff [OF assms(1), of h] show ?thesis
      by (auto simp: add_task_def split: if_splits)
  next
    case False
    let ?t = "\<lparr>seconds = sec, handler = h, forever = fv\<rparr>"
    have s': "s' = s\<lparr>tasks := (tasks s)[unat (tasks_number s) := ?t], tasks_number := tasks_number s + 1\<rparr>" "b"
      using False assms(3) full by (auto simp: add_task_def split: if_splits)
    have succ: "unat (tasks_number s + 1) = unat (tasks_number s) + 1"
      using n unat_plus_no_wrap [of "tasks_number s" 1] by simp
    have a: "active s' = active s @ [?t]"
      using succ n len by (simp add: active_def s' take_Suc_conv_app_nth)
    moreover have "h \<notin> handler ` set (active s)" using False contains_iff [OF assms(1)] by simp
    moreover have "length (active s) < 4" using False n active_length [OF assms(1)] by simp
    moreover have "timer_inv s'"
      using assms(1,2) a succ n False \<open>h \<notin> _\<close> s'(1) unfolding timer_inv_def
      by (auto simp: MAX_TASKS_def period_def)
    ultimately show ?thesis using s' by simp
  qed
qed

section \<open>Many ticks\<close>

fun run_ticks :: "nat \<Rightarrow> timer \<Rightarrow> (timer \<times> u64 list) option" where
  "run_ticks 0 s = Some (s, [])"
| "run_ticks (Suc k) s =
     (case timer_handler s of
        None \<Rightarrow> None
      | Some (s', calls) \<Rightarrow> map_option (\<lambda>(s'', calls'). (s'', calls @ calls')) (run_ticks k s'))"

lemma count_list_distinct: "distinct xs \<Longrightarrow> count_list xs x = (if x \<in> set xs then 1 else 0)"
  by (induction xs) auto

lemma due_once:
  assumes "timer_inv s" "t \<in> set (active s)"
  shows "count_list (map handler (filter (due now) (active s))) (handler t) = (if due now t then 1 else 0)"
proof -
  have d: "distinct (map handler (active s))" using assms(1) by (simp add: timer_inv_def)
  then have "distinct (map handler (filter (due now) (active s)))" by (rule distinct_map_filter)
  moreover have "handler t \<in> set (map handler (filter (due now) (active s))) \<longleftrightarrow> due now t"
    using d assms(2) by (auto simp: distinct_map inj_on_def)
  ultimately show ?thesis by (simp only: count_list_distinct)
qed

lemma div_Suc_step: "0 < p \<Longrightarrow> Suc n div p = n div p + (if Suc n mod p = 0 then 1 else 0)" for n p :: nat
  by (simp add: div_Suc)

lemma run_ticks_count:
  assumes "timer_inv s" "t \<in> set (active s)" "forever t" "unat (ticks s) + k < 2 ^ 64"
  shows "\<exists>s' calls. run_ticks k s = Some (s', calls) \<and> timer_inv s' \<and> t \<in> set (active s') \<and>
    count_list calls (handler t) + unat (ticks s) div period t = (unat (ticks s) + k) div period t"
  using assms
proof (induction k arbitrary: s)
  case (Suc k)
  have pos: "0 < period t" using Suc.prems(1,2) by (auto simp: timer_inv_def)
  have n: "unat (ticks s + 1) = Suc (unat (ticks s))"
    using Suc.prems(4) unat_plus_no_wrap [of "ticks s" 1] by simp
  obtain s1 where s1: "timer_handler s = Some (s1, map handler (filter (due (ticks s + 1)) (active s)))"
    "timer_inv s1" "ticks s1 = ticks s + 1" "active s1 = filter (stays (ticks s + 1)) (active s)"
    using timer_handler_spec [OF Suc.prems(1)] by blast
  have "t \<in> set (active s1)" "unat (ticks s1) + k < 2 ^ 64" using s1(3,4) Suc.prems n by auto
  from Suc.IH [OF s1(2) this(1) Suc.prems(3) this(2)] obtain s' calls where
    r: "run_ticks k s1 = Some (s', calls)" "timer_inv s'" "t \<in> set (active s')"
    "count_list calls (handler t) + Suc (unat (ticks s)) div period t = (Suc (unat (ticks s)) + k) div period t"
    using s1(3) n by auto
  have "due (ticks s + 1) t \<longleftrightarrow> Suc (unat (ticks s)) mod period t = 0" by (simp add: due_def n)
  then show ?case
    using s1(1) r due_once [OF Suc.prems(1,2)] div_Suc_step [OF pos, of "unat (ticks s)"] by auto
qed simp

section \<open>Waiting\<close>

definition timer_irqs :: "bool list \<Rightarrow> nat" where
  "timer_irqs irqs = length (filter id irqs)"

lemma wait_loop_spec:
  assumes "timer_inv s" "ticks s \<le> w"
  shows "case wait_loop w irqs s of
      None \<Rightarrow> timer_irqs irqs < unat w - unat (ticks s)
    | Some (s', calls, rest) \<Rightarrow> timer_inv s' \<and> ticks s' = w \<and>
        (\<exists>pre. irqs = pre @ rest \<and> timer_irqs pre = unat w - unat (ticks s) \<and> (pre = [] \<or> last pre))"
  using assms
proof (induction w irqs s rule: wait_loop.induct)
  case (1 w irqs s)
  show ?case
  proof (cases "ticks s < w")
    case False
    with "1.prems" have "ticks s = w" by simp
    with "1.prems" show ?thesis by (subst wait_loop.simps) (simp add: timer_irqs_def)
  next
    case True
    show ?thesis
    proof (cases irqs)
      case Nil
      with True show ?thesis by (subst wait_loop.simps) (simp add: timer_irqs_def word_less_nat_alt)
    next
      case (Cons b irqs')
      have less: "unat (ticks s) < unat w" using True by (simp add: word_less_nat_alt)
      show ?thesis
      proof (cases b)
        case True
        obtain s1 calls where s1: "timer_handler s = Some (s1, calls)" "timer_inv s1" "ticks s1 = ticks s + 1"
          using timer_handler_spec [OF "1.prems"(1)] by blast
        have "unat w < 2 ^ 64" using unat_u64_less [of w] by simp
        with less have n: "unat (ticks s + 1) = unat (ticks s) + 1"
          using unat_plus_no_wrap [of "ticks s" 1] by simp
        have "ticks s1 \<le> w" using n less s1(3) by (simp add: word_le_nat_alt)
        note ih0 = "1.IH"(1) [OF \<open>ticks s < w\<close> Cons _ s1(1) refl s1(2) this]
        have ih: "case wait_loop w irqs' s1 of
            None \<Rightarrow> timer_irqs irqs' < unat w - (unat (ticks s) + 1)
          | Some (s', calls, rest) \<Rightarrow> timer_inv s' \<and> ticks s' = w \<and>
              (\<exists>pre. irqs' = pre @ rest \<and> timer_irqs pre = unat w - (unat (ticks s) + 1) \<and> (pre = [] \<or> last pre))"
          using ih0 True unfolding s1(3) n by simp
        have eq: "wait_loop w irqs s =
            map_option (\<lambda>(s'', calls', rest). (s'', calls @ calls', rest)) (wait_loop w irqs' s1)"
          using \<open>ticks s < w\<close> Cons True s1(1) by (subst wait_loop.simps) simp
        show ?thesis
        proof (cases "wait_loop w irqs' s1")
          case None
          with ih eq less Cons True show ?thesis by (auto simp: timer_irqs_def)
        next
          case (Some r)
          obtain s' c' rest where r: "r = (s', c', rest)" by (cases r) auto
          from ih Some r obtain pre where pre: "irqs' = pre @ rest" "timer_inv s'" "ticks s' = w"
            "timer_irqs pre = unat w - (unat (ticks s) + 1)" "pre = [] \<or> last pre" by auto
          then have "irqs = (True # pre) @ rest" "timer_irqs (True # pre) = unat w - unat (ticks s)"
            "last (True # pre)"
            using Cons True less by (auto simp: timer_irqs_def)
          with eq Some r pre(2,3) show ?thesis by simp
        qed
      next
        case False
        note ih = "1.IH"(2) [OF \<open>ticks s < w\<close> Cons _ "1.prems"]
        have eq: "wait_loop w irqs s = wait_loop w irqs' s"
          using \<open>ticks s < w\<close> Cons False by (subst wait_loop.simps) simp
        show ?thesis
        proof (cases "wait_loop w irqs' s")
          case None
          with ih eq Cons False show ?thesis by (auto simp: timer_irqs_def)
        next
          case (Some r)
          obtain s' c' rest where r: "r = (s', c', rest)" by (cases r) auto
          from ih Some r False obtain pre where pre: "irqs' = pre @ rest" "timer_inv s'" "ticks s' = w"
            "timer_irqs pre = unat w - unat (ticks s)" "pre = [] \<or> last pre" by auto
          then have "irqs = (False # pre) @ rest" "timer_irqs (False # pre) = unat w - unat (ticks s)"
            "last (False # pre)"
            using Cons False less by (auto simp: timer_irqs_def)
          with eq Some r pre(2,3) show ?thesis by simp
        qed
      qed
    qed
  qed
qed

lemma waiting_ticks: "unat ((millis div 1000) * ucast TICKS_PER_SECOND :: u64) = unat millis div 1000 * 18"
proof -
  have c: "(ucast TICKS_PER_SECOND :: u64) = 18" by (simp add: TICKS_PER_SECOND_def)
  have d: "unat (millis div 1000) = unat millis div 1000" by (simp add: unat_div)
  have "unat millis div 1000 * 18 < 2 ^ 64" using unat_u64_less [of millis] by simp
  then show ?thesis unfolding c using d by (subst unat_mult_lem [THEN iffD1]) simp_all
qed

section \<open>Properties\<close>

text \<open>
  C9: one timer interrupt on a well-formed table: it never faults, advances the clock by one, calls
  exactly the tasks that are due, each once and in table order, keeps exactly the tasks that are not due
  or last forever, in their order, and leaves the table well formed. The index juggling of the loop is
  a plain filter.
\<close>

theorem timer_handler_correct:
  assumes "timer_inv s"
  shows "\<exists>s'. timer_handler s = Some (s', map handler (filter (due (ticks s + 1)) (active s))) \<and>
    timer_inv s' \<and> ticks s' = ticks s + 1 \<and>
    active s' = filter (\<lambda>t. \<not> due (ticks s + 1) t \<or> forever t) (active s)"
  using assms by (rule timer_handler_spec)

definition empty_timer :: timer where
  "empty_timer = \<lparr>ticks = 0, tasks = replicate 5 \<lparr>seconds = 0, handler = 0, forever = False\<rparr>, tasks_number = 0\<rparr>"

definition clock_timer :: timer where
  "clock_timer = \<lparr>ticks = 35,
     tasks = \<lparr>seconds = 1, handler = 0x100, forever = True\<rparr> #
             \<lparr>seconds = 2, handler = 0x200, forever = False\<rparr> #
             replicate 3 \<lparr>seconds = 0, handler = 0, forever = False\<rparr>,
     tasks_number = 2\<rparr>"

lemma sample_timers: "timer_inv empty_timer" "timer_inv clock_timer"
  by (simp_all add: timer_inv_def empty_timer_def clock_timer_def active_def MAX_TASKS_def period_def
      TICKS_PER_SECOND_def)

lemma clock_active: "active clock_timer =
    [\<lparr>seconds = 1, handler = 0x100, forever = True\<rparr>, \<lparr>seconds = 2, handler = 0x200, forever = False\<rparr>]"
  by (simp add: clock_timer_def active_def)

theorem timer_handler_correct_witness:
  "\<exists>s'. timer_handler clock_timer = Some (s', [0x100, 0x200]) \<and> timer_inv s' \<and>
     active s' = [\<lparr>seconds = 1, handler = 0x100, forever = True\<rparr>]"
  using timer_handler_correct [OF sample_timers(2)] unfolding clock_active
  by (simp add: clock_timer_def due_def period_def TICKS_PER_SECOND_def) blast

text \<open>
  C38: a task that lasts forever is called once per period: over any number of timer interrupts the
  number of its calls is the number of multiples of its period the clock passes, whatever other tasks
  come due or are removed in between.
\<close>

theorem task_period:
  assumes "timer_inv s" "t \<in> set (active s)" "forever t" "unat (ticks s) + k < 2 ^ 64"
  shows "\<exists>s' calls. run_ticks k s = Some (s', calls) \<and>
    count_list calls (handler t) = (unat (ticks s) + k) div period t - unat (ticks s) div period t"
  using run_ticks_count [OF assms] by (metis diff_add_inverse2)

theorem task_period_witness:
  "\<exists>s' calls. run_ticks 180 clock_timer = Some (s', calls) \<and> count_list calls 0x100 = 10"
proof -
  let ?t = "\<lparr>seconds = 1, handler = 0x100, forever = True\<rparr>"
  have "unat (ticks clock_timer) = 35" by (simp add: clock_timer_def)
  then show ?thesis
    using task_period [OF sample_timers(2), of ?t 180]
    by (simp add: clock_active period_def TICKS_PER_SECOND_def)
qed

text \<open>
  \<open>add_task\<close> with a period that is not 0 keeps the table well formed. It refuses a handler that
  is there already and a fifth task, although the table has five entries, and otherwise appends the
  task; the clock is untouched.
\<close>

theorem add_task_correct:
  assumes "timer_inv s" "unat (TICKS_PER_SECOND * sec) \<noteq> 0" "add_task s sec h fv = (s', b)"
  shows "timer_inv s' \<and> (b \<longleftrightarrow> h \<notin> handler ` set (active s) \<and> length (active s) < 4) \<and> ticks s' = ticks s \<and>
    active s' = active s @ (if b then [\<lparr>seconds = sec, handler = h, forever = fv\<rparr>] else [])"
  using assms by (rule add_task_spec)

theorem add_task_correct_witness:
  "\<exists>s' b. add_task clock_timer 3 0x300 True = (s', b) \<and> b \<and> timer_inv s'"
proof -
  obtain s' b where r: "add_task clock_timer 3 0x300 True = (s', b)" by (cases "add_task clock_timer 3 0x300 True")
  have "unat (TICKS_PER_SECOND * 3) \<noteq> 0" by (simp add: TICKS_PER_SECOND_def)
  from add_task_correct [OF sample_timers(2) this r] r show ?thesis by (auto simp: clock_active)
qed

text \<open>
  \<open>remove_task\<close> takes out exactly the task with the given handler, keeps the others in order,
  and answers whether there was one.
\<close>

theorem remove_task_correct:
  assumes "timer_inv s" "remove_task s h = (s', b)"
  shows "timer_inv s' \<and> (b \<longleftrightarrow> h \<in> handler ` set (active s)) \<and> ticks s' = ticks s \<and>
    active s' = filter (\<lambda>t. handler t \<noteq> h) (active s)"
  using assms by (rule remove_task_spec)

theorem remove_task_correct_witness:
  "\<exists>s' b. remove_task clock_timer 0x100 = (s', b) \<and> b \<and>
     active s' = [\<lparr>seconds = 2, handler = 0x200, forever = False\<rparr>]"
proof -
  obtain s' b where r: "remove_task clock_timer 0x100 = (s', b)" by (cases "remove_task clock_timer 0x100")
  from remove_task_correct [OF sample_timers(2) r] r show ?thesis by (auto simp: clock_active)
qed

text \<open>
  \<open>wait\<close> returns right after the timer interrupt with number \<open>18 * (millis div 1000)\<close> and at no
  other interrupt, so less than a second is no wait at all; it does not return before. On return the
  clock, which it reset, shows just that number, so the phase of every task has shifted.
\<close>

theorem wait_correct:
  assumes "timer_inv s"
  shows "case wait millis irqs s of
      None \<Rightarrow> timer_irqs irqs < unat millis div 1000 * 18
    | Some (s', calls, rest) \<Rightarrow> timer_inv s' \<and> unat (ticks s') = unat millis div 1000 * 18 \<and>
        (\<exists>pre. irqs = pre @ rest \<and> timer_irqs pre = unat millis div 1000 * 18 \<and> (pre = [] \<or> last pre))"
proof -
  have "timer_inv (s\<lparr>ticks := 0\<rparr>)" using assms by simp
  from wait_loop_spec [OF this, of "(millis div 1000) * ucast TICKS_PER_SECOND" irqs] show ?thesis
    by (auto simp: wait_def waiting_ticks split: option.splits)
qed

theorem wait_correct_witness:
  "case wait 1999 (replicate 17 True @ [False, True, False]) clock_timer of
     None \<Rightarrow> False | Some (s', calls, rest) \<Rightarrow> unat (ticks s') = 18 \<and> timer_inv s'"
proof -
  have "timer_irqs (replicate 17 True @ [False, True, False]) = 18" by (simp add: timer_irqs_def)
  then show ?thesis
    using wait_correct [OF sample_timers(2), where millis = 1999
        and irqs = "replicate 17 True @ [False, True, False]"]
    by (auto split: option.splits)
qed

text \<open>
  \<open>add_task\<close> takes a task of 0 seconds, and of \<open>2 ^ 31\<close> seconds, whose period in ticks is 0 too
  when computed in 32 bits; the next timer interrupt divides by zero.
\<close>

theorem zero_period_faults:
  "snd (add_task empty_timer 0 h fv) \<and> timer_handler (fst (add_task empty_timer 0 h fv)) = None \<and>
   snd (add_task empty_timer 0x80000000 h fv) \<and> timer_handler (fst (add_task empty_timer 0x80000000 h fv)) = None"
  by (simp add: add_task_def contains_def find_task.simps timer_handler_def timer_loop.simps empty_timer_def
      MAX_TASKS_def TICKS_PER_SECOND_def)

end
