(* ===== verification/Keyboard.thy ===== *)
theory Keyboard
  imports Prelude
begin

text \<open>
  The keyboard driver, \<open>Kernel/drivers/keyboard.c\<close> with the tables of \<open>keyboard_map.h\<close>: scan codes in,
  characters out, through a buffer of 64 bytes in which \<open>EMPTY\<close> marks a free place. What the two ports
  deliver is an argument of the handler. \<open>keycode\<close> is a signed character. \<open>None\<close> stands for a look-up outside the
  table.
\<close>

section \<open>State and operations\<close>

type_synonym s8 = "8 word"

record keyboard =
  kb_buffer :: "u8 list"
  write_pos :: nat
  read_pos :: nat
  shift_on :: bool
  caps_lock_on :: bool

definition BUFFER_SIZE :: nat where
  "BUFFER_SIZE = 64"

definition EMPTY :: u8 where
  "EMPTY = 0xFF"

definition KEY_RELEASED :: s8 where
  "KEY_RELEASED = 128"

definition CAPS_LOCK :: s8 where
  "CAPS_LOCK = 58"

definition LS_PRESSED :: s8 where
  "LS_PRESSED = 54"

definition RS_PRESSED :: s8 where
  "RS_PRESSED = 42"

definition LS_RELEASED :: s8 where
  "LS_RELEASED = - 86"

definition RS_RELEASED :: s8 where
  "RS_RELEASED = - 74"

lemmas special_keys =
  KEY_RELEASED_def CAPS_LOCK_def LS_PRESSED_def RS_PRESSED_def LS_RELEASED_def RS_RELEASED_def

text \<open>
  The characters as numbers: without shift, and with it. The 38 elements without an initializer are 0.
\<close>

definition lower_map :: "u8 list" where
  "lower_map =
    [
     0, 27, 49, 50, 51, 52, 53, 54, 55, 56, 57, 48, 45, 61, 8, 9, 113, 119, 101, 114,
     116, 121, 117, 105, 111, 112, 91, 93, 10, 0, 97, 115, 100, 102, 103, 104, 106, 107, 108, 59,
     39, 96, 0, 92, 122, 120, 99, 118, 98, 110, 109, 44, 46, 47, 0, 42, 0, 32, 0, 0,
     0, 0, 0, 0, 0, 0, 0, 0, 0, 0, 0, 0, 0, 0, 45, 0, 0, 0, 43, 0,
     0, 0, 0, 0, 0, 0, 0, 0, 0, 0] @ replicate 38 0"

definition upper_map :: "u8 list" where
  "upper_map =
    [
     0, 27, 33, 64, 35, 36, 37, 94, 38, 42, 40, 41, 95, 43, 8, 9, 81, 87, 69, 82,
     84, 89, 85, 73, 79, 80, 123, 125, 10, 0, 65, 83, 68, 70, 71, 72, 74, 75, 76, 58,
     34, 126, 0, 124, 90, 88, 67, 86, 66, 78, 77, 60, 62, 63, 0, 42, 0, 32, 0, 0,
     0, 0, 0, 0, 0, 0, 0, 0, 0, 0, 0, 0, 0, 0, 45, 0, 0, 0, 43, 0,
     0, 0, 0, 0, 0, 0, 0, 0, 0, 0] @ replicate 38 0"

text \<open>Only the first element of the array has an initializer, so the others start as 0.\<close>

definition kb_init :: keyboard where
  "kb_init = \<lparr>kb_buffer = EMPTY # replicate 63 0, write_pos = 0, read_pos = 0, shift_on = False, caps_lock_on = False\<rparr>"

text \<open>Scan codes of the letters: Q to P, A to L and Z to M, compared as signed characters.\<close>

definition kb_isalpha :: "s8 \<Rightarrow> bool" where
  "kb_isalpha keycode \<longleftrightarrow>
     (16 \<le>s keycode \<and> keycode \<le>s 25) \<or> (30 \<le>s keycode \<and> keycode \<le>s 38) \<or> (44 \<le>s keycode \<and> keycode \<le>s 50)"

definition keyboard_map :: "bool \<Rightarrow> s8 \<Rightarrow> u8 option" where
  "keyboard_map shift keycode =
     (let table = (if shift then upper_map else lower_map) in
      if 0 \<le> sint keycode \<and> sint keycode < int (length table) then Some (table ! nat (sint keycode)) else None)"

definition put_key :: "keyboard \<Rightarrow> u8 \<Rightarrow> keyboard" where
  "put_key s ascii =
     s\<lparr>kb_buffer := (kb_buffer s)[write_pos s := ascii],
       write_pos := (if write_pos s + 1 = BUFFER_SIZE then 0 else write_pos s + 1)\<rparr>"

definition key_pressed :: "keyboard \<Rightarrow> s8 \<Rightarrow> keyboard option" where
  "key_pressed s keycode =
     (if keycode = CAPS_LOCK then Some (s\<lparr>caps_lock_on := \<not> caps_lock_on s\<rparr>)
      else if keycode = LS_PRESSED \<or> keycode = RS_PRESSED then Some (s\<lparr>shift_on := True\<rparr>)
      else if keycode = LS_RELEASED \<or> keycode = RS_RELEASED then Some (s\<lparr>shift_on := False\<rparr>)
      else if and keycode KEY_RELEASED = 0
      then let shift = (kb_isalpha keycode \<and> caps_lock_on s);
               shift' = (if shift_on s then \<not> shift else shift)
           in map_option (\<lambda>ascii. if ascii \<noteq> 0 then put_key s ascii else s) (keyboard_map shift' keycode)
      else Some s)"

definition keyboard_handler :: "keyboard \<Rightarrow> u8 \<Rightarrow> u8 \<Rightarrow> keyboard option" where
  "keyboard_handler s status data = (if and status 1 \<noteq> 0 then key_pressed s data else Some s)"

definition get_key :: "keyboard \<Rightarrow> keyboard \<times> u8" where
  "get_key s =
     (s\<lparr>kb_buffer := (kb_buffer s)[read_pos s := EMPTY],
        read_pos := (if read_pos s + 1 = BUFFER_SIZE then 0 else read_pos s + 1)\<rparr>,
      kb_buffer s ! read_pos s)"

section \<open>Bounds\<close>

definition kb_inv :: "keyboard \<Rightarrow> bool" where
  "kb_inv s \<longleftrightarrow> length (kb_buffer s) = BUFFER_SIZE \<and> write_pos s < BUFFER_SIZE \<and> read_pos s < BUFFER_SIZE"

lemma kb_init_inv: "kb_inv kb_init"
  by (simp add: kb_inv_def kb_init_def BUFFER_SIZE_def)

lemma put_key_inv: "kb_inv s \<Longrightarrow> kb_inv (put_key s c)"
  by (auto simp: kb_inv_def put_key_def)

lemma get_key_inv: "kb_inv s \<Longrightarrow> kb_inv (fst (get_key s))"
  by (auto simp: kb_inv_def get_key_def)

lemma map_lengths: "length lower_map = 128" "length upper_map = 128"
  by (simp_all add: lower_map_def upper_map_def)

lemma not_released:
  assumes "and k KEY_RELEASED = 0"
  shows "0 \<le> sint k \<and> sint k < 128 \<and> nat (sint k) = unat k \<and> unat k < 128"
proof -
  have "\<not> bit k 7"
  proof
    assume "bit k 7"
    then have "bit (and k KEY_RELEASED) 7" by (simp add: KEY_RELEASED_def bit_simps)
    with assms show False by simp
  qed
  then have "take_bit 7 k = k" by (intro bit_word_eqI) (auto simp: bit_take_bit_iff less_Suc_eq numeral_eq_Suc)
  moreover have "unat (take_bit 7 k) < 2 ^ 7" unfolding unsigned_take_bit_eq by (rule take_bit_nat_less_exp)
  ultimately have "unat k < 128" by simp
  then have "sint k = int (unat k)" by (intro sint_small) simp
  moreover have "int (unat k) < 128" using \<open>unat k < 128\<close> by linarith
  ultimately show ?thesis using \<open>unat k < 128\<close> by (simp only: nat_int) simp
qed

text \<open>The guard against releases keeps the look-up inside the table, so the handler always has a result.\<close>

lemma keyboard_map_defined: "and k KEY_RELEASED = 0 \<Longrightarrow> keyboard_map shift k = Some ((if shift then upper_map else lower_map) ! nat (sint k))"
  using not_released [of k] by (simp add: keyboard_map_def map_lengths)

definition pressed :: "keyboard \<Rightarrow> s8 \<Rightarrow> keyboard" where
  "pressed s k = the (key_pressed s k)"

definition handled :: "keyboard \<Rightarrow> u8 \<Rightarrow> u8 \<Rightarrow> keyboard" where
  "handled s status data = the (keyboard_handler s status data)"

lemma key_pressed_defined: "key_pressed s k = Some (pressed s k)"
  using keyboard_map_defined [of k] by (auto simp: pressed_def key_pressed_def Let_def)

lemma handler_defined: "keyboard_handler s status data = Some (handled s status data)"
  by (auto simp: handled_def keyboard_handler_def key_pressed_defined)

lemma pressed_inv: "kb_inv s \<Longrightarrow> kb_inv (pressed s k)"
  using put_key_inv [of s] keyboard_map_defined [of k]
  by (auto simp: pressed_def key_pressed_def Let_def kb_inv_def)

lemma handled_inv: "kb_inv s \<Longrightarrow> kb_inv (handled s status data)"
  using pressed_inv by (auto simp: handled_def keyboard_handler_def key_pressed_defined)

section \<open>The buffer as a ring\<close>

text \<open>Reading the buffer once around from place \<open>p\<close> on meets the keys \<open>xs\<close> and then free places.\<close>

definition ring :: "u8 list \<Rightarrow> nat \<Rightarrow> u8 list \<Rightarrow> bool" where
  "ring buf p xs \<longleftrightarrow> length buf = BUFFER_SIZE \<and> length xs \<le> BUFFER_SIZE \<and>
     (\<forall>i < BUFFER_SIZE. buf ! ((p + i) mod BUFFER_SIZE) = (if i < length xs then xs ! i else EMPTY))"

lemma ring_place:
  assumes "i < BUFFER_SIZE" "j < BUFFER_SIZE" "(p + i) mod BUFFER_SIZE = (p + j) mod BUFFER_SIZE"
  shows "i = j"
proof (cases "i \<le> j")
  case True
  then have "BUFFER_SIZE dvd (p + j) - (p + i)" using iffD1 [OF mod_eq_dvd_iff_nat assms(3) [symmetric]] by simp
  then have "0 < j - i \<Longrightarrow> BUFFER_SIZE \<le> j - i" by (intro dvd_imp_le) simp_all
  then show ?thesis using True assms(2) by linarith
next
  case False
  then have "BUFFER_SIZE dvd (p + i) - (p + j)" using iffD1 [OF mod_eq_dvd_iff_nat assms(3)] by simp
  then have "0 < i - j \<Longrightarrow> BUFFER_SIZE \<le> i - j" by (intro dvd_imp_le) simp_all
  then show ?thesis using False assms(1) by linarith
qed

lemma ring_put:
  assumes "ring buf p xs" "length xs < BUFFER_SIZE"
  shows "ring (buf[(p + length xs) mod BUFFER_SIZE := c]) p (xs @ [c])"
proof -
  have "(buf[(p + length xs) mod BUFFER_SIZE := c]) ! ((p + i) mod BUFFER_SIZE) =
      (if i < length (xs @ [c]) then (xs @ [c]) ! i else EMPTY)" if i: "i < BUFFER_SIZE" for i
  proof (cases "i = length xs")
    case True
    have "(p + i) mod BUFFER_SIZE < length buf" using assms(1) by (simp add: ring_def BUFFER_SIZE_def)
    with True show ?thesis by simp
  next
    case False
    then have "(p + i) mod BUFFER_SIZE \<noteq> (p + length xs) mod BUFFER_SIZE"
      using ring_place [OF i assms(2)] by blast
    then show ?thesis using assms(1) i False by (auto simp: ring_def nth_append)
  qed
  then show ?thesis using assms by (simp add: ring_def)
qed

lemma ring_get:
  assumes "ring buf p (c # xs)"
  shows "ring (buf[p mod BUFFER_SIZE := EMPTY]) (Suc p) xs \<and> buf ! (p mod BUFFER_SIZE) = c"
proof -
  have "(buf[p mod BUFFER_SIZE := EMPTY]) ! ((Suc p + i) mod BUFFER_SIZE) = (if i < length xs then xs ! i else EMPTY)"
    if i: "i < BUFFER_SIZE" for i
  proof (cases "Suc i < BUFFER_SIZE")
    case True
    then have "(p + Suc i) mod BUFFER_SIZE \<noteq> p mod BUFFER_SIZE"
      using ring_place [of "Suc i" 0 p] by auto
    then show ?thesis using assms True by (auto simp: ring_def)
  next
    case False
    then have "Suc p + i = p + BUFFER_SIZE" using i by simp
    then have "(Suc p + i) mod BUFFER_SIZE = p mod BUFFER_SIZE" by (simp only: mod_add_self2)
    moreover have "\<not> i < length xs" using assms False by (simp add: ring_def)
    moreover have "p mod BUFFER_SIZE < length buf" using assms by (simp add: ring_def BUFFER_SIZE_def)
    ultimately show ?thesis by simp
  qed
  moreover have "buf ! ((p + 0) mod BUFFER_SIZE) = c"
    using assms by (auto simp: ring_def BUFFER_SIZE_def dest: spec [of _ 0])
  ultimately show ?thesis using assms by (simp add: ring_def)
qed

lemma ring_mod: "ring buf (p mod BUFFER_SIZE) xs = ring buf p xs"
  by (simp add: ring_def mod_add_left_eq)

lemma next_pos: "p < BUFFER_SIZE \<Longrightarrow> (if p + 1 = BUFFER_SIZE then 0 else p + 1) = Suc p mod BUFFER_SIZE"
  by (simp add: BUFFER_SIZE_def)

section \<open>The buffer as a queue\<close>

text \<open>
  What \<open>key_pressed\<close> and \<open>get_key\<close> promise to each other, as an interface: a representation relation
  with a queue of bounded length.
\<close>

locale key_queue =
  fixes rep :: "'s \<Rightarrow> 'a list \<Rightarrow> bool" and put :: "'s \<Rightarrow> 'a \<Rightarrow> 's" and get :: "'s \<Rightarrow> 's \<times> 'a"
    and capacity :: nat and valid :: "'a \<Rightarrow> bool"
  assumes rep_put: "rep s q \<Longrightarrow> valid c \<Longrightarrow> length q < capacity \<Longrightarrow> rep (put s c) (q @ [c])"
    and rep_get: "rep s (c # q) \<Longrightarrow> \<exists>s'. get s = (s', c) \<and> rep s' q"
begin

fun get_many :: "nat \<Rightarrow> 's \<Rightarrow> 's \<times> 'a list" where
  "get_many 0 s = (s, [])"
| "get_many (Suc n) s = (let (s1, c) = get s; (s2, cs) = get_many n s1 in (s2, c # cs))"

lemma rep_put_many:
  "rep s q \<Longrightarrow> \<forall>c \<in> set cs. valid c \<Longrightarrow> length q + length cs \<le> capacity \<Longrightarrow> rep (foldl put s cs) (q @ cs)"
proof (induction cs arbitrary: s q)
  case (Cons c cs)
  then show ?case using rep_put [of s q c] Cons.IH [of "put s c" "q @ [c]"] by simp
qed simp

lemma rep_get_many: "rep s (cs @ q) \<Longrightarrow> \<exists>s'. get_many (length cs) s = (s', cs) \<and> rep s' q"
proof (induction cs arbitrary: s)
  case (Cons c cs)
  then obtain s' where "get s = (s', c)" "rep s' (cs @ q)" using rep_get [of s c "cs @ q"] by auto
  with Cons.IH show ?case by (fastforce simp: Let_def)
qed simp

lemma first_in_first_out:
  assumes "rep s q" "\<forall>c \<in> set cs. valid c" "length q + length cs \<le> capacity"
  shows "\<exists>s'. get_many (length q + length cs) (foldl put s cs) = (s', q @ cs) \<and> rep s' []"
  using rep_get_many [of "foldl put s cs" "q @ cs" "[]"] rep_put_many [OF assms] by simp

end

definition queue_rep :: "keyboard \<Rightarrow> u8 list \<Rightarrow> bool" where
  "queue_rep s q \<longleftrightarrow> kb_inv s \<and> ring (kb_buffer s) (read_pos s) q \<and>
     write_pos s = (read_pos s + length q) mod BUFFER_SIZE"

interpretation keys: key_queue queue_rep put_key get_key BUFFER_SIZE "\<lambda>c. c \<noteq> EMPTY"
proof unfold_locales
  fix s q and c :: u8
  assume q: "queue_rep s q" "length q < BUFFER_SIZE"
  have w: "write_pos s < BUFFER_SIZE" using q(1) by (simp add: queue_rep_def kb_inv_def)
  have "write_pos (put_key s c) = Suc (write_pos s) mod BUFFER_SIZE"
    using next_pos [OF w] by (simp add: put_key_def)
  with q put_key_inv [of s c] ring_put [of "kb_buffer s" "read_pos s" q c]
  show "queue_rep (put_key s c) (q @ [c])"
    by (auto simp: queue_rep_def put_key_def mod_Suc_eq)
next
  fix s c q
  assume q: "queue_rep s (c # q)"
  have r: "read_pos s < BUFFER_SIZE" using q by (simp add: queue_rep_def kb_inv_def)
  let ?s = "fst (get_key s)"
  have pos: "read_pos ?s = Suc (read_pos s) mod BUFFER_SIZE"
    using next_pos [OF r] by (simp add: get_key_def)
  have "ring (kb_buffer ?s) (Suc (read_pos s)) q \<and> snd (get_key s) = c"
    using ring_get [of "kb_buffer s" "read_pos s" c q] q r by (simp add: queue_rep_def get_key_def)
  moreover have "write_pos ?s = (read_pos ?s + length q) mod BUFFER_SIZE"
    using q pos by (simp add: queue_rep_def get_key_def mod_add_left_eq)
  ultimately have "queue_rep ?s q \<and> snd (get_key s) = c"
    using q get_key_inv [of s] unfolding queue_rep_def pos ring_mod by auto
  then show "\<exists>s'. get_key s = (s', c) \<and> queue_rep s' q" by (metis prod.collapse)
qed

section \<open>Polling\<close>

text \<open>A round of polls around the whole buffer, as \<open>read_stdin\<close> performs while nothing is pressed.\<close>

lemma get_many_buffer:
  assumes "kb_inv s" "n \<le> BUFFER_SIZE"
  shows "\<exists>s'. keys.get_many n s = (s', map (\<lambda>i. kb_buffer s ! ((read_pos s + i) mod BUFFER_SIZE)) [0..<n]) \<and>
    kb_inv s' \<and> read_pos s' = (read_pos s + n) mod BUFFER_SIZE \<and> write_pos s' = write_pos s \<and>
    (\<forall>i < BUFFER_SIZE. kb_buffer s' ! ((read_pos s + i) mod BUFFER_SIZE) =
       (if i < n then EMPTY else kb_buffer s ! ((read_pos s + i) mod BUFFER_SIZE)))"
  using assms
proof (induction n arbitrary: s)
  case 0
  then show ?case by (simp add: kb_inv_def)
next
  case (Suc n)
  let ?r = "read_pos s"
  let ?s = "fst (get_key s)"
  have r: "?r < BUFFER_SIZE" "length (kb_buffer s) = BUFFER_SIZE" using Suc.prems(1) by (simp_all add: kb_inv_def)
  have s1: "get_key s = (?s, kb_buffer s ! ?r)" "read_pos ?s = Suc ?r mod BUFFER_SIZE"
    "kb_buffer ?s = (kb_buffer s)[?r := EMPTY]" "write_pos ?s = write_pos s"
    using next_pos [OF r(1)] by (simp_all add: get_key_def)
  have step: "(read_pos ?s + i) mod BUFFER_SIZE = (?r + Suc i) mod BUFFER_SIZE" for i
    unfolding s1(2) by (simp add: mod_add_left_eq)
  have other: "kb_buffer ?s ! ((?r + Suc i) mod BUFFER_SIZE) = kb_buffer s ! ((?r + Suc i) mod BUFFER_SIZE)"
    if "Suc i < BUFFER_SIZE" for i
  proof -
    have "(?r + Suc i) mod BUFFER_SIZE \<noteq> (?r + 0) mod BUFFER_SIZE" using ring_place [OF that, of 0 ?r] r(1) by auto
    then show ?thesis using r by (simp add: s1(3))
  qed
  from Suc.IH [OF get_key_inv [OF Suc.prems(1)]] Suc.prems(2) obtain s' where
    ih: "keys.get_many n ?s = (s', map (\<lambda>i. kb_buffer ?s ! ((read_pos ?s + i) mod BUFFER_SIZE)) [0..<n])"
    "kb_inv s'" "read_pos s' = (read_pos ?s + n) mod BUFFER_SIZE" "write_pos s' = write_pos ?s"
    "\<forall>i < BUFFER_SIZE. kb_buffer s' ! ((read_pos ?s + i) mod BUFFER_SIZE) =
       (if i < n then EMPTY else kb_buffer ?s ! ((read_pos ?s + i) mod BUFFER_SIZE))" by auto
  have "map (\<lambda>i. kb_buffer ?s ! ((read_pos ?s + i) mod BUFFER_SIZE)) [0..<n] =
      map (\<lambda>i. kb_buffer s ! ((?r + Suc i) mod BUFFER_SIZE)) [0..<n]"
    unfolding step using other Suc.prems(2) by (intro map_cong) auto
  moreover have "map (\<lambda>i. kb_buffer s ! ((?r + i) mod BUFFER_SIZE)) [0..<Suc n] =
      kb_buffer s ! ?r # map (\<lambda>i. kb_buffer s ! ((?r + Suc i) mod BUFFER_SIZE)) [0..<n]"
    using r(1) by (simp add: upt_conv_Cons map_Suc_upt [symmetric] comp_def del: upt_Suc)
  ultimately have g: "keys.get_many (Suc n) s =
      (s', map (\<lambda>i. kb_buffer s ! ((?r + i) mod BUFFER_SIZE)) [0..<Suc n])"
    using ih(1) by (simp add: Let_def split_def) (simp add: get_key_def)
  have "kb_buffer s' ! ((?r + i) mod BUFFER_SIZE) =
      (if i < Suc n then EMPTY else kb_buffer s ! ((?r + i) mod BUFFER_SIZE))" if i: "i < BUFFER_SIZE" for i
  proof (cases i)
    case 0
    have last: "(?r + Suc (BUFFER_SIZE - 1)) mod BUFFER_SIZE = ?r" using r(1) by (simp add: BUFFER_SIZE_def)
    have "kb_buffer s' ! ((?r + Suc (BUFFER_SIZE - 1)) mod BUFFER_SIZE) = EMPTY"
      using ih(5) [unfolded step, rule_format, of "BUFFER_SIZE - 1"] last r
      by (simp add: s1(3) BUFFER_SIZE_def)
    then show ?thesis unfolding last using 0 r(1) by simp
  next
    case (Suc j)
    then show ?thesis using ih(5) [unfolded step, rule_format, of j] i other [of j] by auto
  qed
  then show ?case using g ih(2,3,4) s1(4) unfolding step by auto
qed

definition drained :: "keyboard \<Rightarrow> bool" where
  "drained s \<longleftrightarrow> kb_inv s \<and> kb_buffer s = replicate BUFFER_SIZE EMPTY"

lemma put_many_ring:
  assumes "kb_inv s" "ring (kb_buffer s) p q" "write_pos s = (p + length q) mod BUFFER_SIZE"
    "length q + length cs \<le> BUFFER_SIZE"
  shows "ring (kb_buffer (foldl put_key s cs)) p (q @ cs) \<and> kb_inv (foldl put_key s cs) \<and>
    read_pos (foldl put_key s cs) = read_pos s \<and>
    write_pos (foldl put_key s cs) = (p + length q + length cs) mod BUFFER_SIZE"
  using assms
proof (induction cs arbitrary: s q)
  case (Cons c cs)
  have w: "write_pos s < BUFFER_SIZE" using Cons.prems(1) by (simp add: kb_inv_def)
  have "write_pos (put_key s c) = Suc (write_pos s) mod BUFFER_SIZE"
    using next_pos [OF w] by (simp add: put_key_def)
  then have "write_pos (put_key s c) = (p + length (q @ [c])) mod BUFFER_SIZE"
    using Cons.prems(3) by (simp add: mod_Suc_eq)
  moreover have "ring (kb_buffer (put_key s c)) p (q @ [c])"
    using ring_put [OF Cons.prems(2), of c] Cons.prems(3,4) by (simp add: put_key_def)
  ultimately show ?case
    using Cons.IH [of "put_key s c" "q @ [c]"] put_key_inv [OF Cons.prems(1)] Cons.prems(4)
    by (simp add: put_key_def)
qed simp

lemma ring_drained: "ring (replicate BUFFER_SIZE EMPTY) p []"
  by (simp add: ring_def BUFFER_SIZE_def)

lemma ring_rotate:
  assumes "ring buf p xs" "r < BUFFER_SIZE" "p < BUFFER_SIZE"
  shows "map (\<lambda>i. buf ! ((r + i) mod BUFFER_SIZE)) [0..<BUFFER_SIZE] =
    rotate (r + BUFFER_SIZE - p) (xs @ replicate (BUFFER_SIZE - length xs) EMPTY)"
    (is "?l = rotate ?k ?ys")
proof (rule nth_equalityI)
  have len: "length ?ys = BUFFER_SIZE" using assms(1) by (simp add: ring_def)
  then show "length ?l = length (rotate ?k ?ys)" by simp
  fix i assume "i < length ?l"
  then have i: "i < BUFFER_SIZE" by simp
  let ?j = "(?k + i) mod BUFFER_SIZE"
  have j: "?j < BUFFER_SIZE" by (simp add: BUFFER_SIZE_def)
  have "(p + ?j) mod BUFFER_SIZE = (p + (?k + i)) mod BUFFER_SIZE" by (simp add: mod_add_right_eq)
  also have "p + (?k + i) = r + i + BUFFER_SIZE" using assms(3) by simp
  also have "(r + i + BUFFER_SIZE) mod BUFFER_SIZE = (r + i) mod BUFFER_SIZE" by (rule mod_add_self2)
  finally have "buf ! ((r + i) mod BUFFER_SIZE) = (if ?j < length xs then xs ! ?j else EMPTY)"
    using assms(1) j by (metis ring_def)
  moreover have "rotate ?k ?ys ! i = ?ys ! ?j" using i len by (simp add: nth_rotate)
  moreover have "?ys ! ?j = (if ?j < length xs then xs ! ?j else EMPTY)"
    using j by (auto simp: nth_append)
  ultimately show "?l ! i = rotate ?k ?ys ! i" using i by simp
qed

lemma filter_rotate_pad:
  assumes "\<forall>x \<in> set xs. x \<noteq> e"
  shows "\<exists>d. filter (\<lambda>x. x \<noteq> e) (rotate k (xs @ replicate n e)) = rotate d xs"
proof -
  let ?ys = "xs @ replicate n e"
  let ?m = "k mod length ?ys"
  have f: "filter (\<lambda>x. x \<noteq> e) xs = xs" "filter (\<lambda>x. x \<noteq> e) (take j xs) = take j xs"
    "filter (\<lambda>x. x \<noteq> e) (drop j xs) = drop j xs" for j
    using assms by (auto simp: filter_id_conv dest: in_set_takeD in_set_dropD)
  have "filter (\<lambda>x. x \<noteq> e) (rotate k ?ys) = drop ?m xs @ take ?m xs"
    unfolding rotate_drop_take by (simp add: f)
  moreover have "\<exists>d. drop ?m xs @ take ?m xs = rotate d xs"
  proof (cases "?m < length xs")
    case True
    then have "drop ?m xs @ take ?m xs = rotate ?m xs" by (simp add: rotate_drop_take)
    then show ?thesis by blast
  next
    case False
    then have "drop ?m xs @ take ?m xs = rotate 0 xs" by simp
    then show ?thesis by blast
  qed
  ultimately show ?thesis by metis
qed

lemma letter_codes:
  assumes "kb_isalpha k"
  shows "k \<in> {16, 17, 18, 19, 20, 21, 22, 23, 24, 25, 30, 31, 32, 33, 34, 35, 36, 37, 38, 44, 45, 46, 47, 48, 49, 50}"
proof -
  have "sint k \<in> {16..25} \<union> {30..38} \<union> {44..50}"
    using assms by (auto simp: kb_isalpha_def word_sle_eq)
  then have "sint k \<in> set [16, 17, 18, 19, 20, 21, 22, 23, 24, 25, 30, 31, 32, 33, 34, 35, 36, 37, 38,
      44, 45, 46, 47, 48, 49, 50]"
    by simp arith
  then have "(word_of_int (sint k) :: s8) \<in> {16, 17, 18, 19, 20, 21, 22, 23, 24, 25, 30, 31, 32, 33, 34, 35, 36, 37, 38,
      44, 45, 46, 47, 48, 49, 50}"
    by (simp only: list.set insert_iff empty_iff, elim disjE) (simp_all only:, simp_all)
  then show ?thesis by simp
qed

section \<open>Properties\<close>

definition kb_ready :: keyboard where
  "kb_ready = \<lparr>kb_buffer = replicate 64 EMPTY, write_pos = 0, read_pos = 0, shift_on = False, caps_lock_on = False\<rparr>"

text \<open>Everything that happens to the keyboard: an interrupt with what the two ports deliver, and a reader.\<close>

datatype kb_step = Ports u8 u8 | Taken

primrec keyboard_run :: "kb_step list \<Rightarrow> keyboard \<Rightarrow> keyboard option" where
  "keyboard_run [] s = Some s"
| "keyboard_run (e # es) s =
     (case e of
        Ports status data \<Rightarrow> Option.bind (keyboard_handler s status data) (keyboard_run es)
      | Taken \<Rightarrow> keyboard_run es (fst (get_key s)))"

lemma keyboard_run_inv: "kb_inv s \<Longrightarrow> \<exists>s'. keyboard_run es s = Some s' \<and> kb_inv s'"
proof (induction es arbitrary: s)
  case (Cons e es)
  show ?case
  proof (cases e)
    case (Ports status data)
    then show ?thesis using Cons.IH [OF handled_inv [OF Cons.prems]] by (simp add: handler_defined)
  next
    case Taken
    then show ?thesis using Cons.IH [OF get_key_inv [OF Cons.prems]] by simp
  qed
qed simp

text \<open>
  C40: the keyboard never leaves its arrays. Whatever the ports deliver from the boot on and whenever a reader
  takes a character, every interrupt has a result, so no code is looked up outside the table of 128
  characters, which the code of a released key would be; and both positions stay inside the 64 places of the buffer.
\<close>

theorem keyboard_bounds:
  "\<exists>s. keyboard_run es kb_init = Some s \<and> length (kb_buffer s) = 64 \<and> write_pos s < 64 \<and> read_pos s < 64 \<and>
     (\<forall>status data. keyboard_handler s status data \<noteq> None)"
  using keyboard_run_inv [OF kb_init_inv, of es] by (auto simp: kb_inv_def BUFFER_SIZE_def handler_defined)

text \<open>
  a letter key puts exactly one character into the buffer: the letter's lower case, or its upper
  case when exactly one of shift and caps lock is on. For any other key that is neither special nor a release
  caps lock makes no difference.
\<close>

theorem letter_case:
  "(kb_isalpha k \<longrightarrow> 97 \<le> lower_map ! nat (sint k) \<and> lower_map ! nat (sint k) \<le> 122 \<and>
      key_pressed s k = Some (put_key s (lower_map ! nat (sint k) - (if shift_on s \<noteq> caps_lock_on s then 32 else 0)))) \<and>
   (\<not> kb_isalpha k \<and> k \<noteq> CAPS_LOCK \<longrightarrow>
      caps_lock_on (pressed s k) = caps_lock_on s \<and>
      key_pressed (s\<lparr>caps_lock_on := b\<rparr>) k = Some ((pressed s k)\<lparr>caps_lock_on := b\<rparr>))"
proof (rule conjI)
  show "kb_isalpha k \<longrightarrow> 97 \<le> lower_map ! nat (sint k) \<and> lower_map ! nat (sint k) \<le> 122 \<and>
      key_pressed s k = Some (put_key s (lower_map ! nat (sint k) - (if shift_on s \<noteq> caps_lock_on s then 32 else 0)))"
  proof
    assume a: "kb_isalpha k"
    then have "k \<in> {16, 17, 18, 19, 20, 21, 22, 23, 24, 25, 30, 31, 32, 33, 34, 35, 36, 37, 38, 44, 45, 46, 47, 48, 49, 50}"
      by (rule letter_codes)
    then show "97 \<le> lower_map ! nat (sint k) \<and> lower_map ! nat (sint k) \<le> 122 \<and>
        key_pressed s k = Some (put_key s (lower_map ! nat (sint k) - (if shift_on s \<noteq> caps_lock_on s then 32 else 0)))"
      using a
      by (simp only: insert_iff empty_iff simp_thms, elim disjE)
        (simp_all add: key_pressed_def special_keys keyboard_map_def lower_map_def upper_map_def Let_def)
  qed
  show "\<not> kb_isalpha k \<and> k \<noteq> CAPS_LOCK \<longrightarrow>
      caps_lock_on (pressed s k) = caps_lock_on s \<and>
      key_pressed (s\<lparr>caps_lock_on := b\<rparr>) k = Some ((pressed s k)\<lparr>caps_lock_on := b\<rparr>)"
    using keyboard_map_defined [of k] by (auto simp: pressed_def key_pressed_def put_key_def Let_def)
qed

theorem letter_case_witness: "key_pressed (kb_ready\<lparr>shift_on := True\<rparr>) 30 = Some (put_key (kb_ready\<lparr>shift_on := True\<rparr>) 65)"
proof -
  have "kb_isalpha 30" by (simp add: kb_isalpha_def)
  then show ?thesis
    using letter_case [of 30 "kb_ready\<lparr>shift_on := True\<rparr>" False] by (simp add: lower_map_def kb_ready_def)
qed

text \<open>
  C12: while reader and writer are in step the buffer is a queue of 64 characters: characters pressed
  come out once each, in the order in which they went in, and the buffer is empty afterwards.
\<close>

theorem keyboard_fifo:
  assumes "queue_rep s q" "EMPTY \<notin> set cs" "length q + length cs \<le> BUFFER_SIZE"
  shows "\<exists>s'. keys.get_many (length q + length cs) (foldl put_key s cs) = (s', q @ cs) \<and> queue_rep s' []"
  using keys.first_in_first_out [OF assms(1) _ assms(3)] assms(2) by blast

lemma kb_ready_ok: "drained kb_ready" "queue_rep kb_ready []"
  using ring_drained [of 0]
  by (simp_all add: drained_def kb_ready_def kb_inv_def BUFFER_SIZE_def queue_rep_def)

theorem keyboard_fifo_witness:
  "\<exists>s'. keys.get_many 2 (foldl put_key kb_ready [104, 105]) = (s', [104, 105])"
proof -
  have "EMPTY \<notin> set [104, 105]" by (simp add: EMPTY_def)
  from keyboard_fifo [OF kb_ready_ok(2) this] show ?thesis by (auto simp: BUFFER_SIZE_def numeral_2_eq_2)
qed

text \<open>
  polling while the buffer is empty moves the reader on, so reader and writer need not be in step.
  Then up to 64 characters pressed before the next round of 64 polls are all delivered by that round,
  none twice, and the buffer is empty again; but their order is only kept up to a rotation.
\<close>

theorem polling_rotates:
  assumes "drained s" "EMPTY \<notin> set cs" "length cs \<le> BUFFER_SIZE"
  shows "\<exists>s' got d. keys.get_many BUFFER_SIZE (foldl put_key s cs) = (s', got) \<and>
    filter (\<lambda>c. c \<noteq> EMPTY) got = rotate d cs \<and> drained s'"
proof -
  let ?s = "foldl put_key s cs"
  have s: "kb_inv s" "ring (kb_buffer s) (write_pos s) []" "write_pos s < BUFFER_SIZE"
    using assms(1) ring_drained by (auto simp: drained_def kb_inv_def)
  then have put: "ring (kb_buffer ?s) (write_pos s) cs" "kb_inv ?s"
    using put_many_ring [of s "write_pos s" "[]" cs] assms(3) by auto
  from get_many_buffer [OF put(2) order_refl] obtain s' where
    g: "keys.get_many BUFFER_SIZE ?s =
      (s', map (\<lambda>i. kb_buffer ?s ! ((read_pos ?s + i) mod BUFFER_SIZE)) [0..<BUFFER_SIZE])" "kb_inv s'"
    "\<forall>i < BUFFER_SIZE. kb_buffer s' ! ((read_pos ?s + i) mod BUFFER_SIZE) = EMPTY" by auto
  have r: "read_pos ?s < BUFFER_SIZE" using put(2) by (simp add: kb_inv_def)
  have "kb_buffer s' ! j = EMPTY" if j: "j < BUFFER_SIZE" for j
  proof -
    have "(read_pos ?s + (j + BUFFER_SIZE - read_pos ?s) mod BUFFER_SIZE) mod BUFFER_SIZE = j"
      using r j by (simp add: mod_add_right_eq)
    moreover have "(j + BUFFER_SIZE - read_pos ?s) mod BUFFER_SIZE < BUFFER_SIZE" by (simp add: BUFFER_SIZE_def)
    ultimately show ?thesis using g(3) by metis
  qed
  then have "drained s'"
    using g(2) by (auto simp: drained_def kb_inv_def intro!: nth_equalityI)
  moreover have "\<forall>c \<in> set cs. c \<noteq> EMPTY" using assms(2) by blast
  ultimately show ?thesis
    using g(1) filter_rotate_pad [of cs EMPTY] unfolding ring_rotate [OF put(1) r s(3)] by blast
qed

theorem polling_rotates_witness:
  "\<exists>s' got d. keys.get_many BUFFER_SIZE (foldl put_key kb_ready [104, 105]) = (s', got) \<and>
     filter (\<lambda>c. c \<noteq> EMPTY) got = rotate d [104, 105] \<and> drained s'"
  by (rule polling_rotates [OF kb_ready_ok(1)]) (simp_all add: EMPTY_def BUFFER_SIZE_def)

text \<open>
  the order can really change: after one poll of an empty buffer, the keys A and S (scan codes 30
  and 31) pressed in this order are read in the opposite one.
\<close>

theorem polling_reorders:
  "filter (\<lambda>c. c \<noteq> EMPTY)
     (snd (keys.get_many BUFFER_SIZE (foldl pressed (fst (get_key kb_ready)) [30, 31]))) = [115, 97]"
proof -
  let ?s = "fst (get_key kb_ready)"
  have s: "kb_inv ?s" "write_pos ?s = 0" "read_pos ?s = 1" "\<not> caps_lock_on ?s" "\<not> shift_on ?s"
    by (simp_all add: kb_inv_def get_key_def kb_ready_def BUFFER_SIZE_def)
  have "kb_buffer ?s = replicate BUFFER_SIZE EMPTY"
    by (simp add: get_key_def kb_ready_def BUFFER_SIZE_def list_update_same_conv)
  then have ring: "ring (kb_buffer ?s) 0 []" using ring_drained by simp
  have pr: "pressed t 30 = put_key t 97" "pressed t 31 = put_key t 115"
    if "\<not> caps_lock_on t" "\<not> shift_on t" for t
    using that by (simp_all add: pressed_def key_pressed_def special_keys keyboard_map_def lower_map_def Let_def)
  have "\<not> caps_lock_on (put_key ?s 97)" "\<not> shift_on (put_key ?s 97)" using s(4,5) by (simp_all add: put_key_def)
  then have "foldl pressed ?s [30, 31] = foldl put_key ?s [97, 115]"
    using pr s(4,5) by simp
  moreover have put: "ring (kb_buffer (foldl put_key ?s [97, 115])) 0 [97, 115]"
    "kb_inv (foldl put_key ?s [97, 115])" "read_pos (foldl put_key ?s [97, 115]) = 1"
    using put_many_ring [OF s(1) ring, of "[97, 115]"] s(2,3) by (simp_all add: BUFFER_SIZE_def)
  ultimately have "snd (keys.get_many BUFFER_SIZE (foldl pressed ?s [30, 31])) =
      rotate 65 ([97, 115] @ replicate 62 EMPTY)"
    using get_many_buffer [OF put(2) order_refl] ring_rotate [OF put(1), of 1] by (auto simp: BUFFER_SIZE_def)
  also have "\<dots> = 115 # replicate 62 EMPTY @ [97]" by (simp add: rotate_drop_take)
  finally show ?thesis by (simp add: EMPTY_def)
qed

text \<open>
  at boot only the first place of the buffer is marked empty, so the first round of polls delivers
  63 characters of value 0 that no key has produced.
\<close>

theorem boot_delivers_zeros:
  "snd (keys.get_many BUFFER_SIZE kb_init) = EMPTY # replicate 63 0"
proof -
  have e: "kb_buffer kb_init = EMPTY # replicate 63 0" "read_pos kb_init = 0" by (simp_all add: kb_init_def)
  have "snd (keys.get_many BUFFER_SIZE kb_init) =
      map (\<lambda>i. (EMPTY # replicate 63 0) ! ((0 + i) mod BUFFER_SIZE)) [0..<BUFFER_SIZE]"
    using get_many_buffer [OF kb_init_inv order_refl] unfolding e by auto
  also have "\<dots> = EMPTY # replicate 63 0"
    by (rule nth_equalityI) (simp_all add: BUFFER_SIZE_def)
  finally show ?thesis .
qed

end
