(* ===== verification/Video.thy ===== *)
theory Video
  imports CLib "HOL-Library.Monad_Syntax" "HOL-Library.Signed_Division"
begin

text \<open>
  The text screen, \<open>Kernel/drivers/video.c\<close>: 25 rows of 80 cells of two bytes, character and attribute,
  at 0xB8000 of the machine's memory, and \<open>current_loc\<close>, the byte offset where the next character goes.
  The two ports of the cursor are an index and a data port of a register file. Strings are given as the
  characters before their terminator. \<open>None\<close> stands for a loop that does not end.
\<close>

section \<open>State and operations\<close>

record video =
  vmem :: mem
  current_loc :: u32
  crtc :: "u8 \<Rightarrow> u8"

definition ROWS :: nat where
  "ROWS = 25"

definition COLS :: nat where
  "COLS = 80"

definition SCREENSIZE :: nat where
  "SCREENSIZE = ROWS * COLS * 2"

definition GREEN :: u8 where
  "GREEN = 0x02"

definition RED :: u8 where
  "RED = 0x04"

definition LIGHT_GREY :: u8 where
  "LIGHT_GREY = 0x07"

definition INDEX_OUT_OF_BOUNDS_ERROR :: int where
  "INDEX_OUT_OF_BOUNDS_ERROR = - 1"

lemmas screen_layout = ROWS_def COLS_def SCREENSIZE_def

abbreviation (input) SPACE :: u8 where
  "SPACE \<equiv> 32"

definition vaddr :: "nat \<Rightarrow> ptr" where
  "vaddr i = 0xB8000 + of_nat i"

definition poke :: "video \<Rightarrow> nat \<Rightarrow> u8 \<Rightarrow> video" where
  "poke s i b = s\<lparr>vmem := (vmem s)(vaddr i := b)\<rparr>"

definition peek :: "video \<Rightarrow> nat \<Rightarrow> u8" where
  "peek s i = vmem s (vaddr i)"

definition update_cursor :: "video \<Rightarrow> video" where
  "update_cursor s =
     s\<lparr>crtc := (crtc s)(14 := ucast (drop_bit 8 (current_loc s div 2)), 15 := ucast (current_loc s div 2))\<rparr>"

definition hide_cursor :: "video \<Rightarrow> video" where
  "hide_cursor s = s\<lparr>crtc := (crtc s)(0x0A := 0x20)\<rparr>"

function fill_loop :: "u8 \<Rightarrow> u8 \<Rightarrow> nat \<Rightarrow> video \<Rightarrow> video" where
  "fill_loop ch attr i s =
     (if i < SCREENSIZE then fill_loop ch attr (i + 2) (poke (poke s i ch) (i + 1) attr) else s)"
  by pat_completeness auto
termination by (relation "measure (\<lambda>(ch, attr, i, s). SCREENSIZE - i)") auto

declare fill_loop.simps [simp del]

definition fill :: "video \<Rightarrow> u8 \<Rightarrow> u8 \<Rightarrow> video" where
  "fill s ch attr = update_cursor ((fill_loop ch attr 0 s)\<lparr>current_loc := 0\<rparr>)"

definition clear_screen :: "video \<Rightarrow> video" where
  "clear_screen s = update_cursor ((fill s SPACE LIGHT_GREY)\<lparr>current_loc := of_nat (COLS * 2)\<rparr>)"

definition clear_console :: "video \<Rightarrow> video" where
  "clear_console s =
     update_cursor ((fill_loop SPACE LIGHT_GREY (COLS * 2) s)\<lparr>current_loc := of_nat (COLS * 2)\<rparr>)"

definition out_of_bounds :: "int \<Rightarrow> int \<Rightarrow> bool" where
  "out_of_bounds r c \<longleftrightarrow> r < 0 \<or> r \<ge> int ROWS \<or> c < 0 \<or> c \<ge> int COLS"

definition putchar_at :: "video \<Rightarrow> u8 \<Rightarrow> u8 \<Rightarrow> int \<Rightarrow> int \<Rightarrow> video \<times> int" where
  "putchar_at s ch attr r c =
     (if out_of_bounds r c then (s, INDEX_OUT_OF_BOUNDS_ERROR)
      else (poke (poke s (nat ((c + r * int COLS) * 2)) ch) (nat ((c + r * int COLS) * 2 + 1)) attr, 0))"

text \<open>The step that moves to the next row; no row left ends the output with an error.\<close>

fun puts_at_loop :: "video \<Rightarrow> u8 list \<Rightarrow> u8 \<Rightarrow> int \<Rightarrow> int \<Rightarrow> video \<times> int" where
  "puts_at_loop s [] attr r c = (s, 0)"
| "puts_at_loop s (x # str) attr r c =
     (if x = 10
      then if r + 1 \<ge> int ROWS then (s, INDEX_OUT_OF_BOUNDS_ERROR) else puts_at_loop s str attr (r + 1) 0
      else if c = int COLS
      then if r + 1 \<ge> int ROWS then (s, INDEX_OUT_OF_BOUNDS_ERROR)
           else puts_at_loop (fst (putchar_at s x attr (r + 1) 0)) str attr (r + 1) 1
      else puts_at_loop (fst (putchar_at s x attr r c)) str attr r (c + 1))"

definition puts_at :: "video \<Rightarrow> u8 list \<Rightarrow> u8 \<Rightarrow> int \<Rightarrow> int \<Rightarrow> video \<times> int" where
  "puts_at s str attr r c =
     (if out_of_bounds r c then (s, INDEX_OUT_OF_BOUNDS_ERROR) else puts_at_loop s str attr r c)"

text \<open>
  Numbers: the count of the digits and the digit at a position, with the truncating division of C;
  negating the smallest \<open>int\<close> gives itself.
\<close>

function count_digits :: "int \<Rightarrow> nat \<Rightarrow> nat" where
  "count_digits number digits =
     (if number sdiv 10 > 0 then count_digits (number sdiv 10) (digits + 1) else digits)"
  by pat_completeness auto
termination
proof (relation "measure (\<lambda>(number, digits). nat number)")
  fix number :: int and digits :: nat
  assume "number sdiv 10 > 0"
  then have "number > 0" by (cases "number > 0") (auto simp: signed_divide_int_def sgn_if split: if_splits)
  then show "((number sdiv 10, digits + 1), number, digits) \<in> measure (\<lambda>(number, digits). nat number)"
    by (simp add: signed_divide_int_def)
qed simp

declare count_digits.simps [simp del]

definition digit_char :: "int \<Rightarrow> nat \<Rightarrow> u8" where
  "digit_char n i = of_int (((\<lambda>number. number sdiv 10) ^^ i) n smod 10 + 48)"

definition neg32 :: "int \<Rightarrow> int" where
  "neg32 n = (if n = - (2 ^ 31) then n else - n)"

fun putnumber_at_loop :: "video \<Rightarrow> int \<Rightarrow> u8 \<Rightarrow> int \<Rightarrow> int \<Rightarrow> nat \<Rightarrow> video \<times> int" where
  "putnumber_at_loop s n attr r c 0 = (s, 0)"
| "putnumber_at_loop s n attr r c (Suc digits) =
     (if c = int COLS
      then if r + 1 \<ge> int ROWS then (s, INDEX_OUT_OF_BOUNDS_ERROR)
           else putnumber_at_loop (fst (putchar_at s (digit_char n digits) attr (r + 1) 0)) n attr (r + 1) 1 digits
      else putnumber_at_loop (fst (putchar_at s (digit_char n digits) attr r c)) n attr r (c + 1) digits)"

definition putnumber_at :: "video \<Rightarrow> int \<Rightarrow> u8 \<Rightarrow> int \<Rightarrow> int \<Rightarrow> video \<times> int" where
  "putnumber_at s n attr r c =
     (if out_of_bounds r c then (s, INDEX_OUT_OF_BOUNDS_ERROR)
      else let (s', n', c') = (if n < 0 then (fst (putchar_at s 45 attr r c), neg32 n, c + 1) else (s, n, c))
           in putnumber_at_loop s' n' attr r c' (count_digits n' 1))"

text \<open>
  \<open>delete\<close> steps back over blanks from the start of a row; \<open>current_loc\<close> is unsigned and the loop does
  not stop at 0.
\<close>

partial_function (option) delete_loop :: "mem \<Rightarrow> u32 \<Rightarrow> u32 option" where
  "delete_loop m loc = (if m (vaddr (unat (loc - 2))) = SPACE then delete_loop m (loc - 2) else Some loc)"

definition delete :: "video \<Rightarrow> video option" where
  "delete s =
     (let loc = current_loc s in
      if loc = 0 then Some s
      else if (loc div 2) mod of_nat COLS = 0 \<and> peek s (unat (loc - 2)) = SPACE
      then map_option (\<lambda>l. s\<lparr>current_loc := l\<rparr>) (delete_loop (vmem s) loc)
      else Some ((poke (poke s (unat (loc - 1)) LIGHT_GREY) (unat (loc - 2)) SPACE)\<lparr>current_loc := loc - 2\<rparr>))"

definition scroll :: "video \<Rightarrow> video" where
  "scroll s =
     s\<lparr>vmem := memsetw (memcpy (vmem s) (vaddr (COLS * 2)) (vaddr (COLS * 4)) (of_nat (SCREENSIZE - COLS * 2)))
                 (vaddr (SCREENSIZE - COLS * 2)) 32 (int COLS),
       current_loc := current_loc s - of_nat (COLS * 2)\<rparr>"

text \<open>A character other than a tab, and a tab as four blanks; both end by scrolling when the screen is full.\<close>

definition finish_putchar :: "video \<Rightarrow> video" where
  "finish_putchar s =
     update_cursor (if current_loc s \<ge> of_nat SCREENSIZE then scroll s else s)"

definition putchar_plain :: "video \<Rightarrow> u8 \<Rightarrow> u8 \<Rightarrow> video option" where
  "putchar_plain s ch attr =
     (let loc = current_loc s in
      map_option finish_putchar
        (if ch = 10 then Some (s\<lparr>current_loc := loc + (of_nat (COLS * 2) - loc mod of_nat (COLS * 2))\<rparr>)
         else if ch = 8 then (if loc > 0 then delete s else Some s)
         else Some ((poke (poke s (unat loc) ch) (unat (loc + 1)) attr)\<lparr>current_loc := loc + 2\<rparr>)))"

definition putchar :: "video \<Rightarrow> u8 \<Rightarrow> u8 \<Rightarrow> video option" where
  "putchar s ch attr =
     (if ch = 9
      then map_option finish_putchar
        (do { s1 \<leftarrow> putchar_plain s SPACE attr; s2 \<leftarrow> putchar_plain s1 SPACE attr;
              s3 \<leftarrow> putchar_plain s2 SPACE attr; putchar_plain s3 SPACE attr })
      else putchar_plain s ch attr)"

fun puts :: "video \<Rightarrow> u8 list \<Rightarrow> u8 \<Rightarrow> video option" where
  "puts s [] attr = Some s"
| "puts s (x # str) attr = do { s' \<leftarrow> putchar s x attr; puts s' str attr }"

fun putnumber_loop :: "video \<Rightarrow> int \<Rightarrow> u8 \<Rightarrow> nat \<Rightarrow> video option" where
  "putnumber_loop s n attr 0 = Some s"
| "putnumber_loop s n attr (Suc digits) =
     do { s' \<leftarrow> putchar s (digit_char n digits) attr; putnumber_loop s' n attr digits }"

definition putnumber :: "video \<Rightarrow> int \<Rightarrow> u8 \<Rightarrow> video option" where
  "putnumber s n attr =
     (if n < 0
      then do { s' \<leftarrow> putchar s 45 attr; putnumber_loop s' (neg32 n) attr (count_digits (neg32 n) 1) }
      else putnumber_loop s n attr (count_digits n 1))"

section \<open>Bytes of the screen\<close>

lemma vaddr_eq: "i < 2 ^ 64 \<Longrightarrow> j < 2 ^ 64 \<Longrightarrow> vaddr i = vaddr j \<longleftrightarrow> i = j"
  by (simp add: vaddr_def of_nat_u64_inj)

lemma vaddr_offset: "vaddr (unat (a - 0xB8000)) = a"
  by (simp add: vaddr_def)

lemma vaddr_diff: "j < 2 ^ 64 \<Longrightarrow> i \<le> j \<Longrightarrow> unat (vaddr j - vaddr i) = j - i"
  using unat_of_nat_u64 [of "j - i"] by (simp add: vaddr_def of_nat_diff)

lemma vaddr_below:
  assumes "j < i" "i < 2 ^ 63"
  shows "2 ^ 63 < unat (vaddr j - vaddr i)"
proof -
  have "vaddr j - vaddr i = of_nat (2 ^ 64 - (i - j))"
    using assms by (simp add: vaddr_def of_nat_diff)
  then have "unat (vaddr j - vaddr i) = 2 ^ 64 - (i - j)" using assms unat_of_nat_u64 [of "2 ^ 64 - (i - j)"] by simp
  with assms show ?thesis by simp
qed

lemma peek_poke: "i < 2 ^ 64 \<Longrightarrow> j < 2 ^ 64 \<Longrightarrow> peek (poke s i b) j = (if j = i then b else peek s j)"
  by (simp add: peek_def poke_def vaddr_eq)

lemma poke_simps [simp]:
  "current_loc (poke s i b) = current_loc s" "crtc (poke s i b) = crtc s"
  by (simp_all add: poke_def)

lemma peek_simps [simp]:
  "peek (s\<lparr>current_loc := l\<rparr>) j = peek s j" "peek (s\<lparr>crtc := r\<rparr>) j = peek s j"
  "peek (update_cursor s) j = peek s j" "current_loc (update_cursor s) = current_loc s"
  by (simp_all add: peek_def update_cursor_def)

text \<open>Nothing but the 4000 bytes of the screen differs.\<close>

definition same_outside :: "video \<Rightarrow> video \<Rightarrow> bool" where
  "same_outside s s' \<longleftrightarrow> (\<forall>j. SCREENSIZE \<le> j \<longrightarrow> j < 2 ^ 64 \<longrightarrow> peek s' j = peek s j)"

lemma same_outside_refl [simp]: "same_outside s s"
  by (simp add: same_outside_def)

lemma same_outside_trans [trans]: "same_outside s t \<Longrightarrow> same_outside t u \<Longrightarrow> same_outside s u"
  by (simp add: same_outside_def)

lemma same_outside_poke: "i < SCREENSIZE \<Longrightarrow> same_outside s (poke s i b)"
  by (simp add: same_outside_def peek_poke screen_layout)

lemma same_outside_update [simp]:
  "same_outside s (t\<lparr>current_loc := l\<rparr>) = same_outside s t" "same_outside s (update_cursor t) = same_outside s t"
  by (simp_all add: same_outside_def)

lemma same_outside_memory:
  assumes "same_outside s s'" "a \<notin> region 0xB8000 SCREENSIZE"
  shows "vmem s' a = vmem s a"
proof -
  let ?j = "unat (a - 0xB8000)"
  have "SCREENSIZE \<le> ?j" using assms(2) by (simp add: in_region_iff screen_layout)
  moreover have "?j < 2 ^ 64" using unat_u64_less [of "a - 0xB8000"] by simp
  ultimately have "peek s' ?j = peek s ?j" using assms(1) by (simp add: same_outside_def)
  then show ?thesis by (simp only: peek_def vaddr_offset)
qed

section \<open>Filling and scrolling\<close>

lemma fill_loop_at:
  "even i \<Longrightarrow> j < 2 ^ 64 \<Longrightarrow>
     peek (fill_loop ch attr i s) j = (if i \<le> j \<and> j < SCREENSIZE then (if even j then ch else attr) else peek s j)"
proof (induction ch attr i s rule: fill_loop.induct)
  case (1 ch attr i s)
  show ?case
  proof (cases "i < SCREENSIZE")
    case True
    with 1 have ih: "peek (fill_loop ch attr i s) j =
        (if i + 2 \<le> j \<and> j < SCREENSIZE then (if even j then ch else attr)
         else peek (poke (poke s i ch) (i + 1) attr) j)"
      by (subst fill_loop.simps) simp
    have e: "even SCREENSIZE" "SCREENSIZE < 2 ^ 64" by (simp_all add: screen_layout)
    have i1: "i + 1 < SCREENSIZE" using True 1(2) e(1) by (metis Suc_eq_plus1 Suc_lessI even_Suc)
    have "peek (poke (poke s i ch) (i + 1) attr) j = (if j = i + 1 then attr else if j = i then ch else peek s j)"
      using i1 e(2) 1(3) by (simp add: peek_poke)
    moreover have "j = i + 1 \<or> j = i \<or> j < i \<or> i + 2 \<le> j" by linarith
    ultimately show ?thesis using ih i1 1(2) by auto
  next
    case False
    then show ?thesis by (subst fill_loop.simps) auto
  qed
qed

lemma memsetw_loop_at:
  assumes "i + k \<le> 2 ^ 62" "j < 2 ^ 63"
  shows "memsetw_loop m d v i k (d + of_nat j) =
    (if 2 * i \<le> j \<and> j < 2 * (i + k) then (if even j then ucast v else ucast (drop_bit 8 v)) else m (d + of_nat j))"
  using assms(1)
proof (induction k arbitrary: m i)
  case (Suc k)
  have ih: "memsetw_loop m d v i (Suc k) (d + of_nat j) =
      (if 2 * Suc i \<le> j \<and> j < 2 * (Suc i + k) then (if even j then ucast v else ucast (drop_bit 8 v))
       else store16 m (d + 2 * of_nat i) v (d + of_nat j))"
    using Suc by simp
  have a: "d + 2 * of_nat i = d + of_nat (2 * i)" "d + 2 * of_nat i + 1 = d + of_nat (2 * i + 1)" by simp_all
  have "of_nat j = (of_nat (2 * i) :: u64) \<longleftrightarrow> j = 2 * i"
    using assms(2) Suc.prems by (intro of_nat_u64_inj) simp_all
  moreover have "of_nat j = (of_nat (2 * i + 1) :: u64) \<longleftrightarrow> j = 2 * i + 1"
    using assms(2) Suc.prems by (intro of_nat_u64_inj) simp_all
  ultimately have "store16 m (d + 2 * of_nat i) v (d + of_nat j) =
      (if j = 2 * i + 1 then ucast (drop_bit 8 v) else if j = 2 * i then ucast v else m (d + of_nat j))"
    unfolding store16_def a(2) unfolding a(1) by (simp del: of_nat_mult of_nat_add)
  moreover have "j = 2 * i + 1 \<or> j = 2 * i \<or> j < 2 * i \<or> 2 * Suc i \<le> j" by arith
  ultimately show ?case unfolding ih by auto
qed auto

lemma memsetw_loop_other:
  "(\<And>j. j < 2 * (i + k) \<Longrightarrow> x \<noteq> d + of_nat j) \<Longrightarrow> memsetw_loop m d v i k x = m x"
proof (induction k arbitrary: m i)
  case (Suc k)
  have "x \<noteq> d + of_nat (2 * i)" "x \<noteq> d + of_nat (2 * i + 1)" by (rule Suc.prems; simp)+
  then have "store16 m (d + 2 * of_nat i) v x = m x" by (auto simp: store16_def ac_simps)
  moreover have "memsetw_loop (store16 m (d + 2 * of_nat i) v) d v (Suc i) k x = store16 m (d + 2 * of_nat i) v x"
    by (rule Suc.IH) (rule Suc.prems, simp)
  ultimately show ?case by simp
qed simp

lemma peek_scroll:
  assumes "j < 2 ^ 64"
  shows "peek (scroll s) j =
    (if 160 \<le> j \<and> j < 3840 then peek s (j + 160)
     else if 3840 \<le> j \<and> j < 4000 then (if even j then SPACE else 0) else peek s j)"
proof -
  let ?m = "memcpy (vmem s) (vaddr 160) (vaddr 320) 3840"
  have p: "peek (scroll s) j = memsetw_loop ?m (vaddr 3840) 32 0 80 (vaddr j)"
    by (simp add: peek_def scroll_def screen_layout memsetw_def)
  have "unat (3840 :: u64) \<le> unat (vaddr 160 - vaddr 320)" using vaddr_below [of 160 320] by simp
  then have copy: "?m (vaddr j) = (if unat (vaddr j - vaddr 160) < 3840 then vmem s (vaddr 320 + (vaddr j - vaddr 160))
      else vmem s (vaddr j))"
    by (subst memcpy_correct) simp_all
  have src: "vaddr 320 + (vaddr j - vaddr 160) = vaddr (j + 160)" by (simp add: vaddr_def)
  have mid: "?m (vaddr j) = (if 160 \<le> j \<and> j < 4000 then peek s (j + 160) else peek s j)"
  proof (cases "160 \<le> j")
    case True
    then show ?thesis unfolding copy src using vaddr_diff [OF assms True] by (auto simp: peek_def)
  next
    case False
    then show ?thesis unfolding copy using vaddr_below [of j 160] by (simp add: peek_def)
  qed
  show ?thesis
  proof (cases "3840 \<le> j \<and> j < 4000")
    case True
    have v: "vaddr j = vaddr 3840 + of_nat (j - 3840)" using True by (simp add: vaddr_def of_nat_diff)
    have "j - 3840 < 160" using True by linarith
    then have "j - 3840 < 2 ^ 63" by simp
    from memsetw_loop_at [OF _ this, of 0 80 ?m "vaddr 3840" 32]
    show ?thesis unfolding p v using True by auto
  next
    case False
    have "vaddr j \<noteq> vaddr 3840 + of_nat k" if "k < 2 * (0 + 80)" for k
    proof -
      have "vaddr 3840 + of_nat k = vaddr (3840 + k)" by (simp add: vaddr_def)
      moreover have "j \<noteq> 3840 + k" using False that by auto
      ultimately show ?thesis using vaddr_eq [OF assms, of "3840 + k"] that by simp
    qed
    from memsetw_loop_other [of 0 80 "vaddr j" "vaddr 3840" ?m 32, OF this] show ?thesis
      unfolding p using mid False by auto
  qed
qed

lemma same_outside_scroll: "same_outside s t \<Longrightarrow> same_outside s (scroll t)"
  by (simp add: same_outside_def peek_scroll screen_layout)

section \<open>Characters one after the other\<close>

definition video_inv :: "video \<Rightarrow> bool" where
  "video_inv s \<longleftrightarrow> even (unat (current_loc s)) \<and> unat (current_loc s) < SCREENSIZE"

text \<open>Some cell before the cursor is not blank: what stops a deletion.\<close>

definition anchored :: "video \<Rightarrow> bool" where
  "anchored s \<longleftrightarrow> (\<exists>k < unat (current_loc s). even k \<and> peek s k \<noteq> SPACE)"

text \<open>The cursor stands at the start of a row but the first, and every cell before it is blank.\<close>

definition stuck :: "video \<Rightarrow> bool" where
  "stuck s \<longleftrightarrow> current_loc s \<noteq> 0 \<and> (current_loc s div 2) mod of_nat COLS = 0 \<and> \<not> anchored s"

lemma screensize: "SCREENSIZE = 4000" "of_nat SCREENSIZE = (4000 :: u32)" "of_nat (COLS * 2) = (160 :: u32)"
  "of_nat COLS = (80 :: u32)"
  by (simp_all add: screen_layout)

lemma loc_plus: "unat (loc :: u32) < 4000 \<Longrightarrow> k \<le> 4000 \<Longrightarrow> unat (loc + of_nat k) = unat loc + k"
  using unat_plus_no_wrap [of loc "of_nat k"] by (simp add: unat_of_nat)

lemma loc_minus: "(k :: nat) \<le> unat (loc :: u32) \<Longrightarrow> k \<le> 4000 \<Longrightarrow> unat (loc - of_nat k) = unat loc - k"
  using unat_minus_no_wrap [of "of_nat k" loc] by (simp add: unat_of_nat)

lemma loc_succs:
  assumes "unat (loc :: u32) < 4000"
  shows "unat (loc + 1) = unat loc + 1" "unat (loc + 2) = unat loc + 2"
  using loc_plus [OF assms, of 1] loc_plus [OF assms, of 2] by simp_all

lemma finish_spec:
  assumes "even (unat (current_loc t))" "unat (current_loc t) < 4160" "same_outside s t"
  shows "video_inv (finish_putchar t)" "same_outside s (finish_putchar t)"
    and "unat (current_loc t) < 4000 \<Longrightarrow> finish_putchar t = update_cursor t"
    and "4000 \<le> unat (current_loc t) \<Longrightarrow> finish_putchar t = update_cursor (scroll t) \<and>
           unat (current_loc (finish_putchar t)) = unat (current_loc t) - 160"
proof -
  have le: "current_loc t \<ge> of_nat SCREENSIZE \<longleftrightarrow> 4000 \<le> unat (current_loc t)"
    by (simp add: screensize word_le_nat_alt)
  have c: "unat (current_loc (scroll t)) = unat (current_loc t) - 160" if "4000 \<le> unat (current_loc t)"
    using loc_minus [of 160 "current_loc t"] that by (simp add: scroll_def screensize)
  show "unat (current_loc t) < 4000 \<Longrightarrow> finish_putchar t = update_cursor t"
    by (simp add: finish_putchar_def le)
  show "4000 \<le> unat (current_loc t) \<Longrightarrow> finish_putchar t = update_cursor (scroll t) \<and>
      unat (current_loc (finish_putchar t)) = unat (current_loc t) - 160"
    using c by (simp add: finish_putchar_def le)
  then have a: "4000 \<le> unat (current_loc t) \<Longrightarrow>
      unat (current_loc (finish_putchar t)) = unat (current_loc t) - 160" by blast
  show "video_inv (finish_putchar t)"
  proof (cases "4000 \<le> unat (current_loc t)")
    case True
    with a assms(1,2) show ?thesis by (simp add: video_inv_def screensize del: poke_simps)
  next
    case False
    then have "finish_putchar t = update_cursor t" by (simp add: finish_putchar_def le)
    with False assms(1) show ?thesis by (simp add: video_inv_def screensize)
  qed
  show "same_outside s (finish_putchar t)"
    using assms(3) by (simp add: finish_putchar_def same_outside_scroll)
qed

text \<open>The character is in its cell, and the cursor behind it, before the screen may scroll.\<close>

definition put_cell :: "video \<Rightarrow> u8 \<Rightarrow> u8 \<Rightarrow> video" where
  "put_cell s ch attr =
     (poke (poke s (unat (current_loc s)) ch) (unat (current_loc s) + 1) attr)\<lparr>current_loc := current_loc s + 2\<rparr>"

lemma put_cell_spec:
  assumes "video_inv s"
  shows "unat (current_loc (put_cell s ch attr)) = unat (current_loc s) + 2" "same_outside s (put_cell s ch attr)"
    and "j < 2 ^ 64 \<Longrightarrow> peek (put_cell s ch attr) j =
      (if j = unat (current_loc s) then ch else if j = unat (current_loc s) + 1 then attr else peek s j)"
proof -
  let ?l = "unat (current_loc s)"
  have l: "even ?l" "?l < 4000" using assms by (simp_all add: video_inv_def screensize)
  have l1: "?l + 1 < 4000"
  proof (rule ccontr)
    assume "\<not> ?l + 1 < 4000"
    with l(2) have "?l = 3999" by linarith
    with l(1) show False by simp
  qed
  show "unat (current_loc (put_cell s ch attr)) = ?l + 2" using loc_succs [OF l(2)] by (simp add: put_cell_def)
  show "same_outside s (put_cell s ch attr)"
    using l l1 same_outside_trans [OF same_outside_poke same_outside_poke] by (simp add: put_cell_def screensize)
  show "j < 2 ^ 64 \<Longrightarrow> peek (put_cell s ch attr) j = (if j = ?l then ch else if j = ?l + 1 then attr else peek s j)"
    using l1 by (simp add: put_cell_def peek_poke)
qed

lemma plain_cell:
  assumes "video_inv s" "ch \<noteq> 8" "ch \<noteq> 10"
  shows "putchar_plain s ch attr = Some (finish_putchar (put_cell s ch attr))"
proof -
  have "unat (current_loc s) < 4000" using assms(1) by (simp add: video_inv_def screensize)
  then show ?thesis using assms loc_succs(1) by (simp add: putchar_plain_def put_cell_def Let_def)
qed

lemma put_cell_finish:
  assumes "video_inv s"
  shows "video_inv (finish_putchar (put_cell s ch attr)) \<and> same_outside s (finish_putchar (put_cell s ch attr))"
proof -
  note c = put_cell_spec [OF assms, where ch = ch and attr = attr]
  have "even (unat (current_loc (put_cell s ch attr)))" "unat (current_loc (put_cell s ch attr)) < 4160"
    using assms unfolding c(1) by (simp_all add: video_inv_def screensize)
  from finish_spec(1,2) [OF this c(2)] show ?thesis by blast
qed

lemma newline_loc:
  assumes "video_inv s"
  shows "unat (current_loc s + (of_nat (COLS * 2) - current_loc s mod of_nat (COLS * 2))) =
    (unat (current_loc s) div 160 + 1) * 160"
proof -
  let ?l = "unat (current_loc s)"
  have l: "?l < 4000" using assms by (simp add: video_inv_def screensize)
  have m: "unat (current_loc s mod 160) = ?l mod 160" by (simp add: unat_mod)
  then have "unat (160 - current_loc s mod 160) = 160 - ?l mod 160"
    by (subst unat_minus_no_wrap) simp_all
  then have "unat (current_loc s + (160 - current_loc s mod 160)) = ?l + (160 - ?l mod 160)"
    using l by (subst unat_plus_no_wrap) simp_all
  also have "?l + (160 - ?l mod 160) = (?l div 160 + 1) * 160"
  proof -
    have "?l = ?l div 160 * 160 + ?l mod 160" "?l mod 160 < 160" by simp_all
    then show ?thesis unfolding distrib_right by linarith
  qed
  finally show ?thesis by (simp add: screensize)
qed

lemma plain_newline:
  assumes "video_inv s"
  shows "\<exists>s'. putchar_plain s 10 attr = Some s' \<and> video_inv s' \<and> same_outside s s' \<and>
    unat (current_loc s') = min (unat (current_loc s) div 160 + 1) 24 * 160 \<and>
    (if unat (current_loc s) div 160 = 24 then \<forall>j < 2 ^ 64. peek s' j = peek (scroll s) j else \<forall>j. peek s' j = peek s j)"
proof -
  let ?t = "s\<lparr>current_loc := current_loc s + (of_nat (COLS * 2) - current_loc s mod of_nat (COLS * 2))\<rparr>"
  have l: "unat (current_loc s) < 4000" using assms by (simp add: video_inv_def screensize)
  have t: "unat (current_loc ?t) = (unat (current_loc s) div 160 + 1) * 160" using newline_loc [OF assms] by simp
  have d: "unat (current_loc s) div 160 \<le> 24" using l by simp
  have ev: "even (unat (current_loc ?t))" "unat (current_loc ?t) < 4160" using d unfolding t by simp_all
  have "same_outside s ?t" by simp
  note f = finish_spec [OF ev this]
  have p: "putchar_plain s 10 attr = Some (finish_putchar ?t)" by (simp add: putchar_plain_def Let_def)
  show ?thesis
  proof (cases "unat (current_loc s) div 160 = 24")
    case True
    then have c4: "unat (current_loc ?t) = 4000" unfolding t by simp
    then have "4000 \<le> unat (current_loc ?t)" by (simp only: order_refl)
    note f4 = f(4) [OF this]
    have eq: "finish_putchar ?t = update_cursor (scroll ?t)" using f4 by (rule conjunct1)
    have loc: "unat (current_loc (finish_putchar ?t)) = 3840" using f4 [THEN conjunct2] unfolding c4 by simp
    have "peek (finish_putchar ?t) j = peek (scroll s) j" if "j < 2 ^ 64" for j
      unfolding eq using that by (simp add: peek_scroll)
    with p f(1,2) True loc show ?thesis by (intro exI [of _ "finish_putchar ?t"]) simp
  next
    case False
    then have "unat (current_loc ?t) < 4000" using d unfolding t by simp
    with f(3) have "finish_putchar ?t = update_cursor ?t" by simp
    moreover have "min (unat (current_loc s) div 160 + 1) 24 = unat (current_loc s) div 160 + 1" using d False by simp
    ultimately show ?thesis using p f(1,2) t False by simp
  qed
qed

section \<open>Deleting\<close>

lemma delete_loop_spec:
  assumes "even (unat loc)" "unat loc < 4000" "k < unat loc" "even k" "m (vaddr k) \<noteq> SPACE"
  shows "\<exists>l. delete_loop m loc = Some l \<and> even (unat l) \<and> 0 < unat l \<and> unat l \<le> unat loc \<and>
    m (vaddr (unat l - 2)) \<noteq> SPACE \<and> (\<forall>j. unat l \<le> j \<longrightarrow> j < unat loc \<longrightarrow> even j \<longrightarrow> m (vaddr j) = SPACE)"
  using assms
proof (induction "unat loc" arbitrary: loc rule: less_induct)
  case less
  have two: "2 \<le> unat loc" using less.prems(1,3) by (auto elim!: evenE)
  have m2: "unat (loc - 2) = unat loc - 2" using loc_minus [of 2 loc] two by simp
  show ?case
  proof (cases "m (vaddr (unat (loc - 2))) = SPACE")
    case False
    then have "delete_loop m loc = Some loc" by (subst delete_loop.simps) simp
    then show ?thesis using less.prems(1) two False m2 by (intro exI [of _ loc]) auto
  next
    case True
    then have eq: "delete_loop m loc = delete_loop m (loc - 2)" by (subst delete_loop.simps) simp
    have "k \<noteq> unat loc - 2" using True less.prems(5) m2 by auto
    moreover have "k \<noteq> unat loc - 1" using less.prems(1,4) two by auto
    ultimately have k: "k < unat (loc - 2)" using less.prems(3) m2 by simp
    have "unat (loc - 2) < unat loc" using m2 two by simp
    moreover have "even (unat (loc - 2))" "unat (loc - 2) < 4000" using less.prems(1,2) m2 by simp_all
    ultimately obtain l where
      l: "delete_loop m (loc - 2) = Some l" "even (unat l)" "0 < unat l" "unat l \<le> unat (loc - 2)"
      "m (vaddr (unat l - 2)) \<noteq> SPACE"
      "\<forall>j. unat l \<le> j \<longrightarrow> j < unat (loc - 2) \<longrightarrow> even j \<longrightarrow> m (vaddr j) = SPACE"
      using less.hyps [of "loc - 2"] k less.prems(4,5) by blast
    have "m (vaddr j) = SPACE" if "unat l \<le> j" "j < unat loc" "even j" for j
    proof (cases "j < unat (loc - 2)")
      case False
      moreover have "j \<noteq> unat loc - 1" using less.prems(1) that(3) two by auto
      ultimately have "j = unat (loc - 2)" using that(2) m2 by simp
      with True show ?thesis by simp
    qed (use l(6) that in blast)
    then show ?thesis using eq l(1-5) m2 by (intro exI [of _ l]) auto
  qed
qed

lemma delete_spec:
  assumes "video_inv s" "current_loc s \<noteq> 0" "\<not> stuck s"
  shows "\<exists>t. delete s = Some t \<and> even (unat (current_loc t)) \<and> unat (current_loc t) \<le> unat (current_loc s) \<and> same_outside s t"
proof -
  let ?l = "current_loc s"
  have l: "even (unat ?l)" "unat ?l < 4000" using assms(1) by (simp_all add: video_inv_def screensize)
  have two: "2 \<le> unat ?l" using l(1) assms(2) by (auto elim!: evenE simp: unat_eq_0 [symmetric])
  show ?thesis
  proof (cases "(?l div 2) mod of_nat COLS = 0 \<and> peek s (unat (?l - 2)) = SPACE")
    case True
    obtain k where "k < unat ?l" "even k" "vmem s (vaddr k) \<noteq> SPACE"
      using assms(2,3) True by (auto simp: stuck_def anchored_def peek_def)
    from delete_loop_spec [where m = "vmem s" and k = k, OF l this] obtain x where
      "delete_loop (vmem s) ?l = Some x" "even (unat x)" "unat x \<le> unat ?l" by auto
    then show ?thesis using True assms(2) by (simp add: delete_def Let_def)
  next
    case False
    let ?t = "poke (poke s (unat (?l - 1)) LIGHT_GREY) (unat (?l - 2)) SPACE"
    have n: "unat (?l - 1) = unat ?l - 1" "unat (?l - 2) = unat ?l - 2"
      using loc_minus [of 1 ?l] loc_minus [of 2 ?l] two by simp_all
    have d: "delete s = Some (?t\<lparr>current_loc := ?l - 2\<rparr>)"
      unfolding delete_def Let_def if_not_P [OF assms(2)] if_not_P [OF False] ..
    have "same_outside s ?t"
      using same_outside_trans [OF same_outside_poke same_outside_poke] n l(2) by (simp add: screensize)
    then show ?thesis using d n l(1) two by simp
  qed
qed

lemma plain_confined:
  assumes "video_inv s" "ch = 8 \<longrightarrow> \<not> stuck s"
  shows "\<exists>s'. putchar_plain s ch attr = Some s' \<and> video_inv s' \<and> same_outside s s'"
proof (cases "ch = 8")
  case False
  show ?thesis
  proof (cases "ch = 10")
    case True
    then show ?thesis using plain_newline [OF assms(1)] by blast
  next
    case False
    with \<open>ch \<noteq> 8\<close> show ?thesis using plain_cell [OF assms(1)] put_cell_finish [OF assms(1)] by blast
  qed
next
  case True
  have l: "even (unat (current_loc s))" "unat (current_loc s) < 4000"
    using assms(1) by (simp_all add: video_inv_def screensize)
  obtain t where t: "(if current_loc s > 0 then delete s else Some s) = Some t"
    "even (unat (current_loc t))" "unat (current_loc t) < 4160" "same_outside s t"
    using delete_spec [OF assms(1)] assms(2) True l by (cases "current_loc s = 0") (auto simp: word_gt_0)
  have "putchar_plain s ch attr = Some (finish_putchar t)" using True t(1) by (simp add: putchar_plain_def Let_def)
  with finish_spec(1,2) [OF t(2-4)] show ?thesis by blast
qed

lemma putchar_spec:
  assumes "video_inv s" "ch = 8 \<longrightarrow> \<not> stuck s"
  shows "\<exists>s'. putchar s ch attr = Some s' \<and> video_inv s' \<and> same_outside s s'"
proof (cases "ch = 9")
  case False
  then show ?thesis using plain_confined [OF assms] by (simp add: putchar_def)
next
  case True
  have step: "\<exists>t'. putchar_plain t SPACE attr = Some t' \<and> video_inv t' \<and> same_outside s t'"
    if "video_inv t" "same_outside s t" for t
    using plain_confined [OF that(1), of SPACE attr] same_outside_trans [OF that(2)] by auto
  obtain s1 where s1: "putchar_plain s SPACE attr = Some s1" "video_inv s1" "same_outside s s1"
    using step [OF assms(1)] by auto
  obtain s2 where s2: "putchar_plain s1 SPACE attr = Some s2" "video_inv s2" "same_outside s s2"
    using step [OF s1(2,3)] by auto
  obtain s3 where s3: "putchar_plain s2 SPACE attr = Some s3" "video_inv s3" "same_outside s s3"
    using step [OF s2(2,3)] by auto
  obtain s4 where s4: "putchar_plain s3 SPACE attr = Some s4" "video_inv s4" "same_outside s s4"
    using step [OF s3(2,3)] by auto
  have "putchar s ch attr = Some (finish_putchar s4)" using True s1(1) s2(1) s3(1) s4(1) by (simp add: putchar_def)
  moreover have "even (unat (current_loc s4))" "unat (current_loc s4) < 4160"
    using s4(2) by (simp_all add: video_inv_def screensize)
  ultimately show ?thesis using finish_spec(1,2) [OF _ _ s4(3)] by blast
qed

lemma puts_spec:
  "video_inv s \<Longrightarrow> 8 \<notin> set str \<Longrightarrow> \<exists>s'. puts s str attr = Some s' \<and> video_inv s' \<and> same_outside s s'"
proof (induction str arbitrary: s)
  case (Cons x str)
  then obtain s1 where s1: "putchar s x attr = Some s1" "video_inv s1" "same_outside s s1"
    using putchar_spec [OF Cons.prems(1), of x attr] by auto
  with Cons.IH [OF s1(2)] Cons.prems(2) obtain s' where "puts s1 str attr = Some s'" "video_inv s'" "same_outside s1 s'"
    by auto
  with s1 show ?case by (auto intro: same_outside_trans)
qed simp

section \<open>Printing at a place\<close>

lemma putchar_at_spec:
  "same_outside s (fst (putchar_at s ch attr r c)) \<and> current_loc (fst (putchar_at s ch attr r c)) = current_loc s"
proof (cases "out_of_bounds r c")
  case False
  let ?i = "nat ((c + r * int COLS) * 2)"
  have b: "0 \<le> r" "r \<le> 24" "0 \<le> c" "c \<le> 79" using False by (auto simp: out_of_bounds_def screen_layout)
  then have i: "?i + 1 < SCREENSIZE" "nat ((c + r * int COLS) * 2 + 1) = ?i + 1"
    by (simp_all add: screen_layout nat_add_distrib)
  have "same_outside s (poke (poke s ?i ch) (?i + 1) attr)"
    using i(1) by (intro same_outside_trans [OF same_outside_poke same_outside_poke]) simp_all
  then show ?thesis using False i(2) by (simp add: putchar_at_def)
qed (simp add: putchar_at_def)

lemma puts_at_loop_spec:
  "same_outside s (fst (puts_at_loop s str attr r c)) \<and> current_loc (fst (puts_at_loop s str attr r c)) = current_loc s"
proof (induction s str attr r c rule: puts_at_loop.induct)
  case (2 s x str attr r c)
  then show ?case
    using putchar_at_spec [of s x attr] by (auto intro: same_outside_trans)
qed simp

lemma puts_at_spec:
  "same_outside v (fst (puts_at v str attr r c)) \<and> current_loc (fst (puts_at v str attr r c)) = current_loc v"
  using puts_at_loop_spec by (simp add: puts_at_def)

text \<open>A line of text that fits its row.\<close>

lemma puts_at_loop_cells:
  assumes "0 \<le> r" "r < 25" "0 \<le> c" "c + int (length str) \<le> 80" "10 \<notin> set str" "j < 2 ^ 64"
  shows "peek (fst (puts_at_loop s str attr r c)) j =
    (if nat ((c + r * 80) * 2) \<le> j \<and> j < nat ((c + r * 80) * 2) + 2 * length str
     then (if even j then str ! ((j - nat ((c + r * 80) * 2)) div 2) else attr) else peek s j)"
  using assms
proof (induction str arbitrary: s c)
  case (Cons x str)
  let ?i = "nat ((c + r * 80) * 2)"
  have i: "nat ((c + 1 + r * 80) * 2) = ?i + 2" "nat ((c + r * 80) * 2 + 1) = ?i + 1" "?i + 1 < 2 ^ 64" "even ?i"
    using Cons.prems(1-4) by (simp_all add: even_nat_iff)
  have "\<not> out_of_bounds r c" using Cons.prems by (simp add: out_of_bounds_def screen_layout)
  then have p: "fst (putchar_at s x attr r c) = poke (poke s ?i x) (?i + 1) attr"
    using i(2) by (simp add: putchar_at_def screen_layout)
  have step: "puts_at_loop s (x # str) attr r c = puts_at_loop (poke (poke s ?i x) (?i + 1) attr) str attr r (c + 1)"
    using Cons.prems p by (simp add: screen_layout)
  have ih: "peek (fst (puts_at_loop s (x # str) attr r c)) j =
      (if ?i + 2 \<le> j \<and> j < ?i + 2 + 2 * length str
       then (if even j then str ! ((j - (?i + 2)) div 2) else attr)
       else peek (poke (poke s ?i x) (?i + 1) attr) j)"
    unfolding step by (rule Cons.IH [of "c + 1", unfolded i(1)]) (use Cons.prems in simp_all)
  define i where "i = ?i"
  define t where "t = puts_at_loop s (x # str) attr r c"
  have "j < i \<or> j = i \<or> j = i + 1 \<or> i + 2 \<le> j" by linarith
  then show ?case using ih i(2-) Cons.prems(6) unfolding i_def [symmetric] t_def [symmetric]
  proof (elim disjE, goal_cases)
    case 4
    then have "(j - i) div 2 = Suc ((j - (i + 2)) div 2)" by linarith
    with 4 show ?case by (simp add: peek_poke)
  qed (simp_all add: peek_poke)
qed auto

lemma puts_at_cells:
  assumes "0 \<le> r" "r < 25" "0 \<le> c" "c < 80" "c + int (length str) \<le> 80" "10 \<notin> set str" "j < 2 ^ 64"
  shows "peek (fst (puts_at s str attr r c)) j =
    (if nat ((c + r * 80) * 2) \<le> j \<and> j < nat ((c + r * 80) * 2) + 2 * length str
     then (if even j then str ! ((j - nat ((c + r * 80) * 2)) div 2) else attr) else peek s j)"
proof -
  have "\<not> out_of_bounds r c" using assms by (simp add: out_of_bounds_def screen_layout)
  then show ?thesis using puts_at_loop_cells [OF assms(1-3,5-7), of s attr] by (simp add: puts_at_def)
qed

lemma putnumber_at_loop_spec:
  "same_outside s (fst (putnumber_at_loop s n attr r c k)) \<and>
     current_loc (fst (putnumber_at_loop s n attr r c k)) = current_loc s"
proof (induction s n attr r c k rule: putnumber_at_loop.induct)
  case (2 s n attr r c digits)
  then show ?case
    using putchar_at_spec [of s "digit_char n digits" attr] by (auto intro: same_outside_trans)
qed simp

section \<open>Numbers\<close>

text \<open>The decimal digits of a number, as a reference.\<close>

fun decimal :: "nat \<Rightarrow> nat list" where
  "decimal n = (if n < 10 then [n] else decimal (n div 10) @ [n mod 10])"

declare decimal.simps [simp del]

lemma sdiv10: "int n sdiv 10 = int (n div 10)" "int n smod 10 = int (n mod 10)"
  by (simp_all add: signed_divide_int_def signed_modulo_int_def zdiv_int zmod_int sgn_if)

lemma sdiv10_pow: "((\<lambda>k. k sdiv 10) ^^ i) (int n) = int (n div 10 ^ i)"
  by (induction i) (simp_all add: sdiv10 div_mult2_eq [symmetric] mult.commute)

lemma count_digits_spec: "count_digits (int n) k = k + length (decimal n) - 1"
proof (induction n arbitrary: k rule: less_induct)
  case (less n)
  have ne: "decimal m \<noteq> []" for m by (subst decimal.simps) simp
  show ?case
  proof (cases "n < 10")
    case True
    then show ?thesis by (subst count_digits.simps, subst decimal.simps) (simp add: sdiv10)
  next
    case False
    then have "0 < n div 10" by (simp add: div_greater_zero_iff)
    then have "count_digits (int n) k = count_digits (int (n div 10)) (k + 1)"
      by (subst count_digits.simps) (simp add: sdiv10)
    also have "\<dots> = k + 1 + length (decimal (n div 10)) - 1" using less.IH [of "n div 10"] False by simp
    finally show ?thesis using False ne [of "n div 10"] by (subst decimal.simps) (cases "decimal (n div 10)", auto)
  qed
qed

lemma decimal_nth:
  "map (\<lambda>i. n div 10 ^ i mod 10) (rev [0..<length (decimal n)]) = decimal n"
proof (induction n rule: less_induct)
  case (less n)
  show ?case
  proof (cases "n < 10")
    case True
    then show ?thesis by (simp add: decimal.simps)
  next
    case False
    let ?l = "length (decimal (n div 10))"
    have d: "decimal n = decimal (n div 10) @ [n mod 10]" using False by (subst decimal.simps) simp
    have "rev [0..<Suc ?l] = map Suc (rev [0..<?l]) @ [0]"
      by (simp add: upt_conv_Cons map_Suc_upt [symmetric] rev_map del: upt_Suc)
    then have "map (\<lambda>i. n div 10 ^ i mod 10) (rev [0..<Suc ?l]) =
        map (\<lambda>i. n div 10 div 10 ^ i mod 10) (rev [0..<?l]) @ [n mod 10]"
      by (simp add: comp_def div_mult2_eq [symmetric])
    with less.IH [of "n div 10"] False d show ?thesis by simp
  qed
qed

definition decimal_chars :: "nat \<Rightarrow> u8 list" where
  "decimal_chars n = map (\<lambda>d. of_nat (d + 48)) (decimal n)"

lemma digit_char_nat: "digit_char (int n) i = of_nat (n div 10 ^ i mod 10 + 48)"
proof -
  have "int (n div 10 ^ i mod 10) + 48 = int (n div 10 ^ i mod 10 + 48)" by simp
  then show ?thesis unfolding digit_char_def sdiv10_pow sdiv10 by (simp only: of_int_of_nat_eq)
qed

lemma putnumber_loop_puts:
  "putnumber_loop s n attr k = puts s (map (digit_char n) (rev [0..<k])) attr"
  by (induction k arbitrary: s) (auto simp: option_bind_Some_iff intro: option.expand)

section \<open>Properties\<close>

lemma delete_loop_stuck:
  assumes "even (unat loc)" "unat loc < 4000" "\<forall>j < unat loc. even j \<longrightarrow> m (vaddr j) = SPACE"
  shows "delete_loop m loc = delete_loop m 0"
  using assms
proof (induction "unat loc" arbitrary: loc rule: less_induct)
  case less
  show ?case
  proof (cases "loc = 0")
    case False
    then have two: "2 \<le> unat loc" using less.prems(1) by (auto elim!: evenE simp: unat_eq_0 [symmetric])
    have m2: "unat (loc - 2) = unat loc - 2" using loc_minus [of 2 loc] two by simp
    have "delete_loop m loc = delete_loop m (loc - 2)"
      using less.prems(1,3) two m2 by (subst delete_loop.simps) simp
    also have "\<dots> = delete_loop m 0" using less.prems m2 two by (intro less.hyps) auto
    finally show ?thesis .
  qed simp
qed

lemma putchar_stuck:
  assumes "video_inv s" "stuck s"
  shows "putchar s 8 attr =
    map_option (\<lambda>l. finish_putchar (s\<lparr>current_loc := l\<rparr>))
      (if vmem s (vaddr (2 ^ 32 - 2)) = SPACE then delete_loop (vmem s) (- 2) else Some 0)"
proof -
  let ?l = "current_loc s"
  have l: "even (unat ?l)" "unat ?l < 4000" using assms(1) by (simp_all add: video_inv_def screensize)
  have ne: "?l \<noteq> 0" and row: "(?l div 2) mod of_nat COLS = 0" and blank: "\<forall>j < unat ?l. even j \<longrightarrow> vmem s (vaddr j) = SPACE"
    using assms(2) by (auto simp: stuck_def anchored_def peek_def)
  have two: "2 \<le> unat ?l" using l(1) ne by (auto elim!: evenE simp: unat_eq_0 [symmetric])
  have "unat (?l - 2) = unat ?l - 2" using loc_minus [of 2 ?l] two by simp
  then have "peek s (unat (?l - 2)) = SPACE" using blank l(1) two by (simp add: peek_def)
  with ne row have "delete s = map_option (\<lambda>l. s\<lparr>current_loc := l\<rparr>) (delete_loop (vmem s) ?l)"
    by (simp add: delete_def Let_def)
  moreover have "delete_loop (vmem s) ?l = delete_loop (vmem s) 0" by (rule delete_loop_stuck [OF l blank])
  moreover have "delete_loop (vmem s) 0 = (if vmem s (vaddr (2 ^ 32 - 2)) = SPACE then delete_loop (vmem s) (- 2) else Some 0)"
    by (subst delete_loop.simps) simp
  ultimately show ?thesis
    using ne by (simp add: putchar_def putchar_plain_def Let_def word_gt_0 option.map_comp comp_def)
qed

text \<open>
  C37: every character, printed with every attribute on every screen, has one of two outcomes. Either it
  is printed, touches no memory outside the 4000 bytes of the screen and leaves the cursor on a cell of the screen:
  line ends, tabs, the scrolling of a full screen and backspaces included. Or it is a backspace
  at the start of a row below the first with nothing but blanks before it. Then the loop of \<open>delete\<close> runs past the
  first cell of the screen: what decides is the byte 4 GB above the screen's start, less two, which it reads next; the
  cursor ends on cell 0 if that is no blank, and otherwise the search goes on downwards from there.
\<close>

theorem putchar_confined:
  assumes "video_inv s"
  shows "if ch = 8 \<and> stuck s
    then putchar s ch attr =
      map_option (\<lambda>l. finish_putchar (s\<lparr>current_loc := l\<rparr>))
        (if vmem s (vaddr (2 ^ 32 - 2)) = SPACE then delete_loop (vmem s) (- 2) else Some 0)
    else \<exists>s'. putchar s ch attr = Some s' \<and> video_inv s' \<and>
      (\<forall>a. a \<notin> region 0xB8000 SCREENSIZE \<longrightarrow> vmem s' a = vmem s a)"
proof (cases "ch = 8 \<and> stuck s")
  case True
  then show ?thesis using putchar_stuck [OF assms] by (simp only: simp_thms if_True)
next
  case False
  then have "ch = 8 \<longrightarrow> \<not> stuck s" by blast
  from putchar_spec [OF assms this] same_outside_memory show ?thesis unfolding if_not_P [OF False] by blast
qed

definition blank_video :: video where
  "blank_video = \<lparr>vmem = (\<lambda>a. 32), current_loc = 160, crtc = (\<lambda>i. 0)\<rparr>"

lemma blank_video_inv: "video_inv blank_video"
  by (simp add: video_inv_def blank_video_def screensize)

theorem putchar_confined_witness:
  "(\<exists>s'. putchar blank_video 9 7 = Some s' \<and> video_inv s') \<and> stuck blank_video \<and>
   putchar blank_video 8 7 = map_option (\<lambda>l. finish_putchar (blank_video\<lparr>current_loc := l\<rparr>)) (delete_loop (\<lambda>a. 32) (- 2))"
proof -
  have "stuck blank_video" by (simp add: stuck_def anchored_def blank_video_def peek_def screen_layout)
  then show ?thesis
    using putchar_confined [OF blank_video_inv, of 9 7] putchar_confined [OF blank_video_inv, of 8 7]
    by (auto simp: blank_video_def)
qed

text \<open>
  a string without backspaces is printed completely, whatever its length, inside the screen.
\<close>

theorem puts_confined:
  assumes "video_inv s" "8 \<notin> set str"
  shows "\<exists>s'. puts s str attr = Some s' \<and> video_inv s' \<and>
    (\<forall>a. a \<notin> region 0xB8000 SCREENSIZE \<longrightarrow> vmem s' a = vmem s a)"
  using puts_spec [OF assms] same_outside_memory by blast

theorem puts_confined_witness: "\<exists>s'. puts blank_video [72, 105, 10] 7 = Some s' \<and> video_inv s'"
  using puts_confined [OF blank_video_inv, of "[72, 105, 10]" 7] by auto

text \<open>
  what a printable character does: in any cell but the last of the screen it and its attribute
  become that cell, the cursor moves behind it, and no other byte changes; in the last cell the screen
  scrolls afterwards.
\<close>

theorem putchar_writes_cell:
  assumes "video_inv s" "ch \<notin> {8, 9, 10}"
  shows "\<exists>s'. putchar s ch attr = Some s' \<and>
    (if unat (current_loc s) + 2 < SCREENSIZE
     then unat (current_loc s') = unat (current_loc s) + 2 \<and>
       (\<forall>j < 2 ^ 64. peek s' j = (if j = unat (current_loc s) then ch
          else if j = unat (current_loc s) + 1 then attr else peek s j))
     else unat (current_loc s') = SCREENSIZE - 160 \<and>
       (\<forall>j < 2 ^ 64. peek s' j = peek (scroll (put_cell s ch attr)) j))"
proof -
  note c = put_cell_spec [OF assms(1), where ch = ch and attr = attr]
  have l: "even (unat (current_loc s))" "unat (current_loc s) < 4000"
    using assms(1) by (simp_all add: video_inv_def screensize)
  have ev: "even (unat (current_loc (put_cell s ch attr)))" "unat (current_loc (put_cell s ch attr)) < 4160"
    unfolding c(1) using l by simp_all
  note f = finish_spec [OF ev c(2)]
  have p: "putchar s ch attr = Some (finish_putchar (put_cell s ch attr))"
    using assms by (simp add: putchar_def plain_cell)
  show ?thesis
  proof (cases "unat (current_loc s) + 2 < SCREENSIZE")
    case True
    then have "finish_putchar (put_cell s ch attr) = update_cursor (put_cell s ch attr)"
      using f(3) c(1) by (simp add: screensize)
    with p True c(1,3) show ?thesis by simp
  next
    case False
    have "unat (current_loc s) \<noteq> 3999" using l(1) by auto
    then have "unat (current_loc s) = 3998" using False l(2) by (simp add: screensize)
    then have c4: "unat (current_loc (put_cell s ch attr)) = 4000" using c(1) by simp
    then have "4000 \<le> unat (current_loc (put_cell s ch attr))" by simp
    note f4 = f(4) [OF this]
    have eq: "finish_putchar (put_cell s ch attr) = update_cursor (scroll (put_cell s ch attr))"
      using f4 by (rule conjunct1)
    have "unat (current_loc (finish_putchar (put_cell s ch attr))) = 3840"
      using f4 [THEN conjunct2] unfolding c4 by simp
    moreover have "peek (finish_putchar (put_cell s ch attr)) j = peek (scroll (put_cell s ch attr)) j" for j
      unfolding eq by simp
    ultimately show ?thesis using p False by (simp add: screensize)
  qed
qed

theorem putchar_writes_cell_witness:
  "\<exists>s'. putchar blank_video 65 7 = Some s' \<and> unat (current_loc s') = 162 \<and> peek s' 160 = 65"
proof -
  have l: "unat (current_loc blank_video) = 160" by (simp add: blank_video_def)
  obtain s' where "putchar blank_video 65 7 = Some s'" "unat (current_loc s') = 162"
    "\<forall>j < 2 ^ 64. peek s' j = (if j = 160 then 65 else if j = 161 then 7 else peek blank_video j)"
    using putchar_writes_cell [OF blank_video_inv, of 65 7] unfolding l by (auto simp: screensize)
  then show ?thesis by auto
qed

text \<open>
  scrolling moves rows 2 to 24 up by one and blanks the last row; the title row 0 and all other
  memory stay as they were, although the copy reads a row beyond the screen.
\<close>

theorem scroll_rows:
  "(\<forall>r c k. 1 \<le> r \<and> r < 24 \<and> c < COLS \<and> k < 2 \<longrightarrow>
      peek (scroll s) (2 * (c + r * COLS) + k) = peek s (2 * (c + (r + 1) * COLS) + k)) \<and>
   (\<forall>c < COLS. peek (scroll s) (2 * (c + 24 * COLS)) = SPACE \<and> peek (scroll s) (2 * (c + 24 * COLS) + 1) = 0) \<and>
   (\<forall>j < 2 ^ 64. j < 160 \<or> SCREENSIZE \<le> j \<longrightarrow> peek (scroll s) j = peek s j)"
proof (intro conjI allI impI)
  fix r c k :: nat
  assume a: "1 \<le> r \<and> r < 24 \<and> c < COLS \<and> k < 2"
  let ?j = "2 * (c + r * COLS) + k"
  have "160 \<le> ?j" "?j < 3840" using a by (simp_all add: COLS_def)
  then show "peek (scroll s) ?j = peek s (2 * (c + (r + 1) * COLS) + k)"
    by (subst peek_scroll) (simp_all add: COLS_def ac_simps)
qed (auto simp: peek_scroll screen_layout)

theorem scroll_rows_witness: "peek (scroll blank_video) 3841 = 0"
proof -
  have "(0 :: nat) < COLS" by (simp add: COLS_def)
  then have "peek (scroll blank_video) (2 * (0 + 24 * COLS) + 1) = 0" using scroll_rows [of blank_video] by blast
  then show ?thesis by (simp add: COLS_def)
qed

lemma putnumber_loop_nat: "putnumber_loop s (int n) attr (count_digits (int n) 1) = puts s (decimal_chars n) attr"
proof -
  have ne: "decimal n \<noteq> []" by (subst decimal.simps) simp
  then have k: "count_digits (int n) 1 = length (decimal n)" unfolding count_digits_spec by (cases "decimal n") auto
  have "decimal_chars n = map (\<lambda>d. of_nat (d + 48)) (map (\<lambda>i. n div 10 ^ i mod 10) (rev [0..<length (decimal n)]))"
    unfolding decimal_nth decimal_chars_def ..
  then have m: "map (digit_char (int n)) (rev [0..<length (decimal n)]) = decimal_chars n"
    by (simp add: digit_char_nat comp_def)
  show ?thesis unfolding k putnumber_loop_puts m ..
qed

lemma putnumber_nat: "putnumber s (int n) attr = puts s (decimal_chars n) attr"
  using putnumber_loop_nat by (simp add: putnumber_def)

lemma decimal_digits: "d \<in> set (decimal n) \<Longrightarrow> d < 10"
proof (induction n rule: decimal.induct)
  case (1 n)
  then show ?case by (subst (asm) (2) decimal.simps) (auto split: if_splits)
qed

lemma decimal_chars_print: "8 \<notin> set (decimal_chars n)"
proof
  assume "8 \<in> set (decimal_chars n)"
  then obtain d where d: "d \<in> set (decimal n)" "(8 :: u8) = of_nat (d + 48)" 
    by (auto simp: decimal_chars_def simp del: of_nat_add)
  have "d < 10" using d(1) by (rule decimal_digits)
  then have "unat (of_nat (d + 48) :: u8) = d + 48" by (simp add: unat_of_nat del: of_nat_add)
  moreover have "unat (8 :: u8) = 8" by simp
  ultimately show False unfolding d(2) by linarith
qed

text \<open>
  a number is printed as its decimal digits, most significant first and without leading zeros,
  behind a minus sign for a negative one; the repeated divisions of the code compute just these digits.
\<close>

theorem putnumber_prints_decimal:
  "putnumber s (int n) attr = puts s (decimal_chars n) attr \<and>
   (0 < n \<and> n < 2 ^ 31 \<longrightarrow> putnumber s (- int n) attr = puts s (45 # decimal_chars n) attr)"
proof -
  have neg: "neg32 (- int n) = int n" if "n < 2 ^ 31"
    using that by (auto simp: neg32_def)
  show ?thesis using putnumber_loop_nat neg by (auto simp: putnumber_def)
qed

theorem putnumber_prints_decimal_witness: "putnumber blank_video (- 42) 7 = puts blank_video [45, 52, 50] 7"
proof -
  have "decimal_chars 42 = [52, 50]" by (simp add: decimal_chars_def decimal.simps)
  then show ?thesis using putnumber_prints_decimal [of blank_video 42 7] by simp
qed

text \<open>
  printing at a place is safe for any place: strings and numbers of any length leave all memory
  outside the screen and the cursor alone, and a place outside the screen is refused without effect.
\<close>

theorem print_at_confined:
  "(a \<notin> region 0xB8000 SCREENSIZE \<longrightarrow>
      vmem (fst (puts_at s str attr r c)) a = vmem s a \<and> vmem (fst (putnumber_at s n attr r c)) a = vmem s a) \<and>
   current_loc (fst (puts_at s str attr r c)) = current_loc s \<and>
   current_loc (fst (putnumber_at s n attr r c)) = current_loc s \<and>
   (out_of_bounds r c \<longrightarrow> puts_at s str attr r c = (s, - 1) \<and> putnumber_at s n attr r c = (s, - 1))"
proof -
  have "same_outside s (fst (putnumber_at s n attr r c)) \<and>
      current_loc (fst (putnumber_at s n attr r c)) = current_loc s"
    using putnumber_at_loop_spec putchar_at_spec [of s 45 attr r c]
    by (auto simp: putnumber_at_def Let_def intro: same_outside_trans)
  then show ?thesis
    using same_outside_memory puts_at_spec by (auto simp: puts_at_def putnumber_at_def INDEX_OUT_OF_BOUNDS_ERROR_def)
qed

theorem print_at_confined_witness: "puts_at blank_video [65] 7 25 0 = (blank_video, - 1)"
proof -
  have "out_of_bounds 25 0" by (simp add: out_of_bounds_def screen_layout)
  then show ?thesis using print_at_confined [of 0 blank_video "[65]" 7 25 0 0] by blast
qed

text \<open>
  \<open>clear_screen\<close> blanks every cell, \<open>clear_console\<close> every cell below the title row, which it keeps;
  both leave the cursor at the start of row 1.
\<close>

theorem clear_blanks:
  "(\<forall>j < 2 ^ 64. peek (clear_screen s) j = (if j < SCREENSIZE then (if even j then SPACE else LIGHT_GREY) else peek s j)) \<and>
   (\<forall>j < 2 ^ 64. peek (clear_console s) j =
      (if 160 \<le> j \<and> j < SCREENSIZE then (if even j then SPACE else LIGHT_GREY) else peek s j)) \<and>
   video_inv (clear_screen s) \<and> video_inv (clear_console s) \<and>
   current_loc (clear_screen s) = 160 \<and> current_loc (clear_console s) = 160"
  by (simp add: clear_screen_def clear_console_def fill_def fill_loop_at video_inv_def screensize COLS_def)

theorem clear_blanks_witness: "peek (clear_console blank_video) 161 = 7"
  using clear_blanks [of blank_video] by (simp add: screensize LIGHT_GREY_def)

text \<open>
  a backspace takes back the character before it: where the cell before the cursor is not blank it
  becomes blank and the cursor stands on it, also across the start of a row; nothing else changes.
\<close>

theorem backspace_takes_back:
  assumes "video_inv s" "ch \<notin> {8, 9, 10, SPACE}" "unat (current_loc s) + 2 < SCREENSIZE"
  shows "\<exists>s1 s2. putchar s ch attr = Some s1 \<and> putchar s1 8 attr = Some s2 \<and>
    current_loc s2 = current_loc s \<and>
    (\<forall>j < 2 ^ 64. peek s2 j = (if j = unat (current_loc s) then SPACE
       else if j = unat (current_loc s) + 1 then LIGHT_GREY else peek s j))"
proof -
  let ?l = "current_loc s" and ?s1 = "update_cursor (put_cell s ch attr)"
  note c = put_cell_spec [OF assms(1), where ch = ch and attr = attr]
  have l: "even (unat ?l)" "unat ?l + 2 < 4000" using assms(1,3) by (simp_all add: video_inv_def screensize)
  have ev: "even (unat (current_loc (put_cell s ch attr)))" "unat (current_loc (put_cell s ch attr)) < 4160"
    "unat (current_loc (put_cell s ch attr)) < 4000" unfolding c(1) using l by simp_all
  have p1: "putchar s ch attr = Some ?s1"
    using assms(1,2) finish_spec(3) [OF ev(1,2) c(2) ev(3)] by (simp add: putchar_def plain_cell)
  have pc: "current_loc (put_cell s ch attr) = ?l + 2" by (simp add: put_cell_def)
  have loc1: "current_loc ?s1 = ?l + 2" by (simp add: pc)
  have u1: "unat (?l + 2) = unat ?l + 2" using c(1) by (simp add: put_cell_def)
  have n: "unat (?l + 2 - 1) = unat ?l + 1" "unat (?l + 2 - 2) = unat ?l" "?l + 2 \<noteq> 0"
    using u1 loc_minus [of 1 "?l + 2"] by auto
  have small: "unat ?l < 2 ^ 64" "unat ?l + 1 < 2 ^ 64" using l by simp_all
  have "peek ?s1 (unat (?l + 2 - 2)) = ch" using c(3) [OF small(1)] by simp
  then have "peek ?s1 (unat (?l + 2 - 2)) \<noteq> SPACE" using assms(2) by simp
  then have d: "delete ?s1 = Some ((poke (poke ?s1 (unat ?l + 1) LIGHT_GREY) (unat ?l) SPACE)\<lparr>current_loc := ?l\<rparr>)"
    using n by (simp add: delete_def pc Let_def)
  let ?t = "(poke (poke ?s1 (unat ?l + 1) LIGHT_GREY) (unat ?l) SPACE)\<lparr>current_loc := ?l\<rparr>"
  have "putchar ?s1 8 attr = Some (finish_putchar ?t)"
    using d n(3) by (simp add: putchar_def putchar_plain_def pc word_gt_0 Let_def)
  also have "finish_putchar ?t = update_cursor ?t"
    using l(2) by (simp add: finish_putchar_def screensize word_le_nat_alt)
  finally have p2: "putchar ?s1 8 attr = Some (update_cursor ?t)" .
  have "peek (update_cursor ?t) j = (if j = unat ?l then SPACE else if j = unat ?l + 1 then LIGHT_GREY else peek s j)"
    if "j < 2 ^ 64" for j
    using that small c(3) [OF that] by (simp add: peek_poke)
  with p1 p2 show ?thesis by auto
qed

theorem backspace_takes_back_witness:
  "\<exists>s1 s2. putchar blank_video 65 7 = Some s1 \<and> putchar s1 8 7 = Some s2 \<and> current_loc s2 = 160"
  using backspace_takes_back [OF blank_video_inv, of 65 7] by (simp add: blank_video_def screensize) blast

end
