(* ===== verification/Rtc.thy ===== *)
theory Rtc
  imports Video
begin

text \<open>
  The clock, \<open>Kernel/system/rtc.c\<close>: the registers of the clock chip are reached through an index port and
  a data port and hold two decimal digits each. A byte read from a port is a signed character, so the
  conversions run on signed integers; those of the setters run on 32-bit unsigned ones.
\<close>

section \<open>State and operations\<close>

record rtc =
  cmos :: "u8 \<Rightarrow> u8"
  rtc_index :: u8

definition SECONDS :: u8 where
  "SECONDS = 0x00"

definition MINUTES :: u8 where
  "MINUTES = 0x02"

definition HOURS :: u8 where
  "HOURS = 0x04"

definition DAY_OF_MONTH :: u8 where
  "DAY_OF_MONTH = 0x07"

definition MONTH :: u8 where
  "MONTH = 0x08"

definition YEAR :: u8 where
  "YEAR = 0x09"

lemmas rtc_registers = SECONDS_def MINUTES_def HOURS_def DAY_OF_MONTH_def MONTH_def YEAR_def

definition BCD2BIN :: "int \<Rightarrow> int" where
  "BCD2BIN v = (v AND 15) + drop_bit 4 v * 10"

definition BIN2BCD :: "u32 \<Rightarrow> u32" where
  "BIN2BCD v = push_bit 4 (v div 10) + v mod 10"

text \<open>\<open>write_port(RTC_OUT, r)\<close> selects a register and \<open>write_port(RTC_IN, v)\<close> sets the selected one.\<close>

definition select :: "rtc \<Rightarrow> u8 \<Rightarrow> rtc" where
  "select s r = s\<lparr>rtc_index := r\<rparr>"

definition write_selected :: "rtc \<Rightarrow> u32 \<Rightarrow> rtc" where
  "write_selected s v = s\<lparr>cmos := (cmos s)(rtc_index s := ucast v)\<rparr>"

text \<open>
  \<open>write_port_word(RTC_OUT, r)\<close> is a 16-bit output: its high byte reaches the next port, which is
  \<open>RTC_IN\<close>, and so the register just selected. That of a \<open>write_port_word(RTC_IN, v)\<close> reaches a port
  the clock does not use.
\<close>

definition select_word :: "rtc \<Rightarrow> u16 \<Rightarrow> rtc" where
  "select_word s r = write_selected (select s (ucast r)) (ucast (drop_bit 8 r))"

definition get_time :: "rtc \<Rightarrow> u8 \<Rightarrow> rtc \<times> int" where
  "get_time s mode = (select s mode, sint (cmos s mode))"

text \<open>The two characters of a number: \<open>((n / 10) % 10) + '0'\<close> and \<open>(n % 10) + '0'\<close>.\<close>

definition two_chars :: "int \<Rightarrow> u8 list" where
  "two_chars n = [of_int (n sdiv 10 smod 10 + 48), of_int (n smod 10 + 48)]"

definition time :: "rtc \<Rightarrow> rtc \<times> u8 list" where
  "time s =
     (let (s1, seconds) = get_time s SECONDS;
          (s2, minutes) = get_time s1 MINUTES;
          (s3, hours) = get_time s2 HOURS
      in (s3, two_chars (BCD2BIN hours) @ [58] @ two_chars (BCD2BIN minutes) @ [58] @ two_chars (BCD2BIN seconds)))"

definition date :: "rtc \<Rightarrow> rtc \<times> u8 list" where
  "date s =
     (let (s1, day) = get_time s DAY_OF_MONTH;
          (s2, month) = get_time s1 MONTH;
          (s3, year) = get_time s2 YEAR
      in (s3, two_chars (BCD2BIN day) @ [47] @ two_chars (BCD2BIN month) @ [47, 50, 48] @ two_chars (BCD2BIN year)))"

definition set_time :: "rtc \<Rightarrow> u32 \<Rightarrow> u32 \<Rightarrow> u32 \<Rightarrow> rtc" where
  "set_time s hours minutes seconds =
     (let s1 = write_selected (select_word s (ucast HOURS)) (BIN2BCD hours);
          s2 = write_selected (select_word s1 (ucast MINUTES)) (BIN2BCD minutes)
      in write_selected (select_word s2 (ucast SECONDS)) (BIN2BCD seconds))"

definition set_date :: "rtc \<Rightarrow> u32 \<Rightarrow> u32 \<Rightarrow> u32 \<Rightarrow> rtc" where
  "set_date s day month year =
     (let s1 = write_selected (select s DAY_OF_MONTH) (BIN2BCD day);
          s2 = write_selected (select s1 MONTH) (BIN2BCD month)
      in write_selected (select s2 YEAR) (BIN2BCD year))"

definition show_time :: "rtc \<Rightarrow> video \<Rightarrow> rtc \<times> video" where
  "show_time s v = (let (s', str) = time s in (s', fst (puts_at v str GREEN 0 72)))"

definition hide_time :: "video \<Rightarrow> video" where
  "hide_time v = fst (puts_at v (replicate 8 32) LIGHT_GREY 0 72)"

section \<open>Two decimal digits\<close>

text \<open>The value a register comes back with after \<open>n\<close> was stored in it.\<close>

definition reread :: "nat \<Rightarrow> int" where
  "reread n = BCD2BIN (sint (ucast (BIN2BCD (of_nat n)) :: u8))"

lemma reread_table:
  "\<forall>n \<in> set [0..<80]. reread n = int n" "\<forall>n \<in> set [80..<100]. reread n = int n - 160"
  by code_simp+

lemma reread_small: "n < 80 \<Longrightarrow> reread n = int n"
  using reread_table(1) by (simp only: set_upt atLeastLessThan_iff) simp

lemma reread_large: "80 \<le> n \<Longrightarrow> n < 100 \<Longrightarrow> reread n = int n - 160"
  using reread_table(2) by (simp only: set_upt atLeastLessThan_iff)

definition digits2 :: "nat \<Rightarrow> u8 list" where
  "digits2 n = [of_nat (n div 10 + 48), of_nat (n mod 10 + 48)]"

lemma two_chars_small: "n < 100 \<Longrightarrow> two_chars (int n) = digits2 n"
proof -
  assume "n < 100"
  then have "n div 10 mod 10 = n div 10" by simp
  moreover have "int n sdiv 10 smod 10 + 48 = int (n div 10 mod 10 + 48)" "int n smod 10 + 48 = int (n mod 10 + 48)"
    unfolding sdiv10 by simp_all
  ultimately show ?thesis unfolding two_chars_def digits2_def by (simp only: of_int_of_nat_eq)
qed

lemma wrong_years: "\<forall>k \<in> set [80..<100]. hd (two_chars (int k - 160)) \<noteq> hd (digits2 k)"
  by code_simp

lemma set_time_shown:
  assumes "h < 24" "m < 60" "sec < 60"
  shows "snd (time (set_time s (of_nat h) (of_nat m) (of_nat sec))) =
      digits2 h @ [58] @ digits2 m @ [58] @ digits2 sec \<and>
    snd (date (set_time s (of_nat h) (of_nat m) (of_nat sec))) = snd (date s)"
proof -
  have "two_chars (reread k) = digits2 k" if "k < 60" for k
    using that by (simp add: reread_small two_chars_small)
  then show ?thesis
    using assms by (simp add: time_def date_def set_time_def select_word_def write_selected_def select_def get_time_def rtc_registers
        Let_def reread_def)
qed

section \<open>Properties\<close>

text \<open>
  the time that was set is the time that is shown: for every time of day, \<open>time\<close> after \<open>set_time\<close>
  gives the string hh:mm:ss of its arguments, and the registers of the date are untouched.
\<close>

theorem time_roundtrip:
  assumes "h < 24" "m < 60" "sec < 60"
  shows "snd (time (set_time s (of_nat h) (of_nat m) (of_nat sec))) =
      digits2 h @ [58] @ digits2 m @ [58] @ digits2 sec \<and>
    snd (date (set_time s (of_nat h) (of_nat m) (of_nat sec))) = snd (date s)"
  using assms by (rule set_time_shown)

definition some_rtc :: rtc where
  "some_rtc = \<lparr>cmos = (\<lambda>r. 1), rtc_index = 0\<rparr>"

theorem time_roundtrip_witness:
  "snd (time (set_time some_rtc 23 59 7)) = [50, 51, 58, 53, 57, 58, 48, 55]"
  using time_roundtrip [of 23 59 7 some_rtc] by (simp add: digits2_def)

text \<open>
  the date that was set is the date that is shown, for every day up to 31, month up to 12 and year
  up to 79, day 0 and month 0 included.
\<close>

theorem date_roundtrip:
  assumes "d < 32" "m < 13" "y < 80"
  shows "snd (date (set_date s (of_nat d) (of_nat m) (of_nat y))) =
      digits2 d @ [47] @ digits2 m @ [47, 50, 48] @ digits2 y \<and>
    snd (time (set_date s (of_nat d) (of_nat m) (of_nat y))) = snd (time s)"
proof -
  have "two_chars (reread k) = digits2 k" if "k < 80" for k
    using that by (simp add: reread_small two_chars_small)
  then show ?thesis
    using assms by (simp add: time_def date_def set_date_def write_selected_def select_def get_time_def rtc_registers
        Let_def reread_def)
qed

theorem date_roundtrip_witness:
  "snd (date (set_date some_rtc 31 12 16)) = [51, 49, 47, 49, 50, 47, 50, 48, 49, 54]"
  using date_roundtrip [of 31 12 16 some_rtc] by (simp add: digits2_def)

text \<open>
  for a year from 80 to 99, which \<open>sys_set_date\<close> accepts, the year shown is wrong: the register is
  read as a signed character and its value comes out 160 too small, so the last two characters are
  computed from a number between -80 and -61, and the first of them is never the right digit.
\<close>

theorem date_after_2079_wrong:
  assumes "80 \<le> y" "y < 100"
  shows "drop 8 (snd (date (set_date s d m (of_nat y)))) = two_chars (int y - 160) \<and>
    drop 8 (snd (date (set_date s d m (of_nat y)))) \<noteq> digits2 y"
proof -
  have e: "drop 8 (snd (date (set_date s d m (of_nat y)))) = two_chars (int y - 160)"
    using reread_large [OF assms]
    by (simp add: date_def set_date_def write_selected_def select_def get_time_def rtc_registers Let_def
        reread_def two_chars_def)
  have "hd (two_chars (int y - 160)) \<noteq> hd (digits2 y)"
    using wrong_years assms by (simp only: set_upt atLeastLessThan_iff) simp
  with e show ?thesis by auto
qed

theorem date_after_2079_wrong_witness:
  "drop 8 (snd (date (set_date some_rtc 1 1 85))) = [41, 43]"
  using date_after_2079_wrong [of 85 some_rtc 1 1] by (simp add: two_chars_def)

end
