(* ===== verification/Bga.thy ===== *)
theory Bga
  imports CLib
begin

text \<open>
  Graphics mode, \<open>Kernel/system/video/bga.c\<close>: the registers of the Bochs adapter behind an index and a
  data port, and pixels of three bytes in a frame buffer whose address is read from memory. All sizes
  are 32-bit unsigned numbers that wrap around. The functions that print what they read are left out.
\<close>

section \<open>State and operations\<close>

record bga =
  gmem :: mem
  width :: u32
  height :: u32
  bpp :: u32
  vbe :: "u16 \<Rightarrow> u16"

definition VBE_DISPI_INDEX_ID :: u16 where
  "VBE_DISPI_INDEX_ID = 0"

definition VBE_DISPI_INDEX_XRES :: u16 where
  "VBE_DISPI_INDEX_XRES = 1"

definition VBE_DISPI_INDEX_YRES :: u16 where
  "VBE_DISPI_INDEX_YRES = 2"

definition VBE_DISPI_INDEX_BPP :: u16 where
  "VBE_DISPI_INDEX_BPP = 3"

definition VBE_DISPI_INDEX_ENABLE :: u16 where
  "VBE_DISPI_INDEX_ENABLE = 4"

definition VBE_DISPI_INDEX_BANK :: u16 where
  "VBE_DISPI_INDEX_BANK = 5"

lemmas vbe_indices =
  VBE_DISPI_INDEX_ID_def VBE_DISPI_INDEX_XRES_def VBE_DISPI_INDEX_YRES_def VBE_DISPI_INDEX_BPP_def
  VBE_DISPI_INDEX_ENABLE_def VBE_DISPI_INDEX_BANK_def

definition BgaWriteRegister :: "bga \<Rightarrow> u16 \<Rightarrow> u16 \<Rightarrow> bga" where
  "BgaWriteRegister s IndexValue DataValue = s\<lparr>vbe := (vbe s)(IndexValue := DataValue)\<rparr>"

text \<open>\<open>read_port_word\<close> is declared to return a signed character, so only the low byte arrives.\<close>

definition BgaReadRegister :: "bga \<Rightarrow> u16 \<Rightarrow> u16" where
  "BgaReadRegister s IndexValue = scast (ucast (vbe s IndexValue) :: u8)"

definition BgaIsAvailable :: "bga \<Rightarrow> bool" where
  "BgaIsAvailable s \<longleftrightarrow> BgaReadRegister s VBE_DISPI_INDEX_ID = 0xB0C4"

definition BgaSetBank :: "bga \<Rightarrow> u16 \<Rightarrow> bga" where
  "BgaSetBank s BankNumber = BgaWriteRegister s VBE_DISPI_INDEX_BANK BankNumber"

definition BgaSetVideoMode :: "bga \<Rightarrow> u32 \<Rightarrow> u32 \<Rightarrow> u32 \<Rightarrow> bool \<Rightarrow> bool \<Rightarrow> bga" where
  "BgaSetVideoMode s Width Height BitDepth UseLinearFrameBuffer ClearVideoMemory =
     (let s1 = BgaWriteRegister s VBE_DISPI_INDEX_ENABLE 0;
          s2 = BgaWriteRegister s1 VBE_DISPI_INDEX_XRES (ucast Width);
          s3 = BgaWriteRegister s2 VBE_DISPI_INDEX_YRES (ucast Height);
          s4 = BgaWriteRegister s3 VBE_DISPI_INDEX_BPP (ucast BitDepth);
          s5 = BgaWriteRegister s4 VBE_DISPI_INDEX_ENABLE
                 (1 OR (if UseLinearFrameBuffer then 0x40 else 0) OR (if ClearVideoMemory then 0 else 0x80))
      in s5\<lparr>width := Width, height := Height, bpp := BitDepth\<rparr>)"

definition addressAddress :: ptr where
  "addressAddress = 0x5C00 + 40"

definition load64 :: "mem \<Rightarrow> ptr \<Rightarrow> u64" where
  "load64 m a = ucast (load32 m a) OR push_bit 32 (ucast (load32 m (a + 4)))"

abbreviation linearBuffer :: "bga \<Rightarrow> ptr" where
  "linearBuffer s \<equiv> load64 (gmem s) addressAddress"

text \<open>Three bytes from position \<open>pos\<close> of the buffer at \<open>lfb\<close>: \<open>pos++\<close> wraps at 32 bits.\<close>

definition write_pixel :: "mem \<Rightarrow> ptr \<Rightarrow> u32 \<Rightarrow> u8 \<Rightarrow> u8 \<Rightarrow> u8 \<Rightarrow> mem" where
  "write_pixel m lfb pos r g b =
     m(lfb + ucast pos := b, lfb + ucast (pos + 1) := g, lfb + ucast (pos + 2) := r)"

definition BgaDrawPixel :: "bga \<Rightarrow> u32 \<Rightarrow> u32 \<Rightarrow> u8 \<Rightarrow> u8 \<Rightarrow> u8 \<Rightarrow> bga \<times> bool" where
  "BgaDrawPixel s x y r g b =
     (let pos = y * width s * 3 + x * 3
      in if pos \<ge> width s * height s * 3 then (s, False)
         else (s\<lparr>gmem := write_pixel (gmem s) (linearBuffer s) pos r g b\<rparr>, True))"

text \<open>The two loops of \<open>BgaDrawRect\<close>; the comparison with \<open>x + w\<close> is unsigned. A failed pixel ends both.\<close>

function draw_column :: "bga \<Rightarrow> u32 \<Rightarrow> u32 \<Rightarrow> u32 \<Rightarrow> u8 \<Rightarrow> u8 \<Rightarrow> u8 \<Rightarrow> bga \<times> bool" where
  "draw_column s i j bottom r g b =
     (if j < bottom
      then (case BgaDrawPixel s i j r g b of
              (s', ok) \<Rightarrow> if ok then draw_column s' i (j + 1) bottom r g b else (s', False))
      else (s, True))"
  by pat_completeness auto

lemma word_next: "i < n \<Longrightarrow> unat (i + 1) = unat i + 1" for i n :: u32
  using unat_plus_no_wrap [of i 1] unat_u32_less [of n] by (simp add: word_less_nat_alt)

termination draw_column
  by (relation "measure (\<lambda>(s, i, j, bottom, r, g, b). unat bottom - unat j)")
    (auto simp: word_next word_less_nat_alt)

declare draw_column.simps [simp del]

function draw_columns :: "bga \<Rightarrow> u32 \<Rightarrow> u32 \<Rightarrow> u32 \<Rightarrow> u32 \<Rightarrow> u8 \<Rightarrow> u8 \<Rightarrow> u8 \<Rightarrow> bga" where
  "draw_columns s i right y bottom r g b =
     (if i < right
      then (case draw_column s i y bottom r g b of
              (s', ok) \<Rightarrow> if ok then draw_columns s' (i + 1) right y bottom r g b else s')
      else s)"
  by pat_completeness auto
termination
  by (relation "measure (\<lambda>(s, i, right, y, bottom, r, g, b). unat right - unat i)")
    (auto simp: word_next word_less_nat_alt)

declare draw_columns.simps [simp del]

definition BgaDrawRect :: "bga \<Rightarrow> u8 \<Rightarrow> u8 \<Rightarrow> u8 \<Rightarrow> u32 \<Rightarrow> u32 \<Rightarrow> u32 \<Rightarrow> u32 \<Rightarrow> bga" where
  "BgaDrawRect s r g b x y w h = draw_columns s x (x + w) y (y + h) r g b"

text \<open>
  The fill loop writes three bytes per pass while its index is below the number of bytes, so the number
  of its passes is that number divided by 3, rounded up. The comparison is unsigned; the index itself is an \<open>int\<close>, which
  wraps around past the largest one in the code this compiles to, and is extended with its sign to address the buffer.
\<close>

definition fill_pixel :: "mem \<Rightarrow> ptr \<Rightarrow> u32 \<Rightarrow> u8 \<Rightarrow> u8 \<Rightarrow> u8 \<Rightarrow> mem" where
  "fill_pixel m lfb i r g b =
     m(lfb + scast i := b, lfb + scast (i + 1) := g, lfb + scast (i + 2) := r)"

fun fill_pixels :: "mem \<Rightarrow> ptr \<Rightarrow> nat \<Rightarrow> nat \<Rightarrow> u8 \<Rightarrow> u8 \<Rightarrow> u8 \<Rightarrow> mem" where
  "fill_pixels m lfb i 0 r g b = m"
| "fill_pixels m lfb i (Suc k) r g b = fill_pixels (fill_pixel m lfb (of_nat i) r g b) lfb (i + 3) k r g b"

definition BgaFillScreen :: "bga \<Rightarrow> u8 \<Rightarrow> u8 \<Rightarrow> u8 \<Rightarrow> bga" where
  "BgaFillScreen s r g b =
     s\<lparr>gmem := fill_pixels (gmem s) (linearBuffer s) 0 ((unat (width s * height s * 3) + 2) div 3) r g b\<rparr>"

section \<open>The frame buffer\<close>

text \<open>The sizes of the mode multiply without wrapping around.\<close>

definition mode_ok :: "bga \<Rightarrow> bool" where
  "mode_ok s \<longleftrightarrow> unat (width s) * unat (height s) * 3 < 2 ^ 32"

definition frame_bytes :: "bga \<Rightarrow> nat" where
  "frame_bytes s = unat (width s) * unat (height s) * 3"

lemma unat_times_no_wrap: "unat a * unat b < 2 ^ LENGTH('a) \<Longrightarrow> unat (a * b) = unat a * unat b" for a b :: "'a::len word"
  using unat_mult_lem by blast

lemma frame_unat:
  assumes "mode_ok s"
  shows "unat (width s * height s * 3) = frame_bytes s"
proof -
  have "unat (width s) * unat (height s) < 2 ^ 32" using assms by (simp add: mode_ok_def)
  then have "unat (width s * height s) = unat (width s) * unat (height s)" by (simp add: unat_times_no_wrap)
  then show ?thesis
    using assms unat_times_no_wrap [of "width s * height s" 3] by (simp add: mode_ok_def frame_bytes_def)
qed

lemma pixel_pos:
  assumes "mode_ok s" "unat x < unat (width s)" "unat y < unat (height s)"
  shows "unat (y * width s * 3 + x * 3) = 3 * (unat y * unat (width s) + unat x)"
    and "3 * (unat y * unat (width s) + unat x) + 3 \<le> frame_bytes s"
proof -
  define w h where "w = unat (width s)" and "h = unat (height s)"
  define A where "A = unat y * w"
  have "Suc (unat y) * w \<le> h * w" using assms(3) by (intro mult_right_mono) (simp_all add: h_def)
  then have "A + w \<le> h * w" by (simp add: A_def)
  moreover have frame: "frame_bytes s = h * w * 3" by (simp add: frame_bytes_def w_def h_def)
  moreover have "unat x < w" using assms(2) by (simp add: w_def)
  ultimately have "A + unat x + 1 \<le> h * w" by linarith
  then have "(A + unat x + 1) * 3 \<le> h * w * 3" by (rule mult_right_mono) simp
  then have fits: "3 * (A + unat x) + 3 \<le> frame_bytes s" using frame by simp
  then show "3 * (unat y * unat (width s) + unat x) + 3 \<le> frame_bytes s" by (simp add: A_def w_def)
  have total: "frame_bytes s < 2 ^ 32" using assms(1) by (simp add: mode_ok_def frame_bytes_def)
  have "A < 2 ^ 32" using fits total by simp
  then have a: "unat (y * width s) = A" using unat_times_no_wrap [of y "width s"] by (simp add: A_def w_def)
  have "A * 3 < 2 ^ 32" using fits total by simp
  then have b: "unat (y * width s * 3) = A * 3" using a unat_times_no_wrap [of "y * width s" 3] by simp
  have "unat x * 3 < 2 ^ 32" using fits total by simp
  then have c: "unat (x * 3) = unat x * 3" using unat_times_no_wrap [of x 3] by simp
  have "A * 3 + unat x * 3 < 2 ^ 32" using fits total by simp
  then have "unat (y * width s * 3 + x * 3) = A * 3 + unat x * 3"
    using b c unat_plus_no_wrap [of "y * width s * 3" "x * 3"] by simp
  then show "unat (y * width s * 3 + x * 3) = 3 * (unat y * unat (width s) + unat x)"
    by (simp add: A_def w_def)
qed

lemma ucast_offset: "unat pos = n \<Longrightarrow> (ucast (pos :: u32) :: u64) = of_nat n"
proof -
  assume n: "unat pos = n"
  have "(ucast pos :: u64) = of_nat (unat (ucast pos :: u64))" by simp
  then show ?thesis unfolding unat_ucast_u32 n .
qed

lemma write_pixel_at:
  assumes "unat pos + 2 < 2 ^ 32" "j < 2 ^ 64"
  shows "write_pixel m lfb pos r g b (lfb + of_nat j) =
    (if j = unat pos then b else if j = unat pos + 1 then g else if j = unat pos + 2 then r
     else m (lfb + of_nat j))"
proof -
  have p: "unat (pos + 1) = unat pos + 1" "unat (pos + 2) = unat pos + 2"
    using assms(1) unat_plus_no_wrap [of pos 1] unat_plus_no_wrap [of pos 2] by simp_all
  have o: "(of_nat j :: u64) = of_nat k \<longleftrightarrow> j = k" if "k \<le> unat pos + 2" for k
    using that assms by (intro of_nat_u64_inj) simp_all
  show ?thesis
    unfolding write_pixel_def ucast_offset [OF refl] p
    using o [of "unat pos"] o [of "unat pos + 1"] o [of "unat pos + 2"] by (simp del: of_nat_add)
qed

lemma write_pixel_outside:
  assumes "unat pos + 3 \<le> n" "n \<le> 2 ^ 32" "a \<notin> region lfb n"
  shows "write_pixel m lfb pos r g b a = m a"
proof -
  have "unat (a - lfb) \<ge> n" using assms(2,3) in_region_iff [of n a lfb] by simp
  moreover have "unat pos + 2 < 2 ^ 32" using assms(1,2) by simp
  moreover have "unat (a - lfb) < 2 ^ 64" using unat_u64_less [of "a - lfb"] by simp
  ultimately have "write_pixel m lfb pos r g b (lfb + of_nat (unat (a - lfb))) = m (lfb + of_nat (unat (a - lfb)))"
    using assms(1) by (subst write_pixel_at) auto
  then show ?thesis by simp
qed

section \<open>Filling the screen\<close>

lemma scast_small: "unat (i :: u32) < 2 ^ 31 \<Longrightarrow> (scast i :: u64) = ucast i"
  using sint_small [of i] unfolding ucast_offset [OF refl] scast_eq by simp

lemma fill_pixel_small:
  assumes "unat i + 2 < 2 ^ 31"
  shows "fill_pixel m lfb i r g b = write_pixel m lfb i r g b"
proof -
  have "unat (i + 1) = unat i + 1" "unat (i + 2) = unat i + 2"
    using assms unat_plus_no_wrap [of i 1] unat_plus_no_wrap [of i 2] by simp_all
  then show ?thesis
    using assms scast_small [of i] scast_small [of "i + 1"] scast_small [of "i + 2"]
    by (simp add: fill_pixel_def write_pixel_def)
qed

lemma fill_pixels_at:
  assumes "j < 2 ^ 64" "i + 3 * k \<le> 2 ^ 31"
  shows "fill_pixels m lfb i k r g b (lfb + of_nat j) =
    (if i \<le> j \<and> j < i + 3 * k then (if (j - i) mod 3 = 0 then b else if (j - i) mod 3 = 1 then g else r)
     else m (lfb + of_nat j))"
  using assms(2)
proof (induction k arbitrary: m i)
  case (Suc k)
  have u: "unat (of_nat i :: u32) = i" using Suc.prems by (simp add: unat_of_nat)
  have w: "fill_pixel m lfb (of_nat i) r g b (lfb + of_nat j) =
      (if j = i then b else if j = i + 1 then g else if j = i + 2 then r else m (lfb + of_nat j))"
    using write_pixel_at [of "of_nat i" j] fill_pixel_small [of "of_nat i"] assms(1) Suc.prems by (simp add: u)
  have ih: "fill_pixels m lfb i (Suc k) r g b (lfb + of_nat j) =
      (if i + 3 \<le> j \<and> j < i + 3 + 3 * k then (if (j - (i + 3)) mod 3 = 0 then b else if (j - (i + 3)) mod 3 = 1 then g else r)
       else fill_pixel m lfb (of_nat i) r g b (lfb + of_nat j))"
    using Suc.prems Suc.IH [of "i + 3"] by simp
  have "(j - (i + 3)) mod 3 = (j - i) mod 3" if "i + 3 \<le> j"
    using that by (metis diff_diff_add le_mod_geq add_le_imp_le_diff add.commute)
  moreover consider "j < i" | "j = i" | "j = i + 1" | "j = i + 2" | "i + 3 \<le> j" by linarith
  ultimately show ?case unfolding ih w by cases auto
qed auto

section \<open>Properties\<close>

text \<open>
  a pixel of the screen is drawn where it belongs and nowhere else: for coordinates inside the mode
  the call succeeds, its three bytes get blue, green and red, and no other byte of memory changes.
\<close>

theorem draw_pixel_correct:
  assumes "mode_ok s" "unat x < unat (width s)" "unat y < unat (height s)"
  shows "\<exists>s'. BgaDrawPixel s x y r g b = (s', True) \<and>
    (\<forall>j < 2 ^ 64. gmem s' (linearBuffer s + of_nat j) =
       (let p = 3 * (unat y * unat (width s) + unat x) in
        if j = p then b else if j = p + 1 then g else if j = p + 2 then r
        else gmem s (linearBuffer s + of_nat j)))"
proof -
  note pos = pixel_pos [OF assms]
  have total: "frame_bytes s < 2 ^ 32" using assms(1) by (simp add: mode_ok_def frame_bytes_def)
  have "\<not> y * width s * 3 + x * 3 \<ge> width s * height s * 3"
    using pos frame_unat [OF assms(1)] by (simp add: word_le_nat_alt)
  then have d: "BgaDrawPixel s x y r g b =
      (s\<lparr>gmem := write_pixel (gmem s) (linearBuffer s) (y * width s * 3 + x * 3) r g b\<rparr>, True)"
    unfolding BgaDrawPixel_def Let_def by simp
  have "unat (y * width s * 3 + x * 3) + 2 < 2 ^ 32" unfolding pos(1) using pos(2) total by simp
  from write_pixel_at [OF this] d show ?thesis unfolding pos(1) by (simp add: Let_def)
qed

definition default_mode :: bga where
  "default_mode = \<lparr>gmem = (\<lambda>a. 0), width = 1024, height = 768, bpp = 24, vbe = (\<lambda>i. 0)\<rparr>"

lemma default_mode_ok: "mode_ok default_mode"
  by (simp add: mode_ok_def default_mode_def)

theorem draw_pixel_correct_witness: "\<exists>s'. BgaDrawPixel default_mode 3 5 1 2 3 = (s', True)"
  using draw_pixel_correct [OF default_mode_ok, of 3 5 1 2 3] by (auto simp: default_mode_def)

text \<open>
  no pixel, whatever its coordinates, is written outside the frame buffer of a mode whose width and
  height stay below 16384: it is refused, or all three bytes lie inside. The test is on the position
  alone, so a column beyond the right edge is not refused but drawn in a row further down.
\<close>

theorem draw_pixel_confined:
  assumes "mode_ok s" "unat (width s) < 2 ^ 14" "unat (height s) < 2 ^ 14" "unat x < 2 ^ 14" "unat y < 2 ^ 14"
    and "a \<notin> region (linearBuffer s) (frame_bytes s)"
  shows "gmem (fst (BgaDrawPixel s x y r g b)) a = gmem s a \<and>
    (snd (BgaDrawPixel s x y r g b) \<longleftrightarrow> unat y * unat (width s) + unat x < unat (width s) * unat (height s))"
proof -
  define w h where "w = unat (width s)" and "h = unat (height s)"
  have "unat y * w \<le> 2 ^ 14 * 2 ^ 14" using assms(2,5) by (intro mult_mono) (simp_all add: w_def)
  then have yw: "unat y * w \<le> 268435456" by simp
  then have a: "unat (y * width s) = unat y * w" using unat_times_no_wrap [of y "width s"] by (simp add: w_def)
  have b: "unat (y * width s * 3) = unat y * w * 3" using a yw unat_times_no_wrap [of "y * width s" 3] by simp
  have c: "unat (x * 3) = unat x * 3" using assms(4) unat_times_no_wrap [of x 3] by simp
  have p: "unat (y * width s * 3 + x * 3) = (unat y * w + unat x) * 3"
    using b c yw assms(4) unat_plus_no_wrap [of "y * width s * 3" "x * 3"] by simp
  have total: "frame_bytes s < 2 ^ 32" using assms(1) by (simp add: mode_ok_def frame_bytes_def)
  have f: "frame_bytes s = w * h * 3" by (simp add: frame_bytes_def w_def h_def)
  have refused: "y * width s * 3 + x * 3 \<ge> width s * height s * 3 \<longleftrightarrow> \<not> unat y * w + unat x < w * h"
    unfolding word_le_nat_alt p frame_unat [OF assms(1)] f mult_le_cancel2 by auto
  have "gmem (fst (BgaDrawPixel s x y r g b)) a = gmem s a"
  proof (cases "unat y * w + unat x < w * h")
    case True
    then have "unat (y * width s * 3 + x * 3) + 3 \<le> frame_bytes s" unfolding p f by simp
    then have "write_pixel (gmem s) (linearBuffer s) (y * width s * 3 + x * 3) r g b a = gmem s a"
      using total assms(6) by (intro write_pixel_outside [of _ "frame_bytes s"]) simp_all
    then show ?thesis by (simp add: BgaDrawPixel_def Let_def)
  next
    case False
    then show ?thesis using refused by (simp add: BgaDrawPixel_def Let_def)
  qed
  moreover have "snd (BgaDrawPixel s x y r g b) \<longleftrightarrow> unat y * w + unat x < w * h"
    using refused by (simp add: BgaDrawPixel_def Let_def)
  ultimately show ?thesis by (simp add: w_def h_def)
qed

theorem draw_pixel_confined_witness: "snd (BgaDrawPixel default_mode 1500 5 1 2 3)"
proof -
  have "16777216 \<notin> region (linearBuffer default_mode) (frame_bytes default_mode)"
    by (simp add: in_region_iff frame_bytes_def default_mode_def load64_def load32_def addressAddress_def)
  from draw_pixel_confined [OF default_mode_ok _ _ _ _ this, of 1500 5 1 2 3] show ?thesis
    by (simp add: default_mode_def)
qed

text \<open>
  \<open>BgaFillScreen\<close> gives every pixel of the mode the colour, and touches no other byte of memory, in every
  mode whose bytes an \<open>int\<close> can count.
\<close>

theorem fill_screen_correct:
  assumes "mode_ok s" "frame_bytes s < 2 ^ 31" "j < 2 ^ 64"
  shows "gmem (BgaFillScreen s r g b) (linearBuffer s + of_nat j) =
    (if j < frame_bytes s then (if j mod 3 = 0 then b else if j mod 3 = 1 then g else r)
     else gmem s (linearBuffer s + of_nat j))"
proof -
  have "frame_bytes s mod 3 = 0" by (simp add: frame_bytes_def)
  then have k: "3 * ((frame_bytes s + 2) div 3) = frame_bytes s" by presburger
  have "0 + 3 * ((frame_bytes s + 2) div 3) \<le> 2 ^ 31" unfolding k using assms(2) by simp
  from fill_pixels_at [OF assms(3) this, of "gmem s" "linearBuffer s" r g b] show ?thesis
    unfolding k by (simp add: BgaFillScreen_def frame_unat [OF assms(1)])
qed

theorem fill_screen_correct_witness:
  "gmem (BgaFillScreen default_mode 1 2 3) (linearBuffer default_mode + of_nat 100) = 2"
proof -
  have "(100 :: nat) < 2 ^ 64" by simp
  moreover have "frame_bytes default_mode < 2 ^ 31" by (simp add: frame_bytes_def default_mode_def)
  ultimately show ?thesis
    using fill_screen_correct [OF default_mode_ok, of 100 1 2 3] by (simp add: frame_bytes_def default_mode_def)
qed

text \<open>
  the adapter is never found: the identification 0xB0C4 is compared with a value that was cut to a
  signed character, which it can never equal.
\<close>

theorem adapter_never_available: "\<not> BgaIsAvailable s"
proof
  assume "BgaIsAvailable s"
  then have "(scast (ucast (vbe s 0) :: u8) :: u16) = 0xB0C4"
    by (simp add: BgaIsAvailable_def BgaReadRegister_def vbe_indices)
  then have "bit (scast (ucast (vbe s 0) :: u8) :: u16) 7 = bit (0xB0C4 :: u16) 7"
    "bit (scast (ucast (vbe s 0) :: u8) :: u16) 8 = bit (0xB0C4 :: u16) 8" by simp_all
  then show False by (simp add: bit_simps)
qed

end
