(* ===== verification/NumBase.thy ===== *)
theory NumBase
  imports Prelude "HOL-Library.Monad_Syntax"
begin

text \<open>
  Numbers as strings in a base: the loop that the kernel (\<open>uintToBase\<close> of \<open>naiveConsole.c\<close>, on 64 bits)
  and the user library (\<open>num_to_base\<close> of \<open>stdio.c\<close>, on 32 bits) share. It produces the digits from the
  last one on and then reverses them in place. \<open>None\<close> stands for a division by zero or a loop that does
  not end.
\<close>

section \<open>Operations\<close>

definition digit_of :: "u32 \<Rightarrow> u8" where
  "digit_of rem = (if rem < 10 then ucast rem + 48 else ucast rem + 65 - 10)"

partial_function (option) base_loop :: "'a::len word \<Rightarrow> 'a word \<Rightarrow> u8 list option" where
  "base_loop val base =
     (if base = 0 then None
      else let c = digit_of (ucast (val mod base))
           in if val div base = 0 then Some [c]
              else do { cs \<leftarrow> base_loop (val div base) base; Some (c # cs) })"

text \<open>\<open>while (p1 < p2)\<close> swap what they point to and move them towards each other.\<close>

function reverse_loop :: "nat \<Rightarrow> nat \<Rightarrow> 'b list \<Rightarrow> 'b list" where
  "reverse_loop p1 p2 xs =
     (if p1 < p2 then reverse_loop (p1 + 1) (p2 - 1) (xs[p1 := xs ! p2, p2 := xs ! p1]) else xs)"
  by pat_completeness auto
termination by (relation "measure (\<lambda>(p1, p2, xs). p2 - p1)") auto

declare reverse_loop.simps [simp del]

definition base_string :: "'a::len word \<Rightarrow> 'a word \<Rightarrow> u8 list option" where
  "base_string val base = map_option (\<lambda>cs. reverse_loop 0 (length cs - 1) cs) (base_loop val base)"

text \<open>\<open>uintToBase\<close> and \<open>num_to_base\<close>: the string without its terminator, and the number of digits.\<close>

definition uintToBase :: "u64 \<Rightarrow> u32 \<Rightarrow> (u8 list \<times> nat) option" where
  "uintToBase val base = map_option (\<lambda>cs. (cs, length cs)) (base_string val (ucast base))"

definition num_to_base :: "u32 \<Rightarrow> u32 \<Rightarrow> (u8 list \<times> nat) option" where
  "num_to_base val base = map_option (\<lambda>cs. (cs, length cs)) (base_string val base)"

section \<open>Reversal in place\<close>

lemma reverse_loop_at:
  "p2 < length xs \<Longrightarrow> i < length xs \<Longrightarrow>
     length (reverse_loop p1 p2 xs) = length xs \<and>
     reverse_loop p1 p2 xs ! i = (if p1 \<le> i \<and> i \<le> p2 then xs ! (p1 + p2 - i) else xs ! i)"
proof (induction p1 p2 xs rule: reverse_loop.induct)
  case (1 p1 p2 xs)
  show ?case
  proof (cases "p1 < p2")
    case True
    let ?ys = "xs[p1 := xs ! p2, p2 := xs ! p1]"
    have eq: "reverse_loop p1 p2 xs = reverse_loop (p1 + 1) (p2 - 1) ?ys" using True by (subst reverse_loop.simps) simp
    have ih: "length (reverse_loop (p1 + 1) (p2 - 1) ?ys) = length xs"
      "reverse_loop (p1 + 1) (p2 - 1) ?ys ! i =
         (if p1 + 1 \<le> i \<and> i \<le> p2 - 1 then ?ys ! (p1 + 1 + (p2 - 1) - i) else ?ys ! i)"
      using "1.IH" [OF True] "1.prems" by simp_all
    show ?thesis
    proof (cases "p1 + 1 \<le> i \<and> i \<le> p2 - 1")
      case inner: True
      then have "p1 + 1 + (p2 - 1) - i = p1 + p2 - i" "p1 + p2 - i \<noteq> p1" "p1 + p2 - i \<noteq> p2"
        using True by auto
      moreover have "i \<le> p2" "p1 \<le> i" using inner by auto
      ultimately show ?thesis unfolding eq using ih inner True by simp
    next
      case False
      then consider "i = p1" | "i = p2" | "i < p1 \<or> p2 < i" using True by linarith
      then show ?thesis unfolding eq using ih False True "1.prems" by cases auto
    qed
  next
    case False
    then have eq: "reverse_loop p1 p2 xs = xs" by (subst reverse_loop.simps) simp
    have "p1 + p2 - i = i" if "p1 \<le> i" "i \<le> p2" using that False by linarith
    then show ?thesis unfolding eq by auto
  qed
qed

lemma reverse_loop_rev:
  assumes "xs \<noteq> []"
  shows "reverse_loop 0 (length xs - 1) xs = rev xs"
proof (rule nth_equalityI)
  have l: "length xs - 1 < length xs" using assms by simp
  note at = reverse_loop_at [OF l]
  show len: "length (reverse_loop 0 (length xs - 1) xs) = length (rev xs)" using at [OF l, of 0] by simp
  fix i assume "i < length (reverse_loop 0 (length xs - 1) xs)"
  then have i: "i < length xs" unfolding len by simp
  then have "i \<le> length xs - 1" by linarith
  then show "reverse_loop 0 (length xs - 1) xs ! i = rev xs ! i"
    using at [OF i, of 0] i by (simp add: rev_nth)
qed

section \<open>The reference\<close>

text \<open>The digits of a number, most significant first.\<close>

fun numeral_digits :: "nat \<Rightarrow> nat \<Rightarrow> nat list" where
  "numeral_digits b n = (if b \<le> 1 \<or> n < b then [n] else numeral_digits b (n div b) @ [n mod b])"

declare numeral_digits.simps [simp del]

definition base_char :: "nat \<Rightarrow> u8" where
  "base_char d = (if d < 10 then of_nat (d + 48) else of_nat (d + 55))"

lemma numeral_digits_not_Nil: "numeral_digits b n \<noteq> []"
  by (subst numeral_digits.simps) simp

lemma numeral_digits_value:
  "2 \<le> b \<Longrightarrow> foldl (\<lambda>acc d. acc * b + d) 0 (numeral_digits b n) = n \<and> (\<forall>d \<in> set (numeral_digits b n). d < b) \<and>
     (0 < n \<longrightarrow> hd (numeral_digits b n) \<noteq> 0)"
proof (induction b n rule: numeral_digits.induct)
  case (1 b n)
  show ?case
  proof (cases "n < b")
    case True
    then show ?thesis using 1(2) by (subst (1 2 3) numeral_digits.simps) simp
  next
    case False
    with 1 have ih: "foldl (\<lambda>acc d. acc * b + d) 0 (numeral_digits b (n div b)) = n div b"
      "\<forall>d \<in> set (numeral_digits b (n div b)). d < b" "0 < n div b \<longrightarrow> hd (numeral_digits b (n div b)) \<noteq> 0"
      by auto
    have "0 < n div b" using False 1(2) by (simp add: div_greater_zero_iff)
    moreover have "numeral_digits b n = numeral_digits b (n div b) @ [n mod b]"
      using False 1(2) by (subst numeral_digits.simps) simp
    moreover have "n div b * b + n mod b = n" by simp
    ultimately show ?thesis using ih 1(2) numeral_digits_not_Nil [of b "n div b"] by simp
  qed
qed

lemma numeral_digits_length: "2 \<le> b \<Longrightarrow> n < b ^ Suc k \<Longrightarrow> length (numeral_digits b n) \<le> Suc k"
proof (induction k arbitrary: n)
  case 0
  then show ?case by (subst numeral_digits.simps) simp
next
  case (Suc k)
  show ?case
  proof (cases "n < b")
    case False
    have "n < b ^ Suc k * b" using Suc.prems(2) by (simp add: ac_simps)
    then have "n div b < b ^ Suc k" using Suc.prems(1) by (simp add: less_mult_imp_div_less)
    with Suc.IH [OF Suc.prems(1) this] False Suc.prems(1) show ?thesis by (subst numeral_digits.simps) simp
  qed (subst numeral_digits.simps, simp)
qed

lemma numeral_digits_long: "2 \<le> b \<Longrightarrow> b ^ k \<le> n \<Longrightarrow> Suc k \<le> length (numeral_digits b n)"
proof (induction k arbitrary: n)
  case 0
  then show ?case using numeral_digits_not_Nil [of b n] by (cases "numeral_digits b n") auto
next
  case (Suc k)
  have "b ^ k * b \<le> n" using Suc.prems(2) by (simp add: ac_simps)
  then have "b ^ k \<le> n div b" using Suc.prems(1) by (simp add: less_eq_div_iff_mult_less_eq)
  moreover have "b \<le> b * b ^ k" using Suc.prems(1) by simp
  then have "b \<le> n" by (rule order_trans) (use Suc.prems(2) in simp)
  then have "\<not> n < b" by simp
  ultimately show ?case using Suc.IH [OF Suc.prems(1)] Suc.prems(1) by (subst numeral_digits.simps) simp
qed

lemma digit_of_char:
  assumes "unat rem < 36"
  shows "digit_of rem = base_char (unat rem)"
proof -
  have u: "(ucast rem :: u8) = of_nat (unat rem)" by simp
  have "rem < 10 \<longleftrightarrow> unat rem < 10" by (simp add: word_less_nat_alt)
  then show ?thesis unfolding digit_of_def base_char_def u by simp
qed

lemma base_loop_spec:
  fixes v b :: "'a::len word"
  assumes "2 \<le> unat b" "unat b \<le> 36"
  shows "base_loop v b = Some (rev (map base_char (numeral_digits (unat b) (unat v))))"
proof (induction "unat v" arbitrary: v rule: less_induct)
  case less
  have b0: "b \<noteq> 0" using assms(1) by auto
  have m: "unat (v mod b) = unat v mod unat b" "unat (v div b) = unat v div unat b"
    by (simp_all add: unat_mod unat_div)
  have "unat v mod unat b < unat b" using assms(1) by (intro mod_less_divisor) simp
  then have r: "unat v mod unat b < 36" using assms(2) by linarith
  then have "unat (ucast (v mod b) :: u32) = unat v mod unat b"
    using m(1) by (simp add: unsigned_ucast_eq take_bit_nat_eq_self)
  with r have d: "digit_of (ucast (v mod b)) = base_char (unat v mod unat b)" using digit_of_char by metis
  have z: "v div b = 0 \<longleftrightarrow> unat v < unat b"
    using m(2) assms(1) by (metis div_eq_0_iff unat_eq_0 not_numeral_le_zero)
  show ?case
  proof (cases "unat v < unat b")
    case True
    then have "numeral_digits (unat b) (unat v) = [unat v]" by (subst numeral_digits.simps) simp
    with True b0 d z show ?thesis by (subst base_loop.simps) (simp add: Let_def)
  next
    case False
    have "0 < unat v" using False assms(1) by linarith
    then have "unat (v div b) < unat v" unfolding m(2) using assms(1) by (intro div_less_dividend) simp_all
    from less [OF this] have ih: "base_loop (v div b) b =
        Some (rev (map base_char (numeral_digits (unat b) (unat v div unat b))))" unfolding m(2) .
    have "numeral_digits (unat b) (unat v) =
        numeral_digits (unat b) (unat v div unat b) @ [unat v mod unat b]"
      using False assms(1) by (subst numeral_digits.simps) simp
    with False b0 d z ih show ?thesis by (subst base_loop.simps) (simp add: Let_def)
  qed
qed

lemma base_string_spec:
  fixes v b :: "'a::len word"
  assumes "2 \<le> unat b" "unat b \<le> 36"
  shows "base_string v b = Some (map base_char (numeral_digits (unat b) (unat v)))"
  using base_loop_spec [OF assms, of v] reverse_loop_rev [of "rev (map base_char (numeral_digits (unat b) (unat v)))"]
    numeral_digits_not_Nil [of "unat b" "unat v"]
  by (simp add: base_string_def)

section \<open>Properties\<close>

text \<open>
  for every base from 2 to 36 both routines answer the digits of the number in that base, most
  significant first, each digit a valid one, without a leading zero unless the number is 0, and the
  number can be read back from them.
\<close>

theorem number_strings:
  assumes "2 \<le> unat base" "unat base \<le> 36"
  shows "uintToBase v base = Some (map base_char (numeral_digits (unat base) (unat v)),
           length (numeral_digits (unat base) (unat v))) \<and>
    num_to_base w base = Some (map base_char (numeral_digits (unat base) (unat w)),
           length (numeral_digits (unat base) (unat w))) \<and>
    foldl (\<lambda>acc d. acc * unat base + d) 0 (numeral_digits (unat base) n) = n \<and>
    (\<forall>d \<in> set (numeral_digits (unat base) n). d < unat base) \<and>
    (0 < n \<longrightarrow> hd (numeral_digits (unat base) n) \<noteq> 0)"
proof -
  have u: "unat (ucast base :: u64) = unat base" by (rule unat_ucast_u32)
  show ?thesis
    using numeral_digits_value [OF assms(1), of n] base_string_spec [OF assms, of w]
      base_string_spec [of "ucast base" v, unfolded u, OF assms]
    by (simp add: uintToBase_def num_to_base_def)
qed

theorem number_strings_witness:
  "uintToBase 255 16 = Some ([70, 70], 2)"
proof -
  have "2 \<le> unat (16 :: u32)" "unat (16 :: u32) \<le> 36" by simp_all
  from number_strings [OF this, of 255 0 0] show ?thesis by (simp add: numeral_digits.simps base_char_def)
qed

text \<open>
  which buffers are long enough. In the bases 8, 10 and 16 the string and its terminator fit the 64
  bytes of the kernel's buffer and the 20 of the user library's. In base 2 a number of at least
  \<open>2 ^ 63\<close> fills the kernel's buffer without room for the terminator, and one of at least \<open>2 ^ 19\<close>
  overruns the user library's.
\<close>

theorem number_buffers:
  "(base \<in> {8, 10, 16} \<longrightarrow> (\<exists>cs. uintToBase v base = Some (cs, length cs) \<and> length cs + 1 \<le> 64) \<and>
      (\<exists>cs. num_to_base w base = Some (cs, length cs) \<and> length cs + 1 \<le> 20)) \<and>
   (2 ^ 63 \<le> unat v \<longrightarrow> (\<exists>cs. uintToBase v 2 = Some (cs, length cs) \<and> length cs + 1 > 64)) \<and>
   (2 ^ 19 \<le> unat w \<longrightarrow> (\<exists>cs. num_to_base w 2 = Some (cs, length cs) \<and> length cs + 1 > 20))"
proof -
  have res: "uintToBase v b = Some (map base_char (numeral_digits (unat b) (unat v)),
        length (numeral_digits (unat b) (unat v)))"
      "num_to_base w b = Some (map base_char (numeral_digits (unat b) (unat w)),
        length (numeral_digits (unat b) (unat w)))" if "2 \<le> unat b" "unat b \<le> 36" for b
    using base_string_spec [OF that, of w] base_string_spec [of "ucast b" v, unfolded unat_ucast_u32, OF that]
    by (simp_all add: uintToBase_def num_to_base_def)
  have small: "length (numeral_digits (unat b) (unat v)) \<le> 22" "length (numeral_digits (unat b) (unat w)) \<le> 11"
    if "8 \<le> unat b" for b :: u32
  proof -
    have "8 ^ Suc 21 \<le> unat b ^ Suc 21" "8 ^ Suc 10 \<le> unat b ^ Suc 10" using that by (intro power_mono; simp)+
    moreover have "unat v < 8 ^ Suc 21" "unat w < 8 ^ Suc 10"
      using unat_u64_less [of v] unat_u32_less [of w] by simp_all
    ultimately have "unat v < unat b ^ Suc 21" "unat w < unat b ^ Suc 10" by linarith+
    then show "length (numeral_digits (unat b) (unat v)) \<le> 22" "length (numeral_digits (unat b) (unat w)) \<le> 11"
      using numeral_digits_length [of "unat b" "unat v" 21] numeral_digits_length [of "unat b" "unat w" 10] that by simp_all
  qed
  have "64 < length (numeral_digits 2 (unat v)) + 1" if "2 ^ 63 \<le> unat v"
    using numeral_digits_long [OF order_refl that] by simp
  moreover have "20 < length (numeral_digits 2 (unat w)) + 1" if "2 ^ 19 \<le> unat w"
    using numeral_digits_long [OF order_refl that] by simp
  ultimately show ?thesis
    using res [of 8] res [of 10] res [of 16] res [of 2] small [of 8] small [of 10] small [of 16]
    by (simp del: One_nat_def)
qed

theorem number_buffers_witness: "\<exists>cs. num_to_base 524288 2 = Some (cs, length cs) \<and> length cs + 1 > 20"
  using number_buffers [of 2 0 524288] by simp

end
