(* ===== verification/Console.thy ===== *)
theory Console
  imports Video NumBase
begin

text \<open>
  The boot console, \<open>Kernel/naiveConsole.c\<close>: characters go to the text screen one cell after the other,
  the attributes are left alone, and nothing stops at the end of the screen. The conversion of numbers is
  \<open>uintToBase\<close> of \<open>NumBase\<close>. \<open>None\<close> stands for a loop that does not end.
\<close>

section \<open>State and operations\<close>

record console =
  cmem :: mem
  currentVideo :: ptr

definition nc_video :: ptr where
  "nc_video = 0xB8000"

definition nc_width :: nat where
  "nc_width = 80"

definition nc_height :: nat where
  "nc_height = 25"

definition ncPrintChar :: "console \<Rightarrow> u8 \<Rightarrow> console" where
  "ncPrintChar s character =
     s\<lparr>cmem := (cmem s)(currentVideo s := character), currentVideo := currentVideo s + 2\<rparr>"

definition ncPrint :: "console \<Rightarrow> u8 list \<Rightarrow> console" where
  "ncPrint s str = foldl ncPrintChar s str"

partial_function (option) ncNewline :: "console \<Rightarrow> console option" where
  "ncNewline s =
     (let s' = ncPrintChar s 32
      in if (currentVideo s' - nc_video) mod of_nat (nc_width * 2) \<noteq> 0 then ncNewline s' else Some s')"

definition ncPrintBase :: "console \<Rightarrow> u64 \<Rightarrow> u32 \<Rightarrow> console option" where
  "ncPrintBase s v base = map_option (\<lambda>(str, digits). ncPrint s str) (uintToBase v base)"

definition ncPrintDec :: "console \<Rightarrow> u64 \<Rightarrow> console option" where
  "ncPrintDec s v = ncPrintBase s v 10"

definition ncPrintHex :: "console \<Rightarrow> u64 \<Rightarrow> console option" where
  "ncPrintHex s v = ncPrintBase s v 16"

definition ncPrintBin :: "console \<Rightarrow> u64 \<Rightarrow> console option" where
  "ncPrintBin s v = ncPrintBase s v 2"

fun nc_clear_loop :: "mem \<Rightarrow> nat \<Rightarrow> nat \<Rightarrow> mem" where
  "nc_clear_loop m i 0 = m"
| "nc_clear_loop m i (Suc k) = nc_clear_loop (m(nc_video + of_nat (i * 2) := 32)) (i + 1) k"

definition ncClear :: "console \<Rightarrow> console" where
  "ncClear s = s\<lparr>cmem := nc_clear_loop (cmem s) 0 (nc_height * nc_width), currentVideo := nc_video\<rparr>"

section \<open>Where characters go\<close>

definition cpeek :: "console \<Rightarrow> nat \<Rightarrow> u8" where
  "cpeek s i = cmem s (vaddr i)"

text \<open>The cursor is on the character byte of cell \<open>n\<close>, counted over all rows.\<close>

definition at_cell :: "console \<Rightarrow> nat \<Rightarrow> bool" where
  "at_cell s n \<longleftrightarrow> currentVideo s = vaddr (2 * n)"

lemma ncPrintChar_at:
  assumes "at_cell s n" "n < 2 ^ 62" "j < 2 ^ 64"
  shows "at_cell (ncPrintChar s c) (Suc n) \<and> cpeek (ncPrintChar s c) j = (if j = 2 * n then c else cpeek s j)"
proof -
  have "vaddr (2 * n) + 2 = vaddr (2 * Suc n)" by (simp add: vaddr_def)
  moreover have "vaddr j = vaddr (2 * n) \<longleftrightarrow> j = 2 * n" using assms(2,3) by (intro vaddr_eq) simp_all
  ultimately show ?thesis using assms(1) by (simp add: at_cell_def ncPrintChar_def cpeek_def)
qed

lemma ncPrint_at:
  assumes "at_cell s n" "n + length str \<le> 2 ^ 62" "j < 2 ^ 64"
  shows "at_cell (ncPrint s str) (n + length str) \<and>
    cpeek (ncPrint s str) j =
      (if even j \<and> n \<le> j div 2 \<and> j div 2 < n + length str then str ! (j div 2 - n) else cpeek s j)"
  using assms(1,2)
proof (induction str arbitrary: s n)
  case (Cons c str)
  have c: "at_cell (ncPrintChar s c) (Suc n)" "cpeek (ncPrintChar s c) j = (if j = 2 * n then c else cpeek s j)"
    using ncPrintChar_at [OF Cons.prems(1) _ assms(3), of c] Cons.prems(2) by auto
  have ih: "at_cell (ncPrint (ncPrintChar s c) str) (Suc n + length str)"
    "cpeek (ncPrint (ncPrintChar s c) str) j = (if even j \<and> Suc n \<le> j div 2 \<and> j div 2 < Suc n + length str
       then str ! (j div 2 - Suc n) else cpeek (ncPrintChar s c) j)"
    using Cons.IH [OF c(1)] Cons.prems(2) by auto
  have p: "ncPrint s (c # str) = ncPrint (ncPrintChar s c) str" by (simp add: ncPrint_def)
  show ?case
  proof (cases "even j")
    case True
    then obtain k where k: "j = 2 * k" by (rule evenE)
    consider "k < n" | "k = n" | "n < k" by linarith
    then show ?thesis unfolding p using ih c(2) k by cases (auto simp: nth_Cons')
  next
    case False
    then show ?thesis unfolding p using ih c(2) by auto
  qed
qed (auto simp: ncPrint_def)

lemma newline_test:
  assumes "at_cell s n" "n < 2 ^ 62"
  shows "(currentVideo s - nc_video) mod of_nat (nc_width * 2) = 0 \<longleftrightarrow> n mod 80 = 0"
proof -
  have "currentVideo s - nc_video = of_nat (2 * n)" using assms(1) by (simp add: at_cell_def vaddr_def nc_video_def)
  then have "unat ((currentVideo s - nc_video) mod of_nat (nc_width * 2)) = 2 * n mod 160"
    using assms(2) unat_of_nat_u64 [of "2 * n"] by (simp add: unat_mod nc_width_def)
  also have "2 * n mod 160 = 2 * (n mod 80)" using mult_mod_right [of 2 n 80] by simp
  finally show ?thesis by (metis mult_eq_0_iff unat_eq_0 zero_neq_numeral)
qed

lemma ncNewline_spec:
  assumes "at_cell s n" "n + (80 - n mod 80) \<le> 2 ^ 61"
  shows "ncNewline s = Some (ncPrint s (replicate (80 - n mod 80) 32))"
  using assms
proof (induction "80 - n mod 80" arbitrary: s n rule: less_induct)
  case less
  let ?s = "ncPrintChar s 32"
  have s: "at_cell ?s (Suc n)" using ncPrintChar_at [OF less.prems(1), of 0 32] less.prems(2) by simp
  have test: "(currentVideo ?s - nc_video) mod of_nat (nc_width * 2) = 0 \<longleftrightarrow> Suc n mod 80 = 0"
    using newline_test [OF s] less.prems(2) by simp
  show ?case
  proof (cases "Suc n mod 80 = 0")
    case True
    then have "80 - n mod 80 = 1" by (auto simp: mod_Suc split: if_splits)
    with True test show ?thesis by (subst ncNewline.simps) (simp add: ncPrint_def Let_def)
  next
    case False
    then have m: "Suc n mod 80 = Suc (n mod 80)" "n mod 80 < 79" by (auto simp: mod_Suc split: if_splits)
    have eq: "ncNewline s = ncNewline ?s" using False test by (subst ncNewline.simps) (simp add: Let_def)
    have "80 - n mod 80 = Suc (80 - Suc n mod 80)" using m by simp
    then have r: "ncPrint s (replicate (80 - n mod 80) 32) = ncPrint ?s (replicate (80 - Suc n mod 80) 32)"
      by (simp add: ncPrint_def)
    have "Suc n + (80 - Suc n mod 80) \<le> 2 ^ 61" using less.prems(2) m by simp
    moreover have "80 - Suc n mod 80 < 80 - n mod 80" using m by simp
    ultimately show ?thesis using less.hyps [OF _ s] eq r by simp
  qed
qed

section \<open>Properties\<close>

text \<open>
  the boot console writes numbers in decimal: the digits of the value, in order and without leading
  zeros, become the characters of the next cells, the cursor stands behind them, and no other byte
  changes, in particular no attribute.
\<close>

theorem ncPrintDec_correct:
  assumes "at_cell s n" "n < 2 ^ 61" "j < 2 ^ 64"
  shows "\<exists>s'. ncPrintDec s v = Some s' \<and>
    (let ds = numeral_digits 10 (unat v) in at_cell s' (n + length ds) \<and>
       cpeek s' j = (if even j \<and> n \<le> j div 2 \<and> j div 2 < n + length ds
         then of_nat (ds ! (j div 2 - n) + 48) else cpeek s j))"
proof -
  let ?ds = "numeral_digits 10 (unat v)"
  have "base_string v (ucast (10 :: u32) :: u64) = Some (map base_char ?ds)"
    using base_string_spec [of "10 :: u64" v] by simp
  then have p: "ncPrintDec s v = Some (ncPrint s (map base_char ?ds))"
    by (simp add: ncPrintDec_def ncPrintBase_def uintToBase_def)
  have "unat v < 10 ^ Suc 19" using unat_u64_less [of v] by simp
  then have "length ?ds \<le> 20" using numeral_digits_length [of 10 "unat v" 19] by simp
  then have len: "n + length (map base_char ?ds) \<le> 2 ^ 62" using assms(2) by simp
  have "\<forall>d \<in> set ?ds. d < 10" using numeral_digits_value [of 10 "unat v"] by simp
  then have "base_char (?ds ! k) = of_nat (?ds ! k + 48)" if "k < length ?ds" for k
    using that nth_mem [OF that] by (auto simp: base_char_def)
  moreover have "j div 2 - n < length ?ds" if "n \<le> j div 2" "j div 2 < n + length ?ds" using that by linarith
  ultimately show ?thesis using p ncPrint_at [OF assms(1) len assms(3)] by (auto simp: Let_def)
qed

definition boot_console :: console where
  "boot_console = \<lparr>cmem = (\<lambda>a. 0), currentVideo = nc_video\<rparr>"

lemma boot_console_at: "at_cell boot_console 0"
  by (simp add: at_cell_def boot_console_def nc_video_def vaddr_def)

theorem ncPrintDec_correct_witness:
  "\<exists>s'. ncPrintDec boot_console 42 = Some s' \<and> cpeek s' 2 = 50"
proof -
  have j: "(0 :: nat) < 2 ^ 61" "(2 :: nat) < 2 ^ 64" by simp_all
  have "numeral_digits 10 42 = [4, 2]" by (simp add: numeral_digits.simps)
  then show ?thesis using ncPrintDec_correct [OF boot_console_at j, of 42] by (auto simp: Let_def)
qed

text \<open>
  \<open>ncNewline\<close> returns from every cell: it blanks the rest of the row, at least one cell, and leaves the
  cursor at the start of the next row.
\<close>

theorem ncNewline_correct:
  assumes "at_cell s n" "n < 2 ^ 60" "j < 2 ^ 64"
  shows "\<exists>s'. ncNewline s = Some s' \<and> at_cell s' ((n div 80 + 1) * 80) \<and>
    cpeek s' j = (if even j \<and> n \<le> j div 2 \<and> j div 2 < (n div 80 + 1) * 80 then 32 else cpeek s j)"
proof -
  let ?k = "80 - n mod 80"
  have "n = n div 80 * 80 + n mod 80" "n mod 80 < 80" by simp_all
  then have e: "n + ?k = (n div 80 + 1) * 80" unfolding distrib_right by linarith
  have "?k \<le> 80" by simp
  then have b: "n + ?k \<le> 2 ^ 61" "n + length (replicate ?k (32 :: u8)) \<le> 2 ^ 62" using assms(2) by simp_all
  have "replicate ?k 32 ! (j div 2 - n) = (32 :: u8)" if "n \<le> j div 2" "j div 2 < n + ?k"
    using that by (intro nth_replicate) linarith
  then show ?thesis
    using ncNewline_spec [OF assms(1) b(1)] ncPrint_at [OF assms(1) b(2) assms(3)] e by auto
qed

theorem ncNewline_correct_witness: "\<exists>s'. ncNewline boot_console = Some s' \<and> at_cell s' 80"
proof -
  have "(0 :: nat) < 2 ^ 60" "(0 :: nat) < 2 ^ 64" by simp_all
  from ncNewline_correct [OF boot_console_at this] show ?thesis by auto
qed

end
