(* ===== verification/Interrupts.thy ===== *)
theory Interrupts
  imports Timer Keyboard
begin

text \<open>
  The interrupt table, \<open>Kernel/system/interrupts.c\<close> with the descriptor of \<open>types.h\<close>, and the dispatch of
  the hardware interrupts to the timer and the keyboard. The addresses of the assembly stubs are
  arguments. \<open>None\<close> stands for a call through a NULL pointer or beyond the array, or a fault of the
  handler.
\<close>

section \<open>State and operations\<close>

record DESCR_INT =
  offset_l :: u16
  selector :: u16
  zero1 :: u8
  access :: u8
  offset_m :: u16
  offset_h :: u32
  zero2 :: u32

type_synonym idt = "nat \<Rightarrow> DESCR_INT"

definition ISR_SIZE :: nat where
  "ISR_SIZE = 8"

definition PIT_IRQ :: nat where
  "PIT_IRQ = 0"

definition KB_IRQ :: nat where
  "KB_IRQ = 1"

definition set_idt_entry :: "idt \<Rightarrow> nat \<Rightarrow> u8 \<Rightarrow> u64 \<Rightarrow> u8 \<Rightarrow> idt" where
  "set_idt_entry t index sel offset acc =
     t(index := \<lparr>offset_l = ucast (offset AND 0xFFFF), selector = ucast sel, zero1 = 0, access = acc,
                 offset_m = ucast (drop_bit 16 offset AND 0xFFFF),
                 offset_h = ucast (drop_bit 32 offset AND 0xFFFFFFFF), zero2 = 0\<rparr>)"

definition init_idt :: "idt \<Rightarrow> u64 \<Rightarrow> u64 \<Rightarrow> u64 \<Rightarrow> idt" where
  "init_idt t irq00 irq01 irq80 =
     set_idt_entry (set_idt_entry (set_idt_entry t 0x20 0x08 irq00 0x8E) 0x21 0x08 irq01 0x8E) 0x80 0x08 irq80 0x8E"

datatype isr = timer_routine | keyboard_routine

definition init_interrupts :: "isr option list \<Rightarrow> isr option list" where
  "init_interrupts routines = routines[PIT_IRQ := Some timer_routine, KB_IRQ := Some keyboard_routine]"

record devices =
  dev_timer :: timer
  dev_keyboard :: keyboard

text \<open>The status and the data byte the keyboard controller shows when the interrupt is served.\<close>

definition irqDispatcher :: "isr option list \<Rightarrow> u32 \<Rightarrow> u8 \<Rightarrow> u8 \<Rightarrow> devices \<Rightarrow> (devices \<times> u64 list) option" where
  "irqDispatcher routines irq status data d =
     (if unat irq < length routines
      then case routines ! unat irq of
             None \<Rightarrow> None
           | Some timer_routine \<Rightarrow>
               map_option (\<lambda>(t, calls). (d\<lparr>dev_timer := t\<rparr>, calls)) (timer_handler (dev_timer d))
           | Some keyboard_routine \<Rightarrow>
               map_option (\<lambda>k. (d\<lparr>dev_keyboard := k\<rparr>, [])) (keyboard_handler (dev_keyboard d) status data)
      else None)"

section \<open>Properties\<close>

text \<open>The address a gate transfers control to: its three parts put together.\<close>

definition gate_offset :: "DESCR_INT \<Rightarrow> u64" where
  "gate_offset e = ucast (offset_l e) OR push_bit 16 (ucast (offset_m e)) OR push_bit 32 (ucast (offset_h e))"

lemma offset_parts: "gate_offset (set_idt_entry t i sel offset acc i) = offset"
proof -
  have m: "x AND 0xFFFF = take_bit 16 x" "x AND 0xFFFFFFFF = take_bit 32 x" for x :: u64
    by (simp_all add: take_bit_eq_mask mask_eq_exp_minus_1)
  show ?thesis
    unfolding gate_offset_def set_idt_entry_def m
  proof (rule bit_word_eqI, goal_cases)
    case (1 n)
    have "n < 16 \<or> 16 \<le> n \<and> n < 32 \<or> 32 \<le> n" by linarith
    with 1 show ?case by (auto simp: bit_simps dest: bit_imp_le_length)
  qed
qed

text \<open>
  every handler address survives its split into the three fields of a descriptor: the gates set up
  for the timer, the keyboard and the system calls lead to just the given addresses, with the code
  selector and as present interrupt gates, and no other entry of the table changes.
\<close>

theorem idt_gates:
  "gate_offset (init_idt t a b c 0x20) = a \<and> gate_offset (init_idt t a b c 0x21) = b \<and>
   gate_offset (init_idt t a b c 0x80) = c \<and>
   (\<forall>i \<in> {0x20, 0x21, 0x80}. selector (init_idt t a b c i) = 8 \<and> access (init_idt t a b c i) = 0x8E) \<and>
   (\<forall>i. i \<notin> {0x20, 0x21, 0x80} \<longrightarrow> init_idt t a b c i = t i)"
proof -
  have e: "init_idt t a b c 0x20 = set_idt_entry t 0x20 8 a 0x8E 0x20"
    "init_idt t a b c 0x21 = set_idt_entry t 0x21 8 b 0x8E 0x21"
    "init_idt t a b c 0x80 = set_idt_entry t 0x80 8 c 0x8E 0x80"
    by (simp_all add: init_idt_def set_idt_entry_def)
  have "selector (set_idt_entry t i 8 x 0x8E i) = 8 \<and> access (set_idt_entry t i 8 x 0x8E i) = 0x8E" for i x
    by (simp add: set_idt_entry_def)
  then show ?thesis by (simp add: e offset_parts) (simp add: init_idt_def set_idt_entry_def)
qed

definition no_gates :: idt where
  "no_gates = (\<lambda>i. \<lparr>offset_l = 0, selector = 0, zero1 = 0, access = 0, offset_m = 0, offset_h = 0, zero2 = 0\<rparr>)"

theorem idt_gates_witness: "init_idt no_gates 1 2 3 0x22 = no_gates 0x22"
proof -
  have "(0x22 :: nat) \<notin> {0x20, 0x21, 0x80}" by simp
  then show ?thesis using idt_gates [of no_gates 1 2 3] by blast
qed

definition devices_ok :: "devices \<Rightarrow> bool" where
  "devices_ok d \<longleftrightarrow> timer_inv (dev_timer d) \<and> kb_inv (dev_keyboard d)"

text \<open>
  after \<open>init_interrupts\<close> the timer and the keyboard interrupt are always served, without a fault, and
  keep the timer's table and the keyboard's buffer well formed; any other interrupt would call
  through a NULL pointer.
\<close>

theorem dispatch_served:
  assumes "devices_ok d"
  shows "let routines = init_interrupts (replicate ISR_SIZE None) in
    (\<exists>d' calls. irqDispatcher routines 0 status data d = Some (d', calls) \<and> devices_ok d' \<and>
       ticks (dev_timer d') = ticks (dev_timer d) + 1 \<and> dev_keyboard d' = dev_keyboard d) \<and>
    (\<exists>d'. irqDispatcher routines 1 status data d = Some (d', []) \<and> devices_ok d' \<and> dev_timer d' = dev_timer d) \<and>
    (\<forall>irq. 1 < irq \<longrightarrow> irqDispatcher routines irq status data d = None)"
proof -
  let ?r = "init_interrupts (replicate ISR_SIZE None)"
  have r: "?r = Some timer_routine # Some keyboard_routine # replicate 6 None"
    by (simp add: init_interrupts_def PIT_IRQ_def KB_IRQ_def ISR_SIZE_def numeral_eq_Suc)
  have d: "timer_inv (dev_timer d)" "kb_inv (dev_keyboard d)" using assms by (simp_all add: devices_ok_def)
  obtain t' where "timer_handler (dev_timer d) = Some (t', map handler (filter (due (ticks (dev_timer d) + 1)) (active (dev_timer d))))"
    "timer_inv t'" "ticks t' = ticks (dev_timer d) + 1" using timer_handler_spec [OF d(1)] by blast
  then have "\<exists>d' calls. irqDispatcher ?r 0 status data d = Some (d', calls) \<and> devices_ok d' \<and>
      ticks (dev_timer d') = ticks (dev_timer d) + 1 \<and> dev_keyboard d' = dev_keyboard d"
    unfolding r using d(2) by (simp add: irqDispatcher_def devices_ok_def)
  moreover have "kb_inv (handled (dev_keyboard d) status data)" by (rule handled_inv [OF d(2)])
  then have "\<exists>d'. irqDispatcher ?r 1 status data d = Some (d', []) \<and> devices_ok d' \<and> dev_timer d' = dev_timer d"
    unfolding r using d(1) by (simp add: irqDispatcher_def devices_ok_def handler_defined)
  moreover have "irqDispatcher ?r irq status data d = None" if "1 < irq" for irq :: u32
  proof -
    have "1 < unat irq" using that by (simp add: word_less_nat_alt)
    then have "?r ! unat irq = None" if "unat irq < length ?r"
      using that unfolding r by (auto simp: nth_Cons split: nat.split)
    then show ?thesis by (simp add: irqDispatcher_def)
  qed
  ultimately show ?thesis unfolding Let_def by blast
qed

theorem dispatch_served_witness:
  "\<exists>d'. irqDispatcher (init_interrupts (replicate ISR_SIZE None)) 1 1 30 \<lparr>dev_timer = clock_timer, dev_keyboard = kb_ready\<rparr> =
     Some (d', [])"
proof -
  have "devices_ok \<lparr>dev_timer = clock_timer, dev_keyboard = kb_ready\<rparr>"
    using sample_timers(2) kb_ready_ok(1) by (simp add: devices_ok_def drained_def)
  from dispatch_served [OF this, of 1 30] show ?thesis unfolding Let_def by blast
qed

end
