(* ===== verification/Loader.thy ===== *)
theory Loader
  imports Console "HOL-Library.Monad_Syntax"
begin

text \<open>
  Binary modules: the tool that appends them to the kernel image, \<open>Toolchain/ModulePacker/main.c\<close>, on
  files given as byte lists, and the kernel's loader, \<open>Kernel/moduleLoader.c\<close>, which copies them from
  behind the kernel in memory to their addresses and reports on the boot console, whose cells are bytes of
  the same memory.
\<close>

section \<open>The packer\<close>

type_synonym filename = string

definition BUFFER_SIZE_PACKER :: nat where
  "BUFFER_SIZE_PACKER = 128"

text \<open>A \<open>uint32_t\<close> as \<open>fwrite\<close> puts it into the file of a little-endian machine.\<close>

definition bytes32 :: "u32 \<Rightarrow> u8 list" where
  "bytes32 w = [ucast w, ucast (drop_bit 8 w), ucast (drop_bit 16 w), ucast (drop_bit 24 w)]"

text \<open>\<open>feof\<close> holds once a read came back short.\<close>

function write_file :: "u8 list \<Rightarrow> u8 list \<Rightarrow> u8 list" where
  "write_file target source =
     (let buffer = take BUFFER_SIZE_PACKER source
      in if length buffer < BUFFER_SIZE_PACKER then target @ buffer
         else write_file (target @ buffer) (drop BUFFER_SIZE_PACKER source))"
  by pat_completeness auto
termination by (relation "measure (\<lambda>(target, source). length source)") (auto simp: BUFFER_SIZE_PACKER_def)

declare write_file.simps [simp del]

definition write_size :: "u8 list \<Rightarrow> u8 list \<Rightarrow> u8 list" where
  "write_size target content = target @ bytes32 (of_nat (length content))"

fun write_modules :: "u8 list \<Rightarrow> u8 list list \<Rightarrow> u8 list" where
  "write_modules target [] = target"
| "write_modules target (f # fs) = write_modules (write_file (write_size target f) f) fs"

fun checkFiles :: "(filename \<Rightarrow> u8 list option) \<Rightarrow> filename list \<Rightarrow> bool" where
  "checkFiles fs [] = True"
| "checkFiles fs (f # names) = (if fs f = None then False else checkFiles fs names)"

text \<open>
  The result and the file that was written. Opening the output with mode \<open>w\<close> empties it before the first source is
  opened, so the sources are read from what the files hold then: a kernel file that is also the output is read as
  empty. \<open>None\<close> stands for the rest: \<open>fopen\<close> of a source fails and its NULL is used, or a module is the
  output itself, which is read while it is being written. Whether the output file can be created is an argument.
\<close>

definition buildImage ::
  "(filename \<Rightarrow> u8 list option) \<Rightarrow> (filename \<Rightarrow> bool) \<Rightarrow> filename list \<Rightarrow> filename \<Rightarrow>
   (bool \<times> (filename \<times> u8 list) option) option" where
  "buildImage fs creates fileArray output =
     (if \<not> creates output then Some (False, None)
      else if output \<in> set (tl fileArray) then None
      else case those (map (fs(output \<mapsto> [])) fileArray) of
             None \<Rightarrow> None
           | Some [] \<Rightarrow> None
           | Some (kfile # modules) \<Rightarrow>
               Some (True, Some (output,
                 write_modules (write_file [] kfile @ bytes32 (of_nat (length modules))) modules)))"

text \<open>
  The command line. The library \<open>argp\<close> splits it and hands over option after option and argument after
  argument, and at the end how many arguments there were; it goes on after an unknown key, and
  \<open>argp_usage\<close> ends the program.
\<close>

datatype argp_key = Key_output filename | Key_arg nat filename | Key_end nat | Key_other

record arguments =
  arg_files :: "filename option list"
  output_file :: filename
  arg_count :: nat

datatype parse_result = Parsed arguments | Unknown_key | Usage | Overrun

definition MAX_FILES :: nat where
  "MAX_FILES = 128"

definition OUTPUT_FILE :: filename where
  "OUTPUT_FILE = ''packedKernel.bin''"

fun parse_opt :: "argp_key \<Rightarrow> arguments \<Rightarrow> parse_result" where
  "parse_opt (Key_output arg) a = Parsed (a\<lparr>output_file := arg\<rparr>)"
| "parse_opt (Key_arg n arg) a =
     (if n < length (arg_files a) then Parsed (a\<lparr>arg_files := (arg_files a)[n := Some arg]\<rparr>) else Overrun)"
| "parse_opt (Key_end n) a = (if n < 1 then Usage else Parsed (a\<lparr>arg_count := n\<rparr>))"
| "parse_opt Key_other a = Unknown_key"

fun argp_run :: "argp_key list \<Rightarrow> arguments \<Rightarrow> parse_result" where
  "argp_run [] a = Parsed a"
| "argp_run (k # keys) a =
     (case parse_opt k a of
        Parsed a' \<Rightarrow> argp_run keys a'
      | Unknown_key \<Rightarrow> argp_run keys a
      | r \<Rightarrow> r)"

text \<open>The exit code and the file written. The usage message ends the program with \<open>EX_USAGE\<close>, 64.\<close>

definition packer_main ::
  "(filename \<Rightarrow> u8 list option) \<Rightarrow> (filename \<Rightarrow> bool) \<Rightarrow> argp_key list \<Rightarrow> (nat \<times> (filename \<times> u8 list) option) option" where
  "packer_main fs creates keys =
     (case argp_run keys \<lparr>arg_files = replicate MAX_FILES None, output_file = OUTPUT_FILE, arg_count = 0\<rparr> of
        Parsed a \<Rightarrow>
          (case those (take (arg_count a) (arg_files a)) of
             None \<Rightarrow> None
           | Some fileArray \<Rightarrow>
               if \<not> checkFiles fs fileArray then Some (1, None)
               else map_option (\<lambda>(ok, file). (if ok then 0 else 1, file)) (buildImage fs creates fileArray (output_file a)))
      | Usage \<Rightarrow> Some (64, None)
      | _ \<Rightarrow> None)"

section \<open>The loader\<close>

definition readUint32 :: "console \<Rightarrow> ptr \<Rightarrow> u32 \<times> ptr" where
  "readUint32 s address = (load32 (cmem s) address, address + 4)"

definition loadModule :: "console \<Rightarrow> ptr \<Rightarrow> ptr \<Rightarrow> (console \<times> ptr) option" where
  "loadModule s module target =
     (case readUint32 s module of
        (moduleSize, module') \<Rightarrow>
          do {
            s1 \<leftarrow> ncPrintHex (ncPrint s (str_bytes ''  Will copy module at 0x'')) module';
            s2 \<leftarrow> ncPrintHex (ncPrint s1 (str_bytes '' to 0x'')) target;
            s3 \<leftarrow> ncPrintDec (ncPrint s2 (str_bytes '' ('')) (ucast moduleSize);
            let s4 = ncPrint s3 (str_bytes '' bytes)'');
            let s5 = s4\<lparr>cmem := memcpy (cmem s4) target module' (ucast moduleSize)\<rparr>;
            s6 \<leftarrow> ncNewline (ncPrint s5 (str_bytes '' [Done]''));
            Some (s6, module' + ucast moduleSize)
          })"

fun load_loop :: "console \<Rightarrow> ptr \<Rightarrow> ptr list \<Rightarrow> nat \<Rightarrow> console option" where
  "load_loop s currentModule targets 0 = Some s"
| "load_loop s currentModule [] (Suc k) = None"
| "load_loop s currentModule (target # targets) (Suc k) =
     do { (s', m') \<leftarrow> loadModule s currentModule target; load_loop s' m' targets k }"

text \<open>More modules than target addresses read beyond the array of addresses: \<open>None\<close>.\<close>

definition loadModules :: "console \<Rightarrow> ptr \<Rightarrow> ptr list \<Rightarrow> console option" where
  "loadModules s payloadStart targets =
     (case readUint32 s payloadStart of (moduleCount, p) \<Rightarrow> load_loop s p targets (unat moduleCount))"

section \<open>What the packer writes\<close>

lemma write_file_spec: "write_file target source = target @ source"
proof (induction target source rule: write_file.induct)
  case (1 target source)
  show ?case
    by (subst write_file.simps) (use 1 in \<open>auto simp: Let_def min_def split: if_splits\<close>)
qed

definition packed :: "u8 list list \<Rightarrow> u8 list" where
  "packed ms = concat (map (\<lambda>m. bytes32 (of_nat (length m)) @ m) ms)"

lemma write_modules_spec: "write_modules target ms = target @ packed ms"
  by (induction ms arbitrary: target) (auto simp: write_file_spec write_size_def packed_def)

section \<open>Reading back\<close>

lemma load32_bytes:
  assumes "bytes_at m a 4 = bytes32 w"
  shows "load32 m a = w"
proof -
  have four: "bytes_at m a 4 = [m a, m (a + 1), m (a + 2), m (a + 3)]"
    by (simp add: bytes_at_def upt_rec)
  then have b: "m a = ucast w" "m (a + 1) = ucast (drop_bit 8 w)" "m (a + 2) = ucast (drop_bit 16 w)"
    "m (a + 3) = ucast (drop_bit 24 w)"
    using assms by (simp_all add: bytes32_def)
  show ?thesis unfolding load32_def b
  proof (rule bit_word_eqI)
    fix n assume "n < LENGTH(32)"
    then have "n < 32" by simp
    moreover have "n < 8 \<or> 8 \<le> n \<and> n < 16 \<or> 16 \<le> n \<and> n < 24 \<or> 24 \<le> n" by linarith
    ultimately show "bit (ucast (ucast w :: u8) OR push_bit 8 (ucast (ucast (drop_bit 8 w) :: u8)) OR
        push_bit 16 (ucast (ucast (drop_bit 16 w) :: u8)) OR push_bit 24 (ucast (ucast (drop_bit 24 w) :: u8)) :: u32) n =
        bit w n"
      by (auto simp: bit_simps)
  qed
qed

lemma bytes_at_append: "bytes_at m a (i + j) = bytes_at m a i @ bytes_at m (a + of_nat i) j"
proof -
  have "[0..<i + j] = [0..<i] @ map (\<lambda>k. k + i) [0..<j]"
    by (simp add: upt_add_eq_append [OF le0] map_add_upt add.commute)
  then show ?thesis by (simp add: bytes_at_def comp_def ac_simps)
qed

lemma length_bytes_at [simp]: "length (bytes_at m a n) = n"
  by (simp add: bytes_at_def)

lemma length_bytes32 [simp]: "length (bytes32 w) = 4"
  by (simp add: bytes32_def)

lemma bytes_at_cong: "(\<And>i. i < n \<Longrightarrow> m (a + of_nat i) = m' (a + of_nat i)) \<Longrightarrow> bytes_at m a n = bytes_at m' a n"
  by (simp add: bytes_at_def)

text \<open>The bytes of memory from address \<open>a\<close> on, as a range of natural numbers that does not wrap.\<close>

definition span :: "ptr \<Rightarrow> nat \<Rightarrow> nat set" where
  "span a n = {unat a..<unat a + n}"

lemma span_addr: "unat a + n \<le> 2 ^ 64 \<Longrightarrow> i < n \<Longrightarrow> unat (a + of_nat i) = unat a + i \<and> unat a + i \<in> span a n"
  using unat_plus_no_wrap [of a "of_nat i"] unat_of_nat_u64 [of i] by (simp add: span_def)

lemma memcpy_disjoint:
  assumes "unat d + n \<le> 2 ^ 64" "unat s + n \<le> 2 ^ 64" "span d n \<inter> span s n = {}" "unat len = n"
  shows "bytes_at (memcpy m d s len) d n = bytes_at m s n"
    and "unat x \<notin> span d n \<Longrightarrow> memcpy m d s len x = m x"
proof -
  have "n = 0 \<or> unat s + n \<le> unat d \<or> unat d + n \<le> unat s"
  proof (rule ccontr)
    assume "\<not> (n = 0 \<or> unat s + n \<le> unat d \<or> unat d + n \<le> unat s)"
    then have "max (unat d) (unat s) \<in> span d n \<inter> span s n" by (auto simp: span_def max_def)
    with assms(3) show False by blast
  qed
  then have apart: "unat len \<le> unat (d - s) \<or> d = s"
  proof (elim disjE)
    assume a: "unat s + n \<le> unat d"
    then have "unat (d - s) = unat d - unat s" by (simp add: unat_minus_no_wrap)
    then show ?thesis using assms(4) a by linarith
  next
    assume a: "unat d + n \<le> unat s"
    show ?thesis
    proof (cases "d = s")
      case False
      then have "unat d \<noteq> unat s" by (simp add: word_unat_eq_iff)
      then have "unat (d - s) = unat d + 2 ^ 64 - unat s" using a by (simp add: unat_sub_if')
      then show ?thesis using assms(2,4) a by linarith
    qed simp
  qed (use assms(4) in simp)
  show "bytes_at (memcpy m d s len) d n = bytes_at m s n" using bytes_at_memcpy [OF apart, of m] assms(4) by simp
  show "memcpy m d s len x = m x" if x: "unat x \<notin> span d n"
  proof -
    have "\<not> unat (x - d) < n"
    proof
      assume l: "unat (x - d) < n"
      have "x = d + of_nat (unat (x - d))" by simp
      then have "unat x = unat d + unat (x - d)" using span_addr [OF assms(1) l] by metis
      with x l show False by (simp add: span_def)
    qed
    then show ?thesis unfolding memcpy_correct [OF apart] assms(4) by simp
  qed
qed

section \<open>Printing while loading\<close>

text \<open>The cells of the boot console up to a cell, as bytes of memory.\<close>

definition cells :: "nat \<Rightarrow> nat set" where
  "cells n = {0xB8000..<0xB8000 + 2 * n}"

definition prints :: "nat \<Rightarrow> console \<Rightarrow> console \<Rightarrow> bool" where
  "prints k s s' \<longleftrightarrow> (\<exists>str. s' = ncPrint s str \<and> length str \<le> k)"

lemma prints_ncPrint: "length str \<le> k \<Longrightarrow> prints k s (ncPrint s str)"
  by (auto simp: prints_def)

lemma prints_trans: "prints k s s' \<Longrightarrow> prints l s' s'' \<Longrightarrow> prints (k + l) s s''"
  unfolding prints_def ncPrint_def by (metis add_mono foldl_append length_append)

lemma prints_base:
  assumes "2 \<le> unat base" "unat base \<le> 36" "unat v < unat base ^ Suc k"
  shows "\<exists>s'. ncPrintBase s v base = Some s' \<and> prints (Suc k) s s'"
proof -
  have u: "unat (ucast base :: u64) = unat base" by (rule unat_ucast_u32)
  have "base_string v (ucast base :: u64) = Some (map base_char (numeral_digits (unat base) (unat v)))"
    using base_string_spec [of "ucast base :: u64" v] assms u by simp
  moreover have "length (numeral_digits (unat base) (unat v)) \<le> Suc k"
    using assms by (intro numeral_digits_length)
  ultimately show ?thesis by (auto simp: ncPrintBase_def uintToBase_def intro!: prints_ncPrint)
qed

lemma prints_dec: "\<exists>s'. ncPrintDec s v = Some s' \<and> prints 20 s s'"
  unfolding ncPrintDec_def using unat_u64_less [of v] prints_base [of 10 v 19 s] by simp

lemma prints_hex: "\<exists>s'. ncPrintHex s v = Some s' \<and> prints 16 s s'"
  unfolding ncPrintHex_def using unat_u64_less [of v] prints_base [of 16 v 15 s] by simp

lemma prints_frame:
  assumes "at_cell s n" "prints k s s'" "n + k \<le> K" "K \<le> 2 ^ 60"
  shows "(\<exists>n' \<le> n + k. at_cell s' n') \<and> (\<forall>a. unat a \<notin> cells K \<longrightarrow> cmem s' a = cmem s a)"
proof -
  obtain str where str: "s' = ncPrint s str" "length str \<le> k" using assms(2) by (auto simp: prints_def)
  have at: "at_cell s' (n + length str)" using ncPrint_at [OF assms(1), of str 0] str assms(3,4) by simp
  have "cmem s' a = cmem s a" if a: "unat a \<notin> cells K" for a
  proof -
    let ?j = "unat (a - 0xB8000)"
    have va: "vaddr ?j = a" by (simp add: vaddr_def)
    have "\<not> ?j div 2 < n + length str"
    proof
      assume "?j div 2 < n + length str"
      then have l: "?j < 2 * K" using str(2) assms(3) by linarith
      have "unat (0xB8000 + (a - 0xB8000)) = unat (0xB8000 :: u64) + ?j"
        using l assms(4) by (intro unat_plus_no_wrap) simp
      then have "unat a = 0xB8000 + ?j" by simp
      with l a show False by (simp add: cells_def)
    qed
    then have "cpeek s' ?j = cpeek s ?j"
      using ncPrint_at [OF assms(1), of str ?j] str assms(3,4) unat_u64_less [of "a - 0xB8000"] by simp
    then show ?thesis by (simp add: cpeek_def va)
  qed
  with at str(2) show ?thesis by (auto intro!: exI [of _ "n + length str"])
qed

section \<open>Loading\<close>

lemma prints_newline:
  assumes "at_cell s n" "n + 80 \<le> 2 ^ 60"
  shows "\<exists>s'. ncNewline s = Some s' \<and> prints 80 s s'"
  using ncNewline_spec [OF assms(1)] assms(2) by (auto intro!: prints_ncPrint)

lemma loadModule_spec:
  assumes "at_cell s n" "n + 200 \<le> K" "K \<le> 2 ^ 60"
    and m: "bytes_at (cmem s) p (4 + length m) = bytes32 (of_nat (length m)) @ m" "length m < 2 ^ 32"
    and p: "unat p + 4 + length m < 2 ^ 64" "unat t + length m \<le> 2 ^ 64"
    and apart: "span p (4 + length m) \<inter> cells K = {}" "span p (4 + length m) \<inter> span t (length m) = {}"
      "span t (length m) \<inter> cells K = {}"
  obtains s' n' where "loadModule s p t = Some (s', p + of_nat (4 + length m))" "at_cell s' n'" "n' \<le> n + 200"
    "bytes_at (cmem s') t (length m) = m"
    "\<And>a. unat a \<notin> cells K \<Longrightarrow> unat a \<notin> span t (length m) \<Longrightarrow> cmem s' a = cmem s a"
proof -
  let ?w = "of_nat (length m) :: u32" and ?p = "p + 4"
  have w: "unat ?w = length m" using m(2) by (simp add: unat_of_nat)
  then have w64: "unat (ucast ?w :: u64) = length m" by (simp add: unat_ucast_u32)
  then have uw: "(ucast ?w :: u64) = of_nat (length m)" using m(2) by (simp add: word_unat_eq_iff unat_of_nat_u64)
  have b: "bytes_at (cmem s) p 4 = bytes32 ?w" "bytes_at (cmem s) ?p (length m) = m"
    using m(1) unfolding bytes_at_append by (simp_all add: append_eq_append_conv)
  have rd: "readUint32 s p = (?w, ?p)" using load32_bytes [OF b(1)] by (simp add: readUint32_def)
  let ?a = "ncPrint s (str_bytes ''  Will copy module at 0x'')"
  obtain s1 where s1: "ncPrintHex ?a ?p = Some s1" "prints 16 ?a s1" using prints_hex by blast
  let ?b = "ncPrint s1 (str_bytes '' to 0x'')"
  obtain s2 where s2: "ncPrintHex ?b t = Some s2" "prints 16 ?b s2" using prints_hex by blast
  let ?c = "ncPrint s2 (str_bytes '' ('')"
  obtain s3 where s3: "ncPrintDec ?c (ucast ?w) = Some s3" "prints 20 ?c s3" using prints_dec by blast
  let ?d = "ncPrint s3 (str_bytes '' bytes)'')"
  have pr: "prints 24 s ?a" "prints 6 s1 ?b" "prints 2 s2 ?c" "prints 7 s3 ?d"
    by (rule prints_ncPrint; simp add: str_bytes_def)+
  have "prints (24 + 16 + 6 + 16 + 2 + 20 + 7) s ?d"
    by (rule prints_trans pr s1(2) s2(2) s3(2))+
  then have d: "prints 91 s ?d" by simp
  obtain n1 where n1: "n1 \<le> n + 91" "at_cell ?d n1" "\<And>a. unat a \<notin> cells K \<Longrightarrow> cmem ?d a = cmem s a"
    using prints_frame [OF assms(1) d _ assms(3)] assms(2) by auto
  let ?e = "?d\<lparr>cmem := memcpy (cmem ?d) t ?p (ucast ?w)\<rparr>"
  have e: "at_cell ?e n1" using n1(2) by (simp add: at_cell_def)
  let ?f = "ncPrint ?e (str_bytes '' [Done]'')"
  have f: "prints 7 ?e ?f" by (rule prints_ncPrint) (simp add: str_bytes_def)
  obtain n2 where n2: "n2 \<le> n1 + 7" "at_cell ?f n2"
    using prints_frame [OF e f _ assms(3)] n1(1) assms(2) by auto
  obtain s' where s': "ncNewline ?f = Some s'" "prints 80 ?f s'"
    using prints_newline [OF n2(2)] n1(1) n2(1) assms(2,3) by auto
  have "prints (7 + 80) ?e s'" by (rule prints_trans [OF f s'(2)])
  from prints_frame [OF e this _ assms(3)] obtain n3 where
    n3: "n3 \<le> n1 + 87" "at_cell s' n3" "\<And>a. unat a \<notin> cells K \<Longrightarrow> cmem s' a = cmem ?e a"
    using n1(1) assms(2) by auto
  have pp: "unat ?p = unat p + 4" using p(1) unat_plus_no_wrap [of p 4] by simp
  then have sub: "span ?p (length m) \<subseteq> span p (4 + length m)" by (auto simp: span_def)
  note cp = memcpy_disjoint [where s = ?p and m = "cmem ?d", OF p(2) _ _ w64]
  have c: "bytes_at (cmem ?e) t (length m) = bytes_at (cmem ?d) ?p (length m)"
    "\<And>x. unat x \<notin> span t (length m) \<Longrightarrow> cmem ?e x = cmem ?d x"
    using cp pp p(1) sub apart(2) by auto
  have in_span: "unat (a + of_nat i) \<in> span a k" if "unat a + k \<le> 2 ^ 64" "i < k" for a :: ptr and i k
    using span_addr [OF that] by simp
  have "bytes_at (cmem s') t (length m) = bytes_at (cmem ?e) t (length m)"
    using in_span [OF p(2)] apart(3) by (intro bytes_at_cong n3(3)) blast
  also have "\<dots> = bytes_at (cmem s) ?p (length m)" unfolding c(1)
    using in_span [of ?p "length m"] pp p(1) sub apart(1) by (intro bytes_at_cong n1(3)) auto
  finally have t: "bytes_at (cmem s') t (length m) = m" using b(2) by simp
  have "loadModule s p t = Some (s', p + of_nat (4 + length m))"
    using s1(1) s2(1) s3(1) s'(1) rd by (simp add: loadModule_def uw ac_simps)
  moreover have "n3 \<le> n + 200" using n1(1) n3(1) by simp
  moreover have "cmem s' a = cmem s a" if "unat a \<notin> cells K" "unat a \<notin> span t (length m)" for a
    using n3(3) n1(3) c(2) that by simp
  ultimately show ?thesis using that n3(2) t by blast
qed

text \<open>
  Targets that fit into memory, meet neither each other nor the bytes in \<open>busy\<close>, each with the content of
  its module.
\<close>

definition placed :: "nat set \<Rightarrow> (ptr \<times> u8 list) list \<Rightarrow> bool" where
  "placed busy tms \<longleftrightarrow>
     (\<forall>(t, m) \<in> set tms. length m < 2 ^ 32 \<and> unat t + length m \<le> 2 ^ 64 \<and> span t (length m) \<inter> busy = {}) \<and>
     sorted_wrt (\<lambda>(t, m) (t', m'). span t (length m) \<inter> span t' (length m') = {}) tms"

lemma placed_Cons:
  "placed busy ((t, m) # tms) \<longleftrightarrow>
     length m < 2 ^ 32 \<and> unat t + length m \<le> 2 ^ 64 \<and> span t (length m) \<inter> busy = {} \<and>
     (\<forall>(t', m') \<in> set tms. span t (length m) \<inter> span t' (length m') = {}) \<and> placed busy tms"
  by (auto simp: placed_def)

lemma placed_mono: "busy' \<subseteq> busy \<Longrightarrow> placed busy tms \<Longrightarrow> placed busy' tms"
  by (fastforce simp: placed_def)

lemma packed_Cons: "packed (m # ms) = (bytes32 (of_nat (length m)) @ m) @ packed ms"
  by (simp add: packed_def)

lemma span_sub: "unat p + i < 2 ^ 64 \<Longrightarrow> span (p + of_nat i) j \<subseteq> span p (i + j)"
  using unat_plus_no_wrap [of p "of_nat i"] unat_of_nat_u64 [of i] by (auto simp: span_def)

lemma span_mono: "i \<le> j \<Longrightarrow> span p i \<subseteq> span p j"
  by (auto simp: span_def)

lemma bytes_at_outside:
  assumes "\<And>a. unat a \<in> span t n \<Longrightarrow> m' a = m a" "unat t + n \<le> 2 ^ 64"
  shows "bytes_at m' t n = bytes_at m t n"
  using span_addr [OF assms(2)] by (intro bytes_at_cong assms(1)) auto

lemma load_loop_spec:
  assumes "at_cell s n" "n + 200 * length tms \<le> K" "K \<le> 2 ^ 60"
    and "bytes_at (cmem s) p (length (packed (map snd tms))) = packed (map snd tms)"
    and "unat p + length (packed (map snd tms)) < 2 ^ 64"
    and "span p (length (packed (map snd tms))) \<inter> cells K = {}"
    and "placed (span p (length (packed (map snd tms))) \<union> cells K) tms"
  shows "\<exists>s' n'. load_loop s p (map fst tms @ rest) (length tms) = Some s' \<and> at_cell s' n' \<and> n' \<le> n + 200 * length tms \<and>
    (\<forall>(t, m) \<in> set tms. bytes_at (cmem s') t (length m) = m) \<and>
    (\<forall>a. unat a \<notin> cells K \<longrightarrow> (\<forall>(t, m) \<in> set tms. unat a \<notin> span t (length m)) \<longrightarrow> cmem s' a = cmem s a)"
  using assms
proof (induction tms arbitrary: s n p)
  case (Cons tm tms)
  obtain t m where tm: "tm = (t, m)" by (cases tm)
  let ?i = "4 + length m" and ?r = "packed (map snd tms)" and ?p = "p + of_nat (4 + length m)"
  have len: "length (packed (map snd (tm # tms))) = ?i + length ?r" by (simp add: packed_Cons tm)
  have "bytes_at (cmem s) p ?i @ bytes_at (cmem s) ?p (length ?r) = (bytes32 (of_nat (length m)) @ m) @ ?r"
    using Cons.prems(4) unfolding len bytes_at_append [of _ _ ?i] by (simp add: packed_Cons tm)
  then have b: "bytes_at (cmem s) p ?i = bytes32 (of_nat (length m)) @ m" "bytes_at (cmem s) ?p (length ?r) = ?r"
    by (subst (asm) append_eq_append_conv; simp del: of_nat_add)+
  note bound = Cons.prems(5) [unfolded len] and cl = Cons.prems(6) [unfolded len]
  note pl = Cons.prems(7) [unfolded len, unfolded tm placed_Cons]
  have sub: "span p ?i \<subseteq> span p (?i + length ?r)" "span ?p (length ?r) \<subseteq> span p (?i + length ?r)"
    using bound span_sub [of p ?i "length ?r"] by (simp_all add: span_mono)
  obtain s1 n1 where s1: "loadModule s p t = Some (s1, ?p)" "at_cell s1 n1" "n1 \<le> n + 200"
    "bytes_at (cmem s1) t (length m) = m"
    "\<And>a. unat a \<notin> cells K \<Longrightarrow> unat a \<notin> span t (length m) \<Longrightarrow> cmem s1 a = cmem s a"
    by (rule loadModule_spec [OF Cons.prems(1) _ Cons.prems(3) b(1)]) (use Cons.prems(2) bound cl pl sub in auto)
  have up: "unat ?p + length ?r < 2 ^ 64"
    using bound unat_plus_no_wrap [of p "of_nat ?i"] unat_of_nat_u64 [of ?i] by simp
  have "cmem s1 a = cmem s a" if "unat a \<in> span ?p (length ?r)" for a
    using that sub(2) cl pl by (intro s1(5)) blast+
  then have b1: "bytes_at (cmem s1) ?p (length ?r) = ?r"
    using bytes_at_outside [of ?p "length ?r" "cmem s1" "cmem s"] up b(2) by simp
  have pl1: "placed (span ?p (length ?r) \<union> cells K) tms"
    by (rule placed_mono [of _ "span p (?i + length ?r) \<union> cells K"]) (use sub(2) pl in auto)
  obtain s' n' where s': "load_loop s1 ?p (map fst tms @ rest) (length tms) = Some s'"
    "\<forall>(t, m) \<in> set tms. bytes_at (cmem s') t (length m) = m"
    "\<And>a. unat a \<notin> cells K \<Longrightarrow> \<forall>(t, m) \<in> set tms. unat a \<notin> span t (length m) \<Longrightarrow> cmem s' a = cmem s1 a"
    "at_cell s' n'" "n' \<le> n1 + 200 * length tms"
    using Cons.IH [OF s1(2) _ Cons.prems(3) b1 up _ pl1] Cons.prems(2) s1(3) sub(2) cl by auto
  have "cmem s' a = cmem s1 a" if "unat a \<in> span t (length m)" for a
    using that pl by (intro s'(3)) (fast, blast)
  then have "bytes_at (cmem s') t (length m) = m"
    using bytes_at_outside [of t "length m" "cmem s'" "cmem s1"] pl s1(4) by simp
  moreover have "cmem s' a = cmem s a"
    if "unat a \<notin> cells K" "\<forall>(t, m) \<in> set (tm # tms). unat a \<notin> span t (length m)" for a
    using s1(5) s'(3) that unfolding tm by simp
  ultimately show ?case using s1(1,3) s'(1,2,4,5) unfolding tm by (intro exI [of _ s'] exI [of _ n']) auto
qed auto

section \<open>Properties\<close>

lemma buildImage_spec:
  assumes "those (map fs names) = Some (kfile # ms)" "creates output" "output \<notin> set names"
  shows "buildImage fs creates names output =
    Some (True, Some (output, kfile @ bytes32 (of_nat (length ms)) @ packed ms))"
proof -
  have "output \<notin> set (tl names)" using assms(3) by (cases names) auto
  moreover have "map (fs(output \<mapsto> [])) names = map fs names" using assms(3) by (auto intro: map_cong)
  ultimately show ?thesis
    using assms(1,2) by (simp only: buildImage_def) (simp add: write_modules_spec write_file_spec)
qed

text \<open>With its own kernel file as the output, the packer loses the kernel: the image starts with the count.\<close>

lemma buildImage_over_kernel:
  assumes "those (map fs names) = Some (kfile # ms)" "creates (hd names)" "hd names \<notin> set (tl names)"
  shows "buildImage fs creates names (hd names) = Some (True, Some (hd names, bytes32 (of_nat (length ms)) @ packed ms))"
proof -
  obtain k ns where names: "names = k # ns" using assms(1) by (cases names) auto
  then have "those (map fs ns) = Some ms" using assms(1) by (auto split: option.splits)
  moreover have "map (fs(k \<mapsto> [])) ns = map fs ns" using assms(3) names by (auto intro: map_cong)
  ultimately have "those (map (fs(k \<mapsto> [])) names) = Some ([] # ms)" unfolding names list.map by (simp only:) simp
  then show ?thesis
    using assms(2,3) unfolding names by (simp only: buildImage_def list.sel) (simp add: write_modules_spec write_file_spec)
qed

lemma checkFiles_those: "checkFiles fs names \<longleftrightarrow> (\<exists>contents. those (map fs names) = Some contents)"
  by (induction names) (auto split: option.splits)

text \<open>The keys of a command line with an output file and other names.\<close>

definition command_line :: "filename \<Rightarrow> filename list \<Rightarrow> argp_key list" where
  "command_line output names =
     Key_output output # map (\<lambda>i. Key_arg i (names ! i)) [0..<length names] @ [Key_end (length names)]"

lemma argp_run_names:
  assumes "i \<le> length names" "length names \<le> length (arg_files a)" "names \<noteq> []"
    and "take i (arg_files a) = map Some (take i names)"
  shows "\<exists>a'. argp_run (map (\<lambda>i. Key_arg i (names ! i)) [i..<length names] @ [Key_end (length names)]) a = Parsed a' \<and>
    take (length names) (arg_files a') = map Some names \<and> arg_count a' = length names \<and> output_file a' = output_file a"
  using assms
proof (induction "length names - i" arbitrary: i a)
  case 0
  then have "[i..<length names] = []" by simp
  with 0 show ?case by (cases names) simp_all
next
  case (Suc d)
  let ?a = "a\<lparr>arg_files := (arg_files a)[i := Some (names ! i)]\<rparr>"
  have i: "i < length names" "i < length (arg_files a)" using Suc.hyps(2) Suc.prems(2) by simp_all
  then have "take (Suc i) (arg_files ?a) = map Some (take (Suc i) names)"
    using Suc.prems(4) by (simp add: take_Suc_conv_app_nth)
  then have "\<exists>a'. argp_run (map (\<lambda>i. Key_arg i (names ! i)) [Suc i..<length names] @ [Key_end (length names)]) ?a = Parsed a' \<and>
    take (length names) (arg_files a') = map Some names \<and> arg_count a' = length names \<and> output_file a' = output_file ?a"
    using Suc.hyps(2) Suc.prems(2,3) i by (intro Suc.hyps(1)) simp_all
  then show ?case using i by (simp add: upt_conv_Cons)
qed

lemma those_map_Some: "those (map Some xs) = Some xs"
  by (induction xs) simp_all

lemma those_lengths: "those xs = Some ys \<Longrightarrow> length xs = length ys"
  by (induction xs arbitrary: ys) (auto split: option.splits)

lemma packer_main_spec:
  assumes "those (map fs names) = Some (kfile # ms)" "length names \<le> MAX_FILES" "creates output" "output \<notin> set names"
  shows "packer_main fs creates (command_line output names) =
    Some (0, Some (output, kfile @ bytes32 (of_nat (length ms)) @ packed ms))"
proof -
  let ?a = "\<lparr>arg_files = replicate MAX_FILES None, output_file = output, arg_count = 0\<rparr>"
  have "names \<noteq> []" using assms(1) by auto
  then obtain a where a: "argp_run (map (\<lambda>i. Key_arg i (names ! i)) [0..<length names] @ [Key_end (length names)]) ?a = Parsed a"
    "take (length names) (arg_files a) = map Some names" "arg_count a = length names" "output_file a = output"
    using argp_run_names [of 0 names ?a] assms(2) by auto
  then show ?thesis
    using assms(1-3) checkFiles_those [of fs names] buildImage_spec [where creates = creates, OF assms(1,3,4)]
    by (simp add: packer_main_def command_line_def those_map_Some)
qed

text \<open>The loader on a memory that holds the number of modules and the packed modules.\<close>

lemma loadModules_spec:
  assumes "length ms < 2 ^ 31" "length ms \<le> length targets" "at_cell s n" "n + 200 * length ms \<le> K" "K \<le> 2 ^ 60"
    and "bytes_at (cmem s) p (4 + length (packed ms)) = bytes32 (of_nat (length ms)) @ packed ms"
    and "unat p + (4 + length (packed ms)) < 2 ^ 64" "span p (4 + length (packed ms)) \<inter> cells K = {}"
    and "placed (span p (4 + length (packed ms)) \<union> cells K) (zip targets ms)"
  shows "\<exists>s' n'. loadModules s p targets = Some s' \<and> at_cell s' n' \<and> n' \<le> n + 200 * length ms \<and>
    (\<forall>i < length ms. bytes_at (cmem s') (targets ! i) (length (ms ! i)) = ms ! i) \<and>
    (\<forall>a. unat a \<notin> cells K \<longrightarrow> (\<forall>i < length ms. unat a \<notin> span (targets ! i) (length (ms ! i))) \<longrightarrow>
       cmem s' a = cmem s a)"
proof -
  let ?c = "of_nat (length ms) :: u32" and ?p = "p + 4" and ?tms = "zip targets ms" and ?n = "4 + length (packed ms)"
  have b: "bytes_at (cmem s) p 4 = bytes32 ?c" "bytes_at (cmem s) (p + of_nat 4) (length (packed ms)) = packed ms"
    using assms(6) unfolding bytes_at_append by (subst (asm) append_eq_append_conv; simp)+
  have sub: "span ?p (length (packed ms)) \<subseteq> span p ?n"
    using assms(7) span_sub [of p 4] by simp
  have z: "map snd ?tms = ms" "map fst ?tms @ drop (length ms) targets = targets" "length ?tms = length ms"
    using assms(2) by (simp_all add: map_fst_zip_take map_snd_zip_take)
  have up: "unat ?p + length (packed ms) < 2 ^ 64"
    using assms(7) unat_plus_no_wrap [of p 4] by simp
  have pl: "placed (span ?p (length (packed ms)) \<union> cells K) ?tms"
    by (rule placed_mono [of _ "span p ?n \<union> cells K"]) (use sub assms(9) in auto)
  obtain s' n' where s': "load_loop s ?p targets (length ms) = Some s'" "at_cell s' n'" "n' \<le> n + 200 * length ms"
    "\<forall>(t, m) \<in> set ?tms. bytes_at (cmem s') t (length m) = m"
    "\<And>a. unat a \<notin> cells K \<Longrightarrow> \<forall>(t, m) \<in> set ?tms. unat a \<notin> span t (length m) \<Longrightarrow> cmem s' a = cmem s a"
    using load_loop_spec [of s n ?tms K ?p "drop (length ms) targets", unfolded z] assms(3-5,8) b(2) up pl sub
    by auto
  have at: "(targets ! i, ms ! i) \<in> set ?tms" if "i < length ms" for i
    using that assms(2) by (auto simp: in_set_zip intro!: exI [of _ i])
  have "unat ?c = length ms" using assms(1) by (simp add: unat_of_nat)
  then have load: "loadModules s p targets = Some s'"
    using s'(1) load32_bytes [OF b(1)] by (simp add: loadModules_def readUint32_def)
  have "\<forall>i < length ms. bytes_at (cmem s') (targets ! i) (length (ms ! i)) = ms ! i"
    using s'(4) at by fast
  moreover have "cmem s' a = cmem s a"
    if "unat a \<notin> cells K" "\<forall>i < length ms. unat a \<notin> span (targets ! i) (length (ms ! i))" for a
    using that by (intro s'(5)) (auto simp: in_set_zip)
  ultimately show ?thesis using s'(2,3) load by auto
qed

text \<open>
  C11: what the module packer builds, the kernel's loader unpacks. For a command line with a kernel file and up
  to 127 modules that can be read, none of them the output file (which is emptied before they are read), the packer exits with 0 and writes an image that starts with the kernel;
  wherever the rest of the image stands in memory, \<open>loadModules\<close> returns with the bytes of every module at
  its address, and has changed no byte but these and the console cells it printed to, as long as those
  areas are apart.
\<close>

theorem modules_roundtrip:
  assumes "those (map fs names) = Some (kfile # ms)" "length names \<le> MAX_FILES" "creates output"
    and "output \<notin> set names" "length ms \<le> length targets"
    and "at_cell s n" "n + 200 * length ms \<le> K" "K \<le> 2 ^ 60"
    and "\<And>img. packer_main fs creates (command_line output names) = Some (0, Some (output, img)) \<Longrightarrow>
      bytes_at (cmem s) payloadStart (length img - length kfile) = drop (length kfile) img \<and>
      unat payloadStart + (length img - length kfile) < 2 ^ 64 \<and>
      span payloadStart (length img - length kfile) \<inter> cells K = {} \<and>
      placed (span payloadStart (length img - length kfile) \<union> cells K) (zip targets ms)"
  shows "\<exists>img s'. packer_main fs creates (command_line output names) = Some (0, Some (output, img)) \<and>
    take (length kfile) img = kfile \<and>
    loadModules s payloadStart targets = Some s' \<and>
    (\<forall>i < length ms. bytes_at (cmem s') (targets ! i) (length (ms ! i)) = ms ! i) \<and>
    (\<forall>a. unat a \<notin> cells K \<longrightarrow> (\<forall>i < length ms. unat a \<notin> span (targets ! i) (length (ms ! i))) \<longrightarrow>
       cmem s' a = cmem s a)"
proof -
  let ?img = "kfile @ bytes32 (of_nat (length ms)) @ packed ms"
  have img: "packer_main fs creates (command_line output names) = Some (0, Some (output, ?img))"
    using packer_main_spec [where creates = creates, OF assms(1-4)] .
  have size: "length ?img - length kfile = 4 + length (packed ms)" by simp
  have "length names = length (kfile # ms)" using those_lengths [OF assms(1)] by simp
  then have "length ms < 2 ^ 31" using assms(2) by (simp add: MAX_FILES_def)
  then show ?thesis
    using loadModules_spec [OF _ assms(5-8), of payloadStart] assms(9) [OF img, unfolded size] img by auto
qed

definition image_at :: "ptr \<Rightarrow> u8 list \<Rightarrow> mem" where
  "image_at p bs = (\<lambda>a. if unat (a - p) < length bs then bs ! unat (a - p) else 0)"

lemma bytes_at_image: "length bs \<le> 2 ^ 64 \<Longrightarrow> bytes_at (image_at p bs) p (length bs) = bs"
  by (rule nth_equalityI) (simp_all add: bytes_at_def image_at_def unat_of_nat_u64)

definition sample_files :: "filename \<Rightarrow> u8 list option" where
  "sample_files = map_of [(''kernel.bin'', [1, 2]), (''code.bin'', [7, 8, 9]), (''data.bin'', [5])]"

definition sample_console :: console where
  "sample_console = boot_console\<lparr>cmem := image_at 0x200000 [2, 0, 0, 0, 3, 0, 0, 0, 7, 8, 9, 1, 0, 0, 0, 5]\<rparr>"

theorem modules_roundtrip_witness:
  "\<exists>s'. loadModules sample_console 0x200000 [0x400000, 0x500000] = Some s' \<and>
     bytes_at (cmem s') 0x400000 3 = [7, 8, 9] \<and> bytes_at (cmem s') 0x500000 1 = [5]"
proof -
  let ?names = "[''kernel.bin'', ''code.bin'', ''data.bin'']"
  let ?payload = "[2, 0, 0, 0, 3, 0, 0, 0, 7, 8, 9, 1, 0, 0, 0, 5] :: u8 list"
  have files: "those (map sample_files ?names) = Some ([1, 2] # [[7, 8, 9], [5]])"
    by (simp add: sample_files_def)
  have n: "length ?names \<le> MAX_FILES" by (simp add: MAX_FILES_def)
  have out: "OUTPUT_FILE \<notin> set ?names" by (simp add: OUTPUT_FILE_def)
  have img: "packer_main sample_files (\<lambda>f. True) (command_line OUTPUT_FILE ?names) = Some (0, Some (OUTPUT_FILE, [1, 2] @ ?payload))"
    using packer_main_spec [OF files n, of "\<lambda>f. True", OF TrueI out] by (simp add: packed_def bytes32_def)
  have mem: "bytes_at (cmem sample_console) 0x200000 (length ?payload) = ?payload"
    using bytes_at_image [of ?payload "0x200000"] by (simp add: sample_console_def)
  have at: "at_cell sample_console 0"
    using boot_console_at by (simp add: sample_console_def at_cell_def)
  have "placed (span 0x200000 (length ?payload) \<union> cells 400) (zip [0x400000, 0x500000] [[7, 8, 9], [5]])"
    by (auto simp: placed_def span_def cells_def)
  moreover have "span 0x200000 (length ?payload) \<inter> cells 400 = {}" by (auto simp: span_def cells_def)
  ultimately obtain s' where s': "loadModules sample_console 0x200000 [0x400000, 0x500000] = Some s'"
    "\<And>i. i < length [[7, 8, 9], [5 :: u8]] \<Longrightarrow>
       bytes_at (cmem s') ([0x400000, 0x500000] ! i) (length ([[7, 8, 9], [5 :: u8]] ! i)) = [[7, 8, 9], [5]] ! i"
    using modules_roundtrip [OF files n TrueI out _ at, of "[0x400000, 0x500000]" 400 "0x200000"] img mem by auto
  from s'(2) [of 0] s'(2) [of 1] s'(1) show ?thesis by (simp add: numeral_3_eq_3)
qed

end
