(* ===== verification/Boot.thy ===== *)
theory Boot
  imports Loader
begin

text \<open>
  The start of the kernel's binary, \<open>kernel.c\<close> before its \<open>main\<close>: the modules that stand behind the kernel are
  copied to their places, the uninitialised data of the kernel is cleared, and the progress is reported on the
  boot console. The addresses the linker chooses are a record. The name of the processor's vendor, which an
  assembly routine reads, is an argument.
\<close>

section \<open>Operations\<close>

record kernel_image =
  text_start :: ptr
  rodata_start :: ptr
  data_start :: ptr
  bss_start :: ptr
  endOfKernelBinary :: ptr
  endOfKernel :: ptr

definition PageSize :: u64 where
  "PageSize = 0x1000"

definition codeModuleAddress :: ptr where
  "codeModuleAddress = 0x400000"

definition dataModuleAddress :: ptr where
  "dataModuleAddress = 0x500000"

definition clearBSS :: "console \<Rightarrow> ptr \<Rightarrow> u64 \<Rightarrow> console" where
  "clearBSS s bssAddress bssSize = s\<lparr>cmem := memset (cmem s) bssAddress 0 bssSize\<rparr>"

definition getStackBase :: "kernel_image \<Rightarrow> ptr" where
  "getStackBase k = endOfKernel k + PageSize * 8 - 8"

definition initializeKernelBinary :: "kernel_image \<Rightarrow> u8 list \<Rightarrow> console \<Rightarrow> (console \<times> ptr) option" where
  "initializeKernelBinary k cpuVendor s =
     do {
       s \<leftarrow> ncNewline (ncPrint s (str_bytes ''[x64BareBones]''));
       s \<leftarrow> ncNewline (ncPrint (ncPrint s (str_bytes ''CPU Vendor:'')) cpuVendor);
       s \<leftarrow> ncNewline (ncPrint s (str_bytes ''[Loading modules]''));
       s \<leftarrow> loadModules s (endOfKernelBinary k) [codeModuleAddress, dataModuleAddress];
       s \<leftarrow> ncNewline (ncPrint s (str_bytes ''[Done]''));
       s \<leftarrow> ncNewline s;
       s \<leftarrow> ncNewline (ncPrint s (str_bytes ''[Initializing kernel'' @ [39] @ str_bytes ''s binary]''));
       let s = clearBSS s (bss_start k) (endOfKernel k - bss_start k);
       s \<leftarrow> ncPrintHex (ncPrint s (str_bytes ''  text: 0x'')) (text_start k);
       s \<leftarrow> ncNewline s;
       s \<leftarrow> ncPrintHex (ncPrint s (str_bytes ''  rodata: 0x'')) (rodata_start k);
       s \<leftarrow> ncNewline s;
       s \<leftarrow> ncPrintHex (ncPrint s (str_bytes ''  data: 0x'')) (data_start k);
       s \<leftarrow> ncNewline s;
       s \<leftarrow> ncPrintHex (ncPrint s (str_bytes ''  bss: 0x'')) (bss_start k);
       s \<leftarrow> ncNewline s;
       s \<leftarrow> ncNewline (ncPrint s (str_bytes ''[Done]''));
       s \<leftarrow> ncNewline s;
       Some (s, getStackBase k)
     }"

section \<open>The start of a module\<close>

text \<open>
  The user program starts in \<open>_loader.c\<close>, which clears its own uninitialised data with a \<open>memset\<close> of the same
  text as the kernel's. The two addresses are the linker's.
\<close>

definition user_memset :: "mem \<Rightarrow> ptr \<Rightarrow> u32 \<Rightarrow> u64 \<Rightarrow> mem" where
  "user_memset m destiation c len = memset_loop m destiation (ucast c) (unat len)"

definition start_binary :: "mem \<Rightarrow> ptr \<Rightarrow> ptr \<Rightarrow> mem" where
  "start_binary m bss endOfBinary = user_memset m bss 0 (endOfBinary - bss)"

lemma start_clears: "start_binary m bss endOfBinary a = (if a \<in> region bss (unat (endOfBinary - bss)) then 0 else m a)"
  by (simp add: start_binary_def user_memset_def memset_loop_at)

section \<open>A run of prints\<close>

text \<open>
  The console stands at one of the first \<open>n\<close> cells, and since the state \<open>s0\<close> only console cells below \<open>K\<close> have
  changed.
\<close>

definition printed :: "nat \<Rightarrow> console \<Rightarrow> nat \<Rightarrow> console \<Rightarrow> bool" where
  "printed K s0 n s \<longleftrightarrow> (\<exists>m \<le> n. at_cell s m) \<and> (\<forall>a. unat a \<notin> cells K \<longrightarrow> cmem s a = cmem s0 a)"

lemma printed_start: "at_cell s n \<Longrightarrow> printed K s n s"
  by (auto simp: printed_def)

lemma printed_step:
  assumes "printed K s0 n s" "prints k s s'" "n + k \<le> K" "K \<le> 2 ^ 60"
  shows "printed K s0 (n + k) s'"
proof -
  obtain m where m: "m \<le> n" "at_cell s m" using assms(1) by (auto simp: printed_def)
  from prints_frame [OF m(2) assms(2) _ assms(4)] obtain m' where
    "m' \<le> m + k" "at_cell s' m'" "\<forall>a. unat a \<notin> cells K \<longrightarrow> cmem s' a = cmem s a" using m(1) assms(3) by auto
  then show ?thesis using assms(1) m(1) by (auto simp: printed_def intro!: exI [of _ m'])
qed

lemma printed_mono: "printed K s0 n s \<Longrightarrow> n \<le> m \<Longrightarrow> printed K s0 m s"
  by (auto simp: printed_def intro: order_trans)

text \<open>A part of the report that prints at most \<open>k\<close> cells, wherever it starts.\<close>

definition reports :: "nat \<Rightarrow> (console \<Rightarrow> console option) \<Rightarrow> bool" where
  "reports k f \<longleftrightarrow> (\<forall>K s0 n s. printed K s0 n s \<longrightarrow> n + k \<le> K \<longrightarrow> K \<le> 2 ^ 60 \<longrightarrow>
     (\<exists>s'. f s = Some s' \<and> printed K s0 (n + k) s'))"

lemma reports_run:
  assumes "reports k f" "printed K s0 n s" "n + k \<le> K" "K \<le> 2 ^ 60"
  shows "\<exists>s'. f s = Some s' \<and> printed K s0 (n + k) s'"
  using assms unfolding reports_def by blast

named_theorems report_intros "parts of the report"

lemma reports_bind [report_intros]: "reports k f \<Longrightarrow> reports l g \<Longrightarrow> reports (k + l) (\<lambda>s. Option.bind (f s) (\<lambda>s. g s))"
  unfolding reports_def
proof (intro allI impI)
  fix K s0 n s
  assume fg: "\<forall>K s0 n s. printed K s0 n s \<longrightarrow> n + k \<le> K \<longrightarrow> K \<le> 2 ^ 60 \<longrightarrow> (\<exists>s'. f s = Some s' \<and> printed K s0 (n + k) s')"
    "\<forall>K s0 n s. printed K s0 n s \<longrightarrow> n + l \<le> K \<longrightarrow> K \<le> 2 ^ 60 \<longrightarrow> (\<exists>s'. g s = Some s' \<and> printed K s0 (n + l) s')"
    and p: "printed K s0 n s" "n + (k + l) \<le> K" "K \<le> 2 ^ 60"
  have "n + k \<le> K" "n + k + l \<le> K" using p(2) by simp_all
  with fg(1) p obtain s' where s': "f s = Some s'" "printed K s0 (n + k) s'" by blast
  with fg(2) p(3) \<open>n + k + l \<le> K\<close> obtain s'' where "g s' = Some s''" "printed K s0 (n + k + l) s''" by blast
  with s'(1) show "\<exists>s'. Option.bind (f s) g = Some s' \<and> printed K s0 (n + (k + l)) s'" by (simp add: add.assoc)
qed

lemma reports_newline [report_intros]: "reports 80 (\<lambda>s. ncNewline s)"
  unfolding reports_def
proof (intro allI impI)
  fix K s0 n s assume p: "printed K s0 n s" and K: "n + 80 \<le> K" "K \<le> 2 ^ 60"
  obtain m where m: "m \<le> n" "at_cell s m" using p by (auto simp: printed_def)
  obtain s' where "ncNewline s = Some s'" "prints 80 s s'" using prints_newline [OF m(2)] m(1) K by auto
  then show "\<exists>s'. ncNewline s = Some s' \<and> printed K s0 (n + 80) s'" using printed_step [OF p _ K] by blast
qed

lemma reports_text: "reports k f \<Longrightarrow> reports (length str + k) (\<lambda>s. f (ncPrint s str))"
  unfolding reports_def
proof (intro allI impI)
  fix K s0 n s
  assume f: "\<forall>K s0 n s. printed K s0 n s \<longrightarrow> n + k \<le> K \<longrightarrow> K \<le> 2 ^ 60 \<longrightarrow> (\<exists>s'. f s = Some s' \<and> printed K s0 (n + k) s')"
    and p: "printed K s0 n s" "n + (length str + k) \<le> K" "K \<le> 2 ^ 60"
  have "printed K s0 (n + length str) (ncPrint s str)"
    using p by (intro printed_step [OF p(1) prints_ncPrint]) simp_all
  moreover have "n + length str + k \<le> K" using p(2) by simp
  ultimately show "\<exists>s'. f (ncPrint s str) = Some s' \<and> printed K s0 (n + (length str + k)) s'"
    using f p(3) unfolding add.assoc [symmetric] by blast
qed

lemma reports_hex [report_intros]: "reports (length str + 16) (\<lambda>s. ncPrintHex (ncPrint s str) v)"
proof (rule reports_text, unfold reports_def, intro allI impI)
  fix K s0 n s assume p: "printed K s0 n s" and K: "n + 16 \<le> K" "K \<le> 2 ^ 60"
  obtain s' where "ncPrintHex s v = Some s'" "prints 16 s s'" using prints_hex by blast
  then show "\<exists>s'. ncPrintHex s v = Some s' \<and> printed K s0 (n + 16) s'" using printed_step [OF p _ K] by blast
qed

lemmas reports_line [report_intros] = reports_text [OF reports_newline]
lemmas reports_two_texts [report_intros] = reports_text [OF reports_line]

lemma reports_le: "reports k f \<Longrightarrow> k \<le> l \<Longrightarrow> reports l f"
  unfolding reports_def
proof (intro allI impI)
  fix K s0 n s
  assume f: "\<forall>K s0 n s. printed K s0 n s \<longrightarrow> n + k \<le> K \<longrightarrow> K \<le> 2 ^ 60 \<longrightarrow> (\<exists>s'. f s = Some s' \<and> printed K s0 (n + k) s')"
    and p: "k \<le> l" "printed K s0 n s" "n + l \<le> K" "K \<le> 2 ^ 60"
  have "n + k \<le> K" "n + k \<le> n + l" using p(1,3) by simp_all
  with f p(2,4) show "\<exists>s'. f s = Some s' \<and> printed K s0 (n + l) s'" using printed_mono by blast
qed

section \<open>The binary at the start of main\<close>

text \<open>The three parts of the report, before and after the modules are loaded and after the data is cleared.\<close>

definition report_loading :: "u8 list \<Rightarrow> console \<Rightarrow> console option" where
  "report_loading cpuVendor s =
     do {
       s \<leftarrow> ncNewline (ncPrint s (str_bytes ''[x64BareBones]''));
       s \<leftarrow> ncNewline (ncPrint (ncPrint s (str_bytes ''CPU Vendor:'')) cpuVendor);
       ncNewline (ncPrint s (str_bytes ''[Loading modules]''))
     }"

definition report_loaded :: "console \<Rightarrow> console option" where
  "report_loaded s =
     do {
       s \<leftarrow> ncNewline (ncPrint s (str_bytes ''[Done]''));
       s \<leftarrow> ncNewline s;
       ncNewline (ncPrint s (str_bytes ''[Initializing kernel'' @ [39] @ str_bytes ''s binary]''))
     }"

definition report_sections :: "kernel_image \<Rightarrow> console \<Rightarrow> console option" where
  "report_sections k s =
     do {
       s \<leftarrow> ncPrintHex (ncPrint s (str_bytes ''  text: 0x'')) (text_start k);
       s \<leftarrow> ncNewline s;
       s \<leftarrow> ncPrintHex (ncPrint s (str_bytes ''  rodata: 0x'')) (rodata_start k);
       s \<leftarrow> ncNewline s;
       s \<leftarrow> ncPrintHex (ncPrint s (str_bytes ''  data: 0x'')) (data_start k);
       s \<leftarrow> ncNewline s;
       s \<leftarrow> ncPrintHex (ncPrint s (str_bytes ''  bss: 0x'')) (bss_start k);
       s \<leftarrow> ncNewline s;
       s \<leftarrow> ncNewline (ncPrint s (str_bytes ''[Done]''));
       ncNewline s
     }"

lemma reports_parts:
  "reports (282 + length cpuVendor) (report_loading cpuVendor)" "reports 276 report_loaded" "reports 600 (report_sections k)"
proof -
  show "reports (282 + length cpuVendor) (report_loading cpuVendor)"
    unfolding report_loading_def by (rule reports_le, (rule report_intros)+) (simp add: str_bytes_def)
  show "reports 276 report_loaded"
    unfolding report_loaded_def by (rule reports_le, (rule report_intros)+) (simp add: str_bytes_def)
  show "reports 600 (report_sections k)"
    unfolding report_sections_def by (rule reports_le, (rule report_intros)+) (simp add: str_bytes_def)
qed

lemma initializeKernelBinary_parts:
  "initializeKernelBinary k cpuVendor s =
     do {
       s \<leftarrow> report_loading cpuVendor s;
       s \<leftarrow> loadModules s (endOfKernelBinary k) [codeModuleAddress, dataModuleAddress];
       s \<leftarrow> report_loaded s;
       s \<leftarrow> report_sections k (clearBSS s (bss_start k) (endOfKernel k - bss_start k));
       Some (s, getStackBase k)
     }"
  by (simp add: initializeKernelBinary_def report_loading_def report_loaded_def report_sections_def Let_def)

lemma clearBSS_at:
  assumes "unat b \<le> unat e"
  shows "cmem (clearBSS s b (e - b)) a = (if unat a \<in> {unat b..<unat e} then 0 else cmem s a)"
proof -
  have "unat (a - b) < unat (e - b) \<longleftrightarrow> unat a \<in> {unat b..<unat e}"
    using assms unat_u64_less [of a] unat_u64_less [of b] unat_u64_less [of e]
    by (auto simp: unat_sub_if' split: if_splits)
  then show ?thesis by (simp add: clearBSS_def memset_at)
qed

lemma boot_loads:
  assumes "at_cell s n" "n + 2400 + length cpuVendor \<le> K" "K \<le> 2 ^ 60"
    and "let img = bytes32 2 @ packed [code, dat] in
      bytes_at (cmem s) (endOfKernelBinary k) (length img) = img \<and>
      unat (endOfKernelBinary k) + length img < 2 ^ 64 \<and> span (endOfKernelBinary k) (length img) \<inter> cells K = {} \<and>
      placed (span (endOfKernelBinary k) (length img) \<union> cells K \<union> {unat (bss_start k)..<unat (endOfKernel k)})
        [(codeModuleAddress, code), (dataModuleAddress, dat)]"
  obtains s1 s2 n2 where "report_loading cpuVendor s = Some s1"
    "loadModules s1 (endOfKernelBinary k) [codeModuleAddress, dataModuleAddress] = Some s2"
    "at_cell s2 n2" "n2 \<le> n + 682 + length cpuVendor"
    "bytes_at (cmem s2) codeModuleAddress (length code) = code" "bytes_at (cmem s2) dataModuleAddress (length dat) = dat"
    "\<And>a. unat a \<notin> cells K \<union> span codeModuleAddress (length code) \<union> span dataModuleAddress (length dat) \<Longrightarrow>
      cmem s2 a = cmem s a"
proof -
  let ?img = "bytes32 (of_nat (length [code, dat])) @ packed [code, dat]" and ?p = "endOfKernelBinary k"
  let ?bss = "{unat (bss_start k)..<unat (endOfKernel k)}"
  let ?ts = "[codeModuleAddress, dataModuleAddress]" and ?ms = "[code, dat]"
  have two: "of_nat (length ?ms) = (2 :: u32)" by simp
  have len: "4 + length (packed ?ms) = length ?img" by simp
  note mem = assms(4) [folded two, unfolded Let_def] and K = assms(3) and room = assms(2)
  have fits: "unat ?p + (4 + length (packed ?ms)) < 2 ^ 64" "span ?p (4 + length (packed ?ms)) \<inter> cells K = {}"
    using mem unfolding len by blast+
  obtain s1 where s1: "report_loading cpuVendor s = Some s1" "printed K s (n + (282 + length cpuVendor)) s1"
    using reports_run [OF reports_parts(1) [of cpuVendor] printed_start [OF assms(1)] _ K] room by auto
  then obtain n1 where n1: "n1 \<le> n + (282 + length cpuVendor)" "at_cell s1 n1"
    "\<And>a. unat a \<notin> cells K \<Longrightarrow> cmem s1 a = cmem s a" by (auto simp: printed_def)
  have "bytes_at (cmem s1) ?p (length ?img) = bytes_at (cmem s) ?p (length ?img)"
    using mem n1(3) by (intro bytes_at_outside) auto
  then have img: "bytes_at (cmem s1) ?p (4 + length (packed ?ms)) = ?img" using mem unfolding len by simp
  have pl: "placed (span ?p (4 + length (packed ?ms)) \<union> cells K) (zip ?ts ?ms)"
    unfolding len by (rule placed_mono [of _ "span ?p (length ?img) \<union> cells K \<union> ?bss"]) (use mem in auto)
  have "\<exists>s' n'. loadModules s1 ?p ?ts = Some s' \<and> at_cell s' n' \<and> n' \<le> n1 + 200 * length ?ms \<and>
      (\<forall>i < length ?ms. bytes_at (cmem s') (?ts ! i) (length (?ms ! i)) = ?ms ! i) \<and>
      (\<forall>a. unat a \<notin> cells K \<longrightarrow> (\<forall>i < length ?ms. unat a \<notin> span (?ts ! i) (length (?ms ! i))) \<longrightarrow> cmem s' a = cmem s1 a)"
    by (rule loadModules_spec [OF _ _ n1(2) _ K img fits pl]) (use n1(1) room in simp_all)
  then obtain s2 n2 where s2: "loadModules s1 ?p ?ts = Some s2" "at_cell s2 n2" "n2 \<le> n1 + 400"
    "bytes_at (cmem s2) codeModuleAddress (length code) = code" "bytes_at (cmem s2) dataModuleAddress (length dat) = dat"
    "\<And>a. unat a \<notin> cells K \<Longrightarrow> unat a \<notin> span codeModuleAddress (length code) \<Longrightarrow>
      unat a \<notin> span dataModuleAddress (length dat) \<Longrightarrow> cmem s2 a = cmem s1 a"
    by (auto simp: less_Suc_eq all_conj_distrib)
  have "n2 \<le> n + 682 + length cpuVendor" using n1(1) s2(3) by simp
  moreover have "cmem s2 a = cmem s a"
    if "unat a \<notin> cells K \<union> span codeModuleAddress (length code) \<union> span dataModuleAddress (length dat)" for a
    using that s2(6) [of a] n1(3) [of a] by simp
  ultimately show thesis using that [OF s1(1) s2(1,2)] s2(4,5) by blast
qed

text \<open>
  C10: the boot puts the image into place. If the kernel was packed with a code and a data module, the boot
  succeeds, answers the top of the kernel's stack, and leaves the modules at their addresses and the
  uninitialised data of the kernel all zero, although that may lie over the packed modules; of the rest of the
  memory only cells of the boot console have changed.
\<close>

theorem boot_places_modules:
  assumes "at_cell s n" "n + 2400 + length cpuVendor \<le> K" "K \<le> 2 ^ 60"
    and "let img = bytes32 2 @ packed [code, dat] in
      bytes_at (cmem s) (endOfKernelBinary k) (length img) = img \<and>
      unat (endOfKernelBinary k) + length img < 2 ^ 64 \<and> span (endOfKernelBinary k) (length img) \<inter> cells K = {} \<and>
      placed (span (endOfKernelBinary k) (length img) \<union> cells K \<union> {unat (bss_start k)..<unat (endOfKernel k)})
        [(codeModuleAddress, code), (dataModuleAddress, dat)]"
    and "unat (bss_start k) \<le> unat (endOfKernel k)" "{unat (bss_start k)..<unat (endOfKernel k)} \<inter> cells K = {}"
  shows "\<exists>s'. initializeKernelBinary k cpuVendor s = Some (s', getStackBase k) \<and>
    bytes_at (cmem s') codeModuleAddress (length code) = code \<and>
    bytes_at (cmem s') dataModuleAddress (length dat) = dat \<and>
    (\<forall>a. unat a \<in> {unat (bss_start k)..<unat (endOfKernel k)} \<longrightarrow> cmem s' a = 0) \<and>
    (\<forall>a. unat a \<notin> cells K \<union> span codeModuleAddress (length code) \<union> span dataModuleAddress (length dat) \<union>
        {unat (bss_start k)..<unat (endOfKernel k)} \<longrightarrow> cmem s' a = cmem s a)"
proof -
  let ?bss = "{unat (bss_start k)..<unat (endOfKernel k)}" and ?ts = "[codeModuleAddress, dataModuleAddress]"
  note K = assms(3) and room = assms(2)
  obtain s1 s2 n2 where s2: "report_loading cpuVendor s = Some s1" "loadModules s1 (endOfKernelBinary k) ?ts = Some s2"
    "at_cell s2 n2" "n2 \<le> n + 682 + length cpuVendor"
    "bytes_at (cmem s2) codeModuleAddress (length code) = code" "bytes_at (cmem s2) dataModuleAddress (length dat) = dat"
    "\<And>a. unat a \<notin> cells K \<union> span codeModuleAddress (length code) \<union> span dataModuleAddress (length dat) \<Longrightarrow>
      cmem s2 a = cmem s a"
    using boot_loads [OF assms(1-4)] by blast
  obtain s3 where s3: "report_loaded s2 = Some s3" "printed K s2 (n2 + 276) s3"
    using reports_run [OF reports_parts(2) printed_start [OF s2(3)] _ K] s2(4) room by auto
  let ?s3 = "clearBSS s3 (bss_start k) (endOfKernel k - bss_start k)"
  have "printed K ?s3 (n2 + 276) ?s3" using s3(2) by (auto simp: printed_def at_cell_def clearBSS_def)
  then obtain s' where s': "report_sections k ?s3 = Some s'" "printed K ?s3 (n2 + 276 + 600) s'"
    using reports_run [OF reports_parts(3) [of k] _ _ K, of ?s3 "n2 + 276"] s2(4) room by auto
  have run: "initializeKernelBinary k cpuVendor s = Some (s', getStackBase k)"
    using s2(1,2) s3(1) s'(1) by (simp add: initializeKernelBinary_parts)
  have last: "cmem s' a = (if unat a \<in> ?bss then 0 else cmem s2 a)" if "unat a \<notin> cells K" for a
    using that s'(2) s3(2) clearBSS_at [OF assms(5)] by (simp add: printed_def)
  have kept: "bytes_at (cmem s') t (length m) = bytes_at (cmem s2) t (length m)" if "(t, m) \<in> set (zip ?ts [code, dat])" for t m
  proof (rule bytes_at_outside)
    show "unat t + length m \<le> 2 ^ 64" using that assms(4) by (auto simp: placed_def Let_def)
    have "span t (length m) \<inter> (cells K \<union> ?bss) = {}" using that assms(4) by (auto simp: placed_def Let_def)
    then have out: "unat a \<notin> cells K \<and> unat a \<notin> ?bss" if "unat a \<in> span t (length m)" for a using that by blast
    show "cmem s' a = cmem s2 a" if "unat a \<in> span t (length m)" for a using out [OF that] last [of a] by auto
  qed
  have "cmem s' a = 0" if "unat a \<in> ?bss" for a
  proof -
    have "unat a \<notin> cells K" using that assms(6) by blast
    then show ?thesis using that last [of a] by simp
  qed
  moreover have "cmem s' a = cmem s a"
    if "unat a \<notin> cells K \<union> span codeModuleAddress (length code) \<union> span dataModuleAddress (length dat) \<union> ?bss" for a
    using that last [of a] s2(7) [of a] by auto
  ultimately show ?thesis using run kept [of codeModuleAddress code] kept [of dataModuleAddress dat] s2(5,6) by simp
qed

definition sample_image :: kernel_image where
  "sample_image = \<lparr>text_start = 0x100000, rodata_start = 0x108000, data_start = 0x109000, bss_start = 0x10A000,
     endOfKernelBinary = 0x109800, endOfKernel = 0x10C000\<rparr>"

text \<open>The packed modules are long enough to reach into the uninitialised data.\<close>

theorem boot_places_modules_witness:
  "\<exists>s'. initializeKernelBinary sample_image (str_bytes ''GenuineIntel'')
       (boot_console\<lparr>cmem := image_at 0x109800 (bytes32 2 @ packed [replicate 3000 7, [5]])\<rparr>) =
       Some (s', 0x113FF8) \<and>
     bytes_at (cmem s') 0x400000 3000 = replicate 3000 7 \<and> cmem s' 0x10A000 = 0"
proof -
  let ?code = "replicate 3000 (7 :: u8)" and ?dat = "[5 :: u8]" and ?v = "str_bytes ''GenuineIntel''"
  let ?img = "bytes32 2 @ packed [?code, ?dat]"
  let ?s = "boot_console\<lparr>cmem := image_at 0x109800 ?img\<rparr>"
  have len: "length ?img = 3013" by (simp add: packed_def)
  have at: "at_cell ?s 0" using boot_console_at by (simp add: at_cell_def)
  have room: "0 + 2400 + length ?v \<le> 3000" by (simp add: str_bytes_def)
  have img: "bytes_at (cmem ?s) 0x109800 (length ?img) = ?img"
    using bytes_at_image [of ?img "0x109800"] len by simp
  have "let img = ?img in
      bytes_at (cmem ?s) (endOfKernelBinary sample_image) (length img) = img \<and>
      unat (endOfKernelBinary sample_image) + length img < 2 ^ 64 \<and>
      span (endOfKernelBinary sample_image) (length img) \<inter> cells 3000 = {} \<and>
      placed (span (endOfKernelBinary sample_image) (length img) \<union> cells 3000 \<union>
          {unat (bss_start sample_image)..<unat (endOfKernel sample_image)})
        [(codeModuleAddress, ?code), (dataModuleAddress, ?dat)]"
    unfolding Let_def len using img [unfolded len]
    by (auto simp: sample_image_def placed_def span_def cells_def codeModuleAddress_def dataModuleAddress_def)
  moreover have "unat (bss_start sample_image) \<le> unat (endOfKernel sample_image)"
    "{unat (bss_start sample_image)..<unat (endOfKernel sample_image)} \<inter> cells 3000 = {}"
    by (auto simp: sample_image_def cells_def)
  moreover have "unat (0x10A000 :: u64) \<in> {unat (bss_start sample_image)..<unat (endOfKernel sample_image)}"
    "getStackBase sample_image = 0x113FF8" by (simp_all add: sample_image_def getStackBase_def PageSize_def)
  ultimately show ?thesis
    using boot_places_modules [OF at room, of ?code ?dat sample_image] by (auto simp: codeModuleAddress_def)
qed

end
