(* ===== verification/Selftests.thy ===== *)
theory Selftests
  imports Shared Loader
begin

text \<open>
  The tests of shared memory at the end of \<open>kernel.c\<close>, which \<open>main\<close> has commented out: they call the
  operations and print the answers on the boot console.
\<close>

section \<open>Operations\<close>

type_synonym test_state = "console \<times> shared"

definition print_shmget :: "string \<Rightarrow> u64 \<Rightarrow> bool \<Rightarrow> test_state \<Rightarrow> test_state option" where
  "print_shmget name sz overwrite cs =
     do { (s, n) \<leftarrow> shmget (snd cs) (Some (str_bytes name)) sz overwrite; c \<leftarrow> ncPrintDec (fst cs) n; Some (c, s) }"

text \<open>The attachment is printed, and its address is an answer of the step as well.\<close>

definition print_shmat :: "u64 \<Rightarrow> test_state \<Rightarrow> (test_state \<times> ptr) option" where
  "print_shmat shmid cs =
     (case shmat (snd cs) shmid of (s, p) \<Rightarrow> map_option (\<lambda>c. ((c, s), p)) (ncPrintHex (fst cs) p))"

definition new_line :: "test_state \<Rightarrow> test_state option" where
  "new_line cs = map_option (\<lambda>c. (c, snd cs)) (ncNewline (fst cs))"

definition detach_address :: "ptr \<Rightarrow> test_state \<Rightarrow> test_state option" where
  "detach_address p cs = map_option (\<lambda>(s, rt). (fst cs, s)) (shmdetach (snd cs) p)"

definition attach_silently :: "u64 \<Rightarrow> test_state \<Rightarrow> test_state" where
  "attach_silently shmid cs = (fst cs, fst (shmat (snd cs) shmid))"

definition shared_test1 :: "test_state \<Rightarrow> test_state option" where
  "shared_test1 cs = do {
     cs \<leftarrow> print_shmget ''foo'' 600 True cs; cs \<leftarrow> new_line cs;
     cs \<leftarrow> print_shmget ''foo'' 600 False cs; cs \<leftarrow> new_line cs;
     (cs, p1) \<leftarrow> print_shmat 1 cs; cs \<leftarrow> new_line cs;
     let cs = attach_silently 1 cs;
     cs \<leftarrow> detach_address p1 cs;
     (cs, p) \<leftarrow> print_shmat 1 cs; cs \<leftarrow> new_line cs;
     cs \<leftarrow> detach_address p1 cs; cs \<leftarrow> detach_address p1 cs;
     (cs, p) \<leftarrow> print_shmat 1 cs;
     Some cs
   }"

definition shared_test2 :: "test_state \<Rightarrow> test_state option" where
  "shared_test2 cs = do {
     cs \<leftarrow> print_shmget ''GG'' 600 True cs; cs \<leftarrow> new_line cs;
     cs \<leftarrow> print_shmget ''GGG'' 600 True cs; cs \<leftarrow> new_line cs;
     cs \<leftarrow> print_shmget ''GG'' 600 True cs; cs \<leftarrow> new_line cs;
     (cs, p) \<leftarrow> print_shmat 10 cs; cs \<leftarrow> new_line cs;
     (cs, p) \<leftarrow> print_shmat 1 cs; cs \<leftarrow> new_line cs;
     (cs, p) \<leftarrow> print_shmat 2 cs; cs \<leftarrow> new_line cs;
     (cs, p) \<leftarrow> print_shmat 3 cs; cs \<leftarrow> new_line cs;
     cs \<leftarrow> print_shmget ''Probando'' 600 False cs; cs \<leftarrow> new_line cs;
     (cs, p1) \<leftarrow> print_shmat 3 cs; cs \<leftarrow> new_line cs;
     cs \<leftarrow> detach_address p1 cs;
     (cs, p) \<leftarrow> print_shmat 3 cs;
     Some cs
   }"

section \<open>What the first test prints\<close>

text \<open>The numbers that \<open>shared_test1\<close> prints, two in decimal and three in hexadecimal, on lines of their own.\<close>

definition print_answers :: "u64 \<Rightarrow> u64 \<Rightarrow> ptr \<Rightarrow> ptr \<Rightarrow> ptr \<Rightarrow> console \<Rightarrow> console option" where
  "print_answers a b p q r c = do {
     c \<leftarrow> ncPrintDec c a; c \<leftarrow> ncNewline c; c \<leftarrow> ncPrintDec c b; c \<leftarrow> ncNewline c;
     c \<leftarrow> ncPrintHex c p; c \<leftarrow> ncNewline c; c \<leftarrow> ncPrintHex c q; c \<leftarrow> ncNewline c; ncPrintHex c r
   }"

lemma foo_bytes: "str_bytes ''foo'' = [102, 111, 111]"
  by (simp add: str_bytes_def)

lemma overwrite_new:
  assumes "find_slot nm 0 minus_one (take (unat (current s)) (mems s)) = (pos, False)"
  shows "shmget s (Some nm) sz True = shmget s (Some nm) sz False"
  using assms by (simp add: shmget_def)

lemma bind_Some_map: "Option.bind x (\<lambda>c. Some (f c)) = map_option f x"
  by (cases x) simp_all

definition tagged :: "shared \<Rightarrow> mem_shared_t \<Rightarrow> u64 \<Rightarrow> shared" where
  "tagged s e k = s\<lparr>mems := (mems s)[0 := Some (e\<lparr>sim_access := k\<rparr>)]\<rparr>"

lemma tagged_steps:
  assumes "shared_inv s" "mems s ! 0 = Some e" "shm_start e \<noteq> NULL"
  shows "shmat (tagged s e k) 1 = (tagged s e (k + 1), shm_start e)"
    and "k \<noteq> 1 \<Longrightarrow> shmdetach (tagged s e k) (shm_start e) = Some (tagged s e (k - 1), - 1)"
    and "\<exists>s'. shmdetach (tagged s e 1) (shm_start e) = Some (s', 0) \<and> shmat s' 1 = (s', NULL) \<and> mems s' ! 0 = None"
proof -
  have z: "0 < MAX_SHBLOCKS" "0 < length (mems s)" using assms(1) by (simp_all add: shared_inv_def MAX_SHBLOCKS_def)
  have inv: "shared_inv (tagged s e k)" for k unfolding tagged_def by (rule retag_entry_inv [OF assms(1) z(1) assms(2)])
  have m: "mems (tagged s e k) ! 0 = Some (e\<lparr>sim_access := k\<rparr>)" for k using z(2) by (simp add: tagged_def)
  show "shmat (tagged s e k) 1 = (tagged s e (k + 1), shm_start e)"
    using shmat_entry [OF inv z(1) m] by (simp add: tagged_def)
  show "k \<noteq> 1 \<Longrightarrow> shmdetach (tagged s e k) (shm_start e) = Some (tagged s e (k - 1), - 1)"
    using detach_found [OF inv z(1) m] assms(3) by (simp add: tagged_def)
  obtain mem' where d: "shmdetach (tagged s e 1) (shm_start e) =
      Some ((tagged s e 1)\<lparr>shm_memory := mem', mems := (mems (tagged s e 1))[0 := None]\<rparr>, 0)"
    using detach_last [OF inv z(1) m, of 1] assms(3) by auto
  let ?s' = "(tagged s e 1)\<lparr>shm_memory := mem', mems := (mems (tagged s e 1))[0 := None]\<rparr>"
  have n: "mems ?s' ! 0 = None" using z(2) by (simp add: tagged_def)
  then have "shmat ?s' 1 = (?s', NULL)" by (simp add: shmat_def)
  with d n show "\<exists>s'. shmdetach (tagged s e 1) (shm_start e) = Some (s', 0) \<and> shmat s' 1 = (s', NULL) \<and> mems s' ! 0 = None" by blast
qed

lemma foo_again:
  assumes "shared_inv s" "mems s ! 0 = Some e" "shm_name e = nm" "unat (current s) < MAX_SHBLOCKS"
  shows "shmget s (Some nm) sz False = Some (s, 1)"
proof -
  have "0 < MAX_SHBLOCKS" by (simp add: MAX_SHBLOCKS_def)
  from scan_present [OF assms(1) this assms(2)] assms(3,4) show ?thesis
    by (auto simp: shmget_def Let_def current_of_nat)
qed

theorem shared_test1_prints:
  "\<exists>s. shared_test1 (c, init_shared booted_memory) =
     map_option (\<lambda>c. (c, s)) (print_answers 1 1 MEM_START MEM_START 0 c) \<and> mems s ! 0 = None"
proof -
  let ?foo = "[102, 111, 111] :: u8 list"
  have none: "find_slot ?foo 0 minus_one (take (unat (current (init_shared booted_memory))) (mems (init_shared booted_memory))) = (0, False)"
    by (simp add: numeral_eq_Suc)
  obtain s e where g: "shmget (init_shared booted_memory) (Some ?foo) 600 True = Some (s, 1)" "shared_inv s" "mems s ! 0 = Some e"
    "shm_name e = ?foo" "sim_access e = 0" "shm_start e = MEM_START"
    using shmget_boot overwrite_new [OF none] by auto
  have "unat (current s) < MAX_SHBLOCKS"
    using g(1) none by (auto simp: shmget_def Let_def MAX_SHBLOCKS_def split: option.splits if_splits)
  note again = foo_again [OF g(2,3,4) this]
  have nn: "shm_start e \<noteq> NULL" using g(6) by (simp add: MEM_START_def)
  note steps = tagged_steps [OF g(2,3) nn, unfolded g(6)]
  obtain s' where s': "shmdetach (tagged s e 1) MEM_START = Some (s', 0)" "shmat s' 1 = (s', NULL)" "mems s' ! 0 = None"
    using steps(3) by blast
  have s0: "s = tagged s e 0"
    using list_update_id [of "mems s" 0] g(3,5) by (cases e) (simp add: tagged_def)
  have at0: "shmat s 1 = (tagged s e 1, MEM_START)" using steps(1) [of 0] s0 by simp
  have "shared_test1 (c, init_shared booted_memory) = map_option (\<lambda>c. (c, s')) (print_answers 1 1 MEM_START MEM_START 0 c)"
    unfolding shared_test1_def print_shmget_def print_shmat_def new_line_def detach_address_def attach_silently_def foo_bytes
      print_answers_def
    by (simp add: g(1) again at0 steps(1) steps(2) s'(1,2) bind_map_option map_option_bind comp_def bind_Some_map)
  with s'(3) show ?thesis by blast
qed

end
