(* ===== verification/Reports.thy ===== *)
theory Reports
  imports Memlib Console Bga
begin

text \<open>
  The two functions that print the state of a component: the map of the buddy allocator, \<open>buddy_print\<close> of
  \<open>MemoryManagement/buddy.c\<close>, on the text screen, and the capabilities of the graphics adapter,
  \<open>BgaGetCapabilities\<close> of \<open>video/bga.c\<close>, on the boot console. \<open>None\<close> stands for the NULL root of a tree
  that has not been set up, and for the faults of the screen.
\<close>

section \<open>Operations\<close>

text \<open>One leaf: the loop prints it as often as it has bytes. An index is cut to an \<open>int\<close>.\<close>

fun print_leaf :: "node_t \<Rightarrow> nat \<Rightarrow> video \<Rightarrow> video option" where
  "print_leaf n 0 v = Some v"
| "print_leaf n (Suc i) v =
     Option.bind
       (if state n = FREE then puts v (str_bytes ''-,'') LIGHT_GREY
        else do {
          v \<leftarrow> putnumber v (sint (ucast (idx n) :: u32)) LIGHT_GREY;
          puts v (str_bytes '','') LIGHT_GREY
        })
       (print_leaf n i)"

fun buddy_print_node :: "node_t \<Rightarrow> video \<Rightarrow> video option" where
  "buddy_print_node (Split p i s l r) v = Option.bind (buddy_print_node l v) (buddy_print_node r)"
| "buddy_print_node n v =
     do { v \<leftarrow> print_leaf n (unat (nsize n)) v; puts v (str_bytes ''|'') LIGHT_GREY }"

definition buddy_print :: "memory \<Rightarrow> video \<Rightarrow> video option" where
  "buddy_print s v =
     (case buddy_head s of
        None \<Rightarrow> None
      | Some n \<Rightarrow>
          do {
            v \<leftarrow> puts v (str_bytes ''Buddy print is:'' @ [10]) LIGHT_GREY;
            v \<leftarrow> buddy_print_node n v;
            puts v (str_bytes '' --END--'' @ [10]) LIGHT_GREY
          })"

definition VBE_DISPI_GETCAPS :: u16 where
  "VBE_DISPI_GETCAPS = 2"

definition BgaGetCapabilities :: "bga \<Rightarrow> console \<Rightarrow> (bga \<times> console) option" where
  "BgaGetCapabilities d s =
     (let d = BgaWriteRegister d VBE_DISPI_INDEX_ENABLE VBE_DISPI_GETCAPS
      in do {
        s \<leftarrow> ncPrintDec s (ucast (BgaReadRegister d VBE_DISPI_INDEX_XRES));
        s \<leftarrow> ncNewline s;
        s \<leftarrow> ncPrintDec s (ucast (BgaReadRegister d VBE_DISPI_INDEX_YRES));
        s \<leftarrow> ncNewline s;
        s \<leftarrow> ncPrintDec s (ucast (BgaReadRegister d VBE_DISPI_INDEX_BPP));
        s \<leftarrow> ncNewline s;
        Some (d, s)
      })"

section \<open>The map as a text\<close>

fun node_text :: "node_t \<Rightarrow> u8 list" where
  "node_text (Free p i s) = concat (replicate (unat s) (str_bytes ''-,'')) @ str_bytes ''|''"
| "node_text (Alloc p i s) = concat (replicate (unat s) (decimal_chars (unat i) @ str_bytes '','')) @ str_bytes ''|''"
| "node_text (Split p i s l r) = node_text l @ node_text r"

lemma puts_append: "puts v (xs @ ys) attr = Option.bind (puts v xs attr) (\<lambda>v'. puts v' ys attr)"
  by (induction xs arbitrary: v) simp_all

lemma puts_puts: "puts v xs attr = Some v' \<Longrightarrow> puts v (xs @ ys) attr = puts v' ys attr"
  by (simp add: puts_append)

lemma index_number:
  assumes "unat i < 2 ^ 31"
  shows "sint (ucast i :: u32) = int (unat (i :: u64))"
proof -
  have "unat (ucast i :: u32) = unat i" using assms by (simp add: unsigned_ucast_eq take_bit_nat_eq_self)
  then show ?thesis using sint_small [of "ucast i :: u32"] assms by simp
qed

lemma putnumber_index:
  "unat (i :: u64) < 2 ^ 31 \<Longrightarrow> putnumber v (sint (ucast i :: u32)) attr = puts v (decimal_chars (unat i)) attr"
  by (simp only: index_number putnumber_nat)

lemma print_leaf_text:
  assumes "state n = FREE \<or> unat (idx n) < 2 ^ 31"
  shows "print_leaf n k v =
    puts v (concat (replicate k (if state n = FREE then str_bytes ''-,'' else decimal_chars (unat (idx n)) @ str_bytes '','')))
      LIGHT_GREY"
  using assms
proof (induction k arbitrary: v)
  case (Suc k)
  then have "print_leaf n k = (\<lambda>v. puts v (concat (replicate k
      (if state n = FREE then str_bytes ''-,'' else decimal_chars (unat (idx n)) @ str_bytes '',''))) LIGHT_GREY)" by blast
  then show ?case using Suc.prems by (cases "state n = FREE") (simp_all add: puts_append putnumber_index)
qed simp

lemma print_node_text: "node_ok i s n \<Longrightarrow> i + s \<le> 2 ^ 31 \<Longrightarrow> buddy_print_node n v = puts v (node_text n) LIGHT_GREY"
proof (induction i s n arbitrary: v rule: node_ok.induct)
  case (3 i s p j t l r)
  then have "i + s div 2 + s div 2 \<le> 2 ^ 31" "i + s div 2 \<le> 2 ^ 31" by linarith+
  with 3 have "buddy_print_node r = (\<lambda>v. puts v (node_text r) LIGHT_GREY)" "buddy_print_node l v = puts v (node_text l) LIGHT_GREY"
    by auto
  then show ?case by (simp add: puts_append)
qed (auto simp: print_leaf_text puts_append)

section \<open>Properties\<close>

text \<open>
  C35: \<open>buddy_print\<close> shows the tree in a well-formed memory: leaf after leaf from the left to the right, a free one as a
  dash and an allocated one as its index in decimal, as often as the leaf has bytes, and the leaves separated
  by bars. It always returns and changes nothing but the screen.
\<close>

theorem buddy_print_correct:
  assumes "memory_inv s" "video_inv v"
  shows "\<exists>n v'. buddy_head s = Some n \<and> buddy_print s v = Some v' \<and> video_inv v' \<and> same_outside v v' \<and>
    puts v (str_bytes ''Buddy print is:'' @ [10] @ node_text n @ str_bytes '' --END--'' @ [10]) LIGHT_GREY = Some v'"
proof -
  obtain n len where n: "buddy_head s = Some n" "len < 2 ^ 30" "node_ok 0 len n"
    using assms(1) by (auto simp: memory_inv_def split: option.splits)
  let ?text = "str_bytes ''Buddy print is:'' @ [10] @ node_text n @ str_bytes '' --END--'' @ [10]"
  have p: "buddy_print s v = puts v ?text LIGHT_GREY"
    using print_node_text [OF n(3)] n(1,2) by (simp add: buddy_print_def puts_append)
  have "8 \<notin> set (decimal_chars k)" for k by (rule decimal_chars_print)
  then have "8 \<notin> set (node_text m)" for m by (induction m) (auto simp: str_bytes_def)
  then have "8 \<notin> set ?text" by (simp add: str_bytes_def)
  then show ?thesis using puts_spec [OF assms(2)] n(1) p by metis
qed

theorem buddy_print_correct_witness:
  "\<exists>v'. buddy_print booted_memory blank_video = Some v' \<and> same_outside blank_video v'"
  using buddy_print_correct [OF booted_inv blank_video_inv] by blast

end
