(* ===== verification/CString.thy ===== *)
theory CString
  imports CLib "HOL-Library.Monad_Syntax"
begin

text \<open>
  Strings in memory: the user library's \<open>lib/string.c\<close> and the kernel's \<open>Kernel/util/util.c\<close>. A string is
  a pointer into byte-addressed memory and ends at the first 0; a loop that meets no 0 does not return,
  which is \<open>None\<close>. Characters are compared as signed ones, as they are on the target.
\<close>

section \<open>Operations\<close>

partial_function (option) strlen_loop :: "mem \<Rightarrow> ptr \<Rightarrow> nat \<Rightarrow> nat option" where
  "strlen_loop m str i = (if m str \<noteq> 0 then strlen_loop m (str + 1) (i + 1) else Some i)"

definition strlen :: "mem \<Rightarrow> ptr \<Rightarrow> nat option" where
  "strlen m str = strlen_loop m str 0"

definition char_order :: "u8 \<Rightarrow> u8 \<Rightarrow> int" where
  "char_order a b = (if sint a > sint b then 1 else if sint a < sint b then - 1 else 0)"

partial_function (option) strcmp :: "mem \<Rightarrow> ptr \<Rightarrow> ptr \<Rightarrow> int option" where
  "strcmp m s1 s2 =
     (if m s1 = 0 then Some (if m s2 \<noteq> 0 then - 1 else 0)
      else if m s2 = 0 then Some 1
      else let cmp = char_order (m s1) (m s2)
           in if cmp \<noteq> 0 then Some cmp else strcmp m (s1 + 1) (s2 + 1))"

partial_function (option) strncmp :: "mem \<Rightarrow> ptr \<Rightarrow> ptr \<Rightarrow> int \<Rightarrow> int option" where
  "strncmp m s1 s2 n =
     (if n = 0 then Some 0
      else if m s1 = 0 then Some (if m s2 \<noteq> 0 then - 1 else 0)
      else if m s2 = 0 then Some 1
      else let cmp = char_order (m s1) (m s2)
           in if cmp \<noteq> 0 then Some cmp else strncmp m (s1 + 1) (s2 + 1) (n - 1))"

text \<open>The copy loop, which is the same in both libraries, with the place of the terminator.\<close>

partial_function (option) strcpy_loop :: "mem \<Rightarrow> ptr \<Rightarrow> ptr \<Rightarrow> (mem \<times> ptr) option" where
  "strcpy_loop m from to =
     (if m from \<noteq> 0 then strcpy_loop (m(to := m from)) (from + 1) (to + 1) else Some (m(to := 0), to))"

definition strcpy :: "mem \<Rightarrow> ptr \<Rightarrow> ptr \<Rightarrow> (mem \<times> int) option" where
  "strcpy m from to = map_option (\<lambda>(m', e). (m', 0)) (strcpy_loop m from to)"

text \<open>\<open>n\<close> is tested before it is decremented, so the terminator goes behind the \<open>n\<close> characters.\<close>

partial_function (option) strncpy_loop :: "mem \<Rightarrow> ptr \<Rightarrow> ptr \<Rightarrow> int \<Rightarrow> mem option" where
  "strncpy_loop m from to n =
     (if m from \<noteq> 0 \<and> n \<noteq> 0 then strncpy_loop (m(to := m from)) (from + 1) (to + 1) (n - 1)
      else Some (m(to := 0)))"

definition strncpy :: "mem \<Rightarrow> ptr \<Rightarrow> ptr \<Rightarrow> int \<Rightarrow> (mem \<times> int) option" where
  "strncpy m from to n = map_option (\<lambda>m'. (m', 0)) (strncpy_loop m from to n)"

partial_function (option) strchr_loop :: "mem \<Rightarrow> ptr \<Rightarrow> u8 \<Rightarrow> ptr option" where
  "strchr_loop m ret c = (if m ret \<noteq> 0 \<and> m ret \<noteq> c then strchr_loop m (ret + 1) c else Some ret)"

definition strchr :: "mem \<Rightarrow> ptr \<Rightarrow> u8 \<Rightarrow> ptr option" where
  "strchr m str c = map_option (\<lambda>ret. if m ret = 0 then NULL else ret) (strchr_loop m str c)"

text \<open>
  The search of \<open>strstr\<close>: \<open>c2\<close> is not read when \<open>*aux\<close> is 0, so it keeps its value, which is not
  initialised at first; that value is an argument.
\<close>

partial_function (option) strstr_loop ::
  "mem \<Rightarrow> ptr \<Rightarrow> ptr \<Rightarrow> ptr \<Rightarrow> ptr \<Rightarrow> u8 \<Rightarrow> (ptr \<times> u8) option" where
  "strstr_loop m str1 aux ret start c2 =
     (let c1 = m aux in
      if c1 = 0 then Some (start, c2)
      else let c2' = m ret in
           if c2' = 0 then Some (start, c2')
           else if c1 \<noteq> c2' then strstr_loop m str1 str1 (start + 1) (start + 1) c2'
           else strstr_loop m str1 (aux + 1) (ret + 1) start c2')"

definition strstr :: "mem \<Rightarrow> u8 \<Rightarrow> ptr \<Rightarrow> ptr \<Rightarrow> ptr option" where
  "strstr m junk str1 str2 =
     map_option (\<lambda>(start, c2). if c2 = 0 then NULL else start) (strstr_loop m (str1 + 1) str1 str2 str2 junk)"

partial_function (option) prefix_loop :: "mem \<Rightarrow> ptr \<Rightarrow> ptr \<Rightarrow> nat \<Rightarrow> nat option" where
  "prefix_loop m str1 str2 i =
     (if m (str1 + of_nat i) \<noteq> 0
      then if m (str2 + of_nat i) = 0 \<or> m (str1 + of_nat i) \<noteq> m (str2 + of_nat i) then Some 0
           else prefix_loop m str1 str2 (i + 1)
      else Some i)"

definition str_prefix :: "mem \<Rightarrow> ptr \<Rightarrow> ptr \<Rightarrow> nat option" where
  "str_prefix m str1 str2 = prefix_loop m str1 str2 0"

text \<open>The kernel's versions. The tests behind the loop of \<open>strcmp\<close> see two terminators.\<close>

definition k_strlen :: "mem \<Rightarrow> ptr \<Rightarrow> nat option" where
  "k_strlen m s = strlen_loop m s 0"

partial_function (option) k_strcmp :: "mem \<Rightarrow> ptr \<Rightarrow> ptr \<Rightarrow> int option" where
  "k_strcmp m s1 s2 =
     (if m s1 \<noteq> 0 \<or> m s2 \<noteq> 0
      then if m s1 \<noteq> m s2 then Some (sint (m s1) - sint (m s2)) else k_strcmp m (s1 + 1) (s2 + 1)
      else Some (if m s1 \<noteq> 0 then 1 else if m s2 \<noteq> 0 then - 1 else 0))"

definition k_strcpy :: "mem \<Rightarrow> ptr \<Rightarrow> ptr \<Rightarrow> (mem \<times> ptr) option" where
  "k_strcpy m dst src = strcpy_loop m src dst"

section \<open>Strings\<close>

text \<open>At \<open>p\<close> stand the characters \<open>xs\<close>, none of them 0, and behind them a 0.\<close>

fun cstr :: "mem \<Rightarrow> ptr \<Rightarrow> u8 list \<Rightarrow> bool" where
  "cstr m p [] \<longleftrightarrow> m p = 0"
| "cstr m p (x # xs) \<longleftrightarrow> x \<noteq> 0 \<and> m p = x \<and> cstr m (p + 1) xs"

lemma cstr_iff:
  "cstr m p xs \<longleftrightarrow> bytes_at m p (length xs) = xs \<and> 0 \<notin> set xs \<and> m (p + of_nat (length xs)) = 0"
proof (induction xs arbitrary: p)
  case (Cons x xs)
  then show ?case by (auto simp: bytes_at_Suc ac_simps)
qed (simp add: bytes_at_def)

lemma cstr_nth: "cstr m p xs \<Longrightarrow> i < length xs \<Longrightarrow> m (p + of_nat i) = xs ! i"
proof (induction xs arbitrary: p i)
  case (Cons x xs)
  show ?case
  proof (cases i)
    case (Suc k)
    then show ?thesis using Cons.IH [of "p + 1" k] Cons.prems by (simp add: ac_simps)
  qed (use Cons.prems in simp)
qed simp

lemma cstr_end: "cstr m p xs \<Longrightarrow> m (p + of_nat (length xs)) = 0"
  by (simp add: cstr_iff)

lemma cstr_drop: "cstr m p xs \<Longrightarrow> i \<le> length xs \<Longrightarrow> cstr m (p + of_nat i) (drop i xs)"
proof (induction xs arbitrary: p i)
  case (Cons x xs)
  show ?case
  proof (cases i)
    case (Suc k)
    then show ?thesis using Cons.IH [of "p + 1" k] Cons.prems by (simp add: ac_simps)
  qed (use Cons.prems in simp)
qed simp

lemma sint_eq_iff [simp]: "sint a = sint b \<longleftrightarrow> a = b" for a b :: u8
  by (metis signed_word_eqI)

lemma char_order_sign:
  "char_order a b = 0 \<longleftrightarrow> a = b" "char_order a b < 0 \<longleftrightarrow> sint a < sint b"
  by (auto simp: char_order_def)

lemma strlen_loop_cstr: "cstr m p xs \<Longrightarrow> strlen_loop m p i = Some (i + length xs)"
  by (induction xs arbitrary: p i) (subst strlen_loop.simps; simp)+

text \<open>The order of strings by their characters, where the end of a string comes before any character.\<close>

definition str_less :: "u8 list \<Rightarrow> u8 list \<Rightarrow> bool" where
  "str_less xs ys \<longleftrightarrow> (map sint xs, map sint ys) \<in> lexord {(a, b). a < b}"

lemma str_less_simps [simp]:
  "\<not> str_less xs []" "str_less [] (y # ys)"
  "str_less (x # xs) (y # ys) \<longleftrightarrow> sint x < sint y \<or> x = y \<and> str_less xs ys"
  by (auto simp: str_less_def)

lemma strncmp_cstr:
  "cstr m p xs \<Longrightarrow> cstr m q ys \<Longrightarrow>
     \<exists>r. strncmp m p q (int n) = Some r \<and> (r = 0 \<longleftrightarrow> take n xs = take n ys) \<and>
       (r < 0 \<longleftrightarrow> str_less (take n xs) (take n ys))"
proof (induction n arbitrary: p q xs ys)
  case (Suc n)
  show ?case
  proof (cases xs; cases ys)
    fix x xs' y ys'
    assume "xs = x # xs'" "ys = y # ys'"
    then show ?thesis using Suc.prems Suc.IH [of "p + 1" xs' "q + 1" ys'] char_order_sign [of x y]
      by (subst strncmp.simps) (auto simp: Let_def)
  qed (use Suc.prems in \<open>subst strncmp.simps; simp\<close>)+
qed (subst strncmp.simps; simp)

lemma strcmp_cstr:
  "cstr m p xs \<Longrightarrow> cstr m q ys \<Longrightarrow>
     \<exists>r. strcmp m p q = Some r \<and> (r = 0 \<longleftrightarrow> xs = ys) \<and> (r < 0 \<longleftrightarrow> str_less xs ys)"
proof (induction xs arbitrary: p q ys)
  case Nil
  then show ?case by (cases ys) (subst strcmp.simps; simp)+
next
  case (Cons x xs)
  show ?case
  proof (cases ys)
    case Nil
    then show ?thesis using Cons.prems by (subst strcmp.simps) simp
  next
    case (Cons y ys')
    then show ?thesis using Cons.prems Cons.IH [of "p + 1" "q + 1" ys'] char_order_sign [of x y]
      by (subst strcmp.simps) (auto simp: Let_def)
  qed
qed

lemma k_strcmp_cstr:
  "cstr m p xs \<Longrightarrow> cstr m q ys \<Longrightarrow> \<exists>r. k_strcmp m p q = Some r \<and> (r = 0 \<longleftrightarrow> xs = ys)"
proof (induction xs arbitrary: p q ys)
  case Nil
  then show ?case by (cases ys) (subst k_strcmp.simps; auto intro: signed_word_eqI)+
next
  case (Cons x xs)
  show ?case
  proof (cases ys)
    case Nil
    then show ?thesis using Cons.prems signed_word_eqI [of x 0] by (subst k_strcmp.simps) auto
  next
    case (Cons y ys')
    then show ?thesis using Cons.prems Cons.IH [of "p + 1" "q + 1" ys'] signed_word_eqI [of x y]
      by (subst k_strcmp.simps) auto
  qed
qed

section \<open>Copies\<close>

text \<open>
  The copy loop is the byte loop of \<open>memcpy\<close> for the characters, as long as the destination does not
  overwrite the rest of the source.
\<close>

lemma copy_bytes_shift: "copy_bytes m (d + 1) (s + 1) i k = copy_bytes m d s (Suc i) k"
  by (induction k arbitrary: m i) (simp_all add: ac_simps)

lemma copy_bytes_Cons: "copy_bytes m d s 0 (Suc k) = copy_bytes (m(d := m s)) (d + 1) (s + 1) 0 k"
  by (simp add: copy_bytes_shift)

lemma cstr_cong:
  "(\<And>i. i \<le> length xs \<Longrightarrow> m' (p + of_nat i) = m (p + of_nat i)) \<Longrightarrow> cstr m' p xs = cstr m p xs"
proof (induction xs arbitrary: p)
  case Nil
  then show ?case using Nil [of 0] by simp
next
  case (Cons x xs)
  have "m' (p + 1 + of_nat i) = m (p + 1 + of_nat i)" if "i \<le> length xs" for i
    using Cons.prems [of "Suc i"] that by (simp add: ac_simps)
  then show ?case using Cons.IH [of "p + 1"] Cons.prems [of 0] by simp
qed

text \<open>The place \<open>q\<close> for \<open>n\<close> bytes is clear of the string \<open>xs\<close> at \<open>p\<close> and its terminator.\<close>

definition clear_of :: "ptr \<Rightarrow> nat \<Rightarrow> ptr \<Rightarrow> u8 list \<Rightarrow> bool" where
  "clear_of q n p xs \<longleftrightarrow> region q n \<inter> region p (Suc (length xs)) = {}"

lemma cstr_update: "a \<notin> region p (Suc (length xs)) \<Longrightarrow> cstr (m(a := c)) p xs = cstr m p xs"
  by (rule cstr_cong) (auto simp: region_def image_iff)

lemma strcpy_loop_cstr:
  "cstr m src xs \<Longrightarrow> clear_of dst (Suc (length xs)) src xs \<Longrightarrow>
     strcpy_loop m src dst = Some (copy_bytes m dst src 0 (Suc (length xs)), dst + of_nat (length xs))"
proof (induction xs arbitrary: m src dst)
  case (Cons x xs)
  have out: "dst \<notin> region (src + 1) (Suc (length xs))"
    and "clear_of (dst + 1) (Suc (length xs)) (src + 1) xs"
    using Cons.prems(2) by (auto simp: clear_of_def region_shift [of _ "Suc (length xs)"])
  moreover have "cstr (m(dst := x)) (src + 1) xs"
    using Cons.prems(1) cstr_update [OF out] by simp
  ultimately have "strcpy_loop (m(dst := x)) (src + 1) (dst + 1) =
      Some (copy_bytes (m(dst := x)) (dst + 1) (src + 1) 0 (Suc (length xs)), dst + 1 + of_nat (length xs))"
    by (intro Cons.IH)
  then show ?case using Cons.prems(1)
    by (subst strcpy_loop.simps) (simp add: copy_bytes_Cons [of m] ac_simps del: copy_bytes.simps)
qed (subst strcpy_loop.simps; simp)

lemma strncpy_loop_cstr:
  "cstr m src xs \<Longrightarrow> clear_of dst (Suc (min n (length xs))) src xs \<Longrightarrow>
     strncpy_loop m src dst (int n) =
       Some ((copy_bytes m dst src 0 (min n (length xs)))(dst + of_nat (min n (length xs)) := 0))"
proof (induction xs arbitrary: m src dst n)
  case (Cons x xs)
  show ?case
  proof (cases n)
    case 0
    then show ?thesis by (subst strncpy_loop.simps) simp
  next
    case (Suc k)
    have out: "dst \<notin> region (src + 1) (Suc (length xs))"
      and "clear_of (dst + 1) (Suc (min k (length xs))) (src + 1) xs"
      using Cons.prems(2) Suc
      by (auto simp: clear_of_def region_shift [of _ "Suc (length xs)"] region_shift [of _ "Suc (min k (length xs))"])
    moreover have "cstr (m(dst := x)) (src + 1) xs"
      using Cons.prems(1) cstr_update [OF out] by simp
    ultimately have "strncpy_loop (m(dst := x)) (src + 1) (dst + 1) (int k) =
        Some ((copy_bytes (m(dst := x)) (dst + 1) (src + 1) 0 (min k (length xs)))(dst + 1 + of_nat (min k (length xs)) := 0))"
      by (intro Cons.IH)
    then show ?thesis using Cons.prems(1) Suc
      by (subst strncpy_loop.simps) (simp add: copy_bytes_Cons [of m] ac_simps del: copy_bytes.simps)
  qed
qed (subst strncpy_loop.simps; simp)

text \<open>What such a copy leaves in memory.\<close>

lemma copied_bytes:
  assumes "clear_of dst n src xs" "k \<le> n" "n \<le> 2 ^ 64" "k \<le> Suc (length xs)"
  shows "bytes_at (copy_bytes m dst src 0 k) dst k = bytes_at m src k"
    and "a \<notin> region dst k \<Longrightarrow> copy_bytes m dst src 0 k a = m a"
proof -
  have apart: "k \<le> unat (dst - src) \<or> dst = src"
  proof (cases "k = 0")
    case False
    have "dst \<in> region dst n" using False assms(2) by (cases n) (simp_all add: region_shift)
    then have "dst \<notin> region src k"
      using assms(1,4) by (auto simp: clear_of_def region_def)
    then show ?thesis using in_region_iff [of k dst src] assms(2,3) by simp
  qed simp
  have "copy_bytes m dst src 0 k (dst + of_nat i) = m (src + of_nat i)" if "i < k" for i
    using that assms(2,3) apart by (intro copy_bytes_at) auto
  then show "bytes_at (copy_bytes m dst src 0 k) dst k = bytes_at m src k" by (simp add: bytes_at_def)
  show "a \<notin> region dst k \<Longrightarrow> copy_bytes m dst src 0 k a = m a"
    by (rule copy_bytes_frame) (auto simp: region_def)
qed

section \<open>Searches\<close>

lemma strchr_loop_cstr:
  "cstr m p xs \<Longrightarrow> strchr_loop m p c = Some (p + of_nat (length (takeWhile (\<lambda>x. x \<noteq> c) xs)))"
  by (induction xs arbitrary: p) (subst strchr_loop.simps; simp add: ac_simps)+

lemma strchr_cstr:
  assumes "cstr m p xs"
  shows "strchr m p c = Some (if c \<in> set xs then p + of_nat (length (takeWhile (\<lambda>x. x \<noteq> c) xs)) else NULL)"
proof (cases "c \<in> set xs")
  case True
  let ?k = "length (takeWhile (\<lambda>x. x \<noteq> c) xs)"
  have k: "?k < length xs" using True by (induction xs) auto
  then have "xs ! ?k \<in> set xs" by simp
  then have "m (p + of_nat ?k) \<noteq> 0" using cstr_nth [OF assms k] assms by (auto simp: cstr_iff)
  then show ?thesis using True by (simp add: strchr_def strchr_loop_cstr [OF assms])
next
  case False
  then have "length (takeWhile (\<lambda>x. x \<noteq> c) xs) = length xs" by (intro arg_cong [of _ xs length]) (auto simp: takeWhile_eq_all_conv)
  then show ?thesis using False cstr_end [OF assms] strchr_loop_cstr [OF assms, of c] by (simp add: strchr_def)
qed

lemma prefix_loop_cstr:
  "cstr m (p + of_nat i) xs \<Longrightarrow> cstr m (q + of_nat i) ys \<Longrightarrow>
     prefix_loop m p q i = Some (if take (length xs) ys = xs then i + length xs else 0)"
proof (induction xs arbitrary: i ys)
  case (Cons x xs)
  show ?case
  proof (cases ys)
    case (Cons y ys')
    then show ?thesis using Cons.prems Cons.IH [of "Suc i" ys']
      by (subst prefix_loop.simps) (auto simp: ac_simps)
  qed (use Cons.prems in \<open>subst prefix_loop.simps; simp\<close>)
qed (subst prefix_loop.simps; simp)

lemma str_prefix_cstr:
  "cstr m p xs \<Longrightarrow> cstr m q ys \<Longrightarrow>
     str_prefix m p q = Some (if take (length xs) ys = xs then length xs else 0)"
  using prefix_loop_cstr [of m p 0 xs q ys] by (simp add: str_prefix_def)

lemma strstr_loop_start:
  assumes "strstr_loop m str1 aux ret start c2 = Some y"
  shows "\<exists>k. fst y = start + of_nat k"
  using assms
proof (rule strstr_loop.raw_induct [where P = "\<lambda>m str1 aux ret start c2 y. \<exists>k. fst y = start + of_nat k", rotated])
  fix f and m :: mem and str1 aux ret start :: ptr and c2 :: u8 and y
  assume ih: "\<And>m str1 aux ret start c2 y. f m str1 aux ret start c2 = Some y \<Longrightarrow> \<exists>k. fst y = start + of_nat k"
    and eq: "(let c1 = m aux in
      if c1 = 0 then Some (start, c2)
      else let c2' = m ret in
           if c2' = 0 then Some (start, c2')
           else if c1 \<noteq> c2' then f m str1 str1 (start + 1) (start + 1) c2'
           else f m str1 (aux + 1) (ret + 1) start c2') = Some y"
  from eq consider (stop) "fst y = start"
    | (restart) c where "f m str1 str1 (start + 1) (start + 1) c = Some y"
    | (go_on) c where "f m str1 (aux + 1) (ret + 1) start c = Some y"
    by (auto simp: Let_def split: if_splits)
  then show "\<exists>k. fst y = start + of_nat k"
  proof cases
    case stop
    then show ?thesis by (auto intro: exI [of _ 0])
  next
    case restart
    then obtain k where "fst y = start + 1 + of_nat k" using ih by blast
    then have "fst y = start + of_nat (Suc k)" by simp
    then show ?thesis by blast
  next
    case go_on
    then show ?thesis using ih by blast
  qed
qed

lemma strstr_loop_prefix:
  "cstr m aux (ys @ zs) \<Longrightarrow> cstr m ret ys \<Longrightarrow> zs \<noteq> [] \<Longrightarrow>
     strstr_loop m str1 aux ret start c2 = Some (start, 0)"
proof (induction ys arbitrary: aux ret c2)
  case Nil
  then show ?case by (cases zs) (subst strstr_loop.simps; simp)+
next
  case (Cons y ys)
  then show ?case by (subst strstr_loop.simps) (simp add: Let_def)
qed

section \<open>Properties\<close>

text \<open>
  \<open>strcmp\<close> and \<open>strncmp\<close> of the user library return on strings, answer 0 exactly for equal strings,
  and a negative number exactly when the first comes before the second in the order of their (signed)
  characters; \<open>strncmp\<close> does so for the first \<open>n\<close> characters. The kernel's \<open>strcmp\<close> answers 0 on the same
  pairs.
\<close>

theorem strcmp_correct:
  assumes "cstr m p xs" "cstr m q ys"
  shows "\<exists>r rn rk. strcmp m p q = Some r \<and> strncmp m p q (int n) = Some rn \<and> k_strcmp m p q = Some rk \<and>
    (r = 0 \<longleftrightarrow> xs = ys) \<and> (r < 0 \<longleftrightarrow> str_less xs ys) \<and>
    (rn = 0 \<longleftrightarrow> take n xs = take n ys) \<and> (rn < 0 \<longleftrightarrow> str_less (take n xs) (take n ys)) \<and>
    (rk = 0 \<longleftrightarrow> xs = ys)"
  using strcmp_cstr [OF assms] strncmp_cstr [OF assms, of n] k_strcmp_cstr [OF assms] by metis

definition two_strings :: mem where
  "two_strings = (\<lambda>a. 0)(16 := 97, 17 := 98, 18 := 99, 32 := 97, 33 := 98, 34 := 200)"

lemma two_strings_cstr: "cstr two_strings 16 [97, 98, 99]" "cstr two_strings 32 [97, 98, 200]"
  by (simp_all add: two_strings_def)

theorem strcmp_correct_witness:
  "\<exists>r rn. strcmp two_strings 32 16 = Some r \<and> r < 0 \<and> strncmp two_strings 32 16 2 = Some rn \<and> rn = 0"
  using strcmp_correct [OF two_strings_cstr(2) two_strings_cstr(1), of 2] by auto

text \<open>
  \<open>strcpy\<close>, in the user library and in the kernel, copies the string with its terminator to a place
  that is clear of it, and no other byte changes; the kernel's returns the address of the terminator, not
  the destination.
\<close>

theorem strcpy_correct:
  assumes "cstr m src xs" "clear_of dst (Suc (length xs)) src xs" "Suc (length xs) < 2 ^ 64"
  shows "\<exists>m'. strcpy m src dst = Some (m', 0) \<and> k_strcpy m dst src = Some (m', dst + of_nat (length xs)) \<and>
    cstr m' dst xs \<and> (\<forall>a. a \<notin> region dst (Suc (length xs)) \<longrightarrow> m' a = m a)"
proof -
  let ?m = "copy_bytes m dst src 0 (Suc (length xs))"
  have "bytes_at ?m dst (Suc (length xs)) = bytes_at m src (Suc (length xs))"
    and f: "\<And>a. a \<notin> region dst (Suc (length xs)) \<Longrightarrow> ?m a = m a"
    using copied_bytes [OF assms(2), where k = "Suc (length xs)" and m = m] assms(3) by auto
  then have "bytes_at ?m dst (length xs) = bytes_at m src (length xs)"
    "?m (dst + of_nat (length xs)) = m (src + of_nat (length xs))"
    by (simp_all add: bytes_at_def del: copy_bytes.simps)
  then have "cstr ?m dst xs" using assms(1) by (simp add: cstr_iff del: copy_bytes.simps)
  with f show ?thesis
    unfolding strcpy_def k_strcpy_def strcpy_loop_cstr [OF assms(1,2)] by (auto simp del: copy_bytes.simps)
qed

theorem strcpy_correct_witness:
  "\<exists>m'. strcpy two_strings 16 64 = Some (m', 0) \<and> cstr m' 64 [97, 98, 99]"
proof -
  have "clear_of 64 (Suc (length [97, 98, 99 :: u8])) 16 [97, 98, 99]"
    by (auto simp: clear_of_def region_shift)
  from strcpy_correct [OF two_strings_cstr(1) this] show ?thesis by auto
qed

text \<open>
  \<open>strncpy\<close> writes the first \<open>n\<close> characters, or all if there are fewer, and always a terminator behind
  them, so up to \<open>n + 1\<close> bytes; no other byte changes.
\<close>

theorem strncpy_correct:
  assumes "cstr m src xs" "clear_of dst (Suc (min n (length xs))) src xs" "Suc (length xs) < 2 ^ 64"
  shows "\<exists>m'. strncpy m src dst (int n) = Some (m', 0) \<and> cstr m' dst (take n xs) \<and>
    (\<forall>a. a \<notin> region dst (Suc (min n (length xs))) \<longrightarrow> m' a = m a)"
proof -
  let ?k = "min n (length xs)"
  let ?c = "copy_bytes m dst src 0 ?k"
  let ?m = "?c(dst + of_nat ?k := 0)"
  have b: "bytes_at ?c dst ?k = bytes_at m src ?k" and f: "\<And>a. a \<notin> region dst ?k \<Longrightarrow> ?c a = m a"
    using copied_bytes [OF assms(2), where k = ?k and m = m] assms(3) by auto
  have "bytes_at m src ?k = take n xs"
    using cstr_nth [OF assms(1)] by (intro nth_equalityI) (auto simp: bytes_at_def)
  moreover have "of_nat i \<noteq> (of_nat ?k :: u64)" if "i < ?k" for i
    using that assms(3) of_nat_u64_inj [of i ?k] by auto
  then have "bytes_at ?m dst ?k = bytes_at ?c dst ?k" unfolding bytes_at_def by (intro map_cong) auto
  ultimately have "bytes_at ?m dst ?k = take n xs" using b by simp
  moreover have "0 \<notin> set (take n xs)" using assms(1) by (auto simp: cstr_iff dest: in_set_takeD)
  ultimately have "cstr ?m dst (take n xs)" by (simp add: cstr_iff min.commute)
  moreover have "?m a = m a" if "a \<notin> region dst (Suc ?k)" for a
    using that f [of a] by (auto simp: region_Suc)
  ultimately show ?thesis
    unfolding strncpy_def strncpy_loop_cstr [OF assms(1,2)] by auto
qed

theorem strncpy_correct_witness:
  "\<exists>m'. strncpy two_strings 16 64 2 = Some (m', 0) \<and> cstr m' 64 [97, 98]"
proof -
  have "clear_of 64 (Suc (min 2 (length [97, 98, 99 :: u8]))) 16 [97, 98, 99]"
    by (auto simp: clear_of_def region_shift)
  from strncpy_correct [OF two_strings_cstr(1) this] show ?thesis by auto
qed

text \<open>
  the searches of the user library on strings: \<open>strlen\<close> is the length, \<open>strchr\<close> the address of the first
  occurrence of a character or NULL, and \<open>prefix\<close> the length of the first string exactly if it is a prefix
  of the second.
\<close>

theorem string_searches_correct:
  assumes "cstr m p xs" "cstr m q ys"
  shows "strlen m p = Some (length xs) \<and>
    strchr m p c = Some (if c \<in> set xs then p + of_nat (length (takeWhile (\<lambda>x. x \<noteq> c) xs)) else NULL) \<and>
    str_prefix m p q = Some (if take (length xs) ys = xs then length xs else 0)"
  using strlen_loop_cstr [OF assms(1), of 0] strchr_cstr [OF assms(1)] str_prefix_cstr [OF assms]
  by (simp add: strlen_def)

theorem string_searches_correct_witness:
  "strlen two_strings 16 = Some 3 \<and> strchr two_strings 16 98 = Some 17 \<and> str_prefix two_strings 16 32 = Some 0"
  using string_searches_correct [OF two_strings_cstr, of 98] by simp

text \<open>
  \<open>strstr\<close> does not find what it looks for: whatever it answers is NULL or an address in the string
  searched for, not in the one searched; and a string that begins with it, and goes on, gets NULL.
\<close>

theorem strstr_wrong:
  assumes "cstr m q ys" "cstr m p (ys @ zs)" "zs \<noteq> []"
  shows "strstr m junk p q = Some NULL \<and>
    (\<forall>a r. strstr m junk a q = Some r \<longrightarrow> r = NULL \<or> (\<exists>k. r = q + of_nat k))"
proof -
  have "r = NULL \<or> (\<exists>k. r = q + of_nat k)" if r: "strstr m junk a q = Some r" for a r
  proof -
    obtain y where y: "strstr_loop m (a + 1) a q q junk = Some y" "r = (if snd y = 0 then NULL else fst y)"
      using r by (auto simp: strstr_def split: if_splits)
    from strstr_loop_start [OF y(1)] y(2) show ?thesis by auto
  qed
  moreover have "strstr m junk p q = Some NULL"
    using strstr_loop_prefix [OF assms(2,1,3)] by (simp add: strstr_def)
  ultimately show ?thesis by blast
qed

theorem strstr_wrong_witness:
  "strstr (two_strings(34 := 0)) 0 16 32 = Some NULL"
proof -
  have "cstr (two_strings(34 := 0)) 32 [97, 98]" "cstr (two_strings(34 := 0)) 16 ([97, 98] @ [99])"
    by (simp_all add: two_strings_def)
  from strstr_wrong [OF this] show ?thesis by simp
qed

end
