(* ===== verification/Ctype.thy ===== *)
theory Ctype
  imports CString NumBase
begin

text \<open>
  Character classes and the reading of numbers in the user library: \<open>lib/ctype.c\<close> on C's \<open>int\<close>, and \<open>atoi\<close>
  of \<open>lib/stdlib.c\<close> on strings in memory, whose sum is a 32-bit number that wraps around.
\<close>

section \<open>Operations\<close>

definition US :: int where
  "US = 0x1F"

definition DEL :: int where
  "DEL = 0x7F"

definition isalpha :: "int \<Rightarrow> bool" where
  "isalpha c \<longleftrightarrow> c \<ge> 65 \<and> c \<le> 122"

definition isdigit :: "int \<Rightarrow> bool" where
  "isdigit c \<longleftrightarrow> c \<ge> 48 \<and> c \<le> 57"

definition isalnum :: "int \<Rightarrow> bool" where
  "isalnum c \<longleftrightarrow> isalpha c \<or> isdigit c"

definition islower :: "int \<Rightarrow> bool" where
  "islower c \<longleftrightarrow> c \<ge> 97 \<and> c \<le> 122"

definition iscntrl :: "int \<Rightarrow> bool" where
  "iscntrl c \<longleftrightarrow> (c \<ge> 0 \<and> c \<le> US) \<or> c = DEL"

definition isprint :: "int \<Rightarrow> bool" where
  "isprint c \<longleftrightarrow> \<not> iscntrl c"

definition isspace :: "int \<Rightarrow> bool" where
  "isspace c \<longleftrightarrow> c = 32 \<or> c = 9 \<or> c = 10 \<or> c = 11 \<or> c = 12 \<or> c = 13"

definition isupper :: "int \<Rightarrow> bool" where
  "isupper c \<longleftrightarrow> c \<ge> 65 \<and> c \<le> 90"

definition isxdigit :: "int \<Rightarrow> bool" where
  "isxdigit c \<longleftrightarrow> isdigit c \<or> (c \<ge> 65 \<and> c \<le> 70) \<or> (c \<ge> 97 \<and> c \<le> 102)"

definition tolower :: "int \<Rightarrow> int" where
  "tolower c = (if islower c then c else c + (97 - 65))"

definition toupper :: "int \<Rightarrow> int" where
  "toupper c = (if isupper c then c else c - (97 - 65))"

definition isgraph :: "int \<Rightarrow> bool" where
  "isgraph c \<longleftrightarrow> isprint c \<and> c \<noteq> 32"

definition ispunct :: "int \<Rightarrow> bool" where
  "ispunct c \<longleftrightarrow> isgraph c \<and> \<not> isalnum c"

definition isblank :: "int \<Rightarrow> bool" where
  "isblank c \<longleftrightarrow> c = 32 \<or> c = 9"

lemmas ctype_defs = US_def DEL_def isalpha_def isdigit_def isalnum_def islower_def iscntrl_def isprint_def
  isspace_def isupper_def isxdigit_def tolower_def toupper_def isgraph_def ispunct_def isblank_def

text \<open>\<open>c\<close> is a signed character, which the comparisons and the sum widen to \<open>int\<close>.\<close>

partial_function (option) atoi_loop :: "mem \<Rightarrow> ptr \<Rightarrow> u32 \<Rightarrow> u32 option" where
  "atoi_loop m str i =
     (let c = m str in
      if c = 0 then Some i
      else if sint c < 48 \<or> sint c > 57 then Some i
      else atoi_loop m (str + 1) (i * 10 + scast c - 48))"

definition atoi :: "mem \<Rightarrow> ptr \<Rightarrow> u32 option" where
  "atoi m str = atoi_loop m str 0"

section \<open>Digits\<close>

definition digit_chars :: "nat list \<Rightarrow> u8 list" where
  "digit_chars ds = map (\<lambda>d. of_nat (d + 48)) ds"

definition digits_value :: "nat list \<Rightarrow> nat" where
  "digits_value ds = foldl (\<lambda>v d. v * 10 + d) 0 ds"

lemma digit_char_facts:
  assumes "d < 10"
  shows "(of_nat (d + 48) :: u8) \<noteq> 0" "sint (of_nat (d + 48) :: u8) = int d + 48"
    "(scast (of_nat (d + 48) :: u8) :: u32) - 48 = of_nat d"
proof -
  have "\<forall>d \<in> set [0..<10]. (of_nat (d + 48) :: u8) \<noteq> 0 \<and> sint (of_nat (d + 48) :: u8) = int d + 48 \<and>
      (scast (of_nat (d + 48) :: u8) :: u32) - 48 = of_nat d"
    by code_simp
  then show "(of_nat (d + 48) :: u8) \<noteq> 0" "sint (of_nat (d + 48) :: u8) = int d + 48"
    "(scast (of_nat (d + 48) :: u8) :: u32) - 48 = of_nat d"
    using assms by simp_all
qed

lemma atoi_loop_digits:
  assumes "\<forall>d \<in> set ds. d < 10" "cstr m p (digit_chars ds @ rest)"
    and "rest = [] \<or> \<not> isdigit (sint (hd rest))"
  shows "atoi_loop m p i = Some (i * 10 ^ length ds + of_nat (digits_value ds))"
  using assms(1,2)
proof (induction ds arbitrary: p i)
  case Nil
  then show ?case using assms(3)
    by (cases rest) (subst atoi_loop.simps; auto simp: digit_chars_def digits_value_def isdigit_def)+
next
  case (Cons d ds)
  have d: "d < 10" using Cons.prems by simp
  have "cstr m p (of_nat (d + 48) # digit_chars ds @ rest)" using Cons.prems(2) by (simp add: digit_chars_def)
  then have c: "m p = of_nat (d + 48)" "cstr m (p + 1) (digit_chars ds @ rest)" by simp_all
  have "foldl (\<lambda>v d. v * 10 + d) k xs = k * 10 ^ length xs + foldl (\<lambda>v d. v * 10 + d) 0 xs" for k :: nat and xs
  proof (induction xs arbitrary: k)
    case (Cons x xs)
    show ?case unfolding foldl_Cons Cons.IH [of "k * 10 + x"] Cons.IH [of "0 * 10 + x"] by (simp add: algebra_simps)
  qed simp
  from this [of d ds] have v: "digits_value (d # ds) = d * 10 ^ length ds + digits_value ds"
    by (simp add: digits_value_def)
  have step: "i * 10 + scast (of_nat (d + 48) :: u8) - 48 = i * 10 + of_nat d"
    using digit_char_facts(3) [OF d] by (simp add: algebra_simps)
  have "atoi_loop m p i = atoi_loop m (p + 1) (i * 10 + of_nat d)"
    using d digit_char_facts(1,2) [OF d] c(1) by (subst atoi_loop.simps) (simp add: Let_def step del: of_nat_add)
  also have "\<dots> = Some ((i * 10 + of_nat d) * 10 ^ length ds + of_nat (digits_value ds))"
    using Cons.IH [OF _ c(2)] Cons.prems(1) by simp
  finally show ?case by (simp add: v algebra_simps)
qed

section \<open>Properties\<close>

text \<open>
  \<open>atoi\<close> reads back what printing in decimal writes: on the digits of a number below \<open>2 ^ 31\<close> followed by
  the end of the string or anything that is not a digit it answers that number. It reads no sign: on
  anything that does not begin with a digit it answers 0.
\<close>

theorem atoi_roundtrip:
  assumes "cstr m p (digit_chars (numeral_digits 10 n) @ rest)" "rest = [] \<or> \<not> isdigit (sint (hd rest))" "n < 2 ^ 31"
    and "cstr m q junk" "junk = [] \<or> \<not> isdigit (sint (hd junk))"
  shows "map_option sint (atoi m p) = Some (int n) \<and> atoi m q = Some 0"
proof -
  have ds: "\<forall>d \<in> set (numeral_digits 10 n). d < 10" "digits_value (numeral_digits 10 n) = n"
    using numeral_digits_value [of 10 n] by (simp_all add: digits_value_def mult.commute)
  have "atoi m p = Some (of_nat n)"
    using atoi_loop_digits [OF ds(1) assms(1,2), of 0] ds(2) by (simp add: atoi_def)
  moreover have "sint (of_nat n :: u32) = int n"
    using assms(3) sint_small [of "of_nat n :: u32"] by (simp add: unat_of_nat)
  moreover have "atoi m q = Some 0"
    using atoi_loop_digits [of "[]" m q junk 0] assms(4,5) by (simp add: atoi_def digit_chars_def digits_value_def)
  ultimately show ?thesis by simp
qed

definition two_numbers :: mem where
  "two_numbers = (\<lambda>a. 0)(16 := 50, 17 := 48, 18 := 49, 19 := 54, 20 := 58, 32 := 45, 33 := 53)"

theorem atoi_roundtrip_witness: "map_option sint (atoi two_numbers 16) = Some 2016 \<and> atoi two_numbers 32 = Some 0"
proof -
  have "numeral_digits 10 2016 = [2, 0, 1, 6]" by (simp add: numeral_digits.simps)
  then have "cstr two_numbers 16 (digit_chars (numeral_digits 10 2016) @ [58])" "cstr two_numbers 32 [45, 53]"
    by (simp_all add: two_numbers_def digit_chars_def)
  from atoi_roundtrip [OF this(1) _ _ this(2)] show ?thesis by (simp add: isdigit_def)
qed

text \<open>
  the classes of characters. Every character of ASCII is either a control character, or the blank, or
  a letter or digit, or punctuation, and only one of these; but \<open>isalpha\<close> takes the six characters between
  Z and a for letters. \<open>tolower\<close> and \<open>toupper\<close> are right on letters only: everything else that is not of
  the case asked for is shifted as well.
\<close>

theorem ctype_classes:
  "(0 \<le> c \<and> c < 128 \<longrightarrow>
     length (filter id [iscntrl c, c = 32, isalnum c, ispunct c]) = 1 \<and>
     (isspace c \<longrightarrow> c = 32 \<or> iscntrl c) \<and> (isxdigit c \<longrightarrow> isalnum c)) \<and>
   (isalpha c \<longleftrightarrow> isupper c \<or> islower c \<or> c \<in> {91..96}) \<and>
   (isupper c \<longrightarrow> islower (tolower c) \<and> toupper (tolower c) = c) \<and>
   (islower c \<longrightarrow> isupper (toupper c) \<and> tolower (toupper c) = c) \<and>
   (tolower c = c \<longleftrightarrow> islower c) \<and> (toupper c = c \<longleftrightarrow> isupper c)"
  unfolding ctype_defs by auto

theorem ctype_classes_witness: "ispunct 64 \<and> \<not> isalnum 64 \<and> isalpha 91 \<and> tolower 33 = 65"
  using ctype_classes [of 91] ctype_classes [of 64] by (simp add: ctype_defs)

end
