(* ===== verification/Printf.thy ===== *)
theory Printf
  imports NumBase
begin

text \<open>
  Formatted output of the user library, the first half of \<open>lib/stdio.c\<close>. What is written is the sequence
  of characters that reached each file descriptor, in order; a \<open>va_list\<close> is the list of the arguments that
  are left, and strings are lists of characters without their terminator. \<open>None\<close> stands for what C leaves
  undefined: an argument that is missing or of another type, and a write behind a buffer.
\<close>

section \<open>State and operations\<close>

type_synonym outp = "(nat \<times> u8) list"

datatype va = IntArg u32 | StrArg "u8 list"

definition STDIN :: nat where
  "STDIN = 0"

definition STDOUT :: nat where
  "STDOUT = 1"

definition STDERR :: nat where
  "STDERR = 2"

definition STDDATA :: nat where
  "STDDATA = 3"

lemmas descriptors = STDIN_def STDOUT_def STDERR_def STDDATA_def

text \<open>
  The system call behind \<open>write\<close>, by what \<open>sys_write\<close> of the kernel does with it: only the two output
  descriptors are written, up to the first 0, and the answer is the number of characters.
\<close>

definition write_fd :: "outp \<Rightarrow> nat \<Rightarrow> u8 list \<Rightarrow> outp \<times> nat" where
  "write_fd out fd bytes =
     (if fd = STDOUT \<or> fd = STDERR
      then (out @ map (Pair fd) (takeWhile (\<lambda>c. c \<noteq> 0) bytes), length (takeWhile (\<lambda>c. c \<noteq> 0) bytes))
      else (out, 0))"

definition fputc :: "outp \<Rightarrow> nat \<Rightarrow> u8 \<Rightarrow> outp" where
  "fputc out fd c = fst (write_fd out fd [c])"

definition uputchar :: "outp \<Rightarrow> u8 \<Rightarrow> outp" where
  "uputchar out c = fputc out STDOUT c"

fun fputs :: "outp \<Rightarrow> nat \<Rightarrow> u8 list \<Rightarrow> outp \<times> nat" where
  "fputs out fd [] = (out, 0)"
| "fputs out fd (c # str) = (case fputs (fputc out fd c) fd str of (out', written) \<Rightarrow> (out', written + 1))"

definition uputs :: "outp \<Rightarrow> u8 list \<Rightarrow> outp \<times> nat" where
  "uputs out str = fputs out STDOUT str"

definition fputsn :: "outp \<Rightarrow> nat \<Rightarrow> u8 list \<Rightarrow> nat \<Rightarrow> outp \<times> nat" where
  "fputsn out fd str n = write_fd out fd (take n str)"

text \<open>The buffers of the four conversions hold 20 characters, the terminator of \<open>num_to_base\<close> among them.\<close>

definition number_buffer :: nat where
  "number_buffer = 20"

definition print_base :: "outp \<Rightarrow> nat \<Rightarrow> u32 \<Rightarrow> u32 \<Rightarrow> (outp \<times> nat) option" where
  "print_base out fd num base =
     (case num_to_base num base of
        None \<Rightarrow> None
      | Some (str, digits) \<Rightarrow> if length str + 1 > number_buffer then None else Some (fputsn out fd str digits))"

definition print_hex :: "outp \<Rightarrow> nat \<Rightarrow> u32 \<Rightarrow> (outp \<times> nat) option" where
  "print_hex out fd num = print_base out fd num 16"

definition print_dec :: "outp \<Rightarrow> nat \<Rightarrow> u32 \<Rightarrow> (outp \<times> nat) option" where
  "print_dec out fd num =
     (if num <s 0
      then map_option (\<lambda>(out', w). (out', w + 1)) (print_base (fputc out fd 45) fd (- num) 10)
      else print_base out fd num 10)"

definition print_oct :: "outp \<Rightarrow> nat \<Rightarrow> u32 \<Rightarrow> (outp \<times> nat) option" where
  "print_oct out fd num = print_base out fd num 8"

definition print_bin :: "outp \<Rightarrow> nat \<Rightarrow> u32 \<Rightarrow> (outp \<times> nat) option" where
  "print_bin out fd num = print_base out fd num 2"

text \<open>The characters s, x, d, o, b and c.\<close>

definition SUPPORTED_PRINTF_FORMATS :: "u8 list" where
  "SUPPORTED_PRINTF_FORMATS = [115, 120, 100, 111, 98, 99]"

fun print_arg :: "outp \<Rightarrow> nat \<Rightarrow> va list \<Rightarrow> u8 \<Rightarrow> (outp \<times> nat \<times> va list) option" where
  "print_arg out fd (StrArg s # ap) option =
     (if option = 115 then (case fputs out fd s of (out', w) \<Rightarrow> Some (out', w, ap)) else None)"
| "print_arg out fd (IntArg i # ap) option =
     (if option = 120 then map_option (\<lambda>(out', w). (out', w, ap)) (print_hex out fd i)
      else if option = 100 then map_option (\<lambda>(out', w). (out', w, ap)) (print_dec out fd i)
      else if option = 111 then map_option (\<lambda>(out', w). (out', w, ap)) (print_oct out fd i)
      else if option = 98 then map_option (\<lambda>(out', w). (out', w, ap)) (print_bin out fd i)
      else if option = 99 then Some (fputc out fd (ucast (i AND 0xFF)), 1, ap)
      else None)"
| "print_arg out fd [] option = None"

text \<open>\<open>strchr\<close> of the terminator is NULL, so a \<open>%\<close> at the end of the format prints itself.\<close>

function vfprintf :: "outp \<Rightarrow> nat \<Rightarrow> u8 list \<Rightarrow> va list \<Rightarrow> nat \<Rightarrow> (outp \<times> nat) option" where
  "vfprintf out fd [] ap written = Some (out, written)"
| "vfprintf out fd (c # fmt) ap written =
     (if c = 37
      then let option = (case fmt of [] \<Rightarrow> 0 | x # xs \<Rightarrow> x) in
           if option \<notin> set SUPPORTED_PRINTF_FORMATS then vfprintf (fputc out fd 37) fd fmt ap (written + 1)
           else (case print_arg out fd ap option of
                   None \<Rightarrow> None
                 | Some (out', w, ap') \<Rightarrow> vfprintf out' fd (tl fmt) ap' (written + w))
      else vfprintf (fputc out fd c) fd fmt ap (written + 1))"
  by pat_completeness auto
termination by (relation "measure (\<lambda>(out, fd, fmt, ap, w). length fmt)") auto

definition fprintf :: "outp \<Rightarrow> nat \<Rightarrow> u8 list \<Rightarrow> va list \<Rightarrow> (outp \<times> nat) option" where
  "fprintf out fd fmt ap = vfprintf out fd fmt ap 0"

definition printf :: "outp \<Rightarrow> u8 list \<Rightarrow> va list \<Rightarrow> (outp \<times> nat) option" where
  "printf out fmt ap = vfprintf out STDOUT fmt ap 0"

section \<open>What a format means\<close>

text \<open>
  A format as a sequence of pieces: literal characters, and conversions together with the argument each of
  them consumes.
\<close>

datatype piece = Lit u8 | Strp "u8 list" | Dec u32 | Hexa u32 | Octa u32 | Bina u32 | Chr u32

fun piece_format :: "piece \<Rightarrow> u8 list" where
  "piece_format (Lit c) = [c]"
| "piece_format (Strp s) = [37, 115]"
| "piece_format (Dec i) = [37, 100]"
| "piece_format (Hexa i) = [37, 120]"
| "piece_format (Octa i) = [37, 111]"
| "piece_format (Bina i) = [37, 98]"
| "piece_format (Chr i) = [37, 99]"

fun piece_args :: "piece \<Rightarrow> va list" where
  "piece_args (Lit c) = []"
| "piece_args (Strp s) = [StrArg s]"
| "piece_args (Dec i) = [IntArg i]"
| "piece_args (Hexa i) = [IntArg i]"
| "piece_args (Octa i) = [IntArg i]"
| "piece_args (Bina i) = [IntArg i]"
| "piece_args (Chr i) = [IntArg i]"

definition digits_text :: "nat \<Rightarrow> nat \<Rightarrow> u8 list" where
  "digits_text b n = map base_char (numeral_digits b n)"

definition int_text :: "int \<Rightarrow> u8 list" where
  "int_text n = (if n < 0 then 45 # digits_text 10 (nat (- n)) else digits_text 10 (nat n))"

fun piece_text :: "piece \<Rightarrow> u8 list" where
  "piece_text (Lit c) = [c]"
| "piece_text (Strp s) = s"
| "piece_text (Dec i) = int_text (sint i)"
| "piece_text (Hexa i) = digits_text 16 (unat i)"
| "piece_text (Octa i) = digits_text 8 (unat i)"
| "piece_text (Bina i) = digits_text 2 (unat i)"
| "piece_text (Chr i) = [ucast i]"

text \<open>
  No literal is a percent sign, no character is 0, and a number printed in base 2 is short enough for its
  buffer.
\<close>

fun piece_ok :: "piece \<Rightarrow> bool" where
  "piece_ok (Lit c) \<longleftrightarrow> c \<noteq> 0 \<and> c \<noteq> 37"
| "piece_ok (Strp s) \<longleftrightarrow> 0 \<notin> set s"
| "piece_ok (Bina i) \<longleftrightarrow> unat i < 2 ^ 19"
| "piece_ok (Chr i) \<longleftrightarrow> (ucast i :: u8) \<noteq> 0"
| "piece_ok p \<longleftrightarrow> True"

lemma fputc_out: "fd = STDOUT \<or> fd = STDERR \<Longrightarrow> c \<noteq> 0 \<Longrightarrow> fputc out fd c = out @ [(fd, c)]"
  by (auto simp: fputc_def write_fd_def)

lemma fputs_out:
  "fd = STDOUT \<or> fd = STDERR \<Longrightarrow> 0 \<notin> set s \<Longrightarrow> fputs out fd s = (out @ map (Pair fd) s, length s)"
  by (induction s arbitrary: out) (auto simp: fputc_out)

lemma base_char_not_0: "d < 36 \<Longrightarrow> base_char d \<noteq> 0"
proof -
  have "\<forall>d \<in> set [0..<36]. base_char d \<noteq> 0" by code_simp
  then show "d < 36 \<Longrightarrow> base_char d \<noteq> 0" by simp
qed

lemma digits_text_not_0: "2 \<le> b \<Longrightarrow> b \<le> 36 \<Longrightarrow> 0 \<notin> set (digits_text b n)"
proof
  assume b: "2 \<le> b" "b \<le> 36" and "0 \<in> set (digits_text b n)"
  then obtain d where "d \<in> set (numeral_digits b n)" "base_char d = 0" by (auto simp: digits_text_def)
  moreover have "\<forall>d \<in> set (numeral_digits b n). d < b" using numeral_digits_value [OF b(1)] by blast
  ultimately show False using base_char_not_0 [of d] b(2) by auto
qed

lemma write_fd_string:
  assumes "fd = STDOUT \<or> fd = STDERR" "0 \<notin> set s"
  shows "write_fd out fd s = (out @ map (Pair fd) s, length s)"
proof -
  have "takeWhile (\<lambda>c. c \<noteq> 0) s = s" using assms(2) by (induction s) auto
  then show ?thesis using assms(1) unfolding write_fd_def by argo
qed

lemma print_base_text:
  assumes fd: "fd = STDOUT \<or> fd = STDERR" and b: "2 \<le> unat base" "unat base \<le> 36"
    and short: "unat num < unat base ^ 19"
  shows "print_base out fd num base =
    Some (out @ map (Pair fd) (digits_text (unat base) (unat num)), length (digits_text (unat base) (unat num)))"
proof -
  let ?t = "digits_text (unat base) (unat num)"
  have n: "num_to_base num base = Some (?t, length ?t)"
    using base_string_spec [OF b, of num] by (simp add: num_to_base_def digits_text_def)
  have "length (numeral_digits (unat base) (unat num)) \<le> Suc 18"
    using short b(1) by (intro numeral_digits_length) simp_all
  moreover from this have "length ?t + 1 \<le> number_buffer" by (simp add: digits_text_def number_buffer_def)
  ultimately show ?thesis
    using n write_fd_string [OF fd digits_text_not_0 [OF b]] by (simp add: print_base_def fputsn_def)
qed

lemma u32_short: "8 \<le> b \<Longrightarrow> unat (w :: u32) < b ^ 19"
proof -
  assume "8 \<le> b"
  then have "8 ^ 19 \<le> b ^ 19" by (rule power_mono) simp
  then show "unat w < b ^ 19" using unat_u32_less [of w] by simp
qed

lemma print_base_large:
  assumes "fd = STDOUT \<or> fd = STDERR" "8 \<le> unat base" "unat base \<le> 36"
  shows "print_base out fd num base =
    Some (out @ map (Pair fd) (digits_text (unat base) (unat num)), length (digits_text (unat base) (unat num)))"
  by (rule print_base_text) (use assms u32_short in auto)

lemma print_dec_text:
  assumes fd: "fd = STDOUT \<or> fd = STDERR"
  shows "print_dec out fd i = Some (out @ map (Pair fd) (int_text (sint i)), length (int_text (sint i)))"
proof (cases "i <s 0")
  case True
  then have neg: "sint i < 0" by (simp add: word_sless_alt)
  have "unat (- i) = nat (- sint i)"
  proof -
    have "- (2 ^ 31) \<le> sint i" using sint_greater_eq [of i] by simp
    then have "(- sint i) mod 2 ^ 32 = - sint i" using neg by (intro mod_pos_pos_trivial) simp_all
    then have "uint (word_of_int (- sint i) :: u32) = - sint i" unfolding uint_word_of_int by simp
    moreover have "word_of_int (- sint i) = - i" by simp
    ultimately show ?thesis by (metis unat_eq_nat_uint)
  qed
  then show ?thesis
    using True neg print_base_large [OF fd, of 10 "fputc out fd 45" "- i"] fputc_out [OF fd, of 45 out]
    by (simp add: print_dec_def int_text_def)
next
  case False
  then have pos: "0 \<le> sint i" by (simp add: word_sless_alt)
  then have "sint i mod 2 ^ 32 = sint i" using sint_less [of i] by (intro mod_pos_pos_trivial) simp_all
  then have "uint (word_of_int (sint i) :: u32) = sint i" unfolding uint_word_of_int by simp
  then have "unat i = nat (sint i)" by (simp add: unat_eq_nat_uint)
  then show ?thesis
    using False pos print_base_large [OF fd, of 10 out i] by (simp add: print_dec_def int_text_def)
qed

lemma vfprintf_piece:
  assumes "fd = STDOUT \<or> fd = STDERR" "piece_ok p"
  shows "vfprintf out fd (piece_format p @ fmt) (piece_args p @ ap) w =
    vfprintf (out @ map (Pair fd) (piece_text p)) fd fmt ap (w + length (piece_text p))"
proof (cases p)
  case (Chr i)
  have "i AND 0xFF = take_bit 8 i" by (simp add: take_bit_eq_mask mask_eq_exp_minus_1)
  then have "(ucast (i AND 0xFF) :: u8) = ucast i" by (intro bit_word_eqI) (simp add: bit_simps)
  then show ?thesis using assms Chr by (simp add: SUPPORTED_PRINTF_FORMATS_def fputc_out)
qed (use assms in \<open>simp_all add: SUPPORTED_PRINTF_FORMATS_def fputc_out fputs_out print_dec_text
       print_hex_def print_oct_def print_bin_def print_base_large print_base_text\<close>)

lemma vfprintf_pieces:
  assumes "fd = STDOUT \<or> fd = STDERR" "\<forall>p \<in> set ps. piece_ok p"
  shows "vfprintf out fd (concat (map piece_format ps)) (concat (map piece_args ps)) w =
    Some (out @ map (Pair fd) (concat (map piece_text ps)), w + length (concat (map piece_text ps)))"
  using assms(2)
proof (induction ps arbitrary: out w)
  case (Cons p ps)
  show ?case using Cons vfprintf_piece [OF assms(1), of p] by simp
qed simp

section \<open>Properties\<close>

text \<open>
  C13: \<open>printf\<close> prints what its format says. For every sequence of pieces, the characters written are the
  literals, the strings, the characters and the numbers with their sign and digits in base 2, 8, 10 or 16,
  in order; all arguments are consumed in order, and the answer is the number of characters written. It
  holds for every 32-bit number, the smallest one included, except in base 2, where the number must be
  below \<open>2 ^ 19\<close>.
\<close>

theorem fprintf_correct:
  assumes "fd = STDOUT \<or> fd = STDERR" "\<forall>p \<in> set ps. piece_ok p"
  shows "fprintf out fd (concat (map piece_format ps)) (concat (map piece_args ps)) =
    Some (out @ map (Pair fd) (concat (map piece_text ps)), length (concat (map piece_text ps)))"
  using vfprintf_pieces [OF assms] by (simp add: fprintf_def)

theorem fprintf_correct_witness:
  "fprintf [] STDOUT [37, 100, 58, 37, 120] [IntArg (- 10), IntArg 255] =
     Some (map (Pair STDOUT) [45, 49, 48, 58, 70, 70], 6)"
proof -
  have "sint (- 10 :: u32) = - 10" by simp
  then show ?thesis
    using fprintf_correct [of STDOUT "[Dec (- 10), Lit 58, Hexa 255]" "[]"]
    by (simp add: int_text_def digits_text_def numeral_digits.simps base_char_def)
qed

text \<open>
  where the contract of \<open>printf\<close> ends. A percent sign in front of a character that is no conversion
  prints itself and consumes nothing; a conversion without its argument, or with one of the other kind, is
  undefined; so is a number of \<open>2 ^ 19\<close> or more in base 2, whose digits overrun the buffer.
\<close>

theorem printf_limits:
  "(c \<notin> set SUPPORTED_PRINTF_FORMATS \<longrightarrow>
      fprintf out STDOUT (37 # c # fmt) ap = vfprintf (fputc out STDOUT 37) STDOUT (c # fmt) ap 1) \<and>
   (c \<in> set SUPPORTED_PRINTF_FORMATS \<longrightarrow> fprintf out STDOUT (37 # c # fmt) [] = None) \<and>
   fprintf out STDOUT (37 # 115 # fmt) (IntArg i # ap) = None \<and>
   (2 ^ 19 \<le> unat i \<longrightarrow> fprintf out STDOUT (37 # 98 # fmt) (IntArg i # ap) = None)"
proof -
  have "print_bin out STDOUT i = None" if "2 ^ 19 \<le> unat i"
  proof -
    have "num_to_base i 2 = Some (map base_char (numeral_digits 2 (unat i)), length (numeral_digits 2 (unat i)))"
      using base_string_spec [of "2 :: u32" i] by (simp add: num_to_base_def)
    moreover have "20 \<le> length (numeral_digits 2 (unat i))"
      using numeral_digits_long [OF order_refl that] by simp
    ultimately show ?thesis by (simp add: print_bin_def print_base_def number_buffer_def)
  qed
  then show ?thesis by (auto simp: fprintf_def SUPPORTED_PRINTF_FORMATS_def)
qed

theorem printf_limits_witness:
  "fprintf [] STDOUT [37, 98] [IntArg 524288] = None \<and> fprintf [] STDOUT [37, 115] [] = None"
  using printf_limits [of 115 "[]" "[]" "[]" 524288] by (simp add: SUPPORTED_PRINTF_FORMATS_def)

end
