(* ===== verification/Scanf.thy ===== *)
theory Scanf
  imports Printf Ctype
begin

text \<open>
  Formatted input of the user library, the second half of \<open>lib/stdio.c\<close>. What the descriptors deliver is a
  sequence of characters; what the conversions store through their pointers is collected in order. \<open>None\<close>
  stands for reading or writing behind the end of a string or buffer, or for input that has not come yet.
\<close>

section \<open>Operations\<close>

datatype stored = SStr "u8 list" | SInt u32 | SChr u8

definition EOF :: u8 where
  "EOF = - 1"

definition INT_MAX :: u32 where
  "INT_MAX = 2147483647"

definition MAX_SIZE :: nat where
  "MAX_SIZE = 64"

text \<open>The character a pointer into a string points to, which is 0 at its end.\<close>

definition char_at :: "u8 list \<Rightarrow> u8" where
  "char_at str = (case str of [] \<Rightarrow> 0 | c # cs \<Rightarrow> c)"

definition skip_spaces :: "u8 list \<Rightarrow> u8 list" where
  "skip_spaces = dropWhile (\<lambda>c. isspace (sint c))"

fun read_str :: "u8 list \<Rightarrow> u8 \<Rightarrow> u8 list" where
  "read_str [] nextchar = []"
| "read_str (c # buffer) nextchar =
     (if \<not> isspace (sint c) \<and> c \<noteq> 0 \<and> c \<noteq> EOF \<and> c \<noteq> nextchar then c # read_str buffer nextchar else [])"

fun dec_loop :: "u8 list \<Rightarrow> u32 \<Rightarrow> nat \<Rightarrow> u32 \<times> nat" where
  "dec_loop [] number digits = (number, digits)"
| "dec_loop (c # buffer) number digits =
     (if isspace (sint c) \<or> c = 0 \<or> c = EOF then (number, digits)
      else if sint c < 48 \<or> sint c > 57 \<or> \<not> (0 \<le>s number \<and> number \<le>s INT_MAX - 1) then (number, digits)
      else dec_loop buffer (number * 10 + scast c - 48) (digits + 1))"

definition read_dec :: "u8 list \<Rightarrow> u32 \<times> nat" where
  "read_dec buffer =
     (if char_at buffer = 45
      then case dec_loop (tl buffer) 0 0 of (number, digits) \<Rightarrow> (- number, digits + 1)
      else dec_loop buffer 0 0)"

definition read_arg :: "u8 list \<Rightarrow> u8 \<Rightarrow> u8 \<Rightarrow> nat \<times> stored list" where
  "read_arg buffer option nextchar =
     (if option = 115 then (let s = read_str buffer nextchar in (length s, [SStr s]))
      else if option = 100 then (case read_dec buffer of (number, len) \<Rightarrow> (len, [SInt number]))
      else if option = 99 then (1, [SChr (char_at buffer)])
      else (0, []))"

text \<open>The characters s, d and c.\<close>

definition SUPPORTED_SCANF_FORMATS :: "u8 list" where
  "SUPPORTED_SCANF_FORMATS = [115, 100, 99]"

text \<open>A message on the error descriptor, with a conversion between quotes at its end.\<close>

definition complain :: "outp \<Rightarrow> string \<Rightarrow> string \<Rightarrow> va list \<Rightarrow> outp option" where
  "complain out msg conv ap =
     map_option fst (fprintf out STDERR (str_bytes msg @ [39] @ str_bytes conv @ [39, 10]) ap)"

lemma skip_spaces_length: "skip_spaces fmt = f # fs \<Longrightarrow> length fs < length fmt"
  using length_dropWhile_le [of "\<lambda>c. isspace (sint c)" fmt] by (simp add: skip_spaces_def)

text \<open>
  The loop of \<open>vsscanf\<close>. When only spaces were left of both strings, their terminators compare equal and
  both pointers move behind them.
\<close>

function scan_loop ::
  "outp \<Rightarrow> u8 list \<Rightarrow> u8 list \<Rightarrow> u8 list \<Rightarrow> stored list \<Rightarrow> nat \<Rightarrow> (outp \<times> stored list \<times> int) option" where
  "scan_loop out format buffer fmt st read =
     (if buffer \<noteq> [] \<and> fmt \<noteq> []
      then case skip_spaces fmt of
             [] \<Rightarrow>
               (if skip_spaces buffer = [] then None
                else map_option (\<lambda>out'. (out', st, int read))
                       (complain out ''Wrong format, expected character '' ''%c'' [IntArg 0]))
           | f # fs \<Rightarrow>
               let buf = skip_spaces buffer in
               if f = 37
               then if char_at fs \<notin> set SUPPORTED_SCANF_FORMATS
                    then map_option (\<lambda>out'. (out', st, int read))
                           (complain out ''Unsupported format '' ''%%c'' [IntArg (scast (char_at fs))])
                    else (case read_arg buf (char_at fs) (char_at (tl fs)) of
                            (len, v) \<Rightarrow>
                              if len = 0
                              then map_option (\<lambda>out'. (out', st @ v, int read))
                                     (complain out ''Wrong format, expected '' ''%%c'' [IntArg (scast (char_at fs))])
                              else if len > length buf then None
                              else scan_loop out format (drop len buf) (tl fs) (st @ v) (read + 1))
               else if char_at buf \<noteq> f
                    then map_option (\<lambda>out'. (out', st, int read))
                           (complain out ''Wrong format, expected character '' ''%c'' [IntArg (scast f)])
                    else scan_loop out format (tl buf) fs st read
      else if skip_spaces fmt \<noteq> [] \<or> skip_spaces buffer \<noteq> []
           then map_option (\<lambda>out'. (out', st, - 1)) (complain out ''Wrong format, expected '' ''%s'' [StrArg format])
           else Some (out, st, int read))"
  by pat_completeness auto

termination
proof (relation "measure (\<lambda>(out, format, buffer, fmt, st, read). length fmt)", goal_cases)
  case (2 out format buffer fmt st read f fs)
  then have "length fs < length fmt" by (intro skip_spaces_length)
  then show ?case by simp
next
  case (3 out format buffer fmt st read f fs)
  then have "length fs < length fmt" by (intro skip_spaces_length)
  then show ?case by simp
qed simp

declare scan_loop.simps [simp del]

definition vsscanf :: "outp \<Rightarrow> u8 list \<Rightarrow> u8 list \<Rightarrow> (outp \<times> stored list \<times> int) option" where
  "vsscanf out buffer fmt = scan_loop out fmt buffer fmt [] 0"

definition sscanf :: "outp \<Rightarrow> u8 list \<Rightarrow> u8 list \<Rightarrow> (outp \<times> stored list \<times> int) option" where
  "sscanf out str fmt = vsscanf out str fmt"

text \<open>
  A line from a descriptor. The character that ends the loop is consumed, also when it is one too many.
\<close>

fun fgets_loop ::
  "nat \<Rightarrow> nat \<Rightarrow> u8 list \<Rightarrow> outp \<Rightarrow> u8 list \<Rightarrow> nat \<Rightarrow> (u8 list \<times> outp \<times> u8 list \<times> nat \<times> u8) option" where
  "fgets_loop fd n [] out str read = None"
| "fgets_loop fd n (c # input) out str read =
     (if c = EOF \<or> c = 10 \<or> \<not> read < n then Some (input, out, str, read, c)
      else if sint c > 0
      then if c = 8
           then if read > 0
                then fgets_loop fd n input (if fd = STDIN then fputc out STDOUT c else out)
                       (str[read - 1 := 0]) (read - 1)
                else fgets_loop fd n input out str read
           else if read < length str
                then fgets_loop fd n input (if fd = STDIN then fputc out STDOUT c else out)
                       (str[read := c]) (read + 1)
                else None
      else fgets_loop fd n input out str read)"

text \<open>The array after the call, and whether it is returned rather than NULL.\<close>

definition fgets :: "nat \<Rightarrow> u8 list \<Rightarrow> outp \<Rightarrow> u8 list \<Rightarrow> nat \<Rightarrow> (u8 list \<times> outp \<times> u8 list \<times> bool) option" where
  "fgets fd input out str n =
     (case fgets_loop fd n input out str 0 of
        None \<Rightarrow> None
      | Some (input', out', str', read, c) \<Rightarrow>
          let out'' = (if fd = STDIN then fputc out' STDOUT 10 else out') in
          if read = 0 \<and> c = EOF then Some (input', out'', str', False)
          else if read < length str' then Some (input', out'', str'[read := 0], True) else None)"

definition gets :: "u8 list \<Rightarrow> outp \<Rightarrow> u8 list \<Rightarrow> nat \<Rightarrow> (u8 list \<times> outp \<times> u8 list \<times> bool) option" where
  "gets input out str n = fgets STDIN input out str n"

definition cstring :: "u8 list \<Rightarrow> u8 list" where
  "cstring str = takeWhile (\<lambda>c. c \<noteq> 0) str"

text \<open>\<open>buffer\<close> is the array of the C function, whose content is not initialised.\<close>

definition vfscanf ::
  "nat \<Rightarrow> u8 list \<Rightarrow> outp \<Rightarrow> u8 list \<Rightarrow> u8 list \<Rightarrow> (u8 list \<times> outp \<times> stored list \<times> int) option" where
  "vfscanf fd input out buffer fmt =
     (case fgets fd input out buffer MAX_SIZE of
        None \<Rightarrow> None
      | Some (input', out', buffer', ok) \<Rightarrow>
          if \<not> ok then Some (input', out', [], - 1)
          else map_option (\<lambda>(out'', st, read). (input', out'', st, read)) (vsscanf out' (cstring buffer') fmt))"

definition scanf ::
  "u8 list \<Rightarrow> outp \<Rightarrow> u8 list \<Rightarrow> u8 list \<Rightarrow> (u8 list \<times> outp \<times> stored list \<times> int) option" where
  "scanf input out buffer fmt = vfscanf STDIN input out buffer fmt"

definition fscanf ::
  "nat \<Rightarrow> u8 list \<Rightarrow> outp \<Rightarrow> u8 list \<Rightarrow> u8 list \<Rightarrow> (u8 list \<times> outp \<times> stored list \<times> int) option" where
  "fscanf fd input out buffer fmt = vfscanf fd input out buffer fmt"

lemma fgets_loop_shorter: "fgets_loop fd n input out str read = Some (rest, r) \<Longrightarrow> length rest < length input"
  by (induction fd n input out str read rule: fgets_loop.induct) (auto split: if_splits)

lemma vfscanf_shorter: "vfscanf fd input out buffer fmt = Some (rest, r) \<Longrightarrow> length rest < length input"
  by (auto simp: vfscanf_def fgets_def Let_def split: option.splits if_splits dest!: fgets_loop_shorter)

section \<open>Reading numbers back\<close>

lemma digits_text_10: "digits_text 10 n = digit_chars (numeral_digits 10 n)"
proof -
  have "\<forall>d \<in> set (numeral_digits 10 n). d < 10" using numeral_digits_value [of 10 n] by simp
  then show ?thesis by (auto simp: digits_text_def digit_chars_def base_char_def intro!: map_cong)
qed

lemma digit_not_space:
  assumes "d < 10"
  shows "\<not> isspace (sint (of_nat (d + 48) :: u8))" "(of_nat (d + 48) :: u8) \<noteq> EOF"
proof -
  have "sint (of_nat (d + 48) :: u8) = int d + 48" by (rule digit_char_facts(2) [OF assms])
  moreover have "sint EOF = - 1" by (simp add: EOF_def)
  ultimately show "\<not> isspace (sint (of_nat (d + 48) :: u8))" "(of_nat (d + 48) :: u8) \<noteq> EOF"
    using assms by (auto simp: isspace_def)
qed

text \<open>Where a number ends: at the end of the text or at a character that is no digit.\<close>

definition number_ends :: "u8 list \<Rightarrow> bool" where
  "number_ends rest \<longleftrightarrow> (case rest of [] \<Rightarrow> True | c # cs \<Rightarrow> \<not> isdigit (sint c))"

lemma foldl_value_mono: "k \<le> foldl (\<lambda>v d. v * 10 + d) k ds" for k :: nat
proof (induction ds arbitrary: k)
  case (Cons d ds)
  have "k \<le> k * 10 + d" by simp
  also have "\<dots> \<le> foldl (\<lambda>v d. v * 10 + d) (k * 10 + d) ds" by (rule Cons.IH)
  finally show ?case by simp
qed simp

lemma dec_loop_digits:
  assumes "\<forall>d \<in> set ds. d < 10" "foldl (\<lambda>v d. v * 10 + d) (unat num) ds < 2 ^ 31" "number_ends rest"
  shows "dec_loop (digit_chars ds @ rest) num k =
    (of_nat (foldl (\<lambda>v d. v * 10 + d) (unat num) ds), k + length ds)"
  using assms(1,2)
proof (induction ds arbitrary: num k)
  case Nil
  then show ?case using assms(3)
    by (cases rest) (auto simp: digit_chars_def number_ends_def isdigit_def)
next
  case (Cons d ds)
  let ?c = "of_nat (d + 48) :: u8" and ?n = "num * 10 + of_nat d"
  have d: "d < 10" using Cons.prems(1) by simp
  have small: "unat num * 10 + d < 2 ^ 31"
    using foldl_value_mono [of "unat num * 10 + d" ds] Cons.prems(2) by simp
  then have n: "unat ?n = unat num * 10 + d"
    using unat_plus_no_wrap [of "num * 10" "of_nat d"] unat_mult_lem [of num "10 :: u32"] d by (simp add: unat_of_nat)
  have s: "sint num = int (unat num)" using small by (intro sint_small) simp
  have "unat num \<le> 2147483646" using small by simp
  then have "int (unat num) \<le> 2147483646" by (metis of_nat_le_iff of_nat_numeral)
  with s have le: "0 \<le>s num" "num \<le>s INT_MAX - 1" by (simp_all add: word_sle_eq INT_MAX_def)
  have step: "num * 10 + scast ?c - 48 = ?n"
    using digit_char_facts(3) [OF d] by (simp add: algebra_simps)
  have "dec_loop (digit_chars (d # ds) @ rest) num k = dec_loop (digit_chars ds @ rest) ?n (k + 1)"
    using digit_char_facts(1,2) [OF d] digit_not_space [OF d] d le
    by (simp add: digit_chars_def step del: of_nat_add)
  also have "\<dots> = (of_nat (foldl (\<lambda>v d. v * 10 + d) (unat ?n) ds), k + 1 + length ds)"
    using Cons.IH [of ?n "k + 1"] Cons.prems n by simp
  finally show ?case by (simp add: n)
qed

lemma read_dec_text:
  assumes "- (2 ^ 31) < n" "n < 2 ^ 31" "number_ends rest"
  shows "read_dec (int_text n @ rest) = (of_int n, length (int_text n))"
proof -
  have v: "dec_loop (digits_text 10 k @ rest) 0 0 = (of_nat k, length (digits_text 10 k))" if "k < 2 ^ 31" for k
    using dec_loop_digits [of "numeral_digits 10 k" 0 rest 0] numeral_digits_value [of 10 k] assms(3) that
    by (simp add: digits_text_10 digit_chars_def)
  show ?thesis
  proof (cases "n < 0")
    case True
    then show ?thesis using v [of "nat (- n)"] assms(1)
      by (simp add: int_text_def read_dec_def char_at_def)
  next
    case False
    obtain d ds where ds: "numeral_digits 10 (nat n) = d # ds"
      using numeral_digits_not_Nil [of 10 "nat n"] by (cases "numeral_digits 10 (nat n)") auto
    then have d: "d < 10" using numeral_digits_value [of 10 "nat n"] by simp
    have "(of_nat (d + 48) :: u8) \<noteq> 45"
    proof
      assume "(of_nat (d + 48) :: u8) = 45"
      then have "int d + 48 = sint (45 :: u8)" using digit_char_facts(2) [OF d] by argo
      then show False by simp
    qed
    then have "char_at (digits_text 10 (nat n) @ rest) \<noteq> 45"
      by (simp add: char_at_def digits_text_10 digit_chars_def ds del: of_nat_add)
    then show ?thesis using v [of "nat n"] False assms(2) by (simp add: int_text_def read_dec_def)
  qed
qed

section \<open>Formats read back\<close>

text \<open>
  Pieces that can be told apart when read: no spaces, a number is followed by no digit, a string is not
  empty and is followed by a literal that does not occur in it, or ends the text.
\<close>

definition solid :: "u8 \<Rightarrow> bool" where
  "solid c \<longleftrightarrow> c \<noteq> 0 \<and> c \<noteq> EOF \<and> \<not> isspace (sint c)"

fun scannable :: "piece list \<Rightarrow> bool" where
  "scannable [] \<longleftrightarrow> True"
| "scannable (Lit c # ps) \<longleftrightarrow> solid c \<and> c \<noteq> 37 \<and> scannable ps"
| "scannable (Dec i # ps) \<longleftrightarrow> - (2 ^ 31) < sint i \<and>
     (case ps of [] \<Rightarrow> True | Lit c # _ \<Rightarrow> \<not> isdigit (sint c) | _ \<Rightarrow> False) \<and> scannable ps"
| "scannable (Strp s # ps) \<longleftrightarrow> s \<noteq> [] \<and> (\<forall>c \<in> set s. solid c) \<and>
     (case ps of [] \<Rightarrow> True | Lit c # _ \<Rightarrow> c \<notin> set s | _ \<Rightarrow> False) \<and> scannable ps"
| "scannable (Chr i # ps) \<longleftrightarrow> solid (ucast i) \<and> scannable ps"
| "scannable (_ # ps) \<longleftrightarrow> False"

fun piece_stored :: "piece \<Rightarrow> stored list" where
  "piece_stored (Strp s) = [SStr s]"
| "piece_stored (Dec i) = [SInt i]"
| "piece_stored (Chr i) = [SChr (ucast i)]"
| "piece_stored _ = []"

definition format_of :: "piece list \<Rightarrow> u8 list" where
  "format_of ps = concat (map piece_format ps)"

definition text_of :: "piece list \<Rightarrow> u8 list" where
  "text_of ps = concat (map piece_text ps)"

lemma skip_solid: "solid c \<Longrightarrow> skip_spaces (c # cs) = c # cs"
  by (simp add: skip_spaces_def solid_def)

lemma percent_solid: "solid 37"
  by (simp add: solid_def EOF_def isspace_def)

lemma int_text_solid: "\<exists>c cs. int_text n = c # cs \<and> solid c"
proof (cases "n < 0")
  case True
  then show ?thesis by (simp add: int_text_def solid_def EOF_def isspace_def)
next
  case False
  obtain d ds where ds: "numeral_digits 10 (nat n) = d # ds"
    using numeral_digits_not_Nil [of 10 "nat n"] by (cases "numeral_digits 10 (nat n)") auto
  then have "d < 10" using numeral_digits_value [of 10 "nat n"] by simp
  with False ds show ?thesis
    using digit_not_space [of d] digit_char_facts(1) [of d]
    by (simp add: int_text_def digits_text_10 digit_chars_def solid_def del: of_nat_add)
qed

lemma read_str_solid:
  "\<forall>c \<in> set s. solid c \<Longrightarrow> nc \<notin> set s \<Longrightarrow> rest = [] \<or> char_at rest = nc \<Longrightarrow> read_str (s @ rest) nc = s"
proof (induction s)
  case Nil
  then show ?case by (cases rest) (auto simp: char_at_def)
qed (auto simp: solid_def)

lemma format_of_Cons: "format_of (p # ps) = piece_format p @ format_of ps"
  by (simp add: format_of_def)

lemma text_of_Cons: "text_of (p # ps) = piece_text p @ text_of ps"
  by (simp add: text_of_def)

lemma scan_conversion:
  assumes "solid c" "o' \<in> set SUPPORTED_SCANF_FORMATS" "read_arg (c # cs) o' (char_at fmt) = (len, v)"
    and "0 < len" "len \<le> length (c # cs)"
  shows "scan_loop out format (c # cs) (37 # o' # fmt) st read =
    scan_loop out format (drop len (c # cs)) fmt (st @ v) (read + 1)"
proof -
  have "skip_spaces (37 # o' # fmt) = 37 # o' # fmt" by (rule skip_solid [OF percent_solid])
  then show ?thesis
    using assms skip_solid [OF assms(1), of cs]
    by (subst scan_loop.simps) (simp add: Let_def char_at_def)
qed

lemma scan_literal:
  assumes "solid c" "c \<noteq> 37"
  shows "scan_loop out format (c # cs) (c # fmt) st read = scan_loop out format cs fmt st read"
  using assms skip_solid [OF assms(1)] by (subst scan_loop.simps) (simp add: Let_def char_at_def)

lemma format_start: "scannable ps \<Longrightarrow> char_at (format_of ps) = (case ps of [] \<Rightarrow> 0 | Lit c # _ \<Rightarrow> c | _ \<Rightarrow> 37)"
  by (cases ps rule: scannable.cases) (simp_all add: format_of_def char_at_def)

lemma scan_pieces:
  "scannable ps \<Longrightarrow> scan_loop out format (text_of ps) (format_of ps) st read =
     Some (out, st @ concat (map piece_stored ps), int (read + length (concat (map piece_stored ps))))"
proof (induction ps arbitrary: st read rule: scannable.induct)
  case 1
  show ?case by (subst scan_loop.simps) (simp add: text_of_def format_of_def skip_spaces_def)
next
  case (2 c ps)
  then show ?case by (simp add: text_of_Cons format_of_Cons scan_literal)
next
  case (3 i ps)
  obtain c cs where t: "int_text (sint i) = c # cs" "solid c" using int_text_solid by blast
  have "number_ends (text_of ps)"
    using 3(2) by (cases ps rule: scannable.cases) (auto simp: number_ends_def text_of_def)
  moreover have "sint i < 2 ^ 31" using sint_less [of i] by simp
  ultimately have "read_dec (c # cs @ text_of ps) = (i, length (c # cs))"
    using read_dec_text [of "sint i" "text_of ps"] 3(2) t(1) by simp
  then have a: "read_arg (c # cs @ text_of ps) 100 (char_at (format_of ps)) = (length (c # cs), [SInt i])"
    by (simp add: read_arg_def)
  have "(100 :: u8) \<in> set SUPPORTED_SCANF_FORMATS" by (simp add: SUPPORTED_SCANF_FORMATS_def)
  from scan_conversion [OF t(2) this a] 3 t(1) show ?case by (simp add: text_of_Cons format_of_Cons)
next
  case (4 s ps)
  then obtain c cs where t: "s = c # cs" "solid c" by (cases s) auto
  have zero: "0 \<notin> set s" using 4(2) by (auto simp: solid_def)
  have "char_at (format_of ps) \<notin> set s \<and> (text_of ps = [] \<or> char_at (text_of ps) = char_at (format_of ps))"
  proof (cases ps rule: scannable.cases)
    case 1
    then show ?thesis using zero by (simp add: format_of_def text_of_def char_at_def)
  qed (use 4(2) in \<open>simp_all add: format_of_def text_of_def char_at_def\<close>)
  then have "read_str (c # cs @ text_of ps) (char_at (format_of ps)) = c # cs"
    using read_str_solid [of s "char_at (format_of ps)" "text_of ps"] 4(2) t(1) by simp
  then have a: "read_arg (c # cs @ text_of ps) 115 (char_at (format_of ps)) = (length (c # cs), [SStr s])"
    using t(1) by (simp add: read_arg_def Let_def)
  have "(115 :: u8) \<in> set SUPPORTED_SCANF_FORMATS" by (simp add: SUPPORTED_SCANF_FORMATS_def)
  from scan_conversion [OF t(2) this a] 4 t(1) show ?case by (simp add: text_of_Cons format_of_Cons)
next
  case (5 i ps)
  have a: "read_arg (ucast i # text_of ps) 99 (char_at (format_of ps)) = (1, [SChr (ucast i)])"
    by (simp add: read_arg_def char_at_def)
  have "(99 :: u8) \<in> set SUPPORTED_SCANF_FORMATS" by (simp add: SUPPORTED_SCANF_FORMATS_def)
  from scan_conversion [OF _ this a] 5 show ?case by (simp add: text_of_Cons format_of_Cons)
qed simp_all

section \<open>Lines\<close>

text \<open>A line as it is edited: a backspace takes back the last character, other controls beyond 127 are dropped.\<close>

definition edit :: "u8 list \<Rightarrow> u8 list \<Rightarrow> u8 list" where
  "edit acc cs = foldl (\<lambda>acc c. if sint c > 0 then if c = 8 then butlast acc else acc @ [c] else acc) acc cs"

lemma edit_Nil [simp]: "edit acc [] = acc"
  by (simp add: edit_def)

lemma edit_Cons: "edit acc (c # cs) = edit (edit acc [c]) cs"
  by (simp add: edit_def)

text \<open>What appears on the screen while the line is typed.\<close>

definition echoes :: "u8 list \<Rightarrow> u8 \<Rightarrow> bool" where
  "echoes acc c \<longleftrightarrow> sint c > 0 \<and> (c = 8 \<longrightarrow> acc \<noteq> [])"

fun echoed :: "u8 list \<Rightarrow> u8 list \<Rightarrow> u8 list" where
  "echoed acc [] = []"
| "echoed acc (c # cs) =
     (if echoes acc c then [c] else []) @ echoed (edit acc [c]) cs"

declare echoed.simps(2) [simp del]

text \<open>While a line is read, the array holds it, followed by a character behind it that is arbitrary.\<close>

text \<open>One character: what it does to the line, the array and the echo.\<close>

lemma fgets_loop_char:
  assumes "c \<noteq> EOF" "c \<noteq> 10" "n \<le> length str" "length acc < n" "take (length acc) str = acc"
  obtains str1 where "length str1 = length str" "take (length (edit acc [c])) str1 = edit acc [c]"
    "fgets_loop fd n (c # input) out str (length acc) =
      fgets_loop fd n input (out @ (if fd = STDIN \<and> echoes acc c then [(STDOUT, c)] else [])) str1 (length (edit acc [c]))"
proof -
  have out: "fputc out STDOUT c = out @ [(STDOUT, c)]" if "sint c > 0"
    using that fputc_out [of STDOUT c out] by (cases "c = 0") auto
  consider (key) "sint c > 0" "c \<noteq> 8" | (erase) "sint c > 0" "c = 8" "acc \<noteq> []" | (other) "\<not> sint c > 0"
    | (start) "sint c > 0" "c = 8" "acc = []" by blast
  then show thesis
  proof cases
    case key
    have "take (Suc (length acc)) (str[length acc := c]) = acc @ [c]"
      using assms(3-5) by (simp add: take_Suc_conv_app_nth)
    then show ?thesis using that [of "str[length acc := c]"] key assms(1-4) out by (simp add: edit_def echoes_def)
  next
    case erase
    have "take (length acc - 1) (str[length acc - 1 := 0]) = butlast acc"
      using arg_cong [OF assms(5), of "take (length acc - 1)"] by (simp add: butlast_conv_take)
    then show ?thesis using that [of "str[length acc - 1 := 0]"] erase assms(1,2,4) out by (simp add: edit_def echoes_def)
  next
    case other
    then show ?thesis using that [of str] assms(1,2,4,5) by (simp add: edit_def echoes_def)
  next
    case start
    then show ?thesis using that [of str] assms(1,2,4,5) by (simp add: edit_def echoes_def)
  qed
qed

lemma fgets_loop_line:
  assumes "\<forall>c \<in> set line. c \<noteq> EOF \<and> c \<noteq> 10" "n \<le> length str"
    and "length acc < n" "take (length acc) str = acc"
    and "\<forall>k \<le> length line. length (edit acc (take k line)) < n"
  shows "\<exists>str'. length str' = length str \<and> take (length (edit acc line)) str' = edit acc line \<and>
    fgets_loop fd n (line @ input) out str (length acc) =
    fgets_loop fd n input (out @ (if fd = STDIN then map (Pair STDOUT) (echoed acc line) else [])) str'
      (length (edit acc line))"
  using assms
proof (induction line arbitrary: acc str out)
  case Nil
  then show ?case by (auto simp: edit_def intro: exI [of _ str])
next
  case (Cons c line)
  let ?acc = "edit acc [c]" and ?out = "out @ (if fd = STDIN \<and> echoes acc c then [(STDOUT, c)] else [])"
  have c: "c \<noteq> EOF" "c \<noteq> 10" using Cons.prems(1) by auto
  have bounds: "\<forall>k \<le> length line. length (edit ?acc (take k line)) < n"
  proof safe
    fix k assume "k \<le> length line"
    then show "length (edit ?acc (take k line)) < n" using Cons.prems(5) [rule_format, of "Suc k"] edit_Cons [of acc c "take k line"] by simp
  qed
  from bounds [rule_format, of 0] have short: "length ?acc < n" by simp
  obtain str1 where s1: "length str1 = length str" "take (length ?acc) str1 = ?acc"
    "fgets_loop fd n ((c # line) @ input) out str (length acc) = fgets_loop fd n (line @ input) ?out str1 (length ?acc)"
    using fgets_loop_char [OF c Cons.prems(2-4), of fd "line @ input" out] by auto
  have h: "\<forall>c \<in> set line. c \<noteq> EOF \<and> c \<noteq> 10" "n \<le> length str1" using Cons.prems(1,2) s1(1) by simp_all
  from Cons.IH [OF h short s1(2) bounds, of ?out]
  obtain str' where s': "length str' = length str1" "take (length (edit ?acc line)) str' = edit ?acc line"
    "fgets_loop fd n (line @ input) ?out str1 (length ?acc) =
     fgets_loop fd n input (?out @ (if fd = STDIN then map (Pair STDOUT) (echoed ?acc line) else [])) str' (length (edit ?acc line))"
    by (elim exE conjE)
  have o: "?out @ (if fd = STDIN then map (Pair STDOUT) (echoed ?acc line) else []) =
      out @ (if fd = STDIN then map (Pair STDOUT) (echoed acc (c # line)) else [])"
    unfolding echoed.simps(2) by (cases "fd = STDIN"; cases "echoes acc c") simp_all
  show ?case
  proof (intro exI conjI)
    show "length str' = length str" using s'(1) s1(1) by (rule trans)
    show "take (length (edit acc (c # line))) str' = edit acc (c # line)" using s'(2) unfolding edit_Cons [of acc c line] .
    show "fgets_loop fd n ((c # line) @ input) out str (length acc) =
        fgets_loop fd n input (out @ (if fd = STDIN then map (Pair STDOUT) (echoed acc (c # line)) else [])) str'
          (length (edit acc (c # line)))"
      using s1(3) s'(3) unfolding o edit_Cons [of acc c line] by (rule trans)
  qed
qed

lemma edit_positive: "\<forall>c \<in> set acc. sint c > 0 \<Longrightarrow> c \<in> set (edit acc line) \<Longrightarrow> sint c > 0"
proof (induction line arbitrary: acc)
  case (Cons x line)
  have "\<forall>c \<in> set (edit acc [x]). sint c > 0"
    using Cons.prems(1) by (auto simp: edit_def dest: in_set_butlastD)
  then show ?case using Cons.IH [of "edit acc [x]"] Cons.prems(2) unfolding edit_Cons [of acc x line] by blast
qed simp

lemma cstring_prefix:
  assumes "k < length str" "take k str = s" "0 \<notin> set s"
  shows "cstring (str[k := 0]) = s"
proof -
  have "str[k := 0] = take k str @ 0 # drop (Suc k) str" using assms(1) by (simp add: upd_conv_take_nth_drop)
  moreover have "takeWhile (\<lambda>c. c \<noteq> 0) (s @ 0 # xs) = s" for xs using assms(3) by (induction s) auto
  ultimately show ?thesis unfolding cstring_def assms(2) by simp
qed

lemma edit_plain: "\<forall>c \<in> set l. sint c > 0 \<and> c \<noteq> 8 \<Longrightarrow> edit acc l = acc @ l"
proof (induction l arbitrary: acc)
  case (Cons y l)
  then show ?case unfolding edit_Cons [of acc y l] by (auto simp: edit_def)
qed simp

lemma int_text_chars: "c \<in> set (int_text n) \<Longrightarrow> 45 \<le> sint c"
proof -
  have "45 \<le> sint c" if k: "c \<in> set (digits_text 10 k)" for k
  proof -
    obtain d where "d \<in> set (numeral_digits 10 k)" "c = of_nat (d + 48)"
      using k by (auto simp: digits_text_10 digit_chars_def simp del: of_nat_add)
    moreover from this have "d < 10" using numeral_digits_value [of 10 k] by simp
    ultimately show ?thesis using digit_char_facts(2) [of d] by simp
  qed
  then show "c \<in> set (int_text n) \<Longrightarrow> 45 \<le> sint c" by (auto simp: int_text_def split: if_splits)
qed

section \<open>Properties\<close>

text \<open>
  C14: what \<open>printf\<close> writes with a format that can be scanned, \<open>sscanf\<close> reads back. Such a format consists of literals
  and characters that are no spaces, of numbers that are followed by a literal that is no digit or end the
  format, and of words without spaces that are followed by a literal they do not contain or end the format: 1 and 2
  printed with \<open>%d%d\<close> give 12, which is one number. Printing with such a format and its arguments and scanning the text with the same
  format stores the values of all arguments again, in order, returns their number and complains about
  nothing; numbers may be any but the smallest one.
\<close>

theorem scan_print_roundtrip:
  assumes "scannable ps"
  shows "printf [] (format_of ps) (concat (map piece_args ps)) =
      Some (map (Pair STDOUT) (text_of ps), length (text_of ps)) \<and>
    sscanf out (text_of ps) (format_of ps) =
      Some (out, concat (map piece_stored ps), int (length (concat (map piece_stored ps))))"
proof -
  have "\<forall>p \<in> set ps. piece_ok p"
    using assms by (induction ps rule: scannable.induct) (auto simp: solid_def)
  then show ?thesis using vfprintf_pieces [of STDOUT ps "[]" 0] scan_pieces [OF assms, of out "format_of ps" "[]" 0]
    by (simp add: format_of_def text_of_def printf_def sscanf_def vsscanf_def)
qed

definition sample_pieces :: "piece list" where
  "sample_pieces = [Lit 115, Lit 45, Chr 65, Lit 45, Strp [97, 98], Lit 45, Dec (- 7), Lit 33]"

theorem scan_print_roundtrip_witness:
  "sscanf [] [115, 45, 65, 45, 97, 98, 45, 45, 55, 33] [115, 45, 37, 99, 45, 37, 115, 45, 37, 100, 33] =
     Some ([], [SChr 65, SStr [97, 98], SInt (- 7)], 3)"
proof -
  have s: "scannable sample_pieces"
    by (simp add: sample_pieces_def solid_def EOF_def isspace_def isdigit_def)
  have "int_text (sint (- 7 :: u32)) = [45, 55]"
    by (simp add: int_text_def digits_text_def numeral_digits.simps base_char_def)
  then have "text_of sample_pieces = [115, 45, 65, 45, 97, 98, 45, 45, 55, 33]"
    by (simp add: sample_pieces_def text_of_def)
  moreover have "format_of sample_pieces = [115, 45, 37, 99, 45, 37, 115, 45, 37, 100, 33]"
    by (simp add: sample_pieces_def format_of_def)
  moreover have "concat (map piece_stored sample_pieces) = [SChr 65, SStr [97, 98], SInt (- 7)]"
    by (simp add: sample_pieces_def)
  ultimately show ?thesis using scan_print_roundtrip [OF s, of "[]"] by simp
qed

text \<open>
  \<open>fgets\<close> on a line that fits: it returns after the line's end with the line in the array as the user
  edited it, each backspace taking back a character and none at the start of the line, followed by a
  terminator; on the standard input what is typed is echoed, up to backspaces without effect. The input
  behind the line is left.
\<close>

theorem fgets_correct:
  assumes "\<forall>c \<in> set line. c \<noteq> EOF \<and> c \<noteq> 10" "n \<le> length str"
    and "\<forall>k \<le> length line. length (edit [] (take k line)) < n"
  shows "\<exists>str'. fgets fd (line @ 10 # input) out str n =
      Some (input, out @ (if fd = STDIN then map (Pair STDOUT) (echoed [] line @ [10]) else []), str', True) \<and>
    length str' = length str \<and> cstring str' = edit [] line"
proof -
  have n: "0 < n" "length (edit [] line) < n" using assms(3) by (auto dest: spec [of _ "length line"])
  have start: "length ([] :: u8 list) < n" "take (length ([] :: u8 list)) str = []" using n(1) by simp_all
  let ?k = "length (edit [] line)"
  from fgets_loop_line [OF assms(1,2) start assms(3), of fd "10 # input" out]
  obtain str' where s: "length str' = length str" "take ?k str' = edit [] line"
    "fgets_loop fd n (line @ 10 # input) out str 0 =
     fgets_loop fd n (10 # input) (out @ (if fd = STDIN then map (Pair STDOUT) (echoed [] line) else [])) str' ?k"
    by auto
  have "0 \<notin> set (edit [] line)" using edit_positive [of "[]" 0 line] by auto
  moreover have len: "?k < length str'" using n(2) assms(2) s(1) by simp
  ultimately have c: "cstring (str'[?k := 0]) = edit [] line" using cstring_prefix [OF _ s(2)] by blast
  have e: "(10 :: u8) \<noteq> EOF" by (simp add: EOF_def)
  then have "fgets fd (line @ 10 # input) out str n =
      Some (input, out @ (if fd = STDIN then map (Pair STDOUT) (echoed [] line @ [10]) else []), str'[?k := 0], True)"
    unfolding fgets_def s(3) using len by (simp add: fputc_out Let_def)
  then show ?thesis using c s(1) by (intro exI [of _ "str'[?k := 0]"]) simp
qed

theorem fgets_correct_witness:
  "\<exists>str'. fgets STDIN [97, 98, 8, 99, 10, 120] [] (replicate 4 0) 4 =
     Some ([120], map (Pair STDOUT) [97, 98, 8, 99, 10], str', True) \<and> cstring str' = [97, 99]"
proof -
  let ?l = "[97, 98, 8, 99] :: u8 list"
  have a: "\<forall>c \<in> set ?l. c \<noteq> EOF \<and> c \<noteq> 10" by (simp add: EOF_def)
  have "\<forall>k \<in> set [0..<5]. length (edit [] (take k ?l)) < 4" by (simp add: upt_rec edit_def)
  then have b: "\<forall>k \<le> length ?l. length (edit [] (take k ?l)) < 4" by (simp add: less_Suc_eq_le)
  have "edit [] ?l = [97, 99]" "echoed [] ?l = ?l" by (simp_all add: edit_def echoes_def echoed.simps)
  then show ?thesis using fgets_correct [OF a _ b, of "replicate 4 0" STDIN "[120]" "[]"] by auto
qed

text \<open>
  \<open>fgets\<close> with the size of the array it is given, as \<open>vfscanf\<close> and the tests call it, overruns the array
  on a longer line: after \<open>n\<close> characters the terminator is written to the place behind the last one, and
  one further character of the input is lost.
\<close>

theorem fgets_overruns:
  assumes "\<forall>c \<in> set (l @ [x]). sint c > 0 \<and> c \<noteq> 8 \<and> c \<noteq> 10" "length str = Suc (length l)" "c \<noteq> EOF"
  shows "fgets fd (l @ [x] @ c # input) out str (Suc (length l)) = None"
proof -
  let ?n = "Suc (length l)"
  have pos: "sint y > 0 \<Longrightarrow> y \<noteq> EOF" for y by (auto simp: EOF_def)
  have e: "edit acc k = acc @ k" if "set k \<subseteq> set l" for acc k
    using that assms(1)
  proof (induction k arbitrary: acc)
    case (Cons y k)
    then show ?case unfolding edit_Cons [of acc y k] by (auto simp: edit_def)
  qed simp
  have a: "\<forall>y \<in> set l. y \<noteq> EOF \<and> y \<noteq> 10" "\<forall>k \<le> length l. length (edit [] (take k l)) < ?n"
    using assms(1) pos e [OF set_take_subset] by auto
  have start: "length ([] :: u8 list) < ?n" "take (length ([] :: u8 list)) str = []" by simp_all
  from fgets_loop_line [OF a(1) _ start a(2), of fd "[x] @ c # input" out] assms(2) e [of l "[]"]
  obtain str' where s: "length str' = length str" "fgets_loop fd ?n (l @ [x] @ c # input) out str 0 =
      fgets_loop fd ?n ([x] @ c # input) (out @ (if fd = STDIN then map (Pair STDOUT) (echoed [] l) else [])) str' (length l)"
    by auto
  have x: "x \<noteq> EOF" "x \<noteq> 10" "sint x > 0" "x \<noteq> 8" using assms(1) pos by auto
  show ?thesis unfolding fgets_def s(2) using x s(1) assms(2,3) by (simp add: Let_def)
qed

theorem fgets_overruns_witness: "fgets STDDATA [97, 98, 99, 10] [] [0, 0] 2 = None"
proof -
  have "\<forall>c \<in> set ([97] @ [98]). sint c > 0 \<and> c \<noteq> 8 \<and> c \<noteq> (10 :: u8)" by simp
  moreover have "length [0, 0 :: u8] = Suc (length [97 :: u8])" "(99 :: u8) \<noteq> EOF" by (simp_all add: EOF_def)
  ultimately have "fgets STDDATA ([97] @ [98] @ 99 # [10]) [] [0, 0] (Suc (length [97 :: u8])) = None"
    by (rule fgets_overruns)
  then show ?thesis by (simp add: numeral_2_eq_2)
qed

text \<open>
  three inputs on which \<open>sscanf\<close> does not do its work: with a space at the end of both text and format it
  reads on behind both terminators; a lone minus sign is a number, 0; and a text that ends in spaces before
  a character conversion is read past its end.
\<close>

theorem scanf_limits:
  "sscanf out [97, 32] [97, 32] = None \<and> sscanf out [45] [37, 100] = Some (out, [SInt 0], 1) \<and>
   sscanf out [97, 32] [97, 37, 99] = None"
  by (simp add: sscanf_def vsscanf_def scan_loop.simps skip_spaces_def isspace_def read_arg_def read_dec_def char_at_def
      SUPPORTED_SCANF_FORMATS_def)

end
