(* ===== verification/Syscalls.thy ===== *)
theory Syscalls
  imports Pmem Shared Rtc Bga Interrupts
begin

text \<open>
  The system calls of the kernel, \<open>system/syscalls.c\<close>, on the state of the whole machine, with the start
  of the kernel in \<open>kernel.c\<close>. System calls run with the interrupts off, except the two that wait:
  \<open>read\<close> on the terminal and \<open>wait\<close>. Those take the sequence of events that happen meanwhile, and answer
  \<open>None\<close> when the sequence ends before they return; \<open>None\<close> also stands for a jump to an address that
  holds no code of the kernel, and for the faults of the components.
\<close>

section \<open>The machine\<close>

datatype sys_handler =
    Sys_exit | Sys_clear | Sys_read | Sys_write | Sys_video | Sys_draw | Sys_sbrk | Sys_memblock | Sys_freeblock
  | Sys_time | Sys_date | Sys_set_time | Sys_set_date | Sys_wait

text \<open>
  The memory of the machine is the one of the screen driver, \<open>vmem (m_video s)\<close>; the heaps are the lists
  of their chunks. The last three fields are addresses the linker chooses: the two strings of \<open>rtc.c\<close> and
  the code of \<open>show_time\<close>.
\<close>

record machine =
  m_video :: video
  m_keyboard :: keyboard
  m_rtc :: rtc
  m_timer :: timer
  m_bga :: bga
  m_shared :: shared
  m_process :: process_t
  m_routines :: "isr option list"
  m_syscalls :: "sys_handler option list"
  sbrk_top :: ptr
  video_mode_enabled :: bool
  read_index :: u32
  time_str :: ptr
  date_str :: ptr
  show_time_code :: u64

abbreviation ram :: "machine \<Rightarrow> mem" where
  "ram s \<equiv> vmem (m_video s)"

definition set_ram :: "machine \<Rightarrow> mem \<Rightarrow> machine" where
  "set_ram s m = s\<lparr>m_video := (m_video s)\<lparr>vmem := m\<rparr>\<rparr>"

fun put_bytes :: "mem \<Rightarrow> ptr \<Rightarrow> u8 list \<Rightarrow> mem" where
  "put_bytes m p [] = m"
| "put_bytes m p (b # bs) = put_bytes (m(p := b)) (p + 1) bs"

text \<open>The graphics driver works on the same memory.\<close>

definition with_bga :: "(bga \<Rightarrow> bga \<times> 'a) \<Rightarrow> machine \<Rightarrow> machine \<times> 'a" where
  "with_bga f s =
     (case f ((m_bga s)\<lparr>gmem := ram s\<rparr>) of (b, r) \<Rightarrow> (set_ram (s\<lparr>m_bga := b\<rparr>) (gmem b), r))"

text \<open>The clock's strings are kept in the kernel's memory.\<close>

definition sys_time_string :: "machine \<Rightarrow> machine" where
  "sys_time_string s =
     (case time (m_rtc s) of (r, str) \<Rightarrow> set_ram (s\<lparr>m_rtc := r\<rparr>) (put_bytes (ram s) (time_str s) str))"

definition sys_date_string :: "machine \<Rightarrow> machine" where
  "sys_date_string s =
     (case date (m_rtc s) of (r, str) \<Rightarrow> set_ram (s\<lparr>m_rtc := r\<rparr>) (put_bytes (ram s) (date_str s) str))"

definition machine_show_time :: "machine \<Rightarrow> machine" where
  "machine_show_time s =
     (let s1 = sys_time_string s in
      case show_time (m_rtc s1) (m_video s1) of (r, v) \<Rightarrow> s1\<lparr>m_rtc := r, m_video := v\<rparr>)"

section \<open>Interrupts\<close>

text \<open>
  What happens while a system call waits: an interrupt of the timer or of the keyboard, the latter with
  what its two ports deliver, or the next step of the waiting loop.
\<close>

datatype event = Tick | Key u8 u8 | Step

fun call_task_handlers :: "u64 list \<Rightarrow> machine \<Rightarrow> machine option" where
  "call_task_handlers [] s = Some s"
| "call_task_handlers (h # hs) s =
     (if h = show_time_code s then call_task_handlers hs (machine_show_time s) else None)"

definition interrupt :: "u32 \<Rightarrow> u8 \<Rightarrow> u8 \<Rightarrow> machine \<Rightarrow> machine option" where
  "interrupt irq status data s =
     (case irqDispatcher (m_routines s) irq status data \<lparr>dev_timer = m_timer s, dev_keyboard = m_keyboard s\<rparr> of
        None \<Rightarrow> None
      | Some (d, calls) \<Rightarrow>
          call_task_handlers calls (s\<lparr>m_timer := dev_timer d, m_keyboard := dev_keyboard d\<rparr>))"

fun serve :: "event \<Rightarrow> machine \<Rightarrow> machine option" where
  "serve Tick s = interrupt 0 0 0 s"
| "serve (Key status data) s = interrupt 1 status data s"
| "serve Step s = Some s"

section \<open>The system calls\<close>

definition STDIN :: u64 where
  "STDIN = 0"

definition STDOUT :: u64 where
  "STDOUT = 1"

definition STDERR :: u64 where
  "STDERR = 2"

definition STDDATA :: u64 where
  "STDDATA = 3"

lemmas kernel_descriptors = STDIN_def STDOUT_def STDERR_def STDDATA_def

definition DEFAULT :: u8 where
  "DEFAULT = LIGHT_GREY"

definition KEOF :: u8 where
  "KEOF = 0xFF"

definition sys_exit :: "machine \<Rightarrow> machine" where
  "sys_exit s =
     s\<lparr>m_video := fst (puts_at (hide_cursor (clear_screen (m_video s)))
         (str_bytes ''It is now safe to turn off your computer'') DEFAULT 0 0)\<rparr>"

definition sys_clear :: "machine \<Rightarrow> machine" where
  "sys_clear s = s\<lparr>m_video := clear_console (m_video s)\<rparr>"

function write_loop :: "video \<Rightarrow> ptr \<Rightarrow> u32 \<Rightarrow> u8 \<Rightarrow> (video \<times> u32) option" where
  "write_loop v buffer len attr =
     (if len \<noteq> 0 \<and> vmem v buffer \<noteq> 0
      then case putchar v (vmem v buffer) attr of
             None \<Rightarrow> None
           | Some v' \<Rightarrow> write_loop v' (buffer + 1) (len - 1) attr
      else Some (v, len - 1))"
  by pat_completeness auto
termination
  by (relation "measure (\<lambda>(v, buffer, len, attr). unat len)") (auto simp: unat_minus_one unat_gt_0)

declare write_loop.simps [simp del]

definition sys_write :: "machine \<Rightarrow> u64 \<Rightarrow> ptr \<Rightarrow> u64 \<Rightarrow> (machine \<times> u64) option" where
  "sys_write s fd buf sz =
     (if fd = STDOUT \<or> fd = STDERR
      then case write_loop (m_video s) buf (ucast sz) (if fd = STDOUT then LIGHT_GREY else RED) of
             None \<Rightarrow> None
           | Some (v, len) \<Rightarrow> Some (s\<lparr>m_video := v\<rparr>, sz - scast len - 1)
      else Some (s, 0))"

text \<open>
  \<open>get_key\<close> in the two accesses to the buffer that an interrupt can come between: the key is loaded, then
  its place is marked empty and the position moves on.
\<close>

definition load_key :: "keyboard \<Rightarrow> u8" where
  "load_key k = kb_buffer k ! read_pos k"

definition clear_key :: "keyboard \<Rightarrow> keyboard" where
  "clear_key k =
     k\<lparr>kb_buffer := (kb_buffer k)[read_pos k := EMPTY],
       read_pos := (if read_pos k + 1 = BUFFER_SIZE then 0 else read_pos k + 1)\<rparr>"

text \<open>
  The polling loop, with the number of characters read and the key that has been loaded and not yet
  cleared.
\<close>

fun stdin_loop ::
  "event list \<Rightarrow> machine \<Rightarrow> ptr \<Rightarrow> u32 \<Rightarrow> u32 \<Rightarrow> u8 option \<Rightarrow> (machine \<times> u32 \<times> event list) option" where
  "stdin_loop env s buffer len i pending =
     (if pending = None \<and> \<not> i <s len then Some (s, i, env)
      else case env of
             [] \<Rightarrow> None
           | Step # env' \<Rightarrow>
               (case pending of
                  None \<Rightarrow> stdin_loop env' s buffer len i (Some (load_key (m_keyboard s)))
                | Some c \<Rightarrow>
                    let s' = s\<lparr>m_keyboard := clear_key (m_keyboard s)\<rparr> in
                    if c \<noteq> EMPTY
                    then stdin_loop env' (set_ram s' ((ram s')(buffer + scast i := c))) buffer len (i + 1) None
                    else stdin_loop env' s' buffer len i None)
           | irq # env' \<Rightarrow>
               (case serve irq s of
                  None \<Rightarrow> None
                | Some s' \<Rightarrow> stdin_loop env' s' buffer len i pending))"

declare stdin_loop.simps [simp del]

definition read_stdin :: "event list \<Rightarrow> machine \<Rightarrow> ptr \<Rightarrow> u32 \<Rightarrow> (machine \<times> u64 \<times> event list) option" where
  "read_stdin env s buffer len =
     map_option (\<lambda>(s', i, env'). (s', scast i, env')) (stdin_loop env s buffer len 0 None)"

definition dataModuleAddress :: ptr where
  "dataModuleAddress = 0x500000"

lemma signed_next: "i <s len \<Longrightarrow> sint (i + 1) = sint i + 1" for i len :: u32
proof -
  assume "i <s len"
  then have "sint i < sint len" by (simp add: word_sless_alt)
  moreover have "sint len < 2 ^ 31" "- (2 ^ 31) \<le> sint i"
    using sint_lt [of len] sint_ge [of i] by simp_all
  ultimately show ?thesis by (simp add: sint_word_ariths signed_take_bit_int_eq_self)
qed

function stddata_loop :: "mem \<Rightarrow> ptr \<Rightarrow> u32 \<Rightarrow> ptr \<Rightarrow> u32 \<Rightarrow> u32 \<Rightarrow> mem \<times> ptr \<times> u32 \<times> u32" where
  "stddata_loop m buffer len dir i index =
     (if i <s len \<and> m dir \<noteq> 0
      then stddata_loop (m(buffer + scast i := m dir)) buffer len (dir + 1) (i + 1) (index + 1)
      else (m, dir, i, index))"
  by pat_completeness auto
termination
  by (relation "measure (\<lambda>(m, buffer, len, dir, i, index). nat (sint len - sint i))")
    (auto simp: signed_next word_sless_alt)

declare stddata_loop.simps [simp del]

text \<open>The character \<open>*dir\<close> is signed and \<open>EOF\<close> is the number 255.\<close>

definition read_stddata :: "machine \<Rightarrow> ptr \<Rightarrow> u32 \<Rightarrow> machine \<times> u64" where
  "read_stddata s buffer len =
     (case stddata_loop (ram s) buffer len (dataModuleAddress + scast (read_index s)) 0 (read_index s) of
        (m, dir, i, index) \<Rightarrow>
          if sint (m dir) = uint KEOF \<or> i = 0
          then (set_ram (s\<lparr>read_index := 0\<rparr>) (m(buffer + scast i := KEOF)), scast i)
          else (set_ram (s\<lparr>read_index := index\<rparr>) m, scast i))"

definition sys_read :: "event list \<Rightarrow> machine \<Rightarrow> u64 \<Rightarrow> ptr \<Rightarrow> u64 \<Rightarrow> (machine \<times> u64 \<times> event list) option" where
  "sys_read env s fd buf sz =
     (if fd = STDIN then read_stdin env s buf (ucast sz)
      else if fd = STDDATA then (case read_stddata s buf (ucast sz) of (s', n) \<Rightarrow> Some (s', n, env))
      else Some (s, 0, env))"

definition sys_video :: "machine \<Rightarrow> u64 \<Rightarrow> u64 \<Rightarrow> u64 \<Rightarrow> (machine \<times> u64) option" where
  "sys_video s w h depth =
     (if \<not> video_mode_enabled s
      then case puts (m_video s) (str_bytes ''Starting video mode...'') LIGHT_GREY of
             None \<Rightarrow> None
           | Some v \<Rightarrow>
               (case with_bga (\<lambda>b. (BgaFillScreen (BgaSetVideoMode b (ucast w) (ucast h) 24 True True) 0 0 0, ()))
                       (s\<lparr>m_video := v\<rparr>) of
                  (s', r) \<Rightarrow> Some (s'\<lparr>video_mode_enabled := True\<rparr>, 0))
      else Some (s, 0))"

definition sys_draw :: "machine \<Rightarrow> u64 \<Rightarrow> u64 \<Rightarrow> u64 \<Rightarrow> machine \<times> u64" where
  "sys_draw s x y color =
     (let r = ucast (drop_bit 16 color AND 0xFF);
          g = ucast (drop_bit 8 color AND 0xFF);
          b = ucast (color AND 0xFF)
      in case with_bga (\<lambda>d. BgaDrawPixel d (ucast x) (ucast y) r g b) s of
           (s', ok) \<Rightarrow> (s', if ok then 1 else 0))"

definition sys_sbrk :: "machine \<Rightarrow> u64 \<Rightarrow> machine \<times> u64" where
  "sys_sbrk s increment = (let s' = s\<lparr>sbrk_top := sbrk_top s + increment\<rparr> in (s', sbrk_top s'))"

abbreviation m_memory :: "machine \<Rightarrow> memory" where
  "m_memory s \<equiv> shm_memory (m_shared s)"

definition set_memory :: "machine \<Rightarrow> memory \<Rightarrow> machine" where
  "set_memory s mem = s\<lparr>m_shared := (m_shared s)\<lparr>shm_memory := mem\<rparr>\<rparr>"

definition sys_memblock :: "machine \<Rightarrow> u64 \<Rightarrow> (machine \<times> u64) option" where
  "sys_memblock s sz = map_option (\<lambda>(mem, p). (set_memory s mem, p)) (get_memblock (m_memory s) sz)"

definition sys_freeblock :: "machine \<Rightarrow> u64 \<Rightarrow> (machine \<times> u64) option" where
  "sys_freeblock s block_pointer =
     map_option (\<lambda>(mem, rt). (set_memory s mem, rt)) (free_memblock (m_memory s) block_pointer)"

text \<open>The four calls of the process heap are defined in the source but never entered in the table.\<close>

definition sys_pinitheap :: "machine \<Rightarrow> machine \<times> u64" where
  "sys_pinitheap s = (case init_process_heap (m_process s) of (p, rt) \<Rightarrow> (s\<lparr>m_process := p\<rparr>, rt))"

definition sys_malloc :: "machine \<Rightarrow> u64 \<Rightarrow> (machine \<times> u64) option" where
  "sys_malloc s sz = map_option (\<lambda>(p, a). (s\<lparr>m_process := p\<rparr>, a)) (malloc (m_process s) sz)"

definition sys_calloc :: "machine \<Rightarrow> u64 \<Rightarrow> u64 \<Rightarrow> (machine \<times> u64) option" where
  "sys_calloc s amount sz =
     map_option (\<lambda>(p, m, a). (set_ram (s\<lparr>m_process := p\<rparr>) m, a))
       (calloc (m_process s) (ram s) amount sz)"

definition sys_free :: "machine \<Rightarrow> u64 \<Rightarrow> machine \<times> u64" where
  "sys_free s mem = (case free (m_process s) mem of (p, rt) \<Rightarrow> (s\<lparr>m_process := p\<rparr>, rt))"

definition sys_time :: "machine \<Rightarrow> machine \<times> u64" where
  "sys_time s =
     (case remove_task (m_timer s) (show_time_code s) of
        (t, removed) \<Rightarrow>
          let s' = s\<lparr>m_timer := t\<rparr>;
              s'' = (if removed then s'\<lparr>m_video := hide_time (m_video s')\<rparr>
                     else let shown = machine_show_time s' in
                          shown\<lparr>m_timer := fst (add_task (m_timer shown) 1 (show_time_code s) True)\<rparr>)
          in (sys_time_string s'', time_str s''))"

definition sys_date :: "machine \<Rightarrow> machine \<times> u64" where
  "sys_date s = (sys_date_string s, date_str s)"

definition sys_set_time :: "machine \<Rightarrow> u64 \<Rightarrow> u64 \<Rightarrow> u64 \<Rightarrow> machine \<times> u64" where
  "sys_set_time s hour minutes secs =
     (if hour > 23 \<or> minutes > 59 \<or> secs > 59 then (s, 0)
      else (s\<lparr>m_rtc := set_time (m_rtc s) (ucast hour) (ucast minutes) (ucast secs)\<rparr>, 1))"

definition sys_set_date :: "machine \<Rightarrow> u64 \<Rightarrow> u64 \<Rightarrow> u64 \<Rightarrow> machine \<times> u64" where
  "sys_set_date s day month year =
     (if day > 31 \<or> month > 12 \<or> year > 99 then (s, 0)
      else (s\<lparr>m_rtc := set_date (m_rtc s) (ucast day) (ucast month) (ucast year)\<rparr>, 1))"

text \<open>The loop of \<open>wait\<close> on the whole machine, where the interrupts it waits for have their effects.\<close>

fun machine_wait_loop :: "u64 \<Rightarrow> event list \<Rightarrow> machine \<Rightarrow> (machine \<times> event list) option" where
  "machine_wait_loop waiting_ticks env s =
     (if waiting_ticks > ticks (m_timer s)
      then case env of
             [] \<Rightarrow> None
           | e # env' \<Rightarrow>
               (case serve e s of None \<Rightarrow> None | Some s' \<Rightarrow> machine_wait_loop waiting_ticks env' s')
      else Some (s, env))"

declare machine_wait_loop.simps [simp del]

definition sys_wait :: "event list \<Rightarrow> machine \<Rightarrow> u64 \<Rightarrow> (machine \<times> u64 \<times> event list) option" where
  "sys_wait env s millis =
     map_option (\<lambda>(s', env'). (s', 0, env'))
       (machine_wait_loop ((millis div 1000) * ucast TICKS_PER_SECOND) env
          (s\<lparr>m_timer := (m_timer s)\<lparr>ticks := 0\<rparr>\<rparr>))"

section \<open>The table and the dispatcher\<close>

definition SYSCALLS_SIZE :: nat where
  "SYSCALLS_SIZE = 18"

definition SYS_EXIT :: nat where "SYS_EXIT = 0"

definition SYS_CLEAR :: nat where "SYS_CLEAR = 1"

definition SYS_READ :: nat where "SYS_READ = 2"

definition SYS_WRITE :: nat where "SYS_WRITE = 3"

definition SYS_VIDEO :: nat where "SYS_VIDEO = 4"

definition SYS_DRAW :: nat where "SYS_DRAW = 5"

definition SYS_SBRK :: nat where "SYS_SBRK = 6"

definition SYS_MEMBLOCK :: nat where "SYS_MEMBLOCK = 7"

definition SYS_FREEBLOCK :: nat where "SYS_FREEBLOCK = 8"

definition SYS_PINITHEAP :: nat where "SYS_PINITHEAP = 9"

definition SYS_MALLOC :: nat where "SYS_MALLOC = 10"

definition SYS_FREE :: nat where "SYS_FREE = 11"

definition SYS_CALLOC :: nat where "SYS_CALLOC = 12"

definition SYS_TIME :: nat where "SYS_TIME = 13"

definition SYS_DATE :: nat where "SYS_DATE = 14"

definition SYS_SET_TIME :: nat where "SYS_SET_TIME = 15"

definition SYS_SET_DATE :: nat where "SYS_SET_DATE = 16"

definition SYS_WAIT :: nat where "SYS_WAIT = 17"

lemmas call_numbers = SYS_EXIT_def SYS_CLEAR_def SYS_READ_def SYS_WRITE_def SYS_VIDEO_def SYS_DRAW_def
  SYS_SBRK_def SYS_MEMBLOCK_def SYS_FREEBLOCK_def SYS_PINITHEAP_def SYS_MALLOC_def SYS_FREE_def SYS_CALLOC_def
  SYS_TIME_def SYS_DATE_def SYS_SET_TIME_def SYS_SET_DATE_def SYS_WAIT_def

definition init_syscalls :: "sys_handler option list \<Rightarrow> sys_handler option list" where
  "init_syscalls syscalls =
     syscalls[SYS_EXIT := Some Sys_exit, SYS_CLEAR := Some Sys_clear, SYS_READ := Some Sys_read,
       SYS_WRITE := Some Sys_write, SYS_VIDEO := Some Sys_video, SYS_DRAW := Some Sys_draw,
       SYS_SBRK := Some Sys_sbrk, SYS_MEMBLOCK := Some Sys_memblock, SYS_FREEBLOCK := Some Sys_freeblock,
       SYS_TIME := Some Sys_time, SYS_DATE := Some Sys_date, SYS_SET_TIME := Some Sys_set_time,
       SYS_SET_DATE := Some Sys_set_date, SYS_WAIT := Some Sys_wait]"

text \<open>How a call ends: it returns a number, or the machine is halted.\<close>

datatype 'r outcome = Returned 'r | Halted

abbreviation returns :: "event list \<Rightarrow> machine \<times> u64 \<Rightarrow> machine \<times> u64 outcome \<times> event list" where
  "returns env r \<equiv> (fst r, Returned (snd r), env)"

fun run_handler ::
  "sys_handler \<Rightarrow> u64 \<Rightarrow> u64 \<Rightarrow> u64 \<Rightarrow> event list \<Rightarrow> machine \<Rightarrow> (machine \<times> u64 outcome \<times> event list) option" where
  "run_handler Sys_exit code b c env s = Some (sys_exit s, Halted, env)"
| "run_handler Sys_clear a b c env s = Some (returns env (sys_clear s, 0))"
| "run_handler Sys_read fd buf sz env s =
     map_option (\<lambda>(s', n, env'). (s', Returned n, env')) (sys_read env s fd buf sz)"
| "run_handler Sys_write fd buf sz env s = map_option (returns env) (sys_write s fd buf sz)"
| "run_handler Sys_video w h bits env s = map_option (returns env) (sys_video s w h bits)"
| "run_handler Sys_draw x y color env s = Some (returns env (sys_draw s x y color))"
| "run_handler Sys_sbrk increment b c env s = Some (returns env (sys_sbrk s increment))"
| "run_handler Sys_memblock sz b c env s = map_option (returns env) (sys_memblock s sz)"
| "run_handler Sys_freeblock p b c env s = map_option (returns env) (sys_freeblock s p)"
| "run_handler Sys_time a b c env s = Some (returns env (sys_time s))"
| "run_handler Sys_date a b c env s = Some (returns env (sys_date s))"
| "run_handler Sys_set_time hour minutes secs env s = Some (returns env (sys_set_time s hour minutes secs))"
| "run_handler Sys_set_date day month year env s = Some (returns env (sys_set_date s day month year))"
| "run_handler Sys_wait millis b c env s =
     map_option (\<lambda>(s', n, env'). (s', Returned n, env')) (sys_wait env s millis)"

definition syscallDispatcher ::
  "u64 \<Rightarrow> u64 \<Rightarrow> u64 \<Rightarrow> u64 \<Rightarrow> event list \<Rightarrow> machine \<Rightarrow> (machine \<times> u64 outcome \<times> event list) option" where
  "syscallDispatcher rdi rsi rdx rcx env s =
     (if unat rdi < SYS_EXIT \<or> unat rdi > SYS_WAIT then Some (s, Returned 0, env)
      else case m_syscalls s ! unat rdi of
             None \<Rightarrow> None
           | Some h \<Rightarrow> run_handler h rsi rdx rcx env s)"

section \<open>The start of the kernel\<close>

text \<open>The user program is started by a jump to the code module, which is outside the kernel.\<close>

definition kernel_main :: "machine \<Rightarrow> machine option" where
  "kernel_main s =
     (let s1 = s\<lparr>m_video := clear_screen (m_video s), m_syscalls := init_syscalls (m_syscalls s),
                 m_routines := init_interrupts (m_routines s)\<rparr>
      in case init_mem (m_memory s1) (1024 * 4 * 40) of
           None \<Rightarrow> None
         | Some (mem, rt) \<Rightarrow>
             Some (s1\<lparr>m_shared := init_shared mem,
                      m_video := fst (puts_at (m_video s1) (str_bytes ''Arqui OS'') GREEN 0 0)\<rparr>))"

section \<open>What holds of the machine between two system calls\<close>

text \<open>
  The components are well formed, the interrupt table is the one of the boot, and the only task the timer
  may hold is the clock, as one that stays.
\<close>

definition clock_only :: "machine \<Rightarrow> bool" where
  "clock_only s \<longleftrightarrow> (\<forall>t \<in> set (active (m_timer s)). handler t = show_time_code s \<and> forever t \<and> seconds t = 1)"

definition machine_inv :: "machine \<Rightarrow> bool" where
  "machine_inv s \<longleftrightarrow> video_inv (m_video s) \<and> kb_inv (m_keyboard s) \<and> timer_inv (m_timer s) \<and> clock_only s \<and>
     memory_inv (m_memory s) \<and> m_routines s = init_interrupts (replicate ISR_SIZE None) \<and>
     m_syscalls s = init_syscalls (replicate SYSCALLS_SIZE None)"

lemma ram_updates [simp]:
  "m_keyboard (set_ram s m) = m_keyboard s" "m_timer (set_ram s m) = m_timer s" "m_shared (set_ram s m) = m_shared s"
  "m_routines (set_ram s m) = m_routines s" "m_syscalls (set_ram s m) = m_syscalls s"
  "show_time_code (set_ram s m) = show_time_code s" "m_rtc (set_ram s m) = m_rtc s" "m_process (set_ram s m) = m_process s"
  "ram (set_ram s m) = m" "current_loc (m_video (set_ram s m)) = current_loc (m_video s)"
  "time_str (set_ram s m) = time_str s"
  by (simp_all add: set_ram_def)

text \<open>What a step does to the part of the machine it leaves alone.\<close>

definition same_kernel :: "machine \<Rightarrow> machine \<Rightarrow> bool" where
  "same_kernel s s' \<longleftrightarrow> m_shared s' = m_shared s \<and> m_process s' = m_process s \<and> m_routines s' = m_routines s \<and>
     m_syscalls s' = m_syscalls s \<and> time_str s' = time_str s \<and> date_str s' = date_str s \<and> show_time_code s' = show_time_code s"

text \<open>The memory the clock writes: the screen and the string of the time.\<close>

definition clock_memory :: "machine \<Rightarrow> ptr set" where
  "clock_memory s = region 0xB8000 SCREENSIZE \<union> region (time_str s) 8"

definition untouched :: "machine \<Rightarrow> machine \<Rightarrow> bool" where
  "untouched s s' \<longleftrightarrow> time_str s' = time_str s \<and> (\<forall>a. a \<notin> clock_memory s \<longrightarrow> ram s' a = ram s a)"

lemma untouched_trans: "untouched s t \<Longrightarrow> untouched t u \<Longrightarrow> untouched s u"
  by (simp add: untouched_def clock_memory_def)

lemma put_bytes_other: "a \<notin> region p (length bs) \<Longrightarrow> put_bytes m p bs a = m a"
  by (induction m p bs rule: put_bytes.induct) (auto simp: region_shift)

lemma time_length: "length (snd (time r)) = 8"
  by (simp add: time_def get_time_def two_chars_def)

lemma time_string_spec:
  "same_kernel s (sys_time_string s)" "m_timer (sys_time_string s) = m_timer s"
  "m_keyboard (sys_time_string s) = m_keyboard s" "current_loc (m_video (sys_time_string s)) = current_loc (m_video s)"
  "ram (sys_time_string s) = put_bytes (ram s) (time_str s) (snd (time (m_rtc s)))" "untouched s (sys_time_string s)"
  using time_length [of "m_rtc s"]
  by (auto simp: sys_time_string_def same_kernel_def set_ram_def untouched_def clock_memory_def put_bytes_other
      split: prod.split)

lemma show_time_spec:
  "same_kernel s (machine_show_time s)" "m_timer (machine_show_time s) = m_timer s"
  "m_keyboard (machine_show_time s) = m_keyboard s" "current_loc (m_video (machine_show_time s)) = current_loc (m_video s)"
  "untouched s (machine_show_time s)"
proof -
  let ?s = "sys_time_string s"
  have v: "m_video (machine_show_time s) = fst (puts_at (m_video ?s) (snd (time (m_rtc ?s))) GREEN 0 72)"
    by (simp add: machine_show_time_def show_time_def Let_def split: prod.split)
  show "same_kernel s (machine_show_time s)" "m_timer (machine_show_time s) = m_timer s"
    "m_keyboard (machine_show_time s) = m_keyboard s"
    using time_string_spec [of s]
    by (simp_all add: machine_show_time_def show_time_def Let_def same_kernel_def split: prod.split)
  then have t: "time_str (machine_show_time s) = time_str s" by (simp add: same_kernel_def)
  show "current_loc (m_video (machine_show_time s)) = current_loc (m_video s)"
    using time_string_spec(4) [of s] puts_at_spec unfolding v by simp
  have "ram (machine_show_time s) a = ram ?s a" if "a \<notin> region 0xB8000 SCREENSIZE" for a
    unfolding v using puts_at_spec that by (blast intro: same_outside_memory)
  then show "untouched s (machine_show_time s)" using time_string_spec(6) [of s] t
    by (auto simp: untouched_def clock_memory_def)
qed

lemma call_handlers_spec:
  assumes "\<forall>h \<in> set hs. h = show_time_code s"
  shows "\<exists>s'. call_task_handlers hs s = Some s' \<and> same_kernel s s' \<and> m_timer s' = m_timer s \<and>
    m_keyboard s' = m_keyboard s \<and> current_loc (m_video s') = current_loc (m_video s) \<and> untouched s s'"
  using assms
proof (induction hs arbitrary: s)
  case (Cons h hs)
  have "show_time_code (machine_show_time s) = show_time_code s"
    using show_time_spec(1) [of s] by (simp add: same_kernel_def)
  with Cons.IH [of "machine_show_time s"] Cons.prems show ?case
    using show_time_spec [of s] untouched_trans by (auto simp: same_kernel_def)
qed (simp add: same_kernel_def untouched_def)

lemma routines_boot:
  "init_interrupts (replicate ISR_SIZE None) ! 0 = Some timer_routine"
  "init_interrupts (replicate ISR_SIZE None) ! Suc 0 = Some keyboard_routine"
  "length (init_interrupts (replicate ISR_SIZE None)) = 8"
  by (simp_all add: init_interrupts_def ISR_SIZE_def PIT_IRQ_def KB_IRQ_def)

lemma tick_spec:
  assumes "machine_inv s"
  shows "\<exists>s'. serve Tick s = Some s' \<and> machine_inv s' \<and> same_kernel s s' \<and> m_keyboard s' = m_keyboard s \<and>
    current_loc (m_video s') = current_loc (m_video s) \<and> ticks (m_timer s') = ticks (m_timer s) + 1 \<and>
    active (m_timer s') = active (m_timer s) \<and> untouched s s'"
proof -
  have clock: "\<forall>t \<in> set (active (m_timer s)). handler t = show_time_code s \<and> forever t \<and> seconds t = 1"
    using assms by (simp add: machine_inv_def clock_only_def)
  obtain t where t: "timer_handler (m_timer s) =
      Some (t, map handler (filter (due (ticks (m_timer s) + 1)) (active (m_timer s))))"
    "timer_inv t" "ticks t = ticks (m_timer s) + 1" "active t = filter (stays (ticks (m_timer s) + 1)) (active (m_timer s))"
    using timer_handler_spec assms unfolding machine_inv_def by blast
  have "active t = active (m_timer s)" using t(4) clock by (simp add: filter_id_conv)
  moreover obtain s' where "call_task_handlers (map handler (filter (due (ticks (m_timer s) + 1)) (active (m_timer s))))
      (s\<lparr>m_timer := t\<rparr>) = Some s'" "same_kernel (s\<lparr>m_timer := t\<rparr>) s'" "m_timer s' = t"
    "m_keyboard s' = m_keyboard s" "current_loc (m_video s') = current_loc (m_video s)" "untouched (s\<lparr>m_timer := t\<rparr>) s'"
    using call_handlers_spec [of "map handler (filter (due (ticks (m_timer s) + 1)) (active (m_timer s)))"
        "s\<lparr>m_timer := t\<rparr>"] clock by auto
  ultimately show ?thesis using assms t(1-3)
    by (auto simp: interrupt_def irqDispatcher_def routines_boot machine_inv_def clock_only_def same_kernel_def video_inv_def
        untouched_def clock_memory_def)
qed

lemma key_spec:
  assumes "machine_inv s"
  shows "\<exists>s'. serve (Key status data) s = Some s' \<and> machine_inv s' \<and>
    s' = s\<lparr>m_keyboard := handled (m_keyboard s) status data\<rparr>"
  using assms handled_inv
  by (auto simp: handler_defined interrupt_def irqDispatcher_def routines_boot machine_inv_def clock_only_def)

lemma serve_spec:
  assumes "machine_inv s"
  shows "\<exists>s'. serve e s = Some s' \<and> machine_inv s' \<and> same_kernel s s' \<and>
    current_loc (m_video s') = current_loc (m_video s) \<and>
    ticks (m_timer s') = ticks (m_timer s) + (if e = Tick then 1 else 0) \<and> active (m_timer s') = active (m_timer s) \<and>
    untouched s s'"
proof (cases e)
  case Tick
  with tick_spec [OF assms] show ?thesis by auto
next
  case (Key status data)
  with key_spec [OF assms, of status data] show ?thesis by (auto simp: same_kernel_def untouched_def)
next
  case Step
  with assms show ?thesis by (simp add: same_kernel_def untouched_def)
qed

section \<open>Writing\<close>

text \<open>The characters at an address, up to a terminator and at most so many.\<close>

fun text_at :: "mem \<Rightarrow> ptr \<Rightarrow> nat \<Rightarrow> u8 list" where
  "text_at m p 0 = []"
| "text_at m p (Suc n) = (if m p = 0 then [] else m p # text_at m (p + 1) n)"

definition off_screen :: "ptr \<Rightarrow> nat \<Rightarrow> bool" where
  "off_screen p n \<longleftrightarrow> (\<forall>i < n. p + of_nat i \<notin> region 0xB8000 SCREENSIZE)"

lemma off_screen_Suc: "off_screen p (Suc n) \<longleftrightarrow> p \<notin> region 0xB8000 SCREENSIZE \<and> off_screen (p + 1) n"
  unfolding off_screen_def by (auto simp: All_less_Suc2 ac_simps)

lemma text_at_length: "length (text_at m p n) \<le> n"
  by (induction m p n rule: text_at.induct) auto

lemma text_at_cong: "off_screen p n \<Longrightarrow> same_outside v v' \<Longrightarrow> text_at (vmem v') p n = text_at (vmem v) p n"
  by (induction n arbitrary: p) (auto simp: off_screen_Suc same_outside_memory)

lemma write_loop_spec:
  assumes "video_inv v" "off_screen buffer (unat len)" "8 \<notin> set (text_at (vmem v) buffer (unat len))"
  shows "\<exists>v'. puts v (text_at (vmem v) buffer (unat len)) attr = Some v' \<and> video_inv v' \<and> same_outside v v' \<and>
    write_loop v buffer len attr = Some (v', len - of_nat (length (text_at (vmem v) buffer (unat len))) - 1)"
  using assms
proof (induction "unat len" arbitrary: v buffer len)
  case 0
  then show ?case by (subst write_loop.simps) (simp add: unat_eq_0)
next
  case (Suc n)
  have "len \<noteq> 0" using Suc.hyps(2) by auto
  moreover from this have "unat (len - 1) = n" using unat_minus_one [of len] Suc.hyps(2) by simp
  ultimately have len: "len \<noteq> 0" "unat (len - 1) = n" .
  show ?case
  proof (cases "vmem v buffer = 0")
    case True
    then show ?thesis using Suc.prems(1) by (subst write_loop.simps) (simp flip: Suc.hyps(2))
  next
    case False
    let ?rest = "text_at (vmem v) (buffer + 1) n"
    have t: "text_at (vmem v) buffer (unat len) = vmem v buffer # ?rest" using False by (simp flip: Suc.hyps(2))
    have off: "off_screen (buffer + 1) n" using Suc.prems(2) by (simp add: off_screen_Suc flip: Suc.hyps(2))
    obtain v1 where v1: "putchar v (vmem v buffer) attr = Some v1" "video_inv v1" "same_outside v v1"
      using putchar_spec [OF Suc.prems(1), of "vmem v buffer" attr] Suc.prems(3) t by auto
    have same: "text_at (vmem v1) (buffer + 1) n = ?rest" by (rule text_at_cong [OF off v1(3)])
    obtain v' where v': "puts v1 ?rest attr = Some v'" "video_inv v'" "same_outside v1 v'"
      "write_loop v1 (buffer + 1) (len - 1) attr = Some (v', len - 1 - of_nat (length ?rest) - 1)"
      using Suc.hyps(1) [of "len - 1" v1 "buffer + 1"] len(2) v1(2) off Suc.prems(3) t by (auto simp: same)
    have "write_loop v buffer len attr = write_loop v1 (buffer + 1) (len - 1) attr"
      using False len(1) v1(1) by (subst write_loop.simps) simp
    with v' v1 show ?thesis unfolding t by (auto intro: same_outside_trans simp: algebra_simps)
  qed
qed

lemma written_count:
  fixes sz :: u64
  assumes "unat sz < 2 ^ 31" "k \<le> unat sz"
  shows "sz - scast (ucast sz - of_nat k - 1 :: u32) - 1 = of_nat k"
proof (cases "k = unat sz")
  case True
  then show ?thesis using assms by simp
next
  case False
  let ?x = "ucast sz - of_nat k - 1 :: u32"
  have c: "ucast sz = (of_nat (unat sz) :: u32)" by simp
  have "?x = of_nat (unat sz - k - 1)" unfolding c using False assms(2) by (simp add: of_nat_diff)
  then have "unat ?x = unat sz - k - 1" using assms(1) by (simp add: unat_of_nat)
  then have "sint ?x = int (unat sz - k - 1)" using assms(1) by (simp add: sint_small)
  then have "scast ?x = (of_nat (unat sz - k - 1) :: u64)" by (simp add: scast_eq)
  also have "\<dots> = sz - of_nat k - 1" using False assms(2) by (simp add: of_nat_diff)
  finally show ?thesis by simp
qed

lemma sys_write_spec:
  assumes "machine_inv s" "fd = STDOUT \<or> fd = STDERR" "unat sz < 2 ^ 31" "off_screen buf (unat sz)"
    and "8 \<notin> set (text_at (ram s) buf (unat sz))"
  shows "\<exists>v. puts (m_video s) (text_at (ram s) buf (unat sz)) (if fd = STDOUT then LIGHT_GREY else RED) = Some v \<and>
    same_outside (m_video s) v \<and> machine_inv (s\<lparr>m_video := v\<rparr>) \<and>
    sys_write s fd buf sz = Some (s\<lparr>m_video := v\<rparr>, of_nat (length (text_at (ram s) buf (unat sz))))"
proof -
  have len: "unat (ucast sz :: u32) = unat sz" using assms(3) by (simp add: unsigned_ucast_eq take_bit_nat_eq_self)
  obtain v where "puts (m_video s) (text_at (ram s) buf (unat sz)) (if fd = STDOUT then LIGHT_GREY else RED) = Some v"
    "video_inv v" "same_outside (m_video s) v"
    "write_loop (m_video s) buf (ucast sz) (if fd = STDOUT then LIGHT_GREY else RED) =
       Some (v, ucast sz - of_nat (length (text_at (ram s) buf (unat sz))) - 1)"
    using write_loop_spec [of "m_video s" buf "ucast sz"] assms(1,4,5) by (auto simp: len machine_inv_def)
  then show ?thesis using assms(1,2) written_count [OF assms(3) text_at_length]
    by (auto simp: sys_write_def machine_inv_def clock_only_def)
qed

section \<open>A machine for examples\<close>

definition sample_machine :: machine where
  "sample_machine =
     \<lparr>m_video = blank_video, m_keyboard = kb_ready, m_rtc = some_rtc, m_timer = empty_timer, m_bga = default_mode,
      m_shared = init_shared booted_memory, m_process = sample_process,
      m_routines = init_interrupts (replicate ISR_SIZE None), m_syscalls = init_syscalls (replicate SYSCALLS_SIZE None),
      sbrk_top = 0x600000, video_mode_enabled = False, read_index = 0,
      time_str = 0x110000, date_str = 0x110010, show_time_code = 0x100200\<rparr>"

lemma sample_machine_inv: "machine_inv sample_machine"
  using blank_video_inv kb_ready_ok(1) sample_timers(1) booted_inv
  by (simp add: machine_inv_def sample_machine_def drained_def clock_only_def init_shared_def active_def empty_timer_def)

end
