(* ===== verification/Stdin.thy ===== *)
theory Stdin
  imports Syscalls CString
begin

text \<open>
  Reading: the loop that waits for the keyboard, against every interleaving of its accesses with the
  interrupts, and the stream of the data module.
\<close>

section \<open>Reading the keyboard\<close>

lemma get_key_steps: "get_key k = (clear_key k, load_key k)"
  by (simp add: get_key_def clear_key_def load_key_def)

lemma clear_key_inv: "kb_inv k \<Longrightarrow> kb_inv (clear_key k)"
  using get_key_inv [of k] by (simp add: get_key_steps)

text \<open>The cases of the loop, one equation each.\<close>

abbreviation waiting :: "u32 \<Rightarrow> u32 \<Rightarrow> u8 option \<Rightarrow> bool" where
  "waiting i len pending \<equiv> pending \<noteq> None \<or> i <s len"

lemma stdin_done: "\<not> i <s len \<Longrightarrow> stdin_loop env s buffer len i None = Some (s, i, env)"
  by (subst stdin_loop.simps) simp

lemma stdin_open: "waiting i len pending \<Longrightarrow> stdin_loop [] s buffer len i pending = None"
  by (subst stdin_loop.simps) auto

lemma stdin_load: "i <s len \<Longrightarrow> stdin_loop (Step # env) s buffer len i None =
    stdin_loop env s buffer len i (Some (load_key (m_keyboard s)))"
  by (subst stdin_loop.simps) simp

lemma stdin_clear: "stdin_loop (Step # env) s buffer len i (Some c) =
    (let s' = s\<lparr>m_keyboard := clear_key (m_keyboard s)\<rparr> in
     if c \<noteq> EMPTY then stdin_loop env (set_ram s' ((ram s')(buffer + scast i := c))) buffer len (i + 1) None
     else stdin_loop env s' buffer len i None)"
  by (subst stdin_loop.simps) simp

lemma stdin_irq: "waiting i len pending \<Longrightarrow> e \<noteq> Step \<Longrightarrow> stdin_loop (e # env) s buffer len i pending =
    (case serve e s of None \<Rightarrow> None | Some s' \<Rightarrow> stdin_loop env s' buffer len i pending)"
  by (subst stdin_loop.simps) (cases e; cases pending; simp)

lemmas stdin_loop_cases = stdin_done stdin_open stdin_load stdin_clear stdin_irq

text \<open>What every interrupt, every poll and every character that is stored keeps, the loop keeps.\<close>

lemma stdin_loop_invariant:
  assumes "stdin_loop env s buffer len i pending = Some (s', i', env')"
    and "P s i" "i \<le>s len" "pending \<noteq> None \<longrightarrow> i <s len"
    and irq: "\<And>s i e t. P s i \<Longrightarrow> serve e s = Some t \<Longrightarrow> P t i"
    and poll: "\<And>s i. P s i \<Longrightarrow> P (s\<lparr>m_keyboard := clear_key (m_keyboard s)\<rparr>) i"
    and store: "\<And>s i x. P s i \<Longrightarrow> i <s len \<Longrightarrow> P (set_ram s ((ram s)(buffer + scast i := x))) (i + 1)"
  shows "P s' len \<and> i' = len"
  using assms(1-4)
proof (induction env arbitrary: s i pending)
  case Nil
  then show ?case
    by (cases "waiting i len pending")
      (auto simp: stdin_loop_cases word_sle_eq word_sless_alt intro: signed_word_eqI dest: signed_word_eqI)
next
  case (Cons e env)
  let ?s = "s\<lparr>m_keyboard := clear_key (m_keyboard s)\<rparr>"
  consider "\<not> i <s len" | "i <s len" "e \<noteq> Step" | "i <s len" "e = Step" "pending = None"
    | x where "i <s len" "e = Step" "pending = Some x" by (cases pending) auto
  then show ?case
  proof cases
    case 1
    with Cons.prems have "pending = None" "i = len"
      by (auto simp: word_sle_eq word_sless_alt intro: signed_word_eqI)
    with 1 Cons.prems show ?thesis by (simp add: stdin_done)
  next
    case 2
    then obtain t where t: "serve e s = Some t" "stdin_loop env t buffer len i pending = Some (s', i', env')"
      using Cons.prems(1) by (auto simp: stdin_irq split: option.splits)
    show ?thesis using Cons.IH [OF t(2) irq [OF Cons.prems(2) t(1)]] Cons.prems(3,4) by blast
  next
    case 3
    with Cons.prems(1) have "stdin_loop env s buffer len i (Some (load_key (m_keyboard s))) = Some (s', i', env')"
      by (simp add: stdin_load)
    with Cons.IH Cons.prems(2,3) 3(1) show ?thesis by blast
  next
    case 4
    have le: "i + 1 \<le>s len" using signed_next [of i len] 4(1) by (simp add: word_sle_eq word_sless_alt)
    have "stdin_loop env ?s buffer len i None = Some (s', i', env') \<or>
        stdin_loop env (set_ram ?s ((ram ?s)(buffer + scast i := x))) buffer len (i + 1) None = Some (s', i', env')"
      using 4 Cons.prems(1) by (auto simp: stdin_clear Let_def split: if_splits)
    then show ?thesis
      using Cons.IH [OF _ poll [OF Cons.prems(2)] Cons.prems(3)] Cons.IH [OF _ store [OF poll [OF Cons.prems(2)] 4(1)] le]
      by blast
  qed
qed

lemma stdin_loop_inv:
  assumes "stdin_loop env s buffer len i pending = Some (s', i', env')" "machine_inv s" "i \<le>s len"
    and "pending \<noteq> None \<longrightarrow> i <s len"
  shows "machine_inv s' \<and> i' = len"
proof (rule stdin_loop_invariant [OF assms(1) _ assms(3,4), where P = "\<lambda>s i. machine_inv s"])
  show "machine_inv s" by (rule assms(2))
next
  fix s t i e assume "machine_inv s" "serve e s = Some t"
  then show "machine_inv t" using serve_spec [of s e] by auto
qed (use clear_key_inv in \<open>simp_all add: machine_inv_def clock_only_def video_inv_def set_ram_def\<close>)

text \<open>Which character a key that prints puts into the buffer.\<close>

definition key_char :: "bool \<Rightarrow> bool \<Rightarrow> u8 \<Rightarrow> u8" where
  "key_char shift caps k = the (keyboard_map (shift \<noteq> (kb_isalpha k \<and> caps)) k)"

definition prints :: "bool \<Rightarrow> bool \<Rightarrow> u8 \<Rightarrow> bool" where
  "prints shift caps k \<longleftrightarrow> k \<notin> {CAPS_LOCK, LS_PRESSED, RS_PRESSED, LS_RELEASED, RS_RELEASED} \<and>
     and k KEY_RELEASED = 0 \<and> key_char shift caps k \<noteq> 0"

lemma maps_not_empty: "list_all (\<lambda>c. c \<noteq> EMPTY) lower_map" "list_all (\<lambda>c. c \<noteq> EMPTY) upper_map"
  by (simp_all add: lower_map_def upper_map_def EMPTY_def list_all_iff)

lemma key_char_not_empty: "and k KEY_RELEASED = 0 \<Longrightarrow> key_char shift caps k \<noteq> EMPTY"
  using not_released [of k] maps_not_empty map_lengths
  by (auto simp: key_char_def keyboard_map_defined list_all_length)

lemma prints_pressed:
  assumes "prints (shift_on kb) (caps_lock_on kb) k"
  shows "keyboard_handler kb 1 k = Some (put_key kb (key_char (shift_on kb) (caps_lock_on kb) k))"
  using assms by (auto simp: prints_def keyboard_handler_def key_pressed_def key_char_def keyboard_map_defined Let_def)

text \<open>A key in the buffer, so many polls ahead of the reader.\<close>

definition key_ahead :: "keyboard \<Rightarrow> nat \<Rightarrow> u8 \<Rightarrow> bool" where
  "key_ahead k d c \<longleftrightarrow> kb_inv k \<and> d < BUFFER_SIZE \<and> ring (kb_buffer k) (read_pos k) (replicate d EMPTY @ [c])"

lemma poll_ring:
  assumes "kb_inv k" "ring (kb_buffer k) (read_pos k) (c # xs)"
  shows "load_key k = c" "kb_inv (clear_key k)" "ring (kb_buffer (clear_key k)) (read_pos (clear_key k)) xs"
proof -
  have r: "read_pos k < BUFFER_SIZE" using assms(1) by (simp add: kb_inv_def)
  from ring_get [OF assms(2)] r show "load_key k = c" by (simp add: load_key_def)
  show "kb_inv (clear_key k)" using assms(1) by (rule clear_key_inv)
  have "read_pos (clear_key k) = Suc (read_pos k) mod BUFFER_SIZE"
    using next_pos [OF r] by (simp add: clear_key_def)
  then show "ring (kb_buffer (clear_key k)) (read_pos (clear_key k)) xs"
    using ring_get [OF assms(2)] r by (simp add: ring_mod) (simp add: clear_key_def)
qed

lemma drained_iff: "drained k \<longleftrightarrow> kb_inv k \<and> ring (kb_buffer k) (read_pos k) []"
proof
  assume k: "kb_inv k \<and> ring (kb_buffer k) (read_pos k) []"
  have "kb_buffer k ! j = EMPTY" if "j < BUFFER_SIZE" for j
  proof -
    have "(read_pos k + (j + BUFFER_SIZE - read_pos k) mod BUFFER_SIZE) mod BUFFER_SIZE = j"
      using k that by (simp add: kb_inv_def mod_add_right_eq)
    moreover have "(j + BUFFER_SIZE - read_pos k) mod BUFFER_SIZE < BUFFER_SIZE" by (simp add: BUFFER_SIZE_def)
    ultimately show ?thesis using k unfolding ring_def by (metis length_0_conv less_nat_zero_code)
  qed
  then show "drained k" using k by (auto simp: drained_def kb_inv_def intro!: nth_equalityI)
qed (simp add: drained_def ring_drained)

lemma drained_ring: "drained k \<Longrightarrow> d \<le> BUFFER_SIZE \<Longrightarrow> ring (kb_buffer k) (read_pos k) (replicate d EMPTY)"
  by (auto simp: drained_iff ring_def)

lemma poll_drained: "drained k \<Longrightarrow> load_key k = EMPTY \<and> drained (clear_key k)"
  using poll_ring [of k EMPTY "[]"] drained_ring [of k 1] by (auto simp: drained_iff BUFFER_SIZE_def)

lemma poll_ahead:
  "key_ahead k (Suc d) c \<Longrightarrow> load_key k = EMPTY \<and> key_ahead (clear_key k) d c"
  "key_ahead k 0 c \<Longrightarrow> load_key k = c \<and> drained (clear_key k)"
  using poll_ring [of k] by (auto simp: key_ahead_def drained_iff)

lemma press_ahead:
  assumes "drained k"
  obtains d where "key_ahead (put_key k c) d c"
proof -
  let ?d = "(write_pos k + BUFFER_SIZE - read_pos k) mod BUFFER_SIZE"
  have k: "write_pos k < BUFFER_SIZE" "read_pos k < BUFFER_SIZE" using assms by (simp_all add: drained_def kb_inv_def)
  have d: "?d < BUFFER_SIZE" by (simp add: BUFFER_SIZE_def)
  have "(read_pos k + ?d) mod BUFFER_SIZE = write_pos k" using k by (simp add: mod_add_right_eq)
  with ring_put [OF drained_ring [OF assms, of ?d], of c] d
  have "ring ((kb_buffer k)[write_pos k := c]) (read_pos k) (replicate ?d EMPTY @ [c])" by simp
  then have "key_ahead (put_key k c) ?d c"
    using d put_key_inv [of k c] assms by (simp add: key_ahead_def put_key_def drained_def)
  then show thesis by (rule that)
qed

text \<open>
  What happens between two keys: whole polls and timer interrupts, in any order.
\<close>

definition polling :: "bool list \<Rightarrow> event list" where
  "polling bs = concat (map (\<lambda>b. if b then [Step, Step] else [Tick]) bs)"

definition polls :: "bool list \<Rightarrow> nat" where
  "polls bs = length (filter id bs)"

fun typing :: "(u8 \<times> bool list) list \<Rightarrow> event list" where
  "typing [] = []"
| "typing ((k, bs) # ks) = Key 1 k # polling bs @ typing ks"

definition same_case :: "machine \<Rightarrow> machine \<Rightarrow> bool" where
  "same_case s s' \<longleftrightarrow> shift_on (m_keyboard s') = shift_on (m_keyboard s) \<and>
     caps_lock_on (m_keyboard s') = caps_lock_on (m_keyboard s)"

lemma poll_empty:
  assumes "i <s len" "load_key (m_keyboard s) = EMPTY" "machine_inv s"
  obtains s' where "stdin_loop (Step # Step # env) s buffer len i None = stdin_loop env s' buffer len i None"
    "m_keyboard s' = clear_key (m_keyboard s)" "machine_inv s'" "untouched s s'" "same_case s s'" "same_kernel s s'"
proof (rule that [of "s\<lparr>m_keyboard := clear_key (m_keyboard s)\<rparr>"])
  show "machine_inv (s\<lparr>m_keyboard := clear_key (m_keyboard s)\<rparr>)"
    using assms(3) clear_key_inv by (simp add: machine_inv_def clock_only_def)
qed (use assms in \<open>simp_all add: stdin_load stdin_clear untouched_def same_case_def clear_key_def same_kernel_def\<close>)

lemma poll_char:
  assumes "i <s len" "load_key (m_keyboard s) = c" "c \<noteq> EMPTY" "machine_inv s"
  obtains s' where "stdin_loop (Step # Step # env) s buffer len i None = stdin_loop env s' buffer len (i + 1) None"
    "m_keyboard s' = clear_key (m_keyboard s)" "machine_inv s'" "ram s' = (ram s)(buffer + scast i := c)"
    "same_case s s'" "same_kernel s s'"
proof -
  let ?s = "set_ram (s\<lparr>m_keyboard := clear_key (m_keyboard s)\<rparr>) ((ram s)(buffer + scast i := c))"
  have "machine_inv ?s"
    using assms(4) clear_key_inv by (simp add: machine_inv_def clock_only_def video_inv_def set_ram_def)
  then show thesis
    using assms by (intro that [of ?s])
      (simp_all add: stdin_load stdin_clear set_ram_def Let_def same_case_def clear_key_def same_kernel_def)
qed

lemma tick_between:
  assumes "i <s len" "machine_inv s"
  obtains s' where "stdin_loop (Tick # env) s buffer len i None = stdin_loop env s' buffer len i None"
    "m_keyboard s' = m_keyboard s" "machine_inv s'" "untouched s s'" "same_case s s'" "same_kernel s s'"
proof -
  obtain s' where "serve Tick s = Some s'" "m_keyboard s' = m_keyboard s" "machine_inv s'" "untouched s s'"
    "same_kernel s s'" using tick_spec [OF assms(2)] by blast
  then show thesis using assms(1) by (intro that [of s']) (simp_all add: stdin_irq same_case_def)
qed

lemma untouched_refl [simp]: "untouched s s"
  by (simp add: untouched_def)

lemma same_case_trans: "same_case s t \<Longrightarrow> same_case t u \<Longrightarrow> same_case s u"
  by (simp add: same_case_def)

lemma polling_drained:
  assumes "i <s len" "machine_inv s" "drained (m_keyboard s)"
  shows "\<exists>s'. stdin_loop (polling bs @ env) s buffer len i None = stdin_loop env s' buffer len i None \<and>
    machine_inv s' \<and> drained (m_keyboard s') \<and> untouched s s' \<and> same_case s s'"
  using assms
proof (induction bs arbitrary: s)
  case (Cons b bs)
  have "\<exists>s1. stdin_loop (polling (b # bs) @ env) s buffer len i None = stdin_loop (polling bs @ env) s1 buffer len i None \<and>
      machine_inv s1 \<and> drained (m_keyboard s1) \<and> untouched s s1 \<and> same_case s s1"
  proof (cases b)
    case True
    then show ?thesis
      using poll_empty [OF Cons.prems(1) _ Cons.prems(2), where env = "polling bs @ env" and buffer = buffer]
        poll_drained [OF Cons.prems(3)] by (simp add: polling_def) metis
  next
    case False
    then show ?thesis
      using tick_between [OF Cons.prems(1,2), where env = "polling bs @ env" and buffer = buffer] Cons.prems(3)
      by (simp add: polling_def) metis
  qed
  then obtain s1 where s1: "stdin_loop (polling (b # bs) @ env) s buffer len i None =
      stdin_loop (polling bs @ env) s1 buffer len i None" "machine_inv s1" "drained (m_keyboard s1)" "untouched s s1"
      "same_case s s1" by blast
  from Cons.IH [OF Cons.prems(1) s1(2,3)] s1 show ?case
    by (metis untouched_trans same_case_trans)
qed (auto simp: polling_def same_case_def)

lemma polling_delivers:
  assumes "i <s len" "machine_inv s" "key_ahead (m_keyboard s) d c" "c \<noteq> EMPTY" "d < polls bs"
    and "buffer + scast i \<notin> clock_memory s"
  shows "\<exists>s' bs'. stdin_loop (polling bs @ env) s buffer len i None =
      stdin_loop (polling bs' @ env) s' buffer len (i + 1) None \<and>
    machine_inv s' \<and> drained (m_keyboard s') \<and> same_case s s' \<and> time_str s' = time_str s \<and>
    ram s' (buffer + scast i) = c \<and>
    (\<forall>a. a \<notin> clock_memory s \<longrightarrow> a \<noteq> buffer + scast i \<longrightarrow> ram s' a = ram s a)"
  using assms
proof (induction bs arbitrary: s d)
  case (Cons b bs)
  show ?case
  proof (cases "b \<and> d = 0")
    case True
    then have "load_key (m_keyboard s) = c" "drained (clear_key (m_keyboard s))"
      using poll_ahead(2) Cons.prems(3) by auto
    then obtain s' where s': "stdin_loop (Step # Step # polling bs @ env) s buffer len i None =
        stdin_loop (polling bs @ env) s' buffer len (i + 1) None"
      "drained (m_keyboard s')" "machine_inv s'" "ram s' = (ram s)(buffer + scast i := c)" "same_case s s'" "same_kernel s s'"
      using poll_char [OF Cons.prems(1) _ Cons.prems(4,2), where env = "polling bs @ env" and buffer = buffer] by metis
    have "polling (b # bs) @ env = Step # Step # polling bs @ env" using True by (simp add: polling_def)
    with s' show ?thesis by (intro exI [of _ s'] exI [of _ bs]) (simp add: same_kernel_def)
  next
    case False
    have "\<exists>s1 d1. stdin_loop (polling (b # bs) @ env) s buffer len i None =
        stdin_loop (polling bs @ env) s1 buffer len i None \<and> machine_inv s1 \<and> key_ahead (m_keyboard s1) d1 c \<and>
        d1 < polls bs \<and> untouched s s1 \<and> same_case s s1"
    proof (cases b)
      case True
      then obtain d1 where d: "d = Suc d1" using False by (cases d) auto
      with poll_ahead(1) Cons.prems(3)
      have "load_key (m_keyboard s) = EMPTY" "key_ahead (clear_key (m_keyboard s)) d1 c" by auto
      moreover have "d1 < polls bs" using Cons.prems(5) True d by (simp add: polls_def)
      ultimately show ?thesis using True
          poll_empty [OF Cons.prems(1) _ Cons.prems(2), where env = "polling bs @ env" and buffer = buffer]
        by (simp add: polling_def) metis
    next
      case False
      then have "d < polls bs" using Cons.prems(5) by (simp add: polls_def)
      with False show ?thesis
        using tick_between [OF Cons.prems(1,2), where env = "polling bs @ env" and buffer = buffer] Cons.prems(3)
        by (simp add: polling_def) metis
    qed
    then obtain s1 d1 where s1: "stdin_loop (polling (b # bs) @ env) s buffer len i None =
        stdin_loop (polling bs @ env) s1 buffer len i None" "machine_inv s1" "key_ahead (m_keyboard s1) d1 c"
        "d1 < polls bs" "untouched s s1" "same_case s s1" by blast
    have cm: "clock_memory s1 = clock_memory s" using s1(5) by (simp add: untouched_def clock_memory_def)
    obtain s' bs' where s': "stdin_loop (polling bs @ env) s1 buffer len i None =
        stdin_loop (polling bs' @ env) s' buffer len (i + 1) None"
      "machine_inv s'" "drained (m_keyboard s')" "same_case s1 s'" "time_str s' = time_str s1"
      "ram s' (buffer + scast i) = c"
      "\<forall>a. a \<notin> clock_memory s \<longrightarrow> a \<noteq> buffer + scast i \<longrightarrow> ram s' a = ram s1 a"
      using Cons.IH [OF Cons.prems(1) s1(2,3) Cons.prems(4) s1(4)] Cons.prems(6) unfolding cm by blast
    have "same_case s s'" using s1(6) s'(4) by (rule same_case_trans)
    moreover have "\<forall>a. a \<notin> clock_memory s \<longrightarrow> a \<noteq> buffer + scast i \<longrightarrow> ram s' a = ram s a"
      "time_str s' = time_str s" using s1(5) s'(5,7) by (simp_all add: untouched_def)
    ultimately show ?thesis using s1(1) s'(1-3,6) by (intro exI [of _ s'] exI [of _ bs']) simp
  qed
qed (simp add: polls_def)

definition typed_text :: "machine \<Rightarrow> (u8 \<times> bool list) list \<Rightarrow> u8 list" where
  "typed_text s ks = map (\<lambda>k. key_char (shift_on (m_keyboard s)) (caps_lock_on (m_keyboard s)) (fst k)) ks"

text \<open>Keys that print, each followed by at least one whole round of polls.\<close>

definition slow_typing :: "machine \<Rightarrow> (u8 \<times> bool list) list \<Rightarrow> bool" where
  "slow_typing s ks \<longleftrightarrow>
     (\<forall>(k, bs) \<in> set ks. prints (shift_on (m_keyboard s)) (caps_lock_on (m_keyboard s)) k \<and> BUFFER_SIZE \<le> polls bs)"

lemma signed_of_nat:
  assumes "n < 2 ^ 31"
  shows "sint (of_nat n :: u32) = int n" "scast (of_nat n :: u32) = (of_nat n :: u64)"
proof -
  have "unat (of_nat n :: u32) = n" using assms by (simp add: unat_of_nat)
  then show s: "sint (of_nat n :: u32) = int n" using assms by (simp add: sint_small)
  show "scast (of_nat n :: u32) = (of_nat n :: u64)" by (simp add: scast_eq s)
qed

lemma one_key:
  assumes "i <s len" "machine_inv s" "drained (m_keyboard s)" "buffer + scast i \<notin> clock_memory s"
    and "prints (shift_on (m_keyboard s)) (caps_lock_on (m_keyboard s)) k" "BUFFER_SIZE \<le> polls bs"
  defines "c \<equiv> key_char (shift_on (m_keyboard s)) (caps_lock_on (m_keyboard s)) k"
  obtains s' bs' where "stdin_loop (Key 1 k # polling bs @ env) s buffer len i None =
      stdin_loop (polling bs' @ env) s' buffer len (i + 1) None"
    "machine_inv s'" "drained (m_keyboard s')" "same_case s s'" "time_str s' = time_str s"
    "ram s' (buffer + scast i) = c" "\<forall>a. a \<notin> clock_memory s \<longrightarrow> a \<noteq> buffer + scast i \<longrightarrow> ram s' a = ram s a"
proof -
  let ?s = "s\<lparr>m_keyboard := put_key (m_keyboard s) c\<rparr>"
  have "serve (Key 1 k) s = Some ?s" "machine_inv ?s"
    using key_spec [OF assms(2), of 1 k] prints_pressed [OF assms(5)] by (simp_all add: c_def handled_def)
  then have st: "stdin_loop (Key 1 k # polling bs @ env) s buffer len i None =
      stdin_loop (polling bs @ env) ?s buffer len i None"
    using assms(1) by (simp add: stdin_irq)
  obtain d where d: "key_ahead (m_keyboard ?s) d c" using press_ahead [OF assms(3)] by auto
  then have "d < polls bs" using assms(6) by (simp add: key_ahead_def)
  moreover have "c \<noteq> EMPTY" using assms(5) by (simp add: c_def prints_def key_char_not_empty)
  moreover have cm: "clock_memory ?s = clock_memory s" by (simp add: clock_memory_def)
  ultimately obtain s' bs' where s': "stdin_loop (polling bs @ env) ?s buffer len i None =
      stdin_loop (polling bs' @ env) s' buffer len (i + 1) None"
    "machine_inv s'" "drained (m_keyboard s')" "same_case ?s s'" "time_str s' = time_str s"
    "ram s' (buffer + scast i) = c" "\<forall>a. a \<notin> clock_memory s \<longrightarrow> a \<noteq> buffer + scast i \<longrightarrow> ram s' a = ram s a"
    using polling_delivers [OF assms(1) \<open>machine_inv ?s\<close> d, of bs buffer env] assms(4) by (auto simp: cm)
  have "same_case s s'" using s'(4) by (simp add: same_case_def put_key_def)
  with s' st show thesis by (intro that [of bs' s']) simp_all
qed

lemma typing_delivers:
  assumes "machine_inv s" "drained (m_keyboard s)" "slow_typing s ks" "j + length ks < 2 ^ 31"
    and "\<forall>t < length ks. buffer + of_nat (j + t) \<notin> clock_memory s" "ks \<noteq> []"
  shows "\<exists>s' rest. stdin_loop (typing ks) s buffer (of_nat (j + length ks)) (of_nat j) None =
      Some (s', of_nat (j + length ks), rest) \<and> machine_inv s' \<and> drained (m_keyboard s') \<and>
    (\<forall>t < length ks. ram s' (buffer + of_nat (j + t)) = typed_text s ks ! t) \<and>
    (\<forall>a. a \<notin> clock_memory s \<longrightarrow> (\<forall>t < length ks. a \<noteq> buffer + of_nat (j + t)) \<longrightarrow> ram s' a = ram s a)"
  using assms
proof (induction ks arbitrary: s j)
  case (Cons x ks)
  obtain k bs where x: "x = (k, bs)" by (cases x)
  let ?len = "of_nat (j + length (x # ks)) :: u32" and ?c = "key_char (shift_on (m_keyboard s)) (caps_lock_on (m_keyboard s)) k"
  have j: "j < 2 ^ 31" "j + 1 < 2 ^ 31 \<or> ks = []" using Cons.prems(4) by auto
  have less: "(of_nat j :: u32) <s ?len"
    using signed_of_nat(1) [of j] signed_of_nat(1) [OF Cons.prems(4)] j by (simp add: word_sless_alt)
  have at: "buffer + of_nat j \<notin> clock_memory s" using Cons.prems(5) by (auto dest: spec [of _ 0])
  have pr: "prints (shift_on (m_keyboard s)) (caps_lock_on (m_keyboard s)) k" "BUFFER_SIZE \<le> polls bs"
    using Cons.prems(3) x by (auto simp: slow_typing_def)
  have "buffer + scast (of_nat j :: u32) \<notin> clock_memory s" using at signed_of_nat(2) [OF j(1)] by simp
  moreover have ev: "typing (x # ks) = Key 1 k # polling bs @ typing ks" by (simp add: x)
  ultimately have off1: "buffer + scast (of_nat j :: u32) \<notin> clock_memory s" by blast
  from one_key [OF less Cons.prems(1,2) off1 pr, where env = "typing ks"] obtain s1 bs1 where s1:
    "stdin_loop (typing (x # ks)) s buffer ?len (of_nat j) None =
      stdin_loop (polling bs1 @ typing ks) s1 buffer ?len (of_nat j + 1) None"
    "machine_inv s1" "drained (m_keyboard s1)" "same_case s s1" "time_str s1 = time_str s"
    "ram s1 (buffer + of_nat j) = ?c" "\<forall>a. a \<notin> clock_memory s \<longrightarrow> a \<noteq> buffer + of_nat j \<longrightarrow> ram s1 a = ram s a"
    unfolding signed_of_nat(2) [OF j(1)] ev by blast
  show ?case
  proof (cases ks)
    case Nil
    then have "\<not> (of_nat j + 1 :: u32) <s ?len" by (simp add: word_sless_alt ac_simps)
    then have "stdin_loop (typing (x # ks)) s buffer ?len (of_nat j) None =
        Some (s1, of_nat j + 1, polling bs1 @ typing ks)" using s1(1) by (simp add: stdin_done)
    moreover have "typed_text s (x # ks) = [?c]" using Nil x by (simp add: typed_text_def)
    ultimately show ?thesis using s1 Nil by (intro exI [of _ s1] exI [of _ "polling bs1 @ typing ks"]) (simp add: add.commute)
  next
    case (Cons y ys)
    then have len: "?len = of_nat (Suc j + length ks)" "ks \<noteq> []" "Suc j + length ks < 2 ^ 31"
      using Cons.prems(4) by simp_all
    then have "(of_nat j + 1 :: u32) <s ?len"
      using signed_of_nat(1) [of "Suc j"] signed_of_nat(1) [OF len(3)] by (simp add: word_sless_alt add.commute)
    from polling_drained [OF this s1(2,3), of bs1 "typing ks" buffer] obtain s2 where s2:
      "stdin_loop (polling bs1 @ typing ks) s1 buffer ?len (of_nat j + 1) None =
        stdin_loop (typing ks) s2 buffer ?len (of_nat j + 1) None"
      "machine_inv s2" "drained (m_keyboard s2)" "untouched s1 s2" "same_case s1 s2" by blast
    have same: "same_case s s2" using s1(4) s2(5) by (rule same_case_trans)
    have cm: "clock_memory s1 = clock_memory s" "clock_memory s2 = clock_memory s"
      using s2(4) s1(5) by (simp_all add: untouched_def clock_memory_def)
    have slow: "slow_typing s2 ks" using Cons.prems(3) same by (auto simp: slow_typing_def same_case_def)
    have ttext: "typed_text s2 ks = typed_text s ks" using same by (simp add: typed_text_def same_case_def)
    have "buffer + of_nat (Suc j + t) \<notin> clock_memory s2" if "t < length ks" for t
      using Cons.prems(5) [rule_format, of "Suc t"] that cm(2) by (simp add: ac_simps)
    then have off: "\<forall>t < length ks. buffer + of_nat (Suc j + t) \<notin> clock_memory s2" by blast
    obtain s' rest where s': "stdin_loop (typing ks) s2 buffer (of_nat (Suc j + length ks)) (of_nat (Suc j)) None =
        Some (s', of_nat (Suc j + length ks), rest)" "machine_inv s'" "drained (m_keyboard s')"
      "\<forall>t < length ks. ram s' (buffer + of_nat (Suc j + t)) = typed_text s ks ! t"
      "\<forall>a. a \<notin> clock_memory s \<longrightarrow> (\<forall>t < length ks. a \<noteq> buffer + of_nat (Suc j + t)) \<longrightarrow> ram s' a = ram s2 a"
      using Cons.IH [OF s2(2,3) slow len(3) off len(2)] unfolding ttext cm by blast
    have run: "stdin_loop (typing (x # ks)) s buffer ?len (of_nat j) None = Some (s', ?len, rest)"
      using s1(1) s2(1) s'(1) len(1) by (simp add: add.commute)
    have inj: "buffer + of_nat j \<noteq> buffer + of_nat (Suc j + t)" if "t < length ks" for t
    proof
      assume "buffer + of_nat j = buffer + (of_nat (Suc j + t) :: u64)"
      then have "(of_nat j :: u64) = of_nat (Suc j + t)" by (simp only: add_left_cancel)
      moreover have "j < 2 ^ 64" "Suc j + t < 2 ^ 64" using that len(3) by simp_all
      ultimately have "j = Suc j + t" using of_nat_u64_inj by blast
      then show False by simp
    qed
    have "ram s' (buffer + of_nat j) = ?c"
      using s'(5) s2(4) s1(6) at inj unfolding untouched_def cm by metis
    then have "\<forall>t < length (x # ks). ram s' (buffer + of_nat (j + t)) = typed_text s (x # ks) ! t"
      using s'(4) by (auto simp: less_Suc_eq_0_disj typed_text_def x ac_simps)
    moreover have "\<forall>a. a \<notin> clock_memory s \<longrightarrow> (\<forall>t < length (x # ks). a \<noteq> buffer + of_nat (j + t)) \<longrightarrow> ram s' a = ram s a"
    proof (intro allI impI)
      fix a assume a: "a \<notin> clock_memory s" "\<forall>t < length (x # ks). a \<noteq> buffer + of_nat (j + t)"
      have "a \<noteq> buffer + of_nat j" using a(2) [rule_format, of 0] by simp
      moreover have "a \<noteq> buffer + of_nat (Suc j + t)" if "t < length ks" for t
        using a(2) [rule_format, of "Suc t"] that by (simp add: ac_simps)
      ultimately have "a \<noteq> buffer + of_nat j" "\<forall>t < length ks. a \<noteq> buffer + of_nat (Suc j + t)" by blast+
      with a(1) s'(5) s2(4) s1(7) show "ram s' a = ram s a" unfolding untouched_def cm by metis
    qed
    ultimately show ?thesis using run s'(2,3) by blast
  qed
qed simp

section \<open>The data module\<close>

lemma put_bytes_cstr:
  assumes "region q (length bs) \<inter> region p (Suc (length xs)) = {}"
  shows "cstr (put_bytes m q bs) p xs = cstr m p xs"
proof (rule cstr_cong)
  fix i assume "i \<le> length xs"
  then have "p + of_nat i \<in> region p (Suc (length xs))" by (simp add: region_def)
  with assms show "put_bytes m q bs (p + of_nat i) = m (p + of_nat i)" by (intro put_bytes_other) blast
qed

lemma stddata_loop_spec:
  assumes "cstr m dir xs" "i + k < 2 ^ 31" "region (buffer + of_nat i) k \<inter> region dir (Suc (length xs)) = {}"
  shows "stddata_loop m buffer (of_nat (i + k)) dir (of_nat i) index =
    (let c = min k (length xs) in
     (put_bytes m (buffer + of_nat i) (take c xs), dir + of_nat c, of_nat (i + c), index + of_nat c))"
  using assms
proof (induction xs arbitrary: m dir i k index)
  case Nil
  then show ?case by (subst stddata_loop.simps) simp
next
  case (Cons x xs)
  have i: "i < 2 ^ 31" using Cons.prems(2) by simp
  show ?case
  proof (cases k)
    case 0
    then show ?thesis by (subst stddata_loop.simps) (simp add: word_sless_alt)
  next
    case (Suc n)
    have less: "(of_nat i :: u32) <s of_nat (i + k)"
      using signed_of_nat(1) [OF i] signed_of_nat(1) [OF Cons.prems(2)] Suc by (simp add: word_sless_alt)
    let ?m = "m(buffer + of_nat i := x)"
    have r: "region (buffer + of_nat i) k = insert (buffer + of_nat i) (region (buffer + of_nat (Suc i)) n)"
      "region dir (Suc (length (x # xs))) = insert dir (region (dir + 1) (Suc (length xs)))"
      unfolding Suc by (simp_all add: region_shift ac_simps)
    have x: "m dir = x" "x \<noteq> 0" "cstr ?m (dir + 1) xs"
      using Cons.prems(1,3) unfolding r by (auto simp: cstr_update)
    have "region (buffer + of_nat (Suc i)) n \<inter> region (dir + 1) (Suc (length xs)) = {}"
      using Cons.prems(3) unfolding r by blast
    moreover have "Suc i + n < 2 ^ 31" using Cons.prems(2) Suc by simp
    moreover have k: "(of_nat (i + k) :: u32) = of_nat (Suc i + n)" using Suc by simp
    ultimately have "stddata_loop ?m buffer (of_nat (i + k)) (dir + 1) (of_nat (Suc i)) (index + 1) =
        (let c = min n (length xs) in (put_bytes ?m (buffer + of_nat (Suc i)) (take c xs), dir + 1 + of_nat c,
           of_nat (Suc i + c), index + 1 + of_nat c))" using Cons.IH [OF x(3)] by metis
    moreover have "stddata_loop m buffer (of_nat (i + k)) dir (of_nat i) index =
        stddata_loop ?m buffer (of_nat (i + k)) (dir + 1) (of_nat (Suc i)) (index + 1)"
      using less x(1,2) signed_of_nat(2) [OF i] by (subst stddata_loop.simps) (simp add: ac_simps)
    ultimately show ?thesis using Suc by (simp add: Let_def ac_simps)
  qed
qed

text \<open>
  reading the data module streams the file that was loaded there: a read at position \<open>k\<close> delivers the
  next bytes of the file, as many as are asked for or left, and moves the position behind them. A read at
  the end of the file, and any read of no bytes, delivers no byte but the mark 255, and the stream starts
  again from the beginning.
\<close>

theorem stddata_stream:
  assumes "cstr (ram s) dataModuleAddress file" "read_index s = of_nat k" "k \<le> length file" "length file < 2 ^ 31"
    and "unat sz < 2 ^ 31" "region buf (unat sz) \<inter> region dataModuleAddress (Suc (length file)) = {}"
  defines "c \<equiv> min (unat sz) (length file - k)"
  shows "\<exists>s'. sys_read env s STDDATA buf sz = Some (s', of_nat c, env) \<and>
    (if c = 0 then ram s' = (ram s)(buf := 0xFF) \<and> read_index s' = 0
     else ram s' = put_bytes (ram s) buf (take c (drop k file)) \<and> read_index s' = of_nat (k + c))"
proof -
  let ?dir = "dataModuleAddress + scast (read_index s)"
  have k: "scast (read_index s) = (of_nat k :: u64)" using assms(2-4) signed_of_nat(2) [of k] by simp
  then have dir: "cstr (ram s) ?dir (drop k file)" using cstr_drop [OF assms(1,3)] by simp
  have sz: "ucast sz = (of_nat (0 + unat sz) :: u32)" by simp
  have "region ?dir (Suc (length (drop k file))) \<subseteq> region dataModuleAddress (Suc (length file))"
  proof
    fix a assume "a \<in> region ?dir (Suc (length (drop k file)))"
    then obtain j where "a = dataModuleAddress + of_nat (k + j)" "j < Suc (length file - k)"
      unfolding k by (auto simp: region_def ac_simps)
    moreover from this have "k + j < Suc (length file)" using assms(3) by simp
    ultimately show "a \<in> region dataModuleAddress (Suc (length file))" unfolding region_def by blast
  qed
  then have apart: "region (buf + of_nat 0) (unat sz) \<inter> region ?dir (Suc (length (drop k file))) = {}"
    using assms(6) by auto
  have loop: "stddata_loop (ram s) buf (ucast sz) ?dir 0 (read_index s) =
      (put_bytes (ram s) buf (take c (drop k file)), ?dir + of_nat c, of_nat c, read_index s + of_nat c)"
    using stddata_loop_spec [OF dir _ apart, of "read_index s"] assms(5) unfolding sz c_def by (simp add: Let_def)
  have c: "c < 2 ^ 31" using assms(4) by (simp add: c_def)
  have "sint b \<noteq> uint KEOF" for b :: u8 using sint_lt [of b] by (simp add: KEOF_def)
  moreover have "(of_nat c :: u32) = 0 \<longleftrightarrow> c = 0" using c by (cases "c = 0") (auto simp: word_of_nat_eq_0_iff dest: dvd_imp_le)
  ultimately show ?thesis
    using loop signed_of_nat(2) [OF c] assms(2)
    by (auto simp: sys_read_def kernel_descriptors read_stddata_def KEOF_def set_ram_def)
qed

theorem stddata_stream_witness:
  "\<exists>s'. sys_read [] (set_ram sample_machine ((\<lambda>a. 0)(0x500000 := 72, 0x500001 := 105))) STDDATA 0x700000 1 = Some (s', 1, []) \<and>
     ram s' 0x700000 = 72 \<and> read_index s' = 1"
proof -
  let ?s = "set_ram sample_machine ((\<lambda>a. 0)(0x500000 := 72, 0x500001 := 105))"
  have "cstr (ram ?s) dataModuleAddress [72, 105]" by (simp add: dataModuleAddress_def)
  moreover have "read_index ?s = of_nat 0" by (simp add: set_ram_def sample_machine_def)
  moreover have "region 0x700000 (unat (1 :: u64)) \<inter> region dataModuleAddress (Suc (length [72, 105 :: u8])) = {}"
    by (auto simp: region_shift dataModuleAddress_def)
  ultimately show ?thesis
    using stddata_stream [of ?s "[72, 105]" 0 1 "0x700000" "[]"] by auto
qed

section \<open>Properties of the keyboard loop\<close>

text \<open>
  C8: a line typed at human speed arrives: if at least 64 polls lie between two keys, with any number of
  timer interrupts between the polls, then a read of \<open>n\<close> characters returns after \<open>n\<close> printing keys, with
  their characters in the buffer in the order in which they were pressed, whatever the positions of the key
  buffer were; no other memory changes, but for the screen and the string of the clock.
\<close>

theorem read_typed_line:
  assumes "machine_inv s" "drained (m_keyboard s)" "slow_typing s ks" "ks \<noteq> []" "length ks < 2 ^ 31"
    and "region buf (length ks) \<inter> clock_memory s = {}"
  shows "\<exists>s' rest. sys_read (typing ks) s STDIN buf (of_nat (length ks)) = Some (s', of_nat (length ks), rest) \<and>
    bytes_at (ram s') buf (length ks) = typed_text s ks \<and> machine_inv s' \<and> drained (m_keyboard s') \<and>
    (\<forall>a. a \<notin> clock_memory s \<union> region buf (length ks) \<longrightarrow> ram s' a = ram s a)"
proof -
  have "\<forall>t < length ks. buf + of_nat (0 + t) \<notin> clock_memory s" using assms(6) by (auto simp: region_def)
  moreover have "0 + length ks < 2 ^ 31" using assms(5) by simp
  ultimately obtain s' rest where r: "stdin_loop (typing ks) s buf (of_nat (length ks)) 0 None =
      Some (s', of_nat (length ks), rest)" "machine_inv s'" "drained (m_keyboard s')"
    "\<forall>t < length ks. ram s' (buf + of_nat t) = typed_text s ks ! t"
    "\<forall>a. a \<notin> clock_memory s \<longrightarrow> (\<forall>t < length ks. a \<noteq> buf + of_nat t) \<longrightarrow> ram s' a = ram s a"
    using typing_delivers [OF assms(1-3) _ _ assms(4), of 0 buf] by auto
  have "(ucast (of_nat (length ks) :: u64) :: u32) = of_nat (unat (of_nat (length ks) :: u64))" by simp
  also have "\<dots> = of_nat (length ks)" using assms(5) by (subst unat_of_nat_u64) simp_all
  finally have "(ucast (of_nat (length ks) :: u64) :: u32) = of_nat (length ks)" .
  then have "sys_read (typing ks) s STDIN buf (of_nat (length ks)) = Some (s', of_nat (length ks), rest)"
    using r(1) signed_of_nat(2) [OF assms(5)] by (simp add: sys_read_def kernel_descriptors read_stdin_def)
  moreover have "bytes_at (ram s') buf (length ks) = typed_text s ks"
  proof (rule nth_equalityI)
    fix t assume "t < length (bytes_at (ram s') buf (length ks))"
    then have "t < length ks" by (simp add: bytes_at_def)
    then show "bytes_at (ram s') buf (length ks) ! t = typed_text s ks ! t" using r(4) by (simp add: bytes_at_def)
  qed (simp add: bytes_at_def typed_text_def)
  moreover have "\<forall>a. a \<notin> clock_memory s \<union> region buf (length ks) \<longrightarrow> ram s' a = ram s a"
    using r(5) by (auto simp: region_def)
  ultimately show ?thesis using r(2,3) by blast
qed

lemma letters_print: "prints False False 30" "prints False False 48"
  "key_char False False 30 = 97" "key_char False False 48 = 98"
  by (simp_all add: prints_def special_keys KEY_RELEASED_def key_char_def keyboard_map_def lower_map_def)

lemma sample_keyboard: "m_keyboard sample_machine = kb_ready" "shift_on kb_ready = False" "caps_lock_on kb_ready = False"
  by (simp_all add: sample_machine_def kb_ready_def)

theorem read_typed_line_witness:
  "\<exists>s' rest. sys_read (typing [(30, replicate 64 True), (48, False # replicate 64 True)]) sample_machine STDIN 0x700000 2 =
      Some (s', 2, rest) \<and> bytes_at (ram s') 0x700000 2 = [97, 98]"
proof -
  let ?ks = "[(30, replicate 64 True), (48, False # replicate 64 True)] :: (u8 \<times> bool list) list"
  have "slow_typing sample_machine ?ks"
    by (simp add: slow_typing_def sample_keyboard letters_print polls_def BUFFER_SIZE_def)
  moreover have "typed_text sample_machine ?ks = [97, 98]"
    by (simp add: typed_text_def sample_keyboard letters_print)
  moreover have "region 0x700000 (length ?ks) \<inter> clock_memory sample_machine = {}"
    by (auto simp: clock_memory_def in_region_iff screen_layout sample_machine_def region_shift)
  ultimately show ?thesis
    using read_typed_line [OF sample_machine_inv, of ?ks "0x700000"] kb_ready_ok(1) by (simp add: sample_keyboard) (metis numeral_2_eq_2)
qed

text \<open>
  C32: but a key can be lost: when its interrupt comes between the two accesses of \<open>get_key\<close> to the place
  the key is stored at, the place is marked empty behind it. However often the loop polls afterwards, the
  read does not return.
\<close>

theorem key_lost_between_accesses:
  assumes "machine_inv s" "drained (m_keyboard s)" "read_pos (m_keyboard s) = write_pos (m_keyboard s)"
    and "prints (shift_on (m_keyboard s)) (caps_lock_on (m_keyboard s)) k" "0 <s len"
  shows "(\<exists>s'. stdin_loop ([Step, Key 1 k, Step] @ env) s buf len 0 None = stdin_loop env s' buf len 0 None \<and>
      machine_inv s' \<and> drained (m_keyboard s')) \<and>
    read_stdin ([Step, Key 1 k, Step] @ polling bs) s buf len = None"
proof

  let ?c = "key_char (shift_on (m_keyboard s)) (caps_lock_on (m_keyboard s)) k"
  let ?k = "clear_key (put_key (m_keyboard s) ?c)"
  let ?s = "s\<lparr>m_keyboard := put_key (m_keyboard s) ?c\<rparr>"
  have pressed: "serve (Key 1 k) s = Some ?s" "machine_inv ?s"
    using key_spec [OF assms(1), of 1 k] prints_pressed [OF assms(4)] by (simp_all add: handled_def)
  have empty: "load_key (m_keyboard s) = EMPTY" using poll_drained [OF assms(2)] by simp
  have run: "stdin_loop ([Step, Key 1 k, Step] @ es) s buf len 0 None =
      stdin_loop es (s\<lparr>m_keyboard := ?k\<rparr>) buf len 0 None" for es
    using assms(5) pressed(1) empty by (simp add: stdin_load stdin_irq stdin_clear)
  have "kb_buffer ?k = kb_buffer (m_keyboard s)" "kb_inv ?k"
    using assms(2,3) clear_key_inv [OF put_key_inv, of "m_keyboard s" ?c]
    by (simp_all add: clear_key_def put_key_def drained_def kb_inv_def list_update_same_conv)
  then have k: "machine_inv (s\<lparr>m_keyboard := ?k\<rparr>)" "drained ?k"
    using assms(1,2) by (simp_all add: machine_inv_def clock_only_def drained_def)
  show "\<exists>s'. stdin_loop ([Step, Key 1 k, Step] @ env) s buf len 0 None = stdin_loop env s' buf len 0 None \<and>
      machine_inv s' \<and> drained (m_keyboard s')"
    using run [of env] k by (intro exI [of _ "s\<lparr>m_keyboard := ?k\<rparr>"]) simp
  obtain s' where "stdin_loop (polling bs @ []) (s\<lparr>m_keyboard := ?k\<rparr>) buf len 0 None =
      stdin_loop [] s' buf len 0 None" using polling_drained [OF assms(5) k(1)] k(2) by fastforce
  then show "read_stdin ([Step, Key 1 k, Step] @ polling bs) s buf len = None"
    using run [of "polling bs"] assms(5) by (simp add: read_stdin_def stdin_open)
qed


theorem key_lost_between_accesses_witness:
  "read_stdin ([Step, Key 1 30, Step] @ polling (replicate 1000 True)) sample_machine 0x700000 1 = None"
proof -
  have "read_pos (m_keyboard sample_machine) = write_pos (m_keyboard sample_machine)"
    by (simp add: sample_machine_def kb_ready_def)
  moreover have "(0 :: u32) <s 1" by (simp add: word_sless_alt)
  ultimately show ?thesis
    using key_lost_between_accesses [OF sample_machine_inv, of 30 1] kb_ready_ok(1) by (simp add: sample_keyboard letters_print)
qed

end
