(* ===== verification/System.thy ===== *)
theory System
  imports Stdin
begin

text \<open>
  The system calls as a whole: what each of them keeps of the machine, the clock, waiting, the dispatcher,
  and the safety of every history of calls and interrupts from the boot on.
\<close>

section \<open>What the system calls keep\<close>

text \<open>Calls that leave the invariant's parts of the machine alone, or replace one of them.\<close>

lemma inv_set_ram: "machine_inv s \<Longrightarrow> machine_inv (set_ram s m)"
  by (simp add: machine_inv_def clock_only_def video_inv_def set_ram_def)

lemma inv_video: "machine_inv s \<Longrightarrow> video_inv v \<Longrightarrow> machine_inv (s\<lparr>m_video := v\<rparr>)"
  by (simp add: machine_inv_def clock_only_def)

lemma inv_others [simp]:
  "machine_inv (s\<lparr>m_rtc := r\<rparr>) = machine_inv s" "machine_inv (s\<lparr>m_bga := b\<rparr>) = machine_inv s"
  "machine_inv (s\<lparr>sbrk_top := p\<rparr>) = machine_inv s" "machine_inv (s\<lparr>read_index := i\<rparr>) = machine_inv s"
  "machine_inv (s\<lparr>video_mode_enabled := e\<rparr>) = machine_inv s"
  by (simp_all add: machine_inv_def clock_only_def)

lemma inv_memory: "machine_inv s \<Longrightarrow> memory_inv mem \<Longrightarrow> machine_inv (set_memory s mem)"
  by (simp add: machine_inv_def clock_only_def set_memory_def)

lemma inv_bga: "machine_inv s \<Longrightarrow> machine_inv (fst (with_bga f s))"
  by (simp add: with_bga_def inv_set_ram split: prod.split)

lemma inv_timer:
  "machine_inv s \<Longrightarrow> timer_inv t \<Longrightarrow> \<forall>x \<in> set (active t). handler x = show_time_code s \<and> forever x \<and> seconds x = 1 \<Longrightarrow>
     machine_inv (s\<lparr>m_timer := t\<rparr>)"
  by (simp add: machine_inv_def clock_only_def)

lemma inv_same:
  assumes "machine_inv s" "same_kernel s s'" "m_timer s' = m_timer s" "m_keyboard s' = m_keyboard s"
    and "current_loc (m_video s') = current_loc (m_video s)"
  shows "machine_inv s'"
  using assms by (simp add: machine_inv_def clock_only_def same_kernel_def video_inv_def)

lemma inv_time_string: "machine_inv s \<Longrightarrow> machine_inv (sys_time_string s)"
  using inv_same time_string_spec by blast

lemma inv_date_string: "machine_inv s \<Longrightarrow> machine_inv (sys_date_string s)"
  by (simp add: sys_date_string_def inv_set_ram split: prod.split)

lemma inv_show_time: "machine_inv s \<Longrightarrow> machine_inv (machine_show_time s)"
  using inv_same show_time_spec by blast

section \<open>The clock\<close>

definition clock_task :: "machine \<Rightarrow> Task" where
  "clock_task s = \<lparr>seconds = 1, handler = show_time_code s, forever = True\<rparr>"

text \<open>The timer holds the clock or nothing.\<close>

lemma clock_or_nothing:
  assumes "machine_inv s"
  shows "active (m_timer s) = [] \<or> active (m_timer s) = [clock_task s]"
proof -
  have all: "\<forall>t \<in> set (active (m_timer s)). t = clock_task s" and "distinct (map handler (active (m_timer s)))"
    using assms by (auto simp: machine_inv_def clock_only_def timer_inv_def clock_task_def)
  then have "active (m_timer s) = replicate (length (active (m_timer s))) (clock_task s)"
    by (intro replicate_eqI) auto
  moreover have "length (active (m_timer s)) \<le> 1"
  proof (rule ccontr)
    assume "\<not> length (active (m_timer s)) \<le> 1"
    then obtain a b cs where "active (m_timer s) = a # b # cs" by (cases "active (m_timer s)" rule: remdups_adj.cases) auto
    then show False using all \<open>distinct (map handler _)\<close> by simp
  qed
  ultimately show ?thesis by (cases "length (active (m_timer s))") (simp_all add: le_Suc_eq)
qed

lemma hide_time_spec: "same_outside v (hide_time v) \<and> current_loc (hide_time v) = current_loc v"
  using puts_at_spec by (simp add: hide_time_def)

definition clock_toggled :: "machine \<Rightarrow> machine \<Rightarrow> bool" where
  "clock_toggled s s' \<longleftrightarrow> machine_inv s' \<and> same_kernel s s' \<and> untouched s s' \<and> m_keyboard s' = m_keyboard s \<and>
     ticks (m_timer s') = ticks (m_timer s) \<and>
     active (m_timer s') = (if active (m_timer s) = [] then [clock_task s] else [])"

lemma clock_off:
  assumes "machine_inv s" "active (m_timer s) \<noteq> []"
  obtains s2 where "fst (sys_time s) = sys_time_string s2" "clock_toggled s s2"
    "m_rtc s2 = m_rtc s" "m_video s2 = hide_time (m_video s)"
proof -
  have t: "timer_inv (m_timer s)" using assms by (simp add: machine_inv_def)
  obtain t1 removed where r: "remove_task (m_timer s) (show_time_code s) = (t1, removed)" by fastforce
  note rs = remove_task_spec [OF t r]
  have active: "active (m_timer s) = [clock_task s]" using clock_or_nothing [OF assms(1)] assms(2) by simp
  then have "removed" "active t1 = []" using rs by (auto simp: clock_task_def)
  let ?s = "s\<lparr>m_timer := t1, m_video := hide_time (m_video s)\<rparr>"
  have "video_inv (hide_time (m_video s))"
    using assms(1) hide_time_spec [of "m_video s"] by (simp add: machine_inv_def video_inv_def)
  moreover have "machine_inv (s\<lparr>m_timer := t1\<rparr>)" using assms(1) rs \<open>active t1 = []\<close> by (intro inv_timer) simp_all
  ultimately have "machine_inv ?s" using inv_video by blast
  moreover have "untouched s ?s" using hide_time_spec [of "m_video s"] same_outside_memory
    by (auto simp: untouched_def clock_memory_def)
  ultimately have "clock_toggled s ?s"
    using rs \<open>active t1 = []\<close> active by (simp add: clock_toggled_def same_kernel_def)
  then show thesis using r \<open>removed\<close> by (intro that [of ?s]) (simp_all add: sys_time_def)
qed

lemma clock_on:
  assumes "machine_inv s" "active (m_timer s) = []"
  obtains t where "fst (sys_time s) = sys_time_string ((machine_show_time s)\<lparr>m_timer := t\<rparr>)"
    "clock_toggled s ((machine_show_time s)\<lparr>m_timer := t\<rparr>)"
proof -
  have t: "timer_inv (m_timer s)" using assms by (simp add: machine_inv_def)
  obtain t1 removed where r: "remove_task (m_timer s) (show_time_code s) = (t1, removed)" by fastforce
  have "removed = False" using remove_task_spec [OF t r] assms(2) by simp
  moreover from this have "t1 = m_timer s" using r by (auto simp: remove_task_def split: option.splits)
  moreover obtain t2 b where a: "add_task (m_timer s) 1 (show_time_code s) True = (t2, b)" by fastforce
  have "unat (TICKS_PER_SECOND * 1) \<noteq> 0" by (simp add: TICKS_PER_SECOND_def)
  from add_task_spec [OF t this a] have t2: "timer_inv t2" "ticks t2 = ticks (m_timer s)" "active t2 = [clock_task s]"
    using assms(2) by (simp_all add: clock_task_def)
  let ?s = "(machine_show_time s)\<lparr>m_timer := t2\<rparr>"
  note sh = show_time_spec [of s]
  have "machine_inv ?s" using inv_show_time [OF assms(1)] t2 sh(1)
    by (intro inv_timer) (auto simp: clock_task_def same_kernel_def)
  moreover have "untouched s ?s" using sh(5) by (simp add: untouched_def)
  ultimately have "clock_toggled s ?s" using sh t2 assms(2) by (simp add: clock_toggled_def same_kernel_def)
  moreover have "fst (sys_time s) = sys_time_string ?s"
    using r a \<open>removed = False\<close> \<open>t1 = m_timer s\<close> sh(2) by (simp add: sys_time_def Let_def)
  ultimately show thesis by (intro that)
qed

lemma time_string_toggled:
  assumes "clock_toggled s s2"
  shows "clock_toggled s (sys_time_string s2)"
  using assms time_string_spec [of s2] inv_time_string [of s2] untouched_trans [of s s2 "sys_time_string s2"]
  by (auto simp: clock_toggled_def same_kernel_def)

lemma sys_time_spec: "machine_inv s \<Longrightarrow> clock_toggled s (fst (sys_time s))"
  by (metis clock_off clock_on time_string_toggled)

lemma bytes_at_put_bytes: "length bs \<le> 2 ^ 64 \<Longrightarrow> bytes_at (put_bytes m p bs) p (length bs) = bs"
proof (induction bs arbitrary: m p)
  case (Cons b bs)
  have "p \<notin> region (p + 1) (length bs)" using Cons.prems by (simp add: in_region_iff unsigned_minus_1_eq_mask mask_eq_exp_minus_1)
  then have "put_bytes (m(p := b)) (p + 1) bs p = b" by (simp add: put_bytes_other)
  with Cons show ?case by (simp add: bytes_at_Suc)
qed (simp add: bytes_at_def)

lemma time_registers: "snd (time r) = snd (time r')" if "cmos r = cmos r'"
  using that by (simp add: time_def get_time_def select_def)

lemma time_keeps_registers: "cmos (fst (time r)) = cmos r"
  by (simp add: time_def get_time_def select_def)

lemma show_time_registers: "cmos (m_rtc (machine_show_time s)) = cmos (m_rtc s)"
proof -
  have "m_rtc (machine_show_time s) = fst (time (fst (time (m_rtc s))))"
    by (simp add: machine_show_time_def sys_time_string_def show_time_def set_ram_def Let_def split_def)
  then show ?thesis by (simp add: time_keeps_registers)
qed

lemma two_chars_bounds: "10 \<notin> set (two_chars n)"
proof -
  have b: "- 9 \<le> k smod 10" "k smod 10 \<le> 9" for k :: int
    by (auto simp: signed_modulo_int_def sgn_if)
  have ne: "(of_int m :: u8) \<noteq> 10" if "39 \<le> m" "m \<le> 57" for m :: int
  proof
    assume "(of_int m :: u8) = 10"
    then have "uint (of_int m :: u8) = uint (10 :: u8)" by simp
    then show False using that by (simp add: uint_word_of_int)
  qed
  have "(of_int (k smod 10 + 48) :: u8) \<noteq> 10" for k :: int by (rule ne) (use b [of k] in simp_all)
  then show ?thesis by (simp add: two_chars_def)
qed

lemma time_no_newline: "10 \<notin> set (snd (time r))"
  using two_chars_bounds by (simp add: time_def get_time_def)

text \<open>The eight cells of the top right corner.\<close>

definition corner :: "machine \<Rightarrow> u8 list" where
  "corner s = map (\<lambda>i. peek (m_video s) (144 + 2 * i)) [0..<8]"

lemma corner_puts:
  assumes "length str = 8" "10 \<notin> set str" "m_video s = fst (puts_at v str attr 0 72)"
  shows "corner s = str"
proof -
  have "peek (m_video s) (144 + 2 * i) = str ! i" if "i < 8" for i
    unfolding assms(3) using puts_at_cells [of 0 72 str "144 + 2 * i" v attr] assms(1,2) that by simp
  then show ?thesis using assms(1) by (auto simp: corner_def intro!: nth_equalityI)
qed

lemma corner_time_string:
  assumes "region (time_str s) 8 \<inter> region 0xB8000 SCREENSIZE = {}"
  shows "corner (sys_time_string s) = corner s"
proof -
  have "ram (sys_time_string s) (vaddr j) = ram s (vaddr j)" if "j < 4000" for j
  proof -
    have "vaddr j \<in> region 0xB8000 SCREENSIZE" using that by (auto simp: vaddr_def region_def screen_layout)
    then have "vaddr j \<notin> region (time_str s) (length (snd (time (m_rtc s))))" using assms by (auto simp: time_length)
    then show ?thesis by (simp add: time_string_spec(5) put_bytes_other)
  qed
  then show ?thesis by (simp add: corner_def peek_def)
qed

definition clock_apart :: "machine \<Rightarrow> bool" where
  "clock_apart s \<longleftrightarrow> region (time_str s) 8 \<inter> region 0xB8000 SCREENSIZE = {}"

lemma sys_time_parts:
  assumes "machine_inv s"
  shows "\<exists>s2. fst (sys_time s) = sys_time_string s2 \<and> cmos (m_rtc s2) = cmos (m_rtc s) \<and> time_str s2 = time_str s \<and>
    corner s2 = (if active (m_timer s) \<noteq> [] then replicate 8 SPACE else snd (time (m_rtc s)))"
proof (cases "active (m_timer s) \<noteq> []")
  case True
  then obtain s2 where s2: "fst (sys_time s) = sys_time_string s2" "clock_toggled s s2" "m_rtc s2 = m_rtc s"
    "m_video s2 = hide_time (m_video s)" using clock_off [OF assms] by metis
  moreover have "corner s2 = replicate 8 SPACE"
    using s2(4) unfolding hide_time_def by (intro corner_puts) simp_all
  ultimately show ?thesis using True by (auto simp: clock_toggled_def same_kernel_def)
next
  case False
  then obtain t where t: "fst (sys_time s) = sys_time_string ((machine_show_time s)\<lparr>m_timer := t\<rparr>)"
    using clock_on [OF assms] by metis
  have "m_video (machine_show_time s) =
      fst (puts_at (m_video (sys_time_string s)) (snd (time (m_rtc (sys_time_string s)))) GREEN 0 72)"
    by (simp add: machine_show_time_def show_time_def Let_def split: prod.split)
  moreover have "snd (time (m_rtc (sys_time_string s))) = snd (time (m_rtc s))"
    by (rule time_registers) (simp add: sys_time_string_def time_keeps_registers split_def)
  ultimately have "corner ((machine_show_time s)\<lparr>m_timer := t\<rparr>) = snd (time (m_rtc s))"
    by (intro corner_puts) (simp_all add: time_length time_no_newline)
  with t False show ?thesis
    using show_time_registers show_time_spec(1) [of s]
    by (intro exI [of _ "(machine_show_time s)\<lparr>m_timer := t\<rparr>"]) (simp add: same_kernel_def)
qed

lemma sys_time_bytes:
  assumes "machine_inv s"
  shows "bytes_at (ram (fst (sys_time s))) (time_str s) 8 = snd (time (m_rtc s))"
proof -
  obtain s2 where s2: "fst (sys_time s) = sys_time_string s2" "cmos (m_rtc s2) = cmos (m_rtc s)" "time_str s2 = time_str s"
    using sys_time_parts [OF assms] by blast
  then show ?thesis
    using bytes_at_put_bytes [of "snd (time (m_rtc s2))" "ram s2" "time_str s2"] time_registers [OF s2(2)]
    by (simp add: time_string_spec(5) time_length)
qed

text \<open>
  C26: the \<open>time\<close> call switches the clock: if the clock is not shown it appears in the corner of the screen, with
  the time of the registers, and becomes the one task of the timer, due every second for ever; if it is shown
  its corner is blanked and the task removed. In both cases the answer is the address of a string with the
  time, and besides the screen and that string no memory changes.
\<close>

theorem clock_toggles:
  assumes "machine_inv s" "clock_apart s"
  defines "s' \<equiv> fst (sys_time s)" and "shown \<equiv> active (m_timer s) \<noteq> []"
  shows "snd (sys_time s) = time_str s \<and> bytes_at (ram s') (time_str s) 8 = snd (time (m_rtc s)) \<and>
    corner s' = (if shown then replicate 8 SPACE else snd (time (m_rtc s))) \<and>
    active (m_timer s') = (if shown then [] else [clock_task s]) \<and> machine_inv s' \<and> untouched s s' \<and>
    m_keyboard s' = m_keyboard s \<and> ticks (m_timer s') = ticks (m_timer s)"
proof -
  have toggled: "clock_toggled s s'" using sys_time_spec [OF assms(1)] by (simp add: s'_def)
  have snd: "snd (sys_time s) = time_str s"
    using show_time_spec(1) [of "s\<lparr>m_timer := t\<rparr>" for t]
    by (auto simp: sys_time_def Let_def same_kernel_def split: prod.split)
  obtain s2 where s2: "s' = sys_time_string s2" "time_str s2 = time_str s"
    "corner s2 = (if shown then replicate 8 SPACE else snd (time (m_rtc s)))"
    using sys_time_parts [OF assms(1)] unfolding s'_def shown_def by blast
  then have "corner s' = corner s2"
    using assms(2) by (simp add: corner_time_string clock_apart_def)
  then show ?thesis using toggled snd s2(3) sys_time_bytes [OF assms(1)]
    by (simp add: clock_toggled_def shown_def s'_def)
qed

lemma small_argument: "n < 2 ^ 32 \<Longrightarrow> (ucast (of_nat n :: u64) :: u32) = of_nat n"
  by (simp add: unsigned_of_nat take_bit_nat_eq_self)

lemma small_limit: "n < 2 ^ 64 \<Longrightarrow> m < 2 ^ 64 \<Longrightarrow> (of_nat n :: u64) > of_nat m \<longleftrightarrow> n > m"
  by (simp add: word_less_nat_alt unat_of_nat)

text \<open>
  C28: setting the clock. Arguments that are no time of day are refused and change nothing; a time of day is
  accepted, and the string a following \<open>time\<close> call delivers then reads hh:mm:ss.
\<close>

theorem clock_set:
  assumes "machine_inv s" "clock_apart s" "h < 2 ^ 32" "m < 2 ^ 32" "sec < 2 ^ 32"
  shows "if h < 24 \<and> m < 60 \<and> sec < 60
    then let s1 = fst (sys_set_time s (of_nat h) (of_nat m) (of_nat sec)) in
      snd (sys_set_time s (of_nat h) (of_nat m) (of_nat sec)) = 1 \<and>
      bytes_at (ram (fst (sys_time s1))) (time_str s) 8 = digits2 h @ [58] @ digits2 m @ [58] @ digits2 sec
    else sys_set_time s (of_nat h) (of_nat m) (of_nat sec) = (s, 0)"
proof (cases "h < 24 \<and> m < 60 \<and> sec < 60")
  case True
  let ?s = "s\<lparr>m_rtc := set_time (m_rtc s) (of_nat h) (of_nat m) (of_nat sec)\<rparr>"
  have "sys_set_time s (of_nat h) (of_nat m) (of_nat sec) = (?s, 1)"
    using True small_limit [of h 23] small_limit [of m 59] small_limit [of sec 59] assms(3-5)
    by (simp add: sys_set_time_def small_argument)
  moreover have "bytes_at (ram (fst (sys_time ?s))) (time_str ?s) 8 = snd (time (m_rtc ?s))"
    using assms(1) by (intro sys_time_bytes) simp
  ultimately show ?thesis using True set_time_shown [of h m sec] by simp
next
  case False
  then show ?thesis using small_limit [of h 23] small_limit [of m 59] small_limit [of sec 59] assms(3-5)
    by (auto simp: sys_set_time_def)
qed

section \<open>Waiting\<close>

definition tick_count :: "event list \<Rightarrow> nat" where
  "tick_count env = length (filter (\<lambda>e. e = Tick) env)"

text \<open>What the keyboard interrupts among some events do.\<close>

fun keys_typed :: "keyboard \<Rightarrow> event list \<Rightarrow> keyboard" where
  "keys_typed k [] = k"
| "keys_typed k (Key status data # env) = keys_typed (handled k status data) env"
| "keys_typed k (Tick # env) = keys_typed k env"
| "keys_typed k (Step # env) = keys_typed k env"

lemma serve_keyboard: "machine_inv s \<Longrightarrow> serve e s = Some s' \<Longrightarrow> m_keyboard s' = keys_typed (m_keyboard s) [e]"
  using tick_spec [of s] key_spec [of s] by (cases e) auto

lemma machine_wait_loop_spec:
  assumes "machine_inv s" "ticks (m_timer s) \<le> w"
  shows "case machine_wait_loop w env s of
      None \<Rightarrow> tick_count env < unat w - unat (ticks (m_timer s))
    | Some (s', rest) \<Rightarrow> machine_inv s' \<and> ticks (m_timer s') = w \<and> untouched s s' \<and>
        active (m_timer s') = active (m_timer s) \<and>
        (\<exists>pre. env = pre @ rest \<and> tick_count pre = unat w - unat (ticks (m_timer s)) \<and>
          m_keyboard s' = keys_typed (m_keyboard s) pre)"
  using assms
proof (induction env arbitrary: s)
  case Nil
  show ?case
  proof (cases "w > ticks (m_timer s)")
    case True
    then show ?thesis by (subst machine_wait_loop.simps) (simp add: word_less_nat_alt tick_count_def)
  next
    case False
    then have "w = ticks (m_timer s)" using Nil.prems(2) by simp
    then show ?thesis using Nil.prems(1) by (subst machine_wait_loop.simps) (simp add: tick_count_def)
  qed
next
  case (Cons e env)
  show ?case
  proof (cases "w > ticks (m_timer s)")
    case False
    then have "w = ticks (m_timer s)" using Cons.prems(2) by simp
    then show ?thesis using Cons.prems(1)
      by (subst machine_wait_loop.simps) (auto simp: tick_count_def intro: exI [of _ "[]"])
  next
    case True
    obtain s1 where s1: "serve e s = Some s1" "machine_inv s1" "same_kernel s s1" "untouched s s1"
      "ticks (m_timer s1) = ticks (m_timer s) + (if e = Tick then 1 else 0)" "active (m_timer s1) = active (m_timer s)"
      using serve_spec [OF Cons.prems(1), of e] by blast
    have t: "unat (ticks (m_timer s1)) = unat (ticks (m_timer s)) + (if e = Tick then 1 else 0)"
      using True unat_u64_less [of w] s1(5) by (auto simp: word_less_nat_alt intro!: unat_plus_no_wrap [where b = 1, simplified])
    have k: "m_keyboard s1 = keys_typed (m_keyboard s) [e]" by (rule serve_keyboard [OF Cons.prems(1) s1(1)])
    have kc: "keys_typed (m_keyboard s) (e # es) = keys_typed (m_keyboard s1) es" for es using k by (cases e) simp_all
    have loop: "machine_wait_loop w (e # env) s = machine_wait_loop w env s1"
      using True s1(1) by (subst machine_wait_loop.simps) simp
    have "ticks (m_timer s1) \<le> w" using True t by (auto simp: word_le_nat_alt word_less_nat_alt)
    note ih = Cons.IH [OF s1(2) this]
    show ?thesis
    proof (cases "machine_wait_loop w env s1")
      case None
      with ih t True show ?thesis unfolding loop by (auto simp: tick_count_def word_less_nat_alt)
    next
      case (Some r)
      obtain s' rest where r: "r = (s', rest)" by (cases r)
      then obtain pre where "env = pre @ rest" "tick_count pre = unat w - unat (ticks (m_timer s1))"
        "m_keyboard s' = keys_typed (m_keyboard s1) pre" using ih Some by auto
      then have "e # env = (e # pre) @ rest" "tick_count (e # pre) = unat w - unat (ticks (m_timer s))"
        "m_keyboard s' = keys_typed (m_keyboard s) (e # pre)"
        using t True kc by (auto simp: tick_count_def word_less_nat_alt)
      moreover have "untouched s s'" using ih Some r untouched_trans [OF s1(4)] by auto
      ultimately show ?thesis using ih Some r s1(6) unfolding loop by auto
    qed
  qed
qed

text \<open>
  C27: \<open>wait\<close> on the whole machine: it returns 0 as soon as the timer has interrupted 18 times for every full
  second asked for, and not before. The interrupts that come meanwhile have their effects: every key is in
  the key buffer, the clock is kept up, and no other memory changes.
\<close>

theorem sys_wait_correct:
  assumes "machine_inv s"
  shows "case sys_wait env s millis of
      None \<Rightarrow> tick_count env < unat millis div 1000 * 18
    | Some (s', r, rest) \<Rightarrow> r = 0 \<and> machine_inv s' \<and> untouched s s' \<and> active (m_timer s') = active (m_timer s) \<and>
        (\<exists>pre. env = pre @ rest \<and> tick_count pre = unat millis div 1000 * 18 \<and>
          m_keyboard s' = keys_typed (m_keyboard s) pre)"
proof -
  let ?s = "s\<lparr>m_timer := (m_timer s)\<lparr>ticks := 0\<rparr>\<rparr>"
  have "machine_inv ?s" using assms by (simp add: machine_inv_def clock_only_def)
  from machine_wait_loop_spec [OF this, of "(millis div 1000) * ucast TICKS_PER_SECOND" env]
  show ?thesis by (auto simp: sys_wait_def waiting_ticks untouched_def clock_memory_def split: option.splits)
qed

theorem sys_wait_correct_witness:
  "case sys_wait (Key 1 30 # replicate 18 Tick) sample_machine 1500 of None \<Rightarrow> False
   | Some (s', r, rest) \<Rightarrow> r = 0 \<and> rest = [] \<and> m_keyboard s' = put_key kb_ready 97"
proof -
  let ?env = "Key 1 30 # replicate 18 Tick"
  have n: "tick_count ?env = 18" by (simp add: tick_count_def)
  have k: "handled kb_ready 1 30 = put_key kb_ready 97"
    using prints_pressed [of kb_ready 30] by (simp add: handled_def sample_keyboard letters_print)
  have t: "keys_typed kb (replicate j Tick) = kb" for kb j by (induction j) simp_all
  have "rest = [] \<and> keys_typed kb_ready pre = put_key kb_ready 97"
    if p: "?env = pre @ rest" "tick_count pre = 18" for pre rest
  proof -
    have "tick_count (pre @ rest) = 18" using n p(1) by simp
    then have "tick_count rest = 0" using p(2) by (simp add: tick_count_def)
    moreover obtain pre' where "pre = Key 1 30 # pre'" "replicate 18 Tick = pre' @ rest"
      using p by (cases pre) (auto simp: tick_count_def)
    then have "set (pre' @ rest) = {Tick}" by (metis set_replicate zero_neq_numeral)
    ultimately have "rest = []" by (cases rest) (auto simp: tick_count_def)
    then have "pre = ?env" using p(1) by simp
    with \<open>rest = []\<close> show ?thesis by (simp add: k t)
  qed
  then show ?thesis
    using sys_wait_correct [OF sample_machine_inv, of ?env 1500] n
    by (auto simp: sample_keyboard split: option.splits)
qed

section \<open>The dispatcher\<close>

lemma boot_table:
  "init_syscalls (replicate SYSCALLS_SIZE None) =
     [Some Sys_exit, Some Sys_clear, Some Sys_read, Some Sys_write, Some Sys_video, Some Sys_draw, Some Sys_sbrk,
      Some Sys_memblock, Some Sys_freeblock, None, None, None, None, Some Sys_time, Some Sys_date, Some Sys_set_time,
      Some Sys_set_date, Some Sys_wait]"
  by code_simp

lemma dispatch:
  assumes "machine_inv s"
  shows "syscallDispatcher rdi a b c env s =
    (if unat rdi > 17 then Some (s, Returned 0, env)
     else case init_syscalls (replicate SYSCALLS_SIZE None) ! unat rdi of
            None \<Rightarrow> None
          | Some h \<Rightarrow> run_handler h a b c env s)"
  using assms by (simp add: syscallDispatcher_def machine_inv_def call_numbers)

text \<open>
  The demands of a handler on its arguments: a text to write lies off the screen, in one piece of less than
  2 GB, and has no backspace; the number of keys to read is not negative; a block that is asked for has a
  size, and the kernel heap has room to split blocks.
\<close>

fun sound_handler :: "sys_handler \<Rightarrow> u64 \<Rightarrow> u64 \<Rightarrow> u64 \<Rightarrow> machine \<Rightarrow> bool" where
  "sound_handler Sys_write fd buf sz s \<longleftrightarrow>
     fd = STDOUT \<or> fd = STDERR \<longrightarrow>
       unat sz < 2 ^ 31 \<and> off_screen buf (unat sz) \<and> 8 \<notin> set (text_at (ram s) buf (unat sz))"
| "sound_handler Sys_read fd buf sz s \<longleftrightarrow> fd = STDIN \<longrightarrow> 0 \<le>s (ucast sz :: u32)"
| "sound_handler Sys_memblock sz b c s \<longleftrightarrow>
     block_request sz \<and> heap_end (kheap (m_memory s)) + 160 * 63 \<le> unat MEMORY_END"
| "sound_handler h a b c s \<longleftrightarrow> True"

definition sound_call :: "u64 \<Rightarrow> u64 \<Rightarrow> u64 \<Rightarrow> u64 \<Rightarrow> machine \<Rightarrow> bool" where
  "sound_call rdi rsi rdx rcx s \<longleftrightarrow> unat rdi > SYS_WAIT \<or>
     (case m_syscalls s ! unat rdi of None \<Rightarrow> False | Some h \<Rightarrow> sound_handler h rsi rdx rcx s)"

text \<open>The handlers that wait for interrupts.\<close>

fun waits :: "sys_handler \<Rightarrow> u64 \<Rightarrow> bool" where
  "waits Sys_wait a \<longleftrightarrow> True"
| "waits Sys_read fd \<longleftrightarrow> fd = STDIN"
| "waits h a \<longleftrightarrow> False"

text \<open>Each handler by itself.\<close>

lemma sys_read_inv:
  assumes "machine_inv s" "fd = STDIN \<longrightarrow> 0 \<le>s (ucast sz :: u32)" "sys_read env s fd buf sz = Some (s', n, env')"
  shows "machine_inv s'"
proof (cases "fd = STDIN")
  case True
  then obtain i where "stdin_loop env s buf (ucast sz) 0 None = Some (s', i, env')"
    using assms(3) by (auto simp: sys_read_def read_stdin_def)
  then show ?thesis using stdin_loop_inv assms(1,2) True by blast
next
  case False
  then show ?thesis using assms(1,3)
    by (auto simp: sys_read_def read_stddata_def inv_set_ram split: if_splits prod.splits)
qed

lemma sys_video_inv:
  assumes "machine_inv s"
  shows "\<exists>s'. sys_video s w h d = Some (s', 0) \<and> machine_inv s' \<and> video_mode_enabled s'"
proof (cases "video_mode_enabled s")
  case False
  have "8 \<notin> set (str_bytes ''Starting video mode...'')" by (simp add: str_bytes_def)
  moreover have "video_inv (m_video s)" using assms by (simp add: machine_inv_def)
  ultimately obtain v where "puts (m_video s) (str_bytes ''Starting video mode...'') LIGHT_GREY = Some v" "video_inv v"
    using puts_spec by blast
  with False inv_video [OF assms] inv_bga [of "s\<lparr>m_video := v\<rparr>"] show ?thesis
    by (simp add: sys_video_def split_def)
qed (use assms in \<open>simp add: sys_video_def\<close>)

lemma sys_memblock_inv:
  assumes "machine_inv s" "block_request sz" "heap_end (kheap (m_memory s)) + 160 * 63 \<le> unat MEMORY_END"
  shows "\<exists>s' p. sys_memblock s sz = Some (s', p) \<and> machine_inv s'"
proof -
  have m: "memory_inv (m_memory s)" using assms(1) by (simp add: machine_inv_def)
  obtain mem p where "get_memblock (m_memory s) sz = Some (mem, p)" "memory_inv mem"
    using get_memblock_defined [OF m assms(2,3)] get_memblock_spec [OF m] by blast
  then show ?thesis using inv_memory [OF assms(1)] by (simp add: sys_memblock_def)
qed

lemma sys_freeblock_inv:
  assumes "machine_inv s"
  shows "\<exists>s' rt. sys_freeblock s p = Some (s', rt) \<and> machine_inv s'"
proof -
  have m: "memory_inv (m_memory s)" using assms by (simp add: machine_inv_def)
  obtain mem rt where r: "free_memblock (m_memory s) p = Some (mem, rt)" using free_memblock_defined [OF m] by blast
  have "memory_inv mem" using m by (cases rule: free_memblock_cases [OF m r]) simp_all
  then show ?thesis using inv_memory [OF assms] r by (simp add: sys_freeblock_def)
qed

lemma sys_write_inv:
  assumes "machine_inv s"
    and "fd = STDOUT \<or> fd = STDERR \<longrightarrow> unat sz < 2 ^ 31 \<and> off_screen buf (unat sz) \<and> 8 \<notin> set (text_at (ram s) buf (unat sz))"
  shows "\<exists>s' n. sys_write s fd buf sz = Some (s', n) \<and> machine_inv s'"
proof (cases "fd = STDOUT \<or> fd = STDERR")
  case True
  then show ?thesis using sys_write_spec [OF assms(1)] assms(2) by blast
qed (use assms(1) in \<open>simp add: sys_write_def\<close>)

lemma sys_wait_inv:
  assumes "machine_inv s" "sys_wait env s millis = Some (s', r, env')"
  shows "machine_inv s'"
proof -
  let ?s = "s\<lparr>m_timer := (m_timer s)\<lparr>ticks := 0\<rparr>\<rparr>"
  have "machine_inv ?s" using assms(1) by (simp add: machine_inv_def clock_only_def)
  from machine_wait_loop_spec [OF this, of "(millis div 1000) * ucast TICKS_PER_SECOND" env] assms(2)
  show ?thesis by (auto simp: sys_wait_def)
qed

lemma screen_inv:
  assumes "machine_inv s"
  shows "machine_inv (sys_clear s)" "machine_inv (sys_exit s)"
proof -
  show "machine_inv (sys_clear s)" using assms clear_blanks by (simp add: sys_clear_def inv_video)
  have "current_loc (hide_cursor (clear_screen v)) = 160" for v
    using clear_blanks by (simp add: hide_cursor_def)
  then have "video_inv (fst (puts_at (hide_cursor (clear_screen v)) str attr r c))" for v str attr r c
    using puts_at_spec by (simp add: video_inv_def screensize)
  then show "machine_inv (sys_exit s)" using assms by (simp add: sys_exit_def inv_video)
qed

lemma handler_safe:
  assumes "machine_inv s" "sound_handler h a b c s"
  shows "case run_handler h a b c env s of
      None \<Rightarrow> waits h a
    | Some (s', out, env') \<Rightarrow> machine_inv s' \<and> (out = Halted \<longleftrightarrow> h = Sys_exit) \<and> (\<not> waits h a \<longrightarrow> env' = env)"
proof (cases h)
  case Sys_read
  then show ?thesis
    using sys_read_inv [OF assms(1), of a c env b] assms(2)
    by (auto simp: sys_read_def split: option.splits prod.splits if_splits)
next
  case Sys_write
  then show ?thesis using sys_write_inv [OF assms(1), of a c b] assms(2) by auto
next
  case Sys_video
  then show ?thesis using sys_video_inv [OF assms(1), of a b c] by auto
next
  case Sys_memblock
  then show ?thesis using sys_memblock_inv [OF assms(1), of a] assms(2) by auto
next
  case Sys_freeblock
  then show ?thesis using sys_freeblock_inv [OF assms(1), of a] by auto
next
  case Sys_time
  then show ?thesis using sys_time_spec [OF assms(1)] by (simp add: clock_toggled_def)
next
  case Sys_wait
  then show ?thesis using sys_wait_inv [OF assms(1)] by (auto split: option.splits)
qed (use assms(1) screen_inv inv_bga inv_date_string in
  \<open>simp_all add: sys_draw_def sys_sbrk_def sys_date_def sys_set_time_def sys_set_date_def Let_def split_def\<close>)

lemma exit_number: "n \<le> 17 \<Longrightarrow> init_syscalls (replicate SYSCALLS_SIZE None) ! n = Some Sys_exit \<longleftrightarrow> n = 0"
proof -
  have "\<forall>n \<in> set [0..<18]. init_syscalls (replicate SYSCALLS_SIZE None) ! n = Some Sys_exit \<longleftrightarrow> n = 0" by code_simp
  then show "n \<le> 17 \<Longrightarrow> ?thesis" by simp
qed

lemma call_safe:
  assumes "machine_inv s" "sound_call rdi rsi rdx rcx s"
  shows "case syscallDispatcher rdi rsi rdx rcx env s of
      None \<Rightarrow> \<exists>h. m_syscalls s ! unat rdi = Some h \<and> waits h rsi
    | Some (s', out, env') \<Rightarrow> machine_inv s' \<and> (out = Halted \<longleftrightarrow> rdi = 0)"
proof (cases "unat rdi > 17")
  case True
  then show ?thesis using assms(1) by (auto simp: syscallDispatcher_def call_numbers)
next
  case False
  then obtain h where h: "m_syscalls s ! unat rdi = Some h" "sound_handler h rsi rdx rcx s"
    using assms(2) by (auto simp: sound_call_def call_numbers split: option.splits)
  have "syscallDispatcher rdi rsi rdx rcx env s = run_handler h rsi rdx rcx env s"
    using False h(1) by (simp add: syscallDispatcher_def call_numbers)
  moreover have "h = Sys_exit \<longleftrightarrow> rdi = 0"
    using exit_number [of "unat rdi"] False h(1) assms(1) by (auto simp: machine_inv_def unat_eq_0)
  ultimately show ?thesis using handler_safe [OF assms(1) h(2), of env] h(1) by (auto split: option.splits)
qed

section \<open>The start of the kernel\<close>

text \<open>The state in which \<open>main\<close> finds the machine: the variables of the kernel are zeroed.\<close>

definition powered_on :: "machine \<Rightarrow> bool" where
  "powered_on s \<longleftrightarrow> m_memory s = zeroed_memory \<and> m_keyboard s = kb_init \<and> m_timer s = empty_timer \<and>
     m_routines s = replicate ISR_SIZE None \<and> m_syscalls s = replicate SYSCALLS_SIZE None"

lemma kernel_main_inv:
  assumes "powered_on s"
  shows "\<exists>s'. kernel_main s = Some s' \<and> machine_inv s' \<and> m_memory s' = booted_memory \<and>
    ram s' 0xB8000 = 65 \<and> current_loc (m_video s') = 160"
proof -
  have "init_mem (m_memory s) (1024 * 4 * 40) = Some (booted_memory, 0)"
    using assms init_mem_booted by (simp add: powered_on_def)
  let ?v = "fst (puts_at (clear_screen (m_video s)) (str_bytes ''Arqui OS'') GREEN 0 0)"
  have v: "current_loc ?v = 160" using puts_at_spec clear_blanks by simp
  have "peek ?v 0 = 65"
    using puts_at_cells [of 0 0 "str_bytes ''Arqui OS''" 0 "clear_screen (m_video s)" GREEN] by (simp add: str_bytes_def)
  then have "vmem ?v 0xB8000 = 65" by (simp add: peek_def vaddr_def)
  then show ?thesis
    using assms v \<open>init_mem _ _ = _\<close> booted_inv kb_init_inv sample_timers(1)
    by (simp add: kernel_main_def Let_def powered_on_def machine_inv_def clock_only_def video_inv_def screensize
        init_shared_def active_def empty_timer_def)
qed

section \<open>Histories\<close>

text \<open>
  What happens to the machine after the boot: sound system calls, each with the events that come while it
  waits, and interrupts while the user program runs.
\<close>

inductive system_run :: "machine \<Rightarrow> machine \<Rightarrow> bool" for s0 where
  run_start: "system_run s0 s0"
| run_call: "system_run s0 s \<Longrightarrow> sound_call rdi rsi rdx rcx s \<Longrightarrow>
    syscallDispatcher rdi rsi rdx rcx env s = Some (s', Returned r, env') \<Longrightarrow> system_run s0 s'"
| run_interrupt: "system_run s0 s \<Longrightarrow> serve e s = Some s' \<Longrightarrow> system_run s0 s'"

lemma system_run_inv: "system_run s0 s \<Longrightarrow> machine_inv s0 \<Longrightarrow> machine_inv s"
proof (induction rule: system_run.induct)
  case (run_call s rdi rsi rdx rcx env s' r env')
  then show ?case using call_safe [of s rdi rsi rdx rcx env] by simp
next
  case (run_interrupt s e s')
  then show ?case using serve_spec [of s e] by auto
qed

text \<open>
  C4: the system is safe from the boot on. \<open>main\<close> succeeds on the zeroed machine, and in every state that
  sound system calls and interrupts lead to, the parts of the machine are well formed: the cursor is on
  the screen, the positions of the key buffer inside it, the timer's table and the memory consistent, the
  tables of interrupts and calls as they were set up. So every interrupt is served without a fault, and a
  sound system call returns, unless it is \<open>exit\<close>, or one of the two that wait for further interrupts.
\<close>

theorem system_history:
  assumes "powered_on s" "kernel_main s = Some s0" "system_run s0 t"
  shows "machine_inv t \<and> (\<exists>t'. serve e t = Some t' \<and> machine_inv t') \<and>
    (sound_call rdi rsi rdx rcx t \<longrightarrow>
       (case syscallDispatcher rdi rsi rdx rcx env t of
          None \<Rightarrow> \<exists>h. m_syscalls t ! unat rdi = Some h \<and> waits h rsi
        | Some (t', out, env') \<Rightarrow> machine_inv t' \<and> (out = Halted \<longleftrightarrow> rdi = 0)))"
proof -
  have "machine_inv s0" using kernel_main_inv [OF assms(1)] assms(2) by auto
  then have "machine_inv t" by (rule system_run_inv [OF assms(3)])
  then show ?thesis using serve_spec [of t e] call_safe [of t rdi rsi rdx rcx env] by blast
qed

definition zeroed_machine :: machine where
  "zeroed_machine = sample_machine\<lparr>m_keyboard := kb_init, m_shared := init_shared zeroed_memory,
     m_routines := replicate ISR_SIZE None, m_syscalls := replicate SYSCALLS_SIZE None\<rparr>"

theorem system_history_witness:
  "\<exists>s0 t. kernel_main zeroed_machine = Some s0 \<and> system_run s0 t \<and> machine_inv t \<and>
     (case syscallDispatcher 5 1 2 3 [] t of None \<Rightarrow> False | Some (t', out, env') \<Rightarrow> machine_inv t' \<and> out \<noteq> Halted)"
proof -
  have p: "powered_on zeroed_machine"
    by (simp add: powered_on_def zeroed_machine_def sample_machine_def init_shared_def)
  obtain s0 where s0: "kernel_main zeroed_machine = Some s0" using kernel_main_inv [OF p] by blast
  obtain t where "serve Tick s0 = Some t"
    using system_history [OF p s0 run_start, of Tick] by blast
  then have t: "system_run s0 t" using run_interrupt [OF run_start] by blast
  then have inv: "machine_inv t" using system_history [OF p s0 t] by blast
  then have h: "m_syscalls t ! unat (5 :: u64) = Some Sys_draw" by (simp add: machine_inv_def boot_table)
  then have "sound_call 5 1 2 3 t" by (simp add: sound_call_def call_numbers)
  then have "case syscallDispatcher 5 1 2 3 [] t of None \<Rightarrow> False | Some (t', out, env') \<Rightarrow> machine_inv t' \<and> out \<noteq> Halted"
    using system_history [OF p s0 t, of Tick 5 1 2 3 "[]"] h by (auto split: option.splits)
  with s0 t inv show ?thesis by blast
qed

text \<open>
  C29: which number is which system call, as the kernel serves them after boot: 0 halts the machine, and each of 1 to 8
  and 13 to 17 runs exactly the operation of the header's enumeration on the three arguments in their order,
  with what it returns as the answer. The numbers 9 to 12, those of the process heap, call through a
  NULL pointer, because nothing ever enters their handlers into the table. A number above 17 answers 0
  without effect.
\<close>

theorem syscall_numbers:
  assumes "machine_inv s"
  shows "(syscallDispatcher 0 a b c env s = Some (sys_exit s, Halted, env)) \<and>
    (syscallDispatcher 1 a b c env s = Some (returns env (sys_clear s, 0))) \<and>
    (syscallDispatcher 2 a b c env s = map_option (\<lambda>(s', n, env'). (s', Returned n, env')) (sys_read env s a b c)) \<and>
    (syscallDispatcher 3 a b c env s = map_option (returns env) (sys_write s a b c)) \<and>
    (syscallDispatcher 4 a b c env s = map_option (returns env) (sys_video s a b c)) \<and>
    (syscallDispatcher 5 a b c env s = Some (returns env (sys_draw s a b c))) \<and>
    (syscallDispatcher 6 a b c env s = Some (returns env (sys_sbrk s a))) \<and>
    (syscallDispatcher 7 a b c env s = map_option (returns env) (sys_memblock s a)) \<and>
    (syscallDispatcher 8 a b c env s = map_option (returns env) (sys_freeblock s a)) \<and>
    (k \<in> {9, 10, 11, 12} \<longrightarrow> syscallDispatcher k a b c env s = None) \<and>
    (syscallDispatcher 13 a b c env s = Some (returns env (sys_time s))) \<and>
    (syscallDispatcher 14 a b c env s = Some (returns env (sys_date s))) \<and>
    (syscallDispatcher 15 a b c env s = Some (returns env (sys_set_time s a b c))) \<and>
    (syscallDispatcher 16 a b c env s = Some (returns env (sys_set_date s a b c))) \<and>
    (syscallDispatcher 17 a b c env s = map_option (\<lambda>(s', n, env'). (s', Returned n, env')) (sys_wait env s a)) \<and>
    (unat k > 17 \<longrightarrow> syscallDispatcher k a b c env s = Some (s, Returned 0, env))"
  by (intro conjI impI) (auto simp: dispatch [OF assms] boot_table)

theorem syscall_numbers_witness: "syscallDispatcher 10 64 0 0 [] sample_machine = None"
  using syscall_numbers [OF sample_machine_inv, of 64 0 0 "[]" 10] by blast

text \<open>
  C25: \<open>write\<close> to the terminal prints exactly the characters at its address up to the first 0, at most as many
  as it is asked for, in the colour of its descriptor, and answers their number; all other memory stays.
\<close>

theorem sys_write_correct:
  assumes "machine_inv s" "fd = STDOUT \<or> fd = STDERR" "unat sz < 2 ^ 31" "off_screen buf (unat sz)"
    and "8 \<notin> set (text_at (ram s) buf (unat sz))"
  shows "\<exists>v. puts (m_video s) (text_at (ram s) buf (unat sz)) (if fd = STDOUT then LIGHT_GREY else RED) = Some v \<and>
    sys_write s fd buf sz = Some (s\<lparr>m_video := v\<rparr>, of_nat (length (text_at (ram s) buf (unat sz)))) \<and>
    machine_inv (s\<lparr>m_video := v\<rparr>) \<and> (\<forall>a. a \<notin> region 0xB8000 SCREENSIZE \<longrightarrow> vmem v a = ram s a)"
  using sys_write_spec [OF assms] same_outside_memory by blast

theorem sys_write_correct_witness:
  "\<exists>s'. sys_write (set_ram sample_machine ((\<lambda>a. 0)(0x700000 := 72, 0x700001 := 105))) STDERR 0x700000 3 = Some (s', 2)"
proof -
  let ?s = "set_ram sample_machine ((\<lambda>a. 0)(0x700000 := 72, 0x700001 := 105))"
  have n: "unat (3 :: u64) = Suc (Suc (Suc 0))" by simp
  have t: "text_at (ram ?s) 0x700000 (unat (3 :: u64)) = [72, 105]" unfolding n by simp
  have "off_screen 0x700000 (unat (3 :: u64))"
    unfolding n off_screen_Suc by (simp add: off_screen_def in_region_iff screen_layout)
  moreover have "8 \<notin> set (text_at (ram ?s) 0x700000 (unat (3 :: u64)))" unfolding t by simp
  ultimately obtain v where "sys_write ?s STDERR 0x700000 3 =
      Some (?s\<lparr>m_video := v\<rparr>, of_nat (length (text_at (ram ?s) 0x700000 (unat (3 :: u64)))))"
    using sys_write_correct [OF inv_set_ram [OF sample_machine_inv], of STDERR 3 "0x700000"] by auto
  then show ?thesis unfolding t by simp
qed

lemma sample_clock_apart: "clock_apart sample_machine"
proof -
  have "0x110000 + of_nat i \<notin> region 0xB8000 SCREENSIZE" if "i < 8" for i
  proof -
    have "0x110000 + of_nat i - 0xB8000 = (of_nat (0x58000 + i) :: u64)" by simp
    moreover have "unat (of_nat (0x58000 + i) :: u64) = 0x58000 + i" using that by (intro unat_of_nat_u64) simp
    ultimately have "unat (0x110000 + of_nat i - 0xB8000 :: u64) = 0x58000 + i" by metis
    then show ?thesis by (simp add: in_region_iff screen_layout)
  qed
  moreover have "time_str sample_machine = 0x110000" by (simp add: sample_machine_def)
  ultimately show ?thesis unfolding clock_apart_def by (auto simp: region_def [of "0x110000"])
qed

theorem clock_toggles_witness:
  "corner (fst (sys_time (fst (sys_time sample_machine)))) = replicate 8 SPACE \<and>
   active (m_timer (fst (sys_time sample_machine))) = [clock_task sample_machine]"
proof -
  note a = sample_clock_apart
  have "active (m_timer sample_machine) = []" by (simp add: sample_machine_def active_def empty_timer_def)
  then have s1: "active (m_timer (fst (sys_time sample_machine))) = [clock_task sample_machine]"
    "machine_inv (fst (sys_time sample_machine))" "untouched sample_machine (fst (sys_time sample_machine))"
    using clock_toggles [OF sample_machine_inv a] by simp_all
  then have "clock_apart (fst (sys_time sample_machine))" using a by (simp add: clock_apart_def untouched_def)
  from clock_toggles [OF s1(2) this] s1(1) show ?thesis by simp
qed

theorem clock_set_witness:
  "bytes_at (ram (fst (sys_time (fst (sys_set_time sample_machine 23 59 7))))) 0x110000 8 = [50, 51, 58, 53, 57, 58, 48, 55] \<and>
   sys_set_time sample_machine 24 0 0 = (sample_machine, 0)"
proof -
  note a = sample_clock_apart
  have "time_str sample_machine = 0x110000" by (simp add: sample_machine_def)
  then show ?thesis
    using clock_set [OF sample_machine_inv a, of 23 59 7] clock_set [OF sample_machine_inv a, of 24 0 0]
    by (simp add: digits2_def Let_def)
qed

end
