(* ===== verification/Usercalls.thy ===== *)
theory Usercalls
  imports System Printf
begin

text \<open>
  The user library's side of the system calls, \<open>lib/syscalls.c\<close> with the three allocation functions of
  \<open>lib/stdlib.c\<close>: how C's arguments become the 64-bit numbers of a call, and the result an \<open>int\<close> again.
\<close>

section \<open>Operations\<close>

text \<open>The software interrupt hands the four registers over as they are.\<close>

definition int80 ::
  "nat \<Rightarrow> u64 \<Rightarrow> u64 \<Rightarrow> u64 \<Rightarrow> event list \<Rightarrow> machine \<Rightarrow> (machine \<times> u64 outcome \<times> event list) option" where
  "int80 nr arg1 arg2 arg3 env s = syscallDispatcher (of_nat nr) arg1 arg2 arg3 env s"

text \<open>A result that is returned as an \<open>int\<close>.\<close>

definition as_int ::
  "(machine \<times> u64 outcome \<times> event list) option \<Rightarrow> (machine \<times> u32 outcome \<times> event list) option" where
  "as_int r = map_option (\<lambda>(s, out, env). (s, map_outcome ucast out, env)) r"

definition user_exit :: "u32 \<Rightarrow> event list \<Rightarrow> machine \<Rightarrow> (machine \<times> u32 outcome \<times> event list) option" where
  "user_exit code env s = as_int (int80 SYS_EXIT (scast code) 0 0 env s)"

definition user_clear :: "event list \<Rightarrow> machine \<Rightarrow> (machine \<times> u64 outcome \<times> event list) option" where
  "user_clear env s = int80 SYS_CLEAR 0 0 0 env s"

definition user_read ::
  "u32 \<Rightarrow> ptr \<Rightarrow> u32 \<Rightarrow> event list \<Rightarrow> machine \<Rightarrow> (machine \<times> u32 outcome \<times> event list) option" where
  "user_read fd buffer sz env s = as_int (int80 SYS_READ (ucast fd) buffer (ucast sz) env s)"

definition user_write ::
  "u32 \<Rightarrow> ptr \<Rightarrow> u32 \<Rightarrow> event list \<Rightarrow> machine \<Rightarrow> (machine \<times> u32 outcome \<times> event list) option" where
  "user_write fd buffer sz env s = as_int (int80 SYS_WRITE (ucast fd) buffer (ucast sz) env s)"

definition user_video ::
  "u32 \<Rightarrow> u32 \<Rightarrow> u32 \<Rightarrow> event list \<Rightarrow> machine \<Rightarrow> (machine \<times> u32 outcome \<times> event list) option" where
  "user_video w h depth env s = as_int (int80 SYS_VIDEO (ucast w) (ucast h) (ucast depth) env s)"

definition user_draw ::
  "u32 \<Rightarrow> u32 \<Rightarrow> u8 \<Rightarrow> u8 \<Rightarrow> u8 \<Rightarrow> event list \<Rightarrow> machine \<Rightarrow> (machine \<times> u32 outcome \<times> event list) option" where
  "user_draw x y r g b env s =
     (let color = 0 + ucast r; color = push_bit 8 color; color = color + ucast g;
          color = push_bit 8 color; color = color + ucast b :: u32
      in as_int (int80 SYS_DRAW (ucast x) (ucast y) (ucast color) env s))"

definition user_sbrk :: "u32 \<Rightarrow> event list \<Rightarrow> machine \<Rightarrow> (machine \<times> ptr outcome \<times> event list) option" where
  "user_sbrk increment env s = int80 SYS_SBRK (ucast increment) 0 0 env s"

definition user_memblock :: "u32 \<Rightarrow> event list \<Rightarrow> machine \<Rightarrow> (machine \<times> ptr outcome \<times> event list) option" where
  "user_memblock sz env s = int80 SYS_MEMBLOCK (ucast sz) 0 0 env s"

definition user_freeblock :: "ptr \<Rightarrow> event list \<Rightarrow> machine \<Rightarrow> (machine \<times> u32 outcome \<times> event list) option" where
  "user_freeblock block_start env s = as_int (int80 SYS_FREEBLOCK block_start 0 0 env s)"

definition s_malloc :: "u32 \<Rightarrow> event list \<Rightarrow> machine \<Rightarrow> (machine \<times> ptr outcome \<times> event list) option" where
  "s_malloc sz env s = int80 SYS_MALLOC (ucast sz) 0 0 env s"

definition s_calloc :: "u32 \<Rightarrow> u32 \<Rightarrow> event list \<Rightarrow> machine \<Rightarrow> (machine \<times> ptr outcome \<times> event list) option" where
  "s_calloc amount sz env s = int80 SYS_CALLOC (ucast amount) (ucast sz) 0 env s"

definition s_free :: "ptr \<Rightarrow> event list \<Rightarrow> machine \<Rightarrow> (machine \<times> u64 outcome \<times> event list) option" where
  "s_free mem env s = int80 SYS_FREE mem 0 0 env s"

definition user_malloc :: "u64 \<Rightarrow> event list \<Rightarrow> machine \<Rightarrow> (machine \<times> ptr outcome \<times> event list) option" where
  "user_malloc sz env s = s_malloc (ucast sz) env s"

definition user_calloc :: "u64 \<Rightarrow> u64 \<Rightarrow> event list \<Rightarrow> machine \<Rightarrow> (machine \<times> ptr outcome \<times> event list) option" where
  "user_calloc amount sz env s = s_calloc (ucast amount) (ucast sz) env s"

definition user_free :: "ptr \<Rightarrow> event list \<Rightarrow> machine \<Rightarrow> (machine \<times> u64 outcome \<times> event list) option" where
  "user_free p env s = s_free p env s"

definition user_time :: "event list \<Rightarrow> machine \<Rightarrow> (machine \<times> u64 outcome \<times> event list) option" where
  "user_time env s = int80 SYS_TIME 0 0 0 env s"

definition user_date :: "event list \<Rightarrow> machine \<Rightarrow> (machine \<times> ptr outcome \<times> event list) option" where
  "user_date env s = int80 SYS_DATE 0 0 0 env s"

definition user_set_time ::
  "u32 \<Rightarrow> u32 \<Rightarrow> u32 \<Rightarrow> event list \<Rightarrow> machine \<Rightarrow> (machine \<times> u32 outcome \<times> event list) option" where
  "user_set_time hour minutes secs env s = as_int (int80 SYS_SET_TIME (ucast hour) (ucast minutes) (ucast secs) env s)"

definition user_set_date ::
  "u32 \<Rightarrow> u32 \<Rightarrow> u32 \<Rightarrow> event list \<Rightarrow> machine \<Rightarrow> (machine \<times> u32 outcome \<times> event list) option" where
  "user_set_date day month year env s = as_int (int80 SYS_SET_DATE (ucast day) (ucast month) (ucast year) env s)"

definition user_wait :: "u64 \<Rightarrow> event list \<Rightarrow> machine \<Rightarrow> (machine \<times> u32 outcome \<times> event list) option" where
  "user_wait millis env s = as_int (int80 SYS_WAIT millis 0 0 env s)"

section \<open>Calls reach their handlers\<close>

lemma int80_handler:
  assumes "machine_inv s" "nr \<le> 17" "init_syscalls (replicate SYSCALLS_SIZE None) ! nr = Some h"
  shows "int80 nr a b c env s = run_handler h a b c env s"
proof -
  have "unat (of_nat nr :: u64) = nr" using assms(2) by (intro unat_of_nat_u64) simp
  then show ?thesis using assms by (simp add: int80_def dispatch)
qed

lemma int80_null:
  assumes "machine_inv s" "nr \<le> 17" "init_syscalls (replicate SYSCALLS_SIZE None) ! nr = None"
  shows "int80 nr a b c env s = None"
proof -
  have "unat (of_nat nr :: u64) = nr" using assms(2) by (intro unat_of_nat_u64) simp
  then show ?thesis using assms by (simp add: int80_def dispatch)
qed

text \<open>
  no program can use the heap functions of its library: \<open>malloc\<close>, \<open>calloc\<close> and \<open>free\<close> run into the NULL
  entries of the table, for every argument.
\<close>

theorem user_heap_faults:
  assumes "machine_inv s"
  shows "user_malloc sz env s = None \<and> user_calloc amount sz env s = None \<and> user_free p env s = None"
  using int80_null [OF assms] boot_table
  by (simp add: user_malloc_def user_calloc_def user_free_def s_malloc_def s_calloc_def s_free_def call_numbers)

theorem user_heap_faults_witness: "user_malloc 100 [] sample_machine = None"
  using user_heap_faults [OF sample_machine_inv] by blast

section \<open>Pixels\<close>

lemma color_parts:
  fixes r g b :: u8
  defines "color \<equiv> ucast (push_bit 8 (push_bit 8 (ucast r) + ucast g) + ucast b :: u32) :: u64"
  shows "ucast (drop_bit 16 color AND 0xFF) = r" "ucast (drop_bit 8 color AND 0xFF) = g" "ucast (color AND 0xFF) = b"
proof -
  have m: "x AND 0xFF = take_bit 8 x" for x :: u64 by (simp add: take_bit_eq_mask mask_eq_exp_minus_1)
  have "push_bit 8 (ucast r) + ucast g = (push_bit 8 (ucast r) OR ucast g :: u32)"
    by (rule disjunctive_add) (auto simp: bit_simps dest: bit_imp_le_length)
  moreover have "push_bit 8 (push_bit 8 (ucast r) OR ucast g) + ucast b =
      (push_bit 8 (push_bit 8 (ucast r) OR ucast g) OR ucast b :: u32)"
    by (rule disjunctive_add) (auto simp: bit_simps dest: bit_imp_le_length)
  ultimately have c: "color = ucast (push_bit 8 (push_bit 8 (ucast r) OR ucast g) OR ucast b :: u32)"
    by (simp add: color_def)
  show "ucast (drop_bit 16 color AND 0xFF) = r" "ucast (drop_bit 8 color AND 0xFF) = g" "ucast (color AND 0xFF) = b"
    unfolding c m by (rule bit_word_eqI; auto simp: bit_simps dest: bit_imp_le_length)+
qed

text \<open>
  a pixel drawn by a program is the pixel the graphics driver draws: the three colour bytes and the two
  coordinates survive their way through the packed colour and the registers of the call, and the answer is
  the driver's, 1 where it accepts the position and 0 where not.
\<close>

theorem draw_packs_colour:
  assumes "machine_inv s"
  shows "user_draw x y r g b env s =
    (case with_bga (\<lambda>d. BgaDrawPixel d x y r g b) s of (s', ok) \<Rightarrow> Some (s', Returned (if ok then 1 else 0), env))"
proof -
  have nr: "ucast (ucast x :: u64) = x" for x :: u32 by (rule bit_word_eqI) (simp add: bit_simps)
  show ?thesis
    using int80_handler [OF assms, of SYS_DRAW Sys_draw] boot_table
    by (simp add: user_draw_def as_int_def sys_draw_def color_parts nr call_numbers Let_def split: prod.split)
qed

theorem draw_packs_colour_witness:
  "\<exists>s'. user_draw 2000 5 1 2 3 [] sample_machine = Some (s', Returned 1, [])"
proof -
  have "\<not> (2000 * 3 + 5 * 1024 * 3 :: u32) \<ge> 1024 * 768 * 3" by simp
  then show ?thesis
    using draw_packs_colour [OF sample_machine_inv, of 2000 5 1 2 3 "[]"]
    by (simp add: with_bga_def BgaDrawPixel_def sample_machine_def default_mode_def set_ram_def)
qed

section \<open>The output stream and the screen\<close>

text \<open>
  The library's output functions are modelled by the sequence of characters that reach each descriptor. What
  such a sequence looks like on the screen:
\<close>

fun show_outp :: "video \<Rightarrow> outp \<Rightarrow> video option" where
  "show_outp v [] = Some v"
| "show_outp v ((fd, c) # out) =
     (case putchar v c (if fd = Printf.STDOUT then LIGHT_GREY else RED) of
        None \<Rightarrow> None | Some v' \<Rightarrow> show_outp v' out)"

lemma show_outp_append:
  "show_outp v (xs @ ys) = (case show_outp v xs of None \<Rightarrow> None | Some v' \<Rightarrow> show_outp v' ys)"
  by (induction v xs rule: show_outp.induct) (auto split: option.splits)

lemma show_outp_puts:
  "show_outp v (map (Pair fd) cs) = puts v cs (if fd = Printf.STDOUT then LIGHT_GREY else RED)"
  by (induction cs arbitrary: v) (auto split: option.splits)

lemma text_at_bytes: "text_at m p n = takeWhile (\<lambda>c. c \<noteq> 0) (bytes_at m p n)"
  by (induction n arbitrary: p) (simp add: bytes_at_def, simp add: bytes_at_Suc)

text \<open>
  C30: the stream model of \<open>write\<close> that the library's printing rests on is what the kernel does: if the screen
  shows the characters that have been written so far, a call of \<open>write\<close> leaves it showing them with the
  characters the model appends, and answers the number the model answers; descriptors that are no output
  write nothing in both.
\<close>

theorem user_write_refines:
  assumes "machine_inv s" "fd < 2 ^ 32" "unat n < 2 ^ 31" "off_screen buf (unat n)"
    and "8 \<notin> set (text_at (ram s) buf (unat n))" "show_outp v0 out = Some (m_video s)"
  shows "\<exists>s'. user_write (of_nat fd) buf n env s =
      Some (s', Returned (of_nat (snd (write_fd out fd (bytes_at (ram s) buf (unat n))))), env) \<and>
    show_outp v0 (fst (write_fd out fd (bytes_at (ram s) buf (unat n)))) = Some (m_video s') \<and> machine_inv s'"
proof -
  let ?t = "text_at (ram s) buf (unat n)"
  have call: "user_write (of_nat fd) buf n env s =
      map_option (\<lambda>(s', k). (s', Returned (ucast k), env)) (sys_write s (of_nat fd) buf (ucast n))"
    using int80_handler [OF assms(1), of SYS_WRITE Sys_write] boot_table assms(2)
    by (simp add: user_write_def as_int_def call_numbers option.map_comp comp_def split_def unsigned_of_nat
        take_bit_nat_eq_self)
  have fd: "(of_nat fd :: u64) = of_nat k \<longleftrightarrow> fd = k" if "k < 2 ^ 32" for k
    using assms(2) that by (intro of_nat_u64_inj) simp_all
  then have fd12: "(of_nat fd :: u64) = 1 \<longleftrightarrow> fd = 1" "(of_nat fd :: u64) = 2 \<longleftrightarrow> fd = 2"
    using fd [of 1] fd [of 2] by simp_all
  have len: "unat (ucast n :: u64) = unat n" by (rule unat_ucast_u32)
  show ?thesis
  proof (cases "fd = 1 \<or> fd = 2")
    case True
    then obtain v where v: "puts (m_video s) ?t (if fd = 1 then LIGHT_GREY else RED) = Some v"
      "machine_inv (s\<lparr>m_video := v\<rparr>)"
      "sys_write s (of_nat fd) buf (ucast n) = Some (s\<lparr>m_video := v\<rparr>, of_nat (length ?t))"
      using sys_write_spec [OF assms(1), of "of_nat fd" "ucast n" buf] assms(3-5) fd12
      by (auto simp: len kernel_descriptors)
    have "length ?t < 2 ^ 32" using text_at_length [of "ram s" buf "unat n"] assms(3) by simp
    then have "ucast (of_nat (length ?t) :: u64) = (of_nat (length ?t) :: u32)" by (rule small_argument)
    then show ?thesis
      using v True assms(6) call
      by (auto simp: write_fd_def descriptors show_outp_append show_outp_puts text_at_bytes)
  next
    case False
    then have "sys_write s (of_nat fd) buf (ucast n) = Some (s, 0)" using fd12 by (simp add: sys_write_def kernel_descriptors)
    then show ?thesis using False assms(1,6) call by (simp add: write_fd_def descriptors)
  qed
qed


theorem user_write_refines_witness:
  "\<exists>s'. user_write 2 0x700000 3 [] (set_ram sample_machine ((\<lambda>a. 0)(0x700000 := 72, 0x700001 := 105))) =
      Some (s', Returned 2, [])"
proof -
  let ?s = "set_ram sample_machine ((\<lambda>a. 0)(0x700000 := 72, 0x700001 := 105))"
  have n: "unat (3 :: u32) = Suc (Suc (Suc 0))" by simp
  have t: "text_at (ram ?s) 0x700000 (unat (3 :: u32)) = [72, 105]" unfolding n by simp
  have "off_screen 0x700000 (unat (3 :: u32))"
    unfolding n off_screen_Suc by (simp add: off_screen_def in_region_iff screen_layout)
  moreover have "8 \<notin> set (text_at (ram ?s) 0x700000 (unat (3 :: u32)))" unfolding t by simp
  ultimately obtain s' where "user_write (of_nat 2) 0x700000 3 [] ?s =
      Some (s', Returned (of_nat (snd (write_fd [] 2 (bytes_at (ram ?s) 0x700000 (unat (3 :: u32)))))), [])"
    using user_write_refines [OF inv_set_ram [OF sample_machine_inv], of 2 3 "0x700000" _ "m_video ?s" "[]" "[]"] by auto
  moreover have "takeWhile (\<lambda>c. c \<noteq> 0) (bytes_at (ram ?s) 0x700000 (unat (3 :: u32))) = [72, 105]"
    using t unfolding text_at_bytes .
  ultimately show ?thesis by (simp add: write_fd_def descriptors)
qed

end
