(* ===== verification/Chario.thy ===== *)
theory Chario
  imports Stdin Usercalls Scanf
begin

text \<open>
  Characters from the machine: \<open>fgetc\<close> and \<open>getchar\<close> of \<open>lib/stdio.c\<close> as calls of the kernel. What the other
  parts of the library take as a list of characters is what these calls deliver one after the other.
\<close>

section \<open>Operations\<close>

text \<open>The character is read to a local variable, whose address is an argument.\<close>

definition user_fgetc :: "u32 \<Rightarrow> ptr \<Rightarrow> event list \<Rightarrow> machine \<Rightarrow> (machine \<times> u8 \<times> event list) option" where
  "user_fgetc fd c env s =
     (case user_read fd c 1 env s of
        None \<Rightarrow> None
      | Some (s', out, env') \<Rightarrow> Some (s', ram s' c, env'))"

definition user_getchar :: "ptr \<Rightarrow> event list \<Rightarrow> machine \<Rightarrow> (machine \<times> u8 \<times> event list) option" where
  "user_getchar c env s = user_fgetc 0 c env s"

text \<open>
  \<open>fgets\<close> over any source of characters. It may wait for ever, so it is a partial function; \<open>None\<close> also
  stands for a write outside the array, as in the model over a list.
\<close>

partial_function (option) fgets_stream ::
  "('s \<Rightarrow> ('s \<times> u8) option) \<Rightarrow> nat \<Rightarrow> nat \<Rightarrow> 's \<Rightarrow> outp \<Rightarrow> u8 list \<Rightarrow> nat \<Rightarrow>
   ('s \<times> outp \<times> u8 list \<times> nat \<times> u8) option" where
  "fgets_stream get fd n s out str read =
     (case get s of
        None \<Rightarrow> None
      | Some (s', c) \<Rightarrow>
          if c = EOF \<or> c = 10 \<or> \<not> read < n then Some (s', out, str, read, c)
          else if sint c > 0
          then if c = 8
               then if read > 0
                    then fgets_stream get fd n s' (if fd = STDIN then fputc out STDOUT c else out)
                           (str[read - 1 := 0]) (read - 1)
                    else fgets_stream get fd n s' out str read
               else if read < length str
                    then fgets_stream get fd n s' (if fd = STDIN then fputc out STDOUT c else out)
                           (str[read := c]) (read + 1)
                    else None
          else fgets_stream get fd n s' out str read)"

definition stream_fgets ::
  "('s \<Rightarrow> ('s \<times> u8) option) \<Rightarrow> nat \<Rightarrow> 's \<Rightarrow> outp \<Rightarrow> u8 list \<Rightarrow> nat \<Rightarrow> ('s \<times> outp \<times> u8 list \<times> bool) option" where
  "stream_fgets get fd s out str n =
     (case fgets_stream get fd n s out str 0 of
        None \<Rightarrow> None
      | Some (s', out', str', read, c) \<Rightarrow>
          let out'' = (if fd = STDIN then fputc out' STDOUT 10 else out') in
          if read = 0 \<and> c = EOF then Some (s', out'', str', False)
          else if read < length str' then Some (s', out'', str'[read := 0], True) else None)"

section \<open>Sources of characters\<close>

text \<open>
  The interface that the library's input rests on: in a state that stands for a list of characters to come,
  the next call delivers the first of them.
\<close>

fun read_chars :: "('s \<Rightarrow> ('s \<times> u8) option) \<Rightarrow> nat \<Rightarrow> 's \<Rightarrow> ('s \<times> u8 list) option" where
  "read_chars get 0 s = Some (s, [])"
| "read_chars get (Suc n) s =
     (case get s of
        None \<Rightarrow> None
      | Some (s', x) \<Rightarrow> map_option (\<lambda>(s'', xs). (s'', x # xs)) (read_chars get n s'))"

locale char_source =
  fixes get :: "'s \<Rightarrow> ('s \<times> u8) option" and to_come :: "'s \<Rightarrow> u8 list \<Rightarrow> bool"
  assumes get_next: "to_come s (x # xs) \<Longrightarrow> \<exists>s'. get s = Some (s', x) \<and> to_come s' xs"
begin

lemma read_list: "to_come s (xs @ ys) \<Longrightarrow> \<exists>s'. read_chars get (length xs) s = Some (s', xs) \<and> to_come s' ys"
proof (induction xs arbitrary: s)
  case (Cons x xs)
  then obtain s1 where "get s = Some (s1, x)" "to_come s1 (xs @ ys)" using get_next by fastforce
  with Cons.IH [of s1] show ?case by auto
qed simp

lemma fgets_stream_list:
  "to_come s input \<Longrightarrow> fgets_loop fd n input out str read = Some (rest, r) \<Longrightarrow>
   \<exists>s'. fgets_stream get fd n s out str read = Some (s', r) \<and> to_come s' rest"
proof (induction fd n input out str read arbitrary: s rule: fgets_loop.induct)
  case (2 fd n c input out str read)
  from get_next [OF "2.prems"(1)] obtain s1 where s1: "get s = Some (s1, c)" "to_come s1 input" by blast
  consider "c = EOF \<or> c = 10 \<or> \<not> read < n"
    | "\<not> (c = EOF \<or> c = 10 \<or> \<not> read < n)" "sint c > 0" "c = 8" "read > 0"
    | "\<not> (c = EOF \<or> c = 10 \<or> \<not> read < n)" "sint c > 0" "c = 8" "\<not> read > 0"
    | "\<not> (c = EOF \<or> c = 10 \<or> \<not> read < n)" "sint c > 0" "c \<noteq> 8"
    | "\<not> (c = EOF \<or> c = 10 \<or> \<not> read < n)" "\<not> sint c > 0" by blast
  then show ?case
  proof cases
    case 1
    then show ?thesis using "2.prems"(2) s1 by (subst fgets_stream.simps) auto
  next
    case 2
    then show ?thesis using "2.IH"(1) [OF 2 s1(2)] "2.prems"(2) s1(1) by (subst fgets_stream.simps) auto
  next
    case 3
    then show ?thesis using "2.IH"(2) [OF 3 s1(2)] "2.prems"(2) s1(1) by (subst fgets_stream.simps) auto
  next
    case 4
    then have "read < length str" using "2.prems"(2) by (auto split: if_splits)
    then show ?thesis using "2.IH"(3) [OF 4 _ s1(2)] 4 "2.prems"(2) s1(1) by (subst fgets_stream.simps) auto
  next
    case 5
    then show ?thesis using "2.IH"(4) [OF 5 s1(2)] "2.prems"(2) s1(1) by (subst fgets_stream.simps) auto
  qed
qed simp

lemma stream_fgets_list:
  assumes "to_come s input" "fgets fd input out str n = Some (rest, r)"
  shows "\<exists>s'. stream_fgets get fd s out str n = Some (s', r) \<and> to_come s' rest"
proof -
  obtain rest1 out1 str1 read1 c1 where l: "fgets_loop fd n input out str 0 = Some (rest1, out1, str1, read1, c1)"
    using assms(2) by (cases "fgets_loop fd n input out str 0") (auto simp: fgets_def)
  then have "rest1 = rest" using assms(2) by (auto simp: fgets_def Let_def split: if_splits)
  with fgets_stream_list [OF assms(1) l] obtain s' where
    "fgets_stream get fd n s out str 0 = Some (s', out1, str1, read1, c1)" "to_come s' rest" by blast
  then show ?thesis using assms(2) l by (auto simp: stream_fgets_def fgets_def Let_def split: if_splits)
qed

end

section \<open>One character\<close>

lemma user_read_machine:
  assumes "machine_inv s"
  shows "user_read fd c 1 env s = map_option (\<lambda>(s', n, env'). (s', Returned (ucast n), env')) (sys_read env s (ucast fd) c 1)"
proof -
  have "init_syscalls (replicate SYSCALLS_SIZE None) ! SYS_READ = Some Sys_read" by code_simp
  then have "int80 SYS_READ (ucast fd) c 1 env s = run_handler Sys_read (ucast fd) c 1 env s"
    by (intro int80_handler [OF assms]) (simp_all add: SYS_READ_def)
  then show ?thesis
    by (cases "sys_read env s (ucast fd) c 1") (auto simp: user_read_def as_int_def)
qed

lemma user_fgetc_machine:
  assumes "machine_inv s"
  shows "user_fgetc fd c env s = map_option (\<lambda>(s', n, env'). (s', ram s' c, env')) (sys_read env s (ucast fd) c 1)"
  using user_read_machine [OF assms] by (cases "sys_read env s (ucast fd) c 1") (auto simp: user_fgetc_def)

lemma getchar_key:
  assumes "machine_inv s" "drained (m_keyboard s)" "c \<notin> clock_memory s"
    and "prints (shift_on (m_keyboard s)) (caps_lock_on (m_keyboard s)) k" "BUFFER_SIZE \<le> polls bs"
  shows "\<exists>s' bs'. user_fgetc 0 c (polling bs0 @ Key 1 k # polling bs @ env) s =
      Some (s', key_char (shift_on (m_keyboard s)) (caps_lock_on (m_keyboard s)) k, polling bs' @ env) \<and>
    machine_inv s' \<and> drained (m_keyboard s') \<and> same_case s s' \<and> clock_memory s' = clock_memory s \<and>
    (\<forall>a. a \<notin> clock_memory s \<longrightarrow> a \<noteq> c \<longrightarrow> ram s' a = ram s a)"
proof -
  have one: "(0 :: u32) <s 1" by (simp add: word_sless_alt)
  obtain s1 where s1: "stdin_loop (polling bs0 @ Key 1 k # polling bs @ env) s c 1 0 None =
      stdin_loop (Key 1 k # polling bs @ env) s1 c 1 0 None"
    "machine_inv s1" "drained (m_keyboard s1)" "untouched s s1" "same_case s s1"
    using polling_drained [OF one assms(1,2)] by blast
  have cm: "clock_memory s1 = clock_memory s" using s1(4) by (simp add: untouched_def clock_memory_def)
  have at: "c + scast (0 :: u32) \<notin> clock_memory s1" using assms(3) cm by simp
  have same: "shift_on (m_keyboard s1) = shift_on (m_keyboard s)" "caps_lock_on (m_keyboard s1) = caps_lock_on (m_keyboard s)"
    using s1(5) by (simp_all add: same_case_def)
  have pr: "prints (shift_on (m_keyboard s1)) (caps_lock_on (m_keyboard s1)) k" using assms(4) same by simp
  obtain s' bs' where s':
    "stdin_loop (Key 1 k # polling bs @ env) s1 c 1 0 None = stdin_loop (polling bs' @ env) s' c 1 1 None"
    "machine_inv s'" "drained (m_keyboard s')" "same_case s1 s'" "time_str s' = time_str s1"
    "ram s' c = key_char (shift_on (m_keyboard s)) (caps_lock_on (m_keyboard s)) k"
    "\<forall>a. a \<notin> clock_memory s \<longrightarrow> a \<noteq> c \<longrightarrow> ram s' a = ram s1 a"
    by (rule one_key [OF one s1(2,3) at pr assms(5), of env]) (simp add: same cm)
  have "stdin_loop (polling bs' @ env) s' c 1 1 None = Some (s', 1, polling bs' @ env)" by (simp add: stdin_done)
  then have "sys_read (polling bs0 @ Key 1 k # polling bs @ env) s 0 c 1 = Some (s', 1, polling bs' @ env)"
    using s1(1) s'(1) by (simp add: sys_read_def kernel_descriptors read_stdin_def)
  moreover have "\<forall>a. a \<notin> clock_memory s \<longrightarrow> a \<noteq> c \<longrightarrow> ram s' a = ram s a"
    using s'(7) s1(4) by (simp add: untouched_def)
  moreover have "clock_memory s' = clock_memory s" using s'(5) s1(4) by (simp add: untouched_def clock_memory_def)
  ultimately show ?thesis
    using user_fgetc_machine [OF assms(1), of 0] s'(2,3,6) same_case_trans [OF s1(5) s'(4)] by auto
qed

lemma fgetc_data:
  assumes "machine_inv s" "cstr (ram s) dataModuleAddress content" "read_index s = of_nat k" "k \<le> length content"
    and "length content < 2 ^ 31" "c \<notin> region dataModuleAddress (Suc (length content))"
  shows "\<exists>s'. user_fgetc 3 c env s = Some (s', (content @ [0xFF]) ! k, env) \<and> machine_inv s' \<and>
    cstr (ram s') dataModuleAddress content \<and> read_index s' = of_nat (if k < length content then Suc k else 0) \<and>
    (\<forall>a. a \<noteq> c \<longrightarrow> ram s' a = ram s a)"
proof -
  let ?x = "(content @ [0xFF]) ! k"
  have "region c (unat (1 :: u64)) \<inter> region dataModuleAddress (Suc (length content)) = {}"
    using assms(6) by (simp add: region_shift)
  from stddata_stream [OF assms(2-5) _ this, of env] obtain s' where s':
    "sys_read env s 3 c 1 = Some (s', of_nat (min 1 (length content - k)), env)"
    "if min 1 (length content - k) = 0 then ram s' = (ram s)(c := 0xFF) \<and> read_index s' = 0
     else ram s' = put_bytes (ram s) c (take (min 1 (length content - k)) (drop k content)) \<and>
       read_index s' = of_nat (k + min 1 (length content - k))"
    by (auto simp: kernel_descriptors)
  have m: "ram s' = (ram s)(c := ?x)" "read_index s' = of_nat (if k < length content then Suc k else 0)"
  proof -
    show "ram s' = (ram s)(c := ?x)" "read_index s' = of_nat (if k < length content then Suc k else 0)"
      using s'(2) assms(4) by (cases "k < length content"; auto simp: nth_append Cons_nth_drop_Suc [symmetric])+
  qed
  have "run_handler Sys_read 3 c 1 env s = Some (s', Returned (of_nat (min 1 (length content - k))), env)" using s'(1) by simp
  then have inv: "machine_inv s'"
    using handler_safe [OF assms(1), of Sys_read 3 c 1 env] by (auto simp: kernel_descriptors)
  have "cstr (ram s') dataModuleAddress content"
    unfolding m(1) using assms(2,6) put_bytes_cstr [of c "[?x]" dataModuleAddress content "ram s"] by (simp add: region_shift)
  then show ?thesis using user_fgetc_machine [OF assms(1), of 3] s'(1) m inv by (intro exI [of _ s']) auto
qed

section \<open>The keyboard and the data module are sources\<close>

definition get_char :: "u32 \<Rightarrow> ptr \<Rightarrow> event list \<times> machine \<Rightarrow> ((event list \<times> machine) \<times> u8) option" where
  "get_char fd c es = map_option (\<lambda>(s', x, env'). ((env', s'), x)) (user_fgetc fd c (fst es) (snd es))"

text \<open>Slow typing is still to come, perhaps after some polls and timer interrupts.\<close>

definition typing_to_come :: "ptr \<Rightarrow> event list \<times> machine \<Rightarrow> u8 list \<Rightarrow> bool" where
  "typing_to_come c es xs \<longleftrightarrow> (\<exists>bs ks. fst es = polling bs @ typing ks \<and> machine_inv (snd es) \<and>
     drained (m_keyboard (snd es)) \<and> slow_typing (snd es) ks \<and> c \<notin> clock_memory (snd es) \<and> typed_text (snd es) ks = xs)"

interpretation keyboard_source: char_source "get_char 0 c" "typing_to_come c" for c
proof unfold_locales
  fix es x xs assume "typing_to_come c es (x # xs)"
  then obtain bs0 ks where s: "fst es = polling bs0 @ typing ks" "machine_inv (snd es)" "drained (m_keyboard (snd es))"
    "slow_typing (snd es) ks" "c \<notin> clock_memory (snd es)" "typed_text (snd es) ks = x # xs"
    by (auto simp: typing_to_come_def)
  then obtain k bs ks' where ks: "ks = (k, bs) # ks'" by (cases ks) (auto simp: typed_text_def)
  have pr: "prints (shift_on (m_keyboard (snd es))) (caps_lock_on (m_keyboard (snd es))) k" "BUFFER_SIZE \<le> polls bs"
    using s(4) ks by (auto simp: slow_typing_def)
  obtain s' bs' where s': "user_fgetc 0 c (fst es) (snd es) = Some (s', x, polling bs' @ typing ks')"
    "machine_inv s'" "drained (m_keyboard s')" "same_case (snd es) s'" "clock_memory s' = clock_memory (snd es)"
    using getchar_key [OF s(2,3,5) pr, of bs0 "typing ks'"] s(1,6) ks by (auto simp: typed_text_def)
  have "slow_typing s' ks'" "typed_text s' ks' = xs"
    using s(4,6) s'(4) ks by (auto simp: slow_typing_def typed_text_def same_case_def)
  with s' s(5) show "\<exists>s'. get_char 0 c es = Some (s', x) \<and> typing_to_come c s' xs"
    by (auto simp: get_char_def typing_to_come_def)
qed

lemma typing_starts:
  assumes "machine_inv s" "drained (m_keyboard s)" "slow_typing s ks" "c \<notin> clock_memory s"
  shows "typing_to_come c (typing ks, s) (typed_text s ks)"
  unfolding typing_to_come_def using assms by (intro exI [of _ "[]"] exI [of _ ks]) (simp add: polling_def)

text \<open>The file of the data module from a position on, with the mark behind it, over and over.\<close>

definition data_to_come :: "ptr \<Rightarrow> u8 list \<Rightarrow> event list \<times> machine \<Rightarrow> u8 list \<Rightarrow> bool" where
  "data_to_come c content es xs \<longleftrightarrow> machine_inv (snd es) \<and> cstr (ram (snd es)) dataModuleAddress content \<and>
     length content < 2 ^ 31 \<and> c \<notin> region dataModuleAddress (Suc (length content)) \<and>
     (\<exists>k \<le> length content. read_index (snd es) = of_nat k \<and>
        xs = map (\<lambda>i. (content @ [0xFF]) ! ((k + i) mod Suc (length content))) [0..<length xs])"

interpretation data_source: char_source "get_char 3 c" "data_to_come c content" for c content
proof unfold_locales
  fix es x xs assume "data_to_come c content es (x # xs)"
  then obtain k where s: "machine_inv (snd es)" "cstr (ram (snd es)) dataModuleAddress content" "length content < 2 ^ 31"
    "c \<notin> region dataModuleAddress (Suc (length content))" "k \<le> length content" "read_index (snd es) = of_nat k"
    "x # xs = map (\<lambda>i. (content @ [0xFF]) ! ((k + i) mod Suc (length content))) [0..<length (x # xs)]"
    by (auto simp: data_to_come_def)
  let ?k = "if k < length content then Suc k else 0"
  obtain s' where s': "user_fgetc 3 c (fst es) (snd es) = Some (s', (content @ [0xFF]) ! k, fst es)" "machine_inv s'"
    "cstr (ram s') dataModuleAddress content" "read_index s' = of_nat ?k"
    using fgetc_data [OF s(1,2,6,5,3,4), of "fst es"] by auto
  have split: "x = (content @ [0xFF]) ! k" "xs = map (\<lambda>i. (content @ [0xFF]) ! ((k + Suc i) mod Suc (length content))) [0..<length xs]"
    using s(5,7) by (simp_all add: upt_conv_Cons map_Suc_upt [symmetric] comp_def del: upt_Suc)
  have "(k + Suc i) mod Suc (length content) = (?k + i) mod Suc (length content)" for i
  proof (cases "k = length content")
    case True
    then have "k + Suc i = i + Suc (length content)" by simp
    then show ?thesis using True by (simp only: mod_add_self2) simp
  qed (use s(5) in simp)
  then have "xs = map (\<lambda>i. (content @ [0xFF]) ! ((?k + i) mod Suc (length content))) [0..<length xs]" using split(2) by simp
  then show "\<exists>s'. get_char 3 c es = Some (s', x) \<and> data_to_come c content s' xs"
    using s' s(3-5) split(1) by (auto simp: get_char_def data_to_come_def intro!: exI [of _ ?k])
qed

section \<open>Properties\<close>

text \<open>
  \<open>getchar\<close> delivers what is typed. If at least 64 polls lie between two keys, then as many calls as printing
  keys are typed return, and their characters are those of the keys in the order of typing.
\<close>

theorem getchar_delivers_typing:
  assumes "machine_inv s" "drained (m_keyboard s)" "slow_typing s ks" "c \<notin> clock_memory s"
  shows "\<exists>env' s'. read_chars (get_char 0 c) (length ks) (typing ks, s) = Some ((env', s'), typed_text s ks) \<and>
    machine_inv s' \<and> drained (m_keyboard s')"
proof -
  have "typing_to_come c (typing ks, s) (typed_text s ks @ [])"
    using typing_starts [OF assms] by simp
  from keyboard_source.read_list [OF this] obtain es where
    es: "read_chars (get_char 0 c) (length (typed_text s ks)) (typing ks, s) = Some (es, typed_text s ks)"
    "typing_to_come c es []" by blast
  then have "machine_inv (snd es)" "drained (m_keyboard (snd es))" by (auto simp: typing_to_come_def)
  moreover have "length (typed_text s ks) = length ks" by (simp add: typed_text_def)
  ultimately show ?thesis using es(1) by (cases es) auto
qed

theorem getchar_delivers_typing_witness:
  "\<exists>es. read_chars (get_char 0 0x700000) 2
     (typing [(30, replicate 64 True), (48, False # replicate 64 True)], sample_machine) = Some (es, [97, 98])"
proof -
  let ?ks = "[(30, replicate 64 True), (48, False # replicate 64 True)] :: (u8 \<times> bool list) list"
  have "slow_typing sample_machine ?ks"
    by (simp add: slow_typing_def sample_keyboard letters_print polls_def BUFFER_SIZE_def)
  moreover have "drained (m_keyboard sample_machine)" using kb_ready_ok(1) by (simp add: sample_keyboard)
  moreover have "typed_text sample_machine ?ks = [97, 98]"
    by (simp add: typed_text_def sample_keyboard letters_print)
  moreover have "0x700000 \<notin> clock_memory sample_machine"
    by (auto simp: clock_memory_def in_region_iff screen_layout sample_machine_def region_shift)
  ultimately show ?thesis
    using getchar_delivers_typing [OF sample_machine_inv, of ?ks "0x700000"] by (auto simp: numeral_2_eq_2)
qed

text \<open>
  C31: \<open>fgets\<close> on the machine is \<open>fgets\<close> on a list of characters. Whatever it makes of the characters of the keys that
  are typed slowly enough, or of those of the data module with the mark 255 behind its end, the same comes out
  of the system calls that fetch the characters one by one: the same array, the same echo, and the same
  answer. It returns whenever it does so on the list.
\<close>

theorem fgets_reads_machine:
  assumes "machine_inv s"
  shows "(drained (m_keyboard s) \<and> slow_typing s ks \<and> c \<notin> clock_memory s \<and>
      fgets STDIN (typed_text s ks) out str n = Some (rest, r) \<longrightarrow>
      (\<exists>es. stream_fgets (get_char 0 c) STDIN (typing ks, s) out str n = Some (es, r) \<and> machine_inv (snd es))) \<and>
    (cstr (ram s) dataModuleAddress content \<and> length content < 2 ^ 31 \<and> read_index s = 0 \<and>
      c \<notin> region dataModuleAddress (Suc (length content)) \<and>
      fgets STDDATA (content @ [0xFF]) out str n = Some (rest, r) \<longrightarrow>
      (\<exists>es. stream_fgets (get_char 3 c) STDDATA (env, s) out str n = Some (es, r) \<and> machine_inv (snd es)))"
proof (intro conjI impI; elim conjE)
  assume a: "drained (m_keyboard s)" "slow_typing s ks" "c \<notin> clock_memory s"
    and f: "fgets STDIN (typed_text s ks) out str n = Some (rest, r)"
  have "typing_to_come c (typing ks, s) (typed_text s ks)"
    by (rule typing_starts [OF assms a])
  from keyboard_source.stream_fgets_list [OF this f]
  show "\<exists>es. stream_fgets (get_char 0 c) STDIN (typing ks, s) out str n = Some (es, r) \<and> machine_inv (snd es)"
    by (auto simp: typing_to_come_def)
next
  assume a: "cstr (ram s) dataModuleAddress content" "length content < 2 ^ 31" "read_index s = 0"
      "c \<notin> region dataModuleAddress (Suc (length content))"
    and f: "fgets STDDATA (content @ [0xFF]) out str n = Some (rest, r)"
  have "content @ [0xFF] = map (\<lambda>i. (content @ [0xFF]) ! ((0 + i) mod Suc (length content))) [0..<length (content @ [0xFF])]"
    by (rule nth_equalityI) (simp_all del: upt_Suc)
  then have "data_to_come c content (env, s) (content @ [0xFF])"
    using assms a unfolding data_to_come_def by (auto intro!: exI [of _ 0])
  from data_source.stream_fgets_list [OF this f]
  show "\<exists>es. stream_fgets (get_char 3 c) STDDATA (env, s) out str n = Some (es, r) \<and> machine_inv (snd es)"
    by (auto simp: data_to_come_def)
qed


theorem fgets_reads_machine_witness:
  "\<exists>es. stream_fgets (get_char 3 0x700000) STDDATA
     ([], set_ram sample_machine ((\<lambda>a. 0)(0x500000 := 72, 0x500001 := 105))) [] (replicate 8 1) 8 =
     Some (es, [], [72, 105, 0, 1, 1, 1, 1, 1], True)"
proof -
  let ?s = "set_ram sample_machine ((\<lambda>a. 0)(0x500000 := 72, 0x500001 := 105))"
  have "machine_inv ?s" using sample_machine_inv by (simp add: machine_inv_def set_ram_def video_inv_def clock_only_def)
  moreover have "cstr (ram ?s) dataModuleAddress [72, 105]" by (simp add: dataModuleAddress_def)
  moreover have "read_index ?s = 0" by (simp add: set_ram_def sample_machine_def)
  moreover have "0x700000 \<notin> region dataModuleAddress (Suc (length [72, 105 :: u8]))"
    by (auto simp: region_shift dataModuleAddress_def)
  moreover have "fgets STDDATA ([72, 105] @ [0xFF]) [] (replicate 8 1) 8 =
      Some ([], [], [72, 105, 0, 1, 1, 1, 1, 1], True)"
    by code_simp
  ultimately show ?thesis using fgets_reads_machine [of ?s] by fastforce
qed
end
