(* ===== verification/Commands.thy ===== *)
theory Commands
  imports Scanf
begin

text \<open>
  The commands of the shell, \<open>shell/commands.c\<close>, with the table of them that \<open>shell/shell.c\<close> sets up. A command
  prints on the output stream and calls the kernel; the answers of the kernel, a string for \<open>date\<close> and
  numbers otherwise, are arguments. The command \<open>fractal\<close> has a theory of its own. \<open>None\<close> stands for a read
  behind the end of a string and for what the library leaves undefined.
\<close>

section \<open>The table of commands\<close>

datatype command_id =
  ECHO | HELP | FRACTAL | CLEAR | EXIT | TIME | DATE | SET_TIME | SET_DATE | SLEEP | TESTS | PRINTF

record command_t =
  cmd_id :: command_id
  cmd_name :: "u8 list"
  cmd_desc :: "u8 list"

definition MAX_ARGS :: nat where
  "MAX_ARGS = 10"

definition COMMANDS_SIZE :: nat where
  "COMMANDS_SIZE = 12"

text \<open>The number of a member of the enumeration.\<close>

fun id_number :: "command_id \<Rightarrow> nat" where
  "id_number ECHO = 0" | "id_number HELP = 1" | "id_number FRACTAL = 2" | "id_number CLEAR = 3"
| "id_number EXIT = 4" | "id_number TIME = 5" | "id_number DATE = 6" | "id_number SET_TIME = 7"
| "id_number SET_DATE = 8" | "id_number SLEEP = 9" | "id_number TESTS = 10" | "id_number PRINTF = 11"

definition add_command :: "command_id \<Rightarrow> string \<Rightarrow> string \<Rightarrow> command_t option list \<Rightarrow> command_t option list" where
  "add_command i nm desc commands =
     commands[id_number i := Some \<lparr>cmd_id = i, cmd_name = str_bytes nm, cmd_desc = str_bytes desc\<rparr>]"

definition init_commands :: "command_t option list \<Rightarrow> command_t option list" where
  "init_commands commands =
     (add_command PRINTF ''printf'' ''printf [format] [args...]'' \<circ>
      add_command TESTS ''tests'' ''tests'' \<circ>
      add_command SLEEP ''sleep'' ''sleep [seconds]'' \<circ>
      add_command SET_DATE ''setdate'' ''setdate [day] [month] [year]'' \<circ>
      add_command SET_TIME ''settime'' ''settime [hour] [minutes] [seconds]'' \<circ>
      add_command DATE ''date'' ''date'' \<circ>
      add_command TIME ''time'' ''time'' \<circ>
      add_command EXIT ''exit'' ''exit'' \<circ>
      add_command CLEAR ''clear'' ''clear'' \<circ>
      add_command FRACTAL ''fractal'' ''fractal [number]'' \<circ>
      add_command HELP ''help'' ''help [command]?'' \<circ>
      add_command ECHO ''echo'' ''echo [args...]'') commands"

section \<open>What a command does\<close>

text \<open>Calls of the kernel, each noted with the number of characters that were printed before it.\<close>

datatype call =
    Call_clear | Call_exit u32 | Call_time | Call_date | Call_set_time u32 u32 u32 | Call_set_date u32 u32 u32
  | Call_wait u64 | Call_video u32 u32 u32 | Call_draw u32 u32 u8 u8 u8

text \<open>\<open>s_data\<close> is what the data descriptor has still to deliver.\<close>

record session =
  s_out :: outp
  s_data :: "u8 list"
  s_calls :: "(nat \<times> call) list"
  s_commands :: "command_t option list"
  s_username :: "u8 list"

record os =
  answer :: "call \<Rightarrow> u32"
  date_text :: "u8 list"

text \<open>A call that comes back, with its answer. All calls do but \<open>exit\<close>.\<close>

definition sys_call :: "os \<Rightarrow> call \<Rightarrow> session \<Rightarrow> session \<times> u32" where
  "sys_call sys c s = (s\<lparr>s_calls := s_calls s @ [(length (s_out s), c)]\<rparr>, answer sys c)"

text \<open>
  \<open>exit\<close> halts the processor in the kernel: it has no answer, and whoever runs the code of the session stops at one that
  has \<open>exited\<close>.
\<close>

definition exit_call :: "u32 \<Rightarrow> session \<Rightarrow> session" where
  "exit_call code s = s\<lparr>s_calls := s_calls s @ [(length (s_out s), Call_exit code)]\<rparr>"

fun halts :: "call \<Rightarrow> bool" where
  "halts (Call_exit code) \<longleftrightarrow> True"
| "halts k \<longleftrightarrow> False"

definition exited :: "session \<Rightarrow> bool" where
  "exited s \<longleftrightarrow> list_ex (\<lambda>k. halts (snd k)) (s_calls s)"

lemma exited_update [simp]:
  "exited (s\<lparr>s_out := out\<rparr>) = exited s" "exited (s\<lparr>s_data := d\<rparr>) = exited s"
  "exited (s\<lparr>s_commands := cs\<rparr>) = exited s" "exited (s\<lparr>s_username := u\<rparr>) = exited s"
  "exited (exit_call code s)"
  by (simp_all add: exited_def exit_call_def)

definition print_fd :: "nat \<Rightarrow> u8 list \<Rightarrow> va list \<Rightarrow> session \<Rightarrow> session option" where
  "print_fd fd fmt ap s = map_option (\<lambda>(out, n). s\<lparr>s_out := out\<rparr>) (fprintf (s_out s) fd fmt ap)"

definition put_char :: "u8 \<Rightarrow> session \<Rightarrow> session" where
  "put_char c s = s\<lparr>s_out := uputchar (s_out s) c\<rparr>"

definition put_string :: "nat \<Rightarrow> u8 list \<Rightarrow> session \<Rightarrow> session" where
  "put_string fd str s = s\<lparr>s_out := fst (fputs (s_out s) fd str)\<rparr>"

text \<open>A message on the error descriptor and the result -1.\<close>

definition refuse :: "string \<Rightarrow> session \<Rightarrow> (session \<times> u32) option" where
  "refuse msg s = map_option (\<lambda>s'. (s', - 1)) (print_fd STDERR (str_bytes msg @ [10]) [] s)"

definition refuse_puts :: "string \<Rightarrow> session \<Rightarrow> session \<times> u32" where
  "refuse_puts msg s = (put_string STDERR (str_bytes msg @ [10]) s, - 1)"

text \<open>\<open>sscanf(str, "%d", &number) == 1\<close>, with the number.\<close>

definition scan_int :: "u8 list \<Rightarrow> session \<Rightarrow> (session \<times> u32 option) option" where
  "scan_int str s =
     (case sscanf (s_out s) str [37, 100] of
        None \<Rightarrow> None
      | Some (out, st, n) \<Rightarrow>
          Some (s\<lparr>s_out := out\<rparr>, if n = 1 then (case st of SInt v # _ \<Rightarrow> Some v | _ \<Rightarrow> None) else None))"

section \<open>The commands\<close>

fun echo_loop :: "u8 list list \<Rightarrow> session \<Rightarrow> session option" where
  "echo_loop [] s = Some s"
| "echo_loop (arg # argv) s =
     (if char_at arg = 36
      then if tl arg = str_bytes ''USER''
           then Option.bind (print_fd STDOUT (str_bytes ''%s '') [StrArg (s_username s)] s) (echo_loop argv)
           else echo_loop argv s
      else Option.bind (print_fd STDOUT (str_bytes ''%s '') [StrArg arg] s) (echo_loop argv))"

definition echo :: "u8 list list \<Rightarrow> session \<Rightarrow> (session \<times> u32) option" where
  "echo argv s = map_option (\<lambda>s'. (put_char 10 s', 0)) (echo_loop argv s)"

text \<open>The lines \<open>help\<close> prints about a command.\<close>

fun help_text :: "command_id \<Rightarrow> string list" where
  "help_text ECHO = [''Write arguments to the standard output, separated by a single space.'']"
| "help_text HELP = [''Displays information about commands.'',
     ''If no command is specified, prints a list of available commands.'']"
| "help_text FRACTAL = [''Starts video mode and draws the specified fractal.'']"
| "help_text CLEAR = [''Clears the console.'']"
| "help_text EXIT = [''Exits the shell.'']"
| "help_text TIME = [''Enables/disables time in the top right corner of the shell.'']"
| "help_text DATE = [''Prints the date in the console.'']"
| "help_text SET_TIME = [''Sets the time with the given parameters.'']"
| "help_text SET_DATE = [''Sets the date with the given parameters.'']"
| "help_text SLEEP = [''Sleeps for the given seconds.'']"
| "help_text TESTS = [''Runs a series of tests to show the functionality of the standar library.'']"
| "help_text PRINTF = [''Writes formatted output to the console.'']"

fun print_lines :: "u8 list list \<Rightarrow> session \<Rightarrow> session option" where
  "print_lines [] s = Some s"
| "print_lines (l # ls) s = Option.bind (print_fd STDOUT l [] s) (print_lines ls)"

text \<open>The loop over the table compares the names; an empty entry would be a NULL name.\<close>

fun find_command :: "command_t option list \<Rightarrow> u8 list \<Rightarrow> command_t option option" where
  "find_command [] nm = Some None"
| "find_command (None # cs) nm = None"
| "find_command (Some c # cs) nm = (if cmd_name c = nm then Some (Some c) else find_command cs nm)"

fun help_all :: "command_t option list \<Rightarrow> session \<Rightarrow> session option" where
  "help_all [] s = Some s"
| "help_all (None # cs) s = None"
| "help_all (Some c # cs) s =
     Option.bind (print_fd STDOUT (str_bytes ''%s'' @ [10]) [StrArg (cmd_desc c)] s) (help_all cs)"

definition cmd_help :: "u8 list list \<Rightarrow> session \<Rightarrow> (session \<times> u32) option" where
  "cmd_help argv s =
     (if length argv > 1 then Some (refuse_puts ''Too many arguments!'' s)
      else if length argv = 1
      then case find_command (s_commands s) (argv ! 0) of
             None \<Rightarrow> None
           | Some None \<Rightarrow>
               map_option (\<lambda>s'. (s', - 1))
                 (print_fd STDERR (str_bytes ''Invalid argument: '' @ [39, 37, 115, 39, 10]) [StrArg (argv ! 0)] s)
           | Some (Some c) \<Rightarrow>
               map_option (\<lambda>s'. (s', 0))
                 (Option.bind (print_fd STDOUT (str_bytes ''%s: %s'' @ [10]) [StrArg (cmd_name c), StrArg (cmd_desc c)] s)
                   (print_lines (map (\<lambda>l. [9] @ str_bytes l @ [10]) (help_text (cmd_id c)))))
      else map_option (\<lambda>s'. (s', 0)) (help_all (s_commands s) s))"

definition cmd_clear :: "os \<Rightarrow> u8 list list \<Rightarrow> session \<Rightarrow> (session \<times> u32) option" where
  "cmd_clear sys argv s =
     (if argv \<noteq> [] then Some (refuse_puts ''Too many arguments!'' s) else Some (fst (sys_call sys Call_clear s), 0))"

text \<open>The number beside an exited session is never looked at: \<open>exit\<close> does not come back.\<close>

definition cmd_exit :: "u8 list list \<Rightarrow> session \<Rightarrow> (session \<times> u32) option" where
  "cmd_exit argv s =
     (if argv \<noteq> [] then Some (refuse_puts ''Too many arguments!'' s) else Some (exit_call 0 s, 0))"

definition cmd_time :: "os \<Rightarrow> u8 list list \<Rightarrow> session \<Rightarrow> (session \<times> u32) option" where
  "cmd_time sys argv s =
     (if argv \<noteq> [] then Some (refuse_puts ''Too many arguments!'' s) else Some (fst (sys_call sys Call_time s), 0))"

definition cmd_date :: "os \<Rightarrow> u8 list list \<Rightarrow> session \<Rightarrow> (session \<times> u32) option" where
  "cmd_date sys argv s =
     (if argv \<noteq> [] then Some (refuse_puts ''Too many arguments!'' s)
      else map_option (\<lambda>s'. (s', 0))
             (print_fd STDOUT (str_bytes ''%s'' @ [10]) [StrArg (date_text sys)] (fst (sys_call sys Call_date s))))"

text \<open>The three numbers of \<open>settime\<close> and \<open>setdate\<close>: the first that is none ends the reading.\<close>

fun scan_ints :: "u8 list list \<Rightarrow> session \<Rightarrow> (session \<times> u32 list option) option" where
  "scan_ints [] s = Some (s, Some [])"
| "scan_ints (arg # argv) s =
     (case scan_int arg s of
        None \<Rightarrow> None
      | Some (s', None) \<Rightarrow> Some (s', None)
      | Some (s', Some v) \<Rightarrow> map_option (\<lambda>(s'', vs). (s'', map_option (Cons v) vs)) (scan_ints argv s'))"

definition cmd_set_time :: "os \<Rightarrow> u8 list list \<Rightarrow> session \<Rightarrow> (session \<times> u32) option" where
  "cmd_set_time sys argv s =
     (if length argv \<noteq> 3 then refuse ''Invalid number of arguments!'' s
      else case scan_ints argv s of
             None \<Rightarrow> None
           | Some (s', Some [hour, minutes, secs]) \<Rightarrow>
               (if secs <s 0 \<or> 60 \<le>s secs then refuse ''Invalid seconds!'' s'
                else if minutes <s 0 \<or> 60 \<le>s minutes then refuse ''Invalid minutes!'' s'
                else if hour <s 0 \<or> 24 \<le>s hour then refuse ''Invalid hour!'' s'
                else Some (sys_call sys (Call_set_time hour minutes secs) s'))
           | Some (s', _) \<Rightarrow> refuse ''Invalid arguments!'' s')"

definition cmd_set_date :: "os \<Rightarrow> u8 list list \<Rightarrow> session \<Rightarrow> (session \<times> u32) option" where
  "cmd_set_date sys argv s =
     (if length argv \<noteq> 3 then refuse ''Invalid number of arguments!'' s
      else case scan_ints argv s of
             None \<Rightarrow> None
           | Some (s', Some [day, month, year]) \<Rightarrow>
               (if day \<le>s 0 \<or> 31 <s day then refuse ''Invalid day!'' s'
                else if month \<le>s 0 \<or> 12 <s month then refuse ''Invalid month!'' s'
                else if year <s 0 \<or> 80 \<le>s year then refuse ''Invalid year (must be between 0 and 79)'' s'
                else Some (sys_call sys (Call_set_date day month year) s'))
           | Some (s', _) \<Rightarrow> refuse ''Invalid arguments!'' s')"

definition sleep :: "os \<Rightarrow> u8 list list \<Rightarrow> session \<Rightarrow> (session \<times> u32) option" where
  "sleep sys argv s =
     (if length argv \<noteq> 1 then refuse ''Invalid number of arguments!'' s
      else case scan_int (argv ! 0) s of
             None \<Rightarrow> None
           | Some (s', Some secs) \<Rightarrow>
               (if secs <s 0 then refuse ''Invalid seconds!'' s'
                else map_option (sys_call sys (Call_wait (scast (secs * 1000))))
                       (print_fd STDOUT (str_bytes ''%d'' @ [10]) [IntArg secs] s'))
           | Some (s', None) \<Rightarrow> refuse ''Invalid argument!'' s')"

section \<open>The printf command\<close>

text \<open>
  \<open>merge\<close> at a backslash: the character behind it is taken out of the string, and an n or a t turns the
  backslash into what it stands for. Behind a backslash at the end lies the terminator, and the shift reads on
  behind that.
\<close>

definition merge :: "u8 list \<Rightarrow> u8 list option" where
  "merge str =
     (case str of
        c1 # c2 # rest \<Rightarrow> Some ((if c1 = 92 then (if c2 = 110 then 10 else if c2 = 116 then 9 else c1) else c1) # rest)
      | _ \<Rightarrow> None)"

lemma merge_length: "merge str = Some str' \<Longrightarrow> length str' < length str \<and> str' \<noteq> []"
  by (auto simp: merge_def split: list.splits)

function check_special_characters :: "u8 list \<Rightarrow> u8 list option" where
  "check_special_characters [] = Some []"
| "check_special_characters (c # fmt) =
     (if c = 92
      then case merge (c # fmt) of
             None \<Rightarrow> None
           | Some str \<Rightarrow> map_option (Cons (hd str)) (check_special_characters (tl str))
      else map_option (Cons c) (check_special_characters fmt))"
  by pat_completeness auto
termination by (relation "measure length") (auto dest: merge_length)

lemma check_length: "check_special_characters fmt = Some str \<Longrightarrow> length str \<le> length fmt \<and> (str = [] \<longleftrightarrow> fmt = [])"
proof (induction fmt arbitrary: str rule: check_special_characters.induct)
  case (2 c fmt)
  show ?case
  proof (cases "c = 92")
    case True
    then obtain m rest where m: "merge (c # fmt) = Some m" "check_special_characters (tl m) = Some rest" "str = hd m # rest"
      using "2.prems" by (auto split: option.splits)
    then show ?thesis using "2.IH"(1) [OF True m(1,2)] merge_length [OF m(1)] by (cases m) auto
  next
    case False
    then show ?thesis using "2.prems" "2.IH"(2) by auto
  qed
qed simp

text \<open>
  The loop over the format. A character that is no conversion first has the backslashes of the whole rest of
  the format replaced.
\<close>

function printf_loop :: "u8 list \<Rightarrow> u8 list list \<Rightarrow> session \<Rightarrow> (session \<times> u32) option" where
  "printf_loop [] args s = Some (s, 1)"
| "printf_loop (c # fmt) args s =
     (if c = 37
      then case args of
             [] \<Rightarrow> refuse ''Invalid arguments'' s
           | arg # rest \<Rightarrow>
               (if char_at fmt = 115 then printf_loop (tl fmt) rest (put_string STDOUT arg s)
                else if char_at fmt = 100
                then case scan_int arg s of
                       None \<Rightarrow> None
                     | Some (s', Some number) \<Rightarrow>
                         (case print_fd STDOUT (str_bytes ''%d'') [IntArg number] s' of
                            None \<Rightarrow> None | Some s'' \<Rightarrow> printf_loop (tl fmt) rest s'')
                     | Some (s', None) \<Rightarrow>
                         map_option (\<lambda>s''. (s'', - 1))
                           (print_fd STDERR (str_bytes ''%s: invalid number'' @ [10]) [StrArg arg] s')
                else if char_at fmt = 99 then printf_loop (tl fmt) rest (put_char (char_at arg) s)
                else map_option (\<lambda>s'. (s', - 1))
                       (print_fd STDERR (str_bytes ''Unsupported format: '' @ [39, 37, 37, 99, 39]) [IntArg (scast (char_at fmt))] s))
      else case check_special_characters (c # fmt) of
             None \<Rightarrow> None
           | Some str \<Rightarrow> printf_loop (tl str) args (put_char (hd str) s))"
  by pat_completeness auto
termination
proof (relation "measure (\<lambda>(fmt, args, s). length fmt)", goal_cases)
  case (5 c fmt args s str)
  then show ?case using check_length [of "c # fmt" str] by (cases str) auto
qed auto

definition cmd_printf :: "u8 list list \<Rightarrow> session \<Rightarrow> (session \<times> u32) option" where
  "cmd_printf argv s =
     (case argv of
        [] \<Rightarrow> Some (s, 0)
      | [fmt] \<Rightarrow> map_option (\<lambda>str. (put_string STDOUT str s, 1)) (check_special_characters fmt)
      | fmt # args \<Rightarrow> printf_loop fmt args s)"

section \<open>Printing and reading\<close>

lemma sint_of_int_range: "- (2 ^ 31) \<le> n \<Longrightarrow> n < 2 ^ 31 \<Longrightarrow> sint (of_int n :: u32) = n"
  by (simp add: signed_of_int signed_take_bit_int_eq_self)

lemma print_fd_pieces:
  assumes "fd = STDOUT \<or> fd = STDERR" "\<forall>p \<in> set ps. piece_ok p"
    and "fmt = concat (map piece_format ps)" "ap = concat (map piece_args ps)"
  shows "print_fd fd fmt ap s = Some (s\<lparr>s_out := s_out s @ map (Pair fd) (concat (map piece_text ps))\<rparr>)"
  using vfprintf_pieces [OF assms(1,2), of "s_out s" 0] assms(3,4) by (simp add: print_fd_def fprintf_def)

text \<open>A text that is no format is printed as it is.\<close>

lemma print_fd_text:
  assumes "fd = STDOUT \<or> fd = STDERR" "0 \<notin> set l" "37 \<notin> set l"
  shows "print_fd fd l [] s = Some (s\<lparr>s_out := s_out s @ map (Pair fd) l\<rparr>)"
proof -
  have "concat (map piece_format (map Lit l)) = l" "concat (map piece_text (map Lit l)) = l"
    "concat (map piece_args (map Lit l)) = []" by (induction l) simp_all
  moreover have "\<forall>p \<in> set (map Lit l). piece_ok p" using assms(2,3) by auto
  ultimately show ?thesis using print_fd_pieces [OF assms(1), of "map Lit l" l "[]" s] by simp
qed

definition message :: "string \<Rightarrow> session \<Rightarrow> session" where
  "message msg s = s\<lparr>s_out := s_out s @ map (Pair STDERR) (str_bytes msg @ [10])\<rparr>"

lemma refuse_message: "0 \<notin> set (str_bytes msg) \<Longrightarrow> 37 \<notin> set (str_bytes msg) \<Longrightarrow> refuse msg s = Some (message msg s, - 1)"
  by (simp add: refuse_def print_fd_text message_def)

lemma scan_int_number:
  assumes "- (2 ^ 31) < n" "n < 2 ^ 31"
  shows "scan_int (int_text n) s = Some (s, Some (of_int n))"
proof -
  have i: "sint (of_int n :: u32) = n" using assms by (simp add: sint_of_int_range)
  then have "scannable [Dec (of_int n)]" using assms by simp
  from scan_pieces [OF this, of "s_out s" "[37, 100]" "[]" 0] i
  have "sscanf (s_out s) (int_text n) [37, 100] = Some (s_out s, [SInt (of_int n)], 1)"
    by (simp add: sscanf_def vsscanf_def text_of_def format_of_def)
  then show ?thesis by (simp add: scan_int_def)
qed

section \<open>Properties\<close>

text \<open>
  C36: \<open>settime\<close> and \<open>setdate\<close> call the kernel with just the numbers typed, and only when they are a time of day
  or a date of the years 0 to 79; for any other three numbers they print what is wrong, answer -1 and call
  nothing.
\<close>

theorem set_commands_validate:
  assumes "\<forall>x \<in> {a, b, c}. - (2 ^ 31) < x \<and> x < 2 ^ 31"
  shows "cmd_set_time sys [int_text a, int_text b, int_text c] s =
      (if c < 0 \<or> 60 \<le> c then Some (message ''Invalid seconds!'' s, - 1)
       else if b < 0 \<or> 60 \<le> b then Some (message ''Invalid minutes!'' s, - 1)
       else if a < 0 \<or> 24 \<le> a then Some (message ''Invalid hour!'' s, - 1)
       else Some (sys_call sys (Call_set_time (of_int a) (of_int b) (of_int c)) s)) \<and>
    cmd_set_date sys [int_text a, int_text b, int_text c] s =
      (if a \<le> 0 \<or> 31 < a then Some (message ''Invalid day!'' s, - 1)
       else if b \<le> 0 \<or> 12 < b then Some (message ''Invalid month!'' s, - 1)
       else if c < 0 \<or> 80 \<le> c then Some (message ''Invalid year (must be between 0 and 79)'' s, - 1)
       else Some (sys_call sys (Call_set_date (of_int a) (of_int b) (of_int c)) s))"
proof -
  have r: "scan_ints [int_text a, int_text b, int_text c] s = Some (s, Some [of_int a, of_int b, of_int c])"
    using scan_int_number assms by simp
  have i: "sint (of_int x :: u32) = x" if "x \<in> {a, b, c}" for x
    using assms that by (intro sint_of_int_range) auto
  then have cmp: "(of_int x :: u32) <s k \<longleftrightarrow> x < sint k" "k \<le>s of_int x \<longleftrightarrow> sint k \<le> x"
    "(of_int x :: u32) \<le>s k \<longleftrightarrow> x \<le> sint k" "k <s of_int x \<longleftrightarrow> sint k < x" if "x \<in> {a, b, c}" for x k
    using that by (simp_all add: word_sless_alt word_sle_eq)
  have m: "refuse ''Invalid seconds!'' t = Some (message ''Invalid seconds!'' t, - 1)"
    "refuse ''Invalid minutes!'' t = Some (message ''Invalid minutes!'' t, - 1)"
    "refuse ''Invalid hour!'' t = Some (message ''Invalid hour!'' t, - 1)"
    "refuse ''Invalid day!'' t = Some (message ''Invalid day!'' t, - 1)"
    "refuse ''Invalid month!'' t = Some (message ''Invalid month!'' t, - 1)"
    "refuse ''Invalid year (must be between 0 and 79)'' t = Some (message ''Invalid year (must be between 0 and 79)'' t, - 1)" for t
    by (rule refuse_message; simp add: str_bytes_def)+
  show ?thesis by (simp add: cmd_set_time_def cmd_set_date_def r cmp m del: scan_ints.simps)
qed

definition sample_session :: session where
  "sample_session = \<lparr>s_out = [], s_data = [], s_calls = [], s_commands = init_commands (replicate COMMANDS_SIZE None), s_username = [97]\<rparr>"

definition sample_os :: os where
  "sample_os = \<lparr>answer = (\<lambda>c. 1), date_text = [48]\<rparr>"

theorem set_commands_validate_witness:
  "cmd_set_time sample_os [int_text 23, int_text 59, int_text 60] sample_session =
     Some (message ''Invalid seconds!'' sample_session, - 1)"
  using set_commands_validate [of 23 59 60 sample_os sample_session] by simp

text \<open>
  \<open>sleep\<close> with a number of seconds prints it and waits so many thousand milliseconds, as long as the
  product fits an \<open>int\<close>; the next number, 2147484, waits for more than 500 million years.
\<close>

theorem sleep_correct:
  assumes "0 \<le> n" "n < 2 ^ 31"
  shows "\<exists>ms. sleep sys [int_text n] s =
      Some (sys_call sys (Call_wait ms) (s\<lparr>s_out := s_out s @ map (Pair STDOUT) (int_text n @ [10])\<rparr>)) \<and>
    (n \<le> 2147483 \<longrightarrow> unat ms = 1000 * nat n) \<and> (n = 2147484 \<longrightarrow> 2 ^ 63 < unat ms)"
proof -
  let ?ms = "scast (of_int n * 1000 :: u32) :: u64"
  have i: "sint (of_int n :: u32) = n" using assms by (simp add: sint_of_int_range)
  have "print_fd STDOUT (str_bytes ''%d'' @ [10]) [IntArg (of_int n)] s =
      Some (s\<lparr>s_out := s_out s @ map (Pair STDOUT) (int_text n @ [10])\<rparr>)"
    using print_fd_pieces [of STDOUT "[Dec (of_int n), Lit 10]" "str_bytes ''%d'' @ [10]" "[IntArg (of_int n)]" s]
    by (simp add: str_bytes_def i)
  then have "sleep sys [int_text n] s =
      Some (sys_call sys (Call_wait ?ms) (s\<lparr>s_out := s_out s @ map (Pair STDOUT) (int_text n @ [10])\<rparr>))"
    using scan_int_number [of n s] assms i by (simp add: sleep_def word_sless_alt)
  moreover have "unat ?ms = 1000 * nat n" if "n \<le> 2147483"
  proof -
    have "sint (of_int (n * 1000) :: u32) = n * 1000" using assms(1) that by (intro sint_of_int_range) simp_all
    then have "?ms = of_int (n * 1000)" by (simp add: scast_eq)
    also have "\<dots> = of_nat (1000 * nat n)" using assms(1) by simp
    finally have "unat ?ms = unat (of_nat (1000 * nat n) :: u64)" by simp
    also have "\<dots> = 1000 * nat n" using that by (intro unat_of_nat_u64) simp
    finally show ?thesis .
  qed
  moreover have "2 ^ 63 < unat ?ms" if "n = 2147484" unfolding that by simp
  ultimately show ?thesis by blast
qed

theorem sleep_correct_witness:
  "\<exists>ms. sleep sample_os [int_text 2147484] sample_session =
     Some (sys_call sample_os (Call_wait ms)
       (sample_session\<lparr>s_out := map (Pair STDOUT) (int_text 2147484 @ [10])\<rparr>)) \<and> 2 ^ 63 < unat ms"
  using sleep_correct [of 2147484 sample_os sample_session] by (simp add: sample_session_def)

text \<open>What \<open>echo\<close> makes of an argument.\<close>

definition echo_text :: "u8 list \<Rightarrow> u8 list \<Rightarrow> u8 list" where
  "echo_text user arg =
     (if char_at arg = 36 then (if tl arg = str_bytes ''USER'' then user @ [32] else []) else arg @ [32])"

lemma print_word:
  assumes "0 \<notin> set w"
  shows "print_fd STDOUT (str_bytes ''%s '') [StrArg w] s = Some (s\<lparr>s_out := s_out s @ map (Pair STDOUT) (w @ [32])\<rparr>)"
  using print_fd_pieces [of STDOUT "[Strp w, Lit 32]" "str_bytes ''%s ''" "[StrArg w]" s] assms
  by (simp add: str_bytes_def)

text \<open>
  \<open>echo\<close> prints its arguments, each followed by a space, with the user's name for the argument
  \<open>$USER\<close> and nothing for any other argument that starts with a dollar sign, and ends the line.
\<close>

theorem echo_correct:
  assumes "\<forall>a \<in> set argv. 0 \<notin> set a" "0 \<notin> set (s_username s)"
  shows "echo argv s =
    Some (s\<lparr>s_out := s_out s @ map (Pair STDOUT) (concat (map (echo_text (s_username s)) argv) @ [10])\<rparr>, 0)"
proof -
  have "s_username t = s_username s \<Longrightarrow> echo_loop argv t =
      Some (t\<lparr>s_out := s_out t @ map (Pair STDOUT) (concat (map (echo_text (s_username s)) argv))\<rparr>)" for t
    using assms(1)
  proof (induction argv arbitrary: t)
    case (Cons a argv)
    then show ?case using assms(2) by (simp add: echo_text_def print_word)
  qed simp
  then show ?thesis by (simp add: echo_def put_char_def uputchar_def fputc_out)
qed

theorem echo_correct_witness:
  "echo [[104, 105], [36, 85, 83, 69, 82], [36, 120]] sample_session =
     Some (sample_session\<lparr>s_out := map (Pair STDOUT) [104, 105, 32, 97, 32, 10]\<rparr>, 0)"
proof -
  have u: "0 \<notin> set (s_username sample_session)" "s_username sample_session = [97]" "s_out sample_session = []"
    by (simp_all add: sample_session_def)
  have "\<forall>a \<in> set [[104, 105], [36, 85, 83, 69, 82], [36, 120]]. 0 \<notin> set (a :: u8 list)" by simp
  from echo_correct [OF this u(1)] show ?thesis by (simp add: u echo_text_def char_at_def str_bytes_def)
qed

text \<open>What the escapes of the \<open>printf\<close> command mean.\<close>

fun unescape :: "u8 list \<Rightarrow> u8 list" where
  "unescape (c # d # str) =
     (if c = 92 then (if d = 110 then 10 else if d = 116 then 9 else 92) # unescape str else c # unescape (d # str))"
| "unescape str = str"

fun escapes_closed :: "u8 list \<Rightarrow> bool" where
  "escapes_closed (c # d # str) \<longleftrightarrow> (if c = 92 then escapes_closed str else escapes_closed (d # str))"
| "escapes_closed str \<longleftrightarrow> str \<noteq> [92]"

lemma check_unescape: "escapes_closed fmt \<Longrightarrow> check_special_characters fmt = Some (unescape fmt)"
  by (induction fmt rule: escapes_closed.induct) (auto simp: merge_def split: if_splits)

text \<open>
  the \<open>printf\<close> command with one argument prints it with its escapes replaced. With further arguments the
  replacement is repeated at every character: an escaped backslash in front of an n then comes out as a line
  end.
\<close>

theorem printf_escapes:
  assumes "escapes_closed fmt" "0 \<notin> set fmt"
  shows "cmd_printf [fmt] s = Some (s\<lparr>s_out := s_out s @ map (Pair STDOUT) (unescape fmt)\<rparr>, 1) \<and>
    cmd_printf [[97, 92, 92, 110]] s = Some (s\<lparr>s_out := s_out s @ map (Pair STDOUT) [97, 92, 110]\<rparr>, 1) \<and>
    cmd_printf [[97, 92, 92, 110], arg] s = Some (s\<lparr>s_out := s_out s @ map (Pair STDOUT) [97, 10]\<rparr>, 1)"
proof -
  have "0 \<notin> set (unescape fmt)" using assms(2) by (induction fmt rule: unescape.induct) auto
  then have "cmd_printf [fmt] s = Some (s\<lparr>s_out := s_out s @ map (Pair STDOUT) (unescape fmt)\<rparr>, 1)"
    using check_unescape [OF assms(1)] by (simp add: cmd_printf_def put_string_def fputs_out)
  moreover have "cmd_printf [[97, 92, 92, 110]] s = Some (s\<lparr>s_out := s_out s @ map (Pair STDOUT) [97, 92, 110]\<rparr>, 1)"
    by (simp add: cmd_printf_def put_string_def fputc_out merge_def)
  moreover have "cmd_printf [[97, 92, 92, 110], arg] s = Some (s\<lparr>s_out := s_out s @ map (Pair STDOUT) [97, 10]\<rparr>, 1)"
    by (simp add: cmd_printf_def put_char_def uputchar_def fputc_out merge_def)
  ultimately show ?thesis by blast
qed

theorem printf_escapes_witness:
  "cmd_printf [[120, 92, 116, 121]] sample_session =
     Some (sample_session\<lparr>s_out := map (Pair STDOUT) [120, 9, 121]\<rparr>, 1)"
  using printf_escapes [of "[120, 92, 116, 121]" sample_session] by (simp add: sample_session_def)

end
