(* ===== verification/Fractals.thy ===== *)
theory Fractals
  imports Complex_Main "HOL-Library.Log_Nat" "HOL-Library.Signed_Division" Prelude
begin

text \<open>
  The fractals, \<open>shell/fractals.c\<close>. The program is compiled without SSE, for C99, so an expression of type
  \<open>double\<close> is computed with 64 significant bits and rounded to 53 when it is assigned. A finite number of either
  format is a rational number; numbers too large for the formats do not arise, since a loop ends with the
  first number of modulus above 2. What a fractal draws is the list of its calls of \<open>draw\<close>.
\<close>

section \<open>Floating point numbers\<close>

text \<open>The exponent of the leading bit.\<close>

definition exponent :: "rat \<Rightarrow> int" where
  "exponent q =
     (if 1 \<le> \<bar>q\<bar> then int (floorlog 2 (nat \<lfloor>\<bar>q\<bar>\<rfloor>)) - 1
      else - int (floorlog 2 (nat \<lceil>1 / \<bar>q\<bar>\<rceil> - 1)))"

definition nearest_even :: "rat \<Rightarrow> int" where
  "nearest_even q =
     (let f = \<lfloor>q\<rfloor>; d = q - of_int f in
      if d < 1 / 2 then f else if 1 / 2 < d then f + 1 else if even f then f else f + 1)"

definition power_two :: "int \<Rightarrow> rat" where
  "power_two e = (if 0 \<le> e then 2 ^ nat e else 1 / 2 ^ nat (- e))"

text \<open>Rounding to \<open>p\<close> significant bits, none of them below the exponent \<open>emin\<close>.\<close>

definition fround :: "nat \<Rightarrow> int \<Rightarrow> rat \<Rightarrow> rat" where
  "fround p emin q =
     (if q = 0 then 0
      else let u = power_two (max (exponent q - int p + 1) emin) in of_int (nearest_even (q / u)) * u)"

definition dbl :: "rat \<Rightarrow> rat" where
  "dbl = fround 53 (- 1074)"

definition ext :: "rat \<Rightarrow> rat" where
  "ext = fround 64 (- 16445)"

section \<open>The Mandelbrot set\<close>

definition DEFAULT_WIDTH :: nat where
  "DEFAULT_WIDTH = 1024"

definition DEFAULT_HEIGHT :: nat where
  "DEFAULT_HEIGHT = 768"

definition DEFAULT_BPP :: nat where
  "DEFAULT_BPP = 24"

type_synonym colour = "u8 \<times> u8 \<times> u8"

definition MinRe :: rat where
  "MinRe = dbl (- 2)"

definition MaxRe :: rat where
  "MaxRe = dbl 1"

definition MinIm :: rat where
  "MinIm = dbl (- ext (12 / 10))"

definition MaxIm :: rat where
  "MaxIm = dbl (ext (MinIm + ext (ext (ext (MaxRe - MinRe) * of_nat DEFAULT_HEIGHT) / of_nat DEFAULT_WIDTH)))"

definition Re_factor :: rat where
  "Re_factor = dbl (ext (ext (MaxRe - MinRe) / (of_nat DEFAULT_WIDTH - 1)))"

definition Im_factor :: rat where
  "Im_factor = dbl (ext (ext (MaxIm - MinIm) / (of_nat DEFAULT_HEIGHT - 1)))"

definition mandel_point :: "nat \<Rightarrow> nat \<Rightarrow> rat \<times> rat" where
  "mandel_point x y =
     (dbl (ext (MinRe + ext (of_nat x * Re_factor))), dbl (ext (MaxIm - ext (of_nat y * Im_factor))))"

text \<open>The test and the step on \<open>Z_re\<close> and \<open>Z_im\<close>, with the two squares in variables of their own.\<close>

definition mandel_outside :: "rat \<times> rat \<Rightarrow> bool" where
  "mandel_outside z =
     (case z of (Z_re, Z_im) \<Rightarrow>
        let Z_re2 = dbl (ext (Z_re * Z_re)); Z_im2 = dbl (ext (Z_im * Z_im)) in ext (Z_re2 + Z_im2) > 4)"

definition mandel_step :: "rat \<times> rat \<Rightarrow> rat \<times> rat \<Rightarrow> rat \<times> rat" where
  "mandel_step c z =
     (case (c, z) of ((c_re, c_im), Z_re, Z_im) \<Rightarrow>
        let Z_re2 = dbl (ext (Z_re * Z_re)); Z_im2 = dbl (ext (Z_im * Z_im));
            Z_im' = dbl (ext (ext (ext (2 * Z_re) * Z_im) + c_im));
            Z_re' = dbl (ext (ext (Z_re2 - Z_im2) + c_re))
        in (Z_re', Z_im'))"

text \<open>The loop, with the number of passes that are left; the result is whether it was left early, and \<open>n\<close>.\<close>

fun mandel_loop :: "rat \<times> rat \<Rightarrow> nat \<Rightarrow> nat \<Rightarrow> rat \<times> rat \<Rightarrow> bool \<times> nat" where
  "mandel_loop c 0 n z = (True, n)"
| "mandel_loop c (Suc left) n z =
     (if mandel_outside z then (False, n) else mandel_loop c left (n + 1) (mandel_step c z))"

text \<open>The product of an \<open>int\<close> and an \<open>unsigned\<close>, cut to a byte.\<close>

definition fade :: "u8 \<Rightarrow> u32 \<Rightarrow> nat \<Rightarrow> u8" where
  "fade c iter n = ucast (of_int (uint c sdiv sint iter) * of_nat n :: u32)"

definition mandel_colour :: "u32 \<Rightarrow> colour \<Rightarrow> colour \<Rightarrow> nat \<Rightarrow> nat \<Rightarrow> colour" where
  "mandel_colour iter c1 c2 x y =
     (let c = mandel_point x y; (isInside, n) = mandel_loop c (unat iter) 0 c in
      if isInside then c1
      else case c2 of (r2, g2, b2) \<Rightarrow> (fade r2 iter n, fade g2 iter n, fade b2 iter n))"

text \<open>The two loops over the screen that both fractals have.\<close>

definition draws :: "(nat \<Rightarrow> nat \<Rightarrow> colour) \<Rightarrow> (u32 \<times> u32 \<times> colour) list" where
  "draws colour =
     concat (map (\<lambda>y. map (\<lambda>x. (of_nat x, of_nat y, colour x y)) [0..<DEFAULT_WIDTH]) [0..<DEFAULT_HEIGHT])"

definition mandelbrot :: "u32 \<Rightarrow> u8 \<Rightarrow> u8 \<Rightarrow> u8 \<Rightarrow> u8 \<Rightarrow> u8 \<Rightarrow> u8 \<Rightarrow> (u32 \<times> u32 \<times> colour) list" where
  "mandelbrot iter r g b r2 g2 b2 = draws (mandel_colour iter (r, g, b) (r2, g2, b2))"

section \<open>The Julia set\<close>

definition HsvToRgb :: "u8 \<Rightarrow> u8 \<Rightarrow> u8 \<Rightarrow> colour" where
  "HsvToRgb h s v =
     (if s = 0 then (v, v, v)
      else let region = h div 43;
               fpart = ucast ((ucast h - ucast region * 43) * 6 :: u32) :: u8;
               p = ucast (drop_bit 8 (ucast v * (255 - ucast s)) :: u32);
               q = ucast (drop_bit 8 (ucast v * (255 - drop_bit 8 (ucast s * ucast fpart))) :: u32);
               t = ucast (drop_bit 8 (ucast v * (255 - drop_bit 8 (ucast s * (255 - ucast fpart)))) :: u32)
           in if region = 0 then (v, t, p)
              else if region = 1 then (q, v, p)
              else if region = 2 then (p, v, t)
              else if region = 3 then (p, q, v)
              else if region = 4 then (t, p, v)
              else (v, p, q))"

definition maxIterations :: nat where
  "maxIterations = 128"

definition julia_c :: "rat \<times> rat" where
  "julia_c = (dbl (- ext (7 / 10)), dbl (ext (27015 / 100000)))"

text \<open>With \<open>zoom\<close> 1 and both moves 0.\<close>

definition julia_point :: "nat \<Rightarrow> nat \<Rightarrow> rat \<times> rat" where
  "julia_point x y =
     (let zoom = 1; moveX = 0; moveY = 0 in
      (dbl (ext (ext (ext (ext (15 / 10) * (of_nat x - of_nat (DEFAULT_WIDTH div 2))) /
                      ext (ext (1 / 2 * zoom) * of_nat DEFAULT_WIDTH)) + moveX)),
       dbl (ext (ext ((of_nat y - of_nat (DEFAULT_HEIGHT div 2)) /
                      ext (ext (1 / 2 * zoom) * of_nat DEFAULT_HEIGHT)) + moveY))))"

definition julia_step :: "rat \<times> rat \<Rightarrow> rat \<times> rat" where
  "julia_step old =
     (case (julia_c, old) of ((cRe, cIm), oldRe, oldIm) \<Rightarrow>
        (dbl (ext (ext (ext (oldRe * oldRe) - ext (oldIm * oldIm)) + cRe)),
         dbl (ext (ext (ext (2 * oldRe) * oldIm) + cIm))))"

definition julia_outside :: "rat \<times> rat \<Rightarrow> bool" where
  "julia_outside z = (case z of (newRe, newIm) \<Rightarrow> ext (ext (newRe * newRe) + ext (newIm * newIm)) > 4)"

fun julia_loop :: "nat \<Rightarrow> nat \<Rightarrow> rat \<times> rat \<Rightarrow> nat" where
  "julia_loop 0 i z = i"
| "julia_loop (Suc left) i z =
     (let z' = julia_step z in if julia_outside z' then i else julia_loop left (i + 1) z')"

definition julia_colour :: "nat \<Rightarrow> nat \<Rightarrow> colour" where
  "julia_colour x y =
     (let i = julia_loop maxIterations 0 (julia_point x y)
      in HsvToRgb (of_nat (i mod 256)) 255 (of_nat (255 * (if i < maxIterations then 1 else 0))))"

definition juliaSet :: "(u32 \<times> u32 \<times> colour) list" where
  "juliaSet = draws julia_colour"

section \<open>Orbits\<close>

lemma mandel_loop_least:
  "mandel_loop c left n z =
     (if \<exists>k < left. mandel_outside ((mandel_step c ^^ k) z)
      then (False, n + (LEAST k. mandel_outside ((mandel_step c ^^ k) z))) else (True, n + left))"
proof (induction left arbitrary: n z)
  case (Suc left)
  let ?out = "\<lambda>z k. mandel_outside ((mandel_step c ^^ k) z)"
  show ?case
  proof (cases "mandel_outside z")
    case True
    then have "?out z 0" by simp
    then have "(LEAST k. ?out z k) = 0" by (intro Least_eq_0)
    moreover have "\<exists>k < Suc left. ?out z k" using True by (intro exI [of _ 0]) simp
    ultimately show ?thesis using True by simp
  next
    case False
    have ih: "mandel_loop c (Suc left) n z = (if \<exists>k < left. ?out (mandel_step c z) k
        then (False, Suc n + (LEAST k. ?out (mandel_step c z) k)) else (True, Suc n + left))"
      using False Suc.IH [of "n + 1" "mandel_step c z"] by simp
    have s: "?out z (Suc k) = ?out (mandel_step c z) k" for k by (simp only: funpow_Suc_right comp_apply)
    have "(\<exists>k < Suc left. ?out z k) = (\<exists>k < left. ?out (mandel_step c z) k)"
      using False unfolding s [symmetric] by (auto simp: less_Suc_eq_0_disj)
    moreover have "(LEAST k. ?out z k) = Suc (LEAST k. ?out (mandel_step c z) k)" if "?out (mandel_step c z) k" for k
    proof -
      have "?out z (Suc k)" unfolding s using that .
      from Least_Suc [of "?out z", OF this] False show ?thesis unfolding s by simp
    qed
    ultimately show ?thesis unfolding ih by auto
  qed
qed simp

lemma julia_loop_least:
  "julia_loop left i z =
     (if \<exists>k < left. julia_outside ((julia_step ^^ Suc k) z)
      then i + (LEAST k. julia_outside ((julia_step ^^ Suc k) z)) else i + left)"
proof (induction left arbitrary: i z)
  case (Suc left)
  let ?out = "\<lambda>z k. julia_outside ((julia_step ^^ Suc k) z)"
  show ?case
  proof (cases "?out z 0")
    case True
    then have "(LEAST k. ?out z k) = 0" by (intro Least_eq_0)
    moreover have "\<exists>k < Suc left. ?out z k" using True by (intro exI [of _ 0]) simp
    ultimately show ?thesis using True by simp
  next
    case False
    then have ih: "julia_loop (Suc left) i z = (if \<exists>k < left. ?out (julia_step z) k
        then Suc i + (LEAST k. ?out (julia_step z) k) else Suc i + left)"
      using Suc.IH [of "i + 1" "julia_step z"] by (auto simp: Let_def)
    have s: "?out z (Suc k) = ?out (julia_step z) k" for k by (simp only: funpow_Suc_right comp_apply)
    have "(\<exists>k < Suc left. ?out z k) = (\<exists>k < left. ?out (julia_step z) k)"
      using False unfolding s [symmetric] by (auto simp: less_Suc_eq_0_disj)
    moreover have "(LEAST k. ?out z k) = Suc (LEAST k. ?out (julia_step z) k)" if "?out (julia_step z) k" for k
    proof -
      have "?out z (Suc k)" unfolding s using that .
      from Least_Suc [of "?out z", OF this False] show ?thesis unfolding s .
    qed
    ultimately show ?thesis unfolding ih by auto
  qed
qed simp

section \<open>Colours\<close>

lemma unat_u8_le: "unat (x :: u8) \<le> 255"
proof -
  have "unat x < 256" using unsigned_less [of x] by simp
  then show ?thesis by simp
qed

lemma unat_u8_wide: "unat (ucast x :: u32) = unat x" for x :: u8
  using unat_u8_le [of x] by (simp add: unsigned_ucast_eq take_bit_nat_eq_self)

definition scaled :: "u8 \<Rightarrow> u32 \<Rightarrow> u8" where
  "scaled v a = ucast (drop_bit 8 (ucast v * a) :: u32)"

lemma unat_scaled:
  assumes "unat a \<le> 255"
  shows "unat (scaled v a) = unat v * unat a div 256"
proof -
  have "unat v * unat a \<le> 255 * 255" using unat_u8_le assms by (intro mult_mono) simp_all
  then have le: "unat v * unat a \<le> 65025" by simp
  then have m: "unat (ucast v * a :: u32) = unat v * unat a"
    using unat_mult_lem [of "ucast v :: u32" a] by (simp add: unat_u8_wide)
  have "unat v * unat a div 256 < 256" using le by simp
  then show ?thesis
    by (simp add: scaled_def unsigned_ucast_eq drop_bit_eq_div unat_div_distrib m take_bit_nat_eq_self)
qed

lemma unat_minus_255: "unat a \<le> 255 \<Longrightarrow> unat (255 - a) = 255 - unat a" for a :: u32
  by (simp add: unat_minus_no_wrap)

lemma unat_shade:
  "unat (255 - drop_bit 8 (ucast s * (ucast f :: u32))) = 255 - unat s * unat f div 256"
  "unat (255 - drop_bit 8 (ucast s * (255 - ucast f :: u32))) = 255 - unat s * (255 - unat f) div 256" for s f :: u8
proof -
  note b = unat_u8_le and u = unat_u8_wide
  have shade: "unat (255 - drop_bit 8 (ucast s * a)) = 255 - unat s * unat a div 256" if a: "unat a \<le> 255" for a :: u32
  proof -
    have "unat s * unat a \<le> 255 * 255" using b [of s] a by (intro mult_mono) simp_all
    then have le: "unat s * unat a \<le> 65025" by simp
    then have "unat (ucast s * a) = unat s * unat a" using u [of s] unat_mult_lem [of "ucast s :: u32" a] by simp
    then have "unat (drop_bit 8 (ucast s * a)) = unat s * unat a div 256" by (simp add: drop_bit_eq_div unat_div_distrib)
    moreover have "unat s * unat a div 256 \<le> 255" using le by simp
    ultimately show ?thesis by (simp add: unat_minus_255)
  qed
  show "unat (255 - drop_bit 8 (ucast s * (ucast f :: u32))) = 255 - unat s * unat f div 256"
    using shade [of "ucast f"] b [of f] by (simp add: u)
  have "unat (255 - ucast f :: u32) = 255 - unat f" using b [of f] by (simp add: unat_minus_255 u)
  then show "unat (255 - drop_bit 8 (ucast s * (255 - ucast f :: u32))) = 255 - unat s * (255 - unat f) div 256"
    using shade [of "255 - ucast f"] by simp
qed

text \<open>
  the value of a colour is its largest component and the saturation decides the smallest, in every one of
  the six regions of the hue: with saturation 0 the colour is grey, with value 0 it is black, and with
  saturation 255 one component is 0.
\<close>

theorem hsv_extremes:
  "case HsvToRgb h s v of (r, g, b) \<Rightarrow>
     Max {unat r, unat g, unat b} = unat v \<and>
     Min {unat r, unat g, unat b} = (if s = 0 then unat v else unat v * (255 - unat s) div 256)"
proof -
  define f where "f = (ucast ((ucast h - ucast (h div 43) * 43) * 6 :: u32) :: u8)"
  let ?p = "scaled v (255 - ucast s)"
  let ?q = "scaled v (255 - drop_bit 8 (ucast s * ucast f))"
  let ?t = "scaled v (255 - drop_bit 8 (ucast s * (255 - ucast f)))"
  note b = unat_u8_le and u = unat_u8_wide
  have mono: "unat v * i div 256 \<le> unat v * j div 256" if "i \<le> j" for i j
    using that by (intro div_le_mono mult_left_mono) simp_all
  have top: "unat v * i div 256 \<le> unat v" if "i \<le> 255" for i
  proof -
    have "unat v * i div 256 \<le> unat v * 256 div 256" using that by (intro mono) simp
    then show ?thesis by simp
  qed
  have part: "unat s * i div 256 \<le> unat s" if "i \<le> 255" for i
  proof -
    have "unat s * i div 256 \<le> unat s * 256 div 256" using that by (intro div_le_mono mult_left_mono) simp_all
    then show ?thesis by simp
  qed
  have p: "unat ?p = unat v * (255 - unat s) div 256"
    using unat_scaled [of "255 - ucast s" v] b [of s] by (simp add: unat_minus_255 u)
  have q: "unat ?q = unat v * (255 - unat s * unat f div 256) div 256"
    by (subst unat_scaled) (simp_all add: unat_shade)
  have t: "unat ?t = unat v * (255 - unat s * (255 - unat f) div 256) div 256"
    by (subst unat_scaled) (simp_all add: unat_shade)
  have order: "unat ?p \<le> unat ?q" "unat ?p \<le> unat ?t" "unat ?q \<le> unat v" "unat ?t \<le> unat v" "unat ?p \<le> unat v"
    unfolding p q t using part [of "unat f"] part [of "255 - unat f"] b [of f] by (intro mono top; simp)+
  have "HsvToRgb h s v =
      (if s = 0 then (v, v, v) else
       if h div 43 = 0 then (v, ?t, ?p) else if h div 43 = 1 then (?q, v, ?p) else if h div 43 = 2 then (?p, v, ?t)
       else if h div 43 = 3 then (?p, ?q, v) else if h div 43 = 4 then (?t, ?p, v) else (v, ?p, ?q))"
    by (simp add: HsvToRgb_def Let_def scaled_def f_def)
  then show ?thesis using order unfolding p [symmetric] by (simp add: max_def min_def)
qed

end
