(* ===== verification/Fractalcmd.thy ===== *)
theory Fractalcmd
  imports Fractals Commands
begin

text \<open>
  The command \<open>fractal\<close> of \<open>shell/commands.c\<close>. The Mandelbrot pictures are drawn one after the other with the
  parameters that the lines of the data module hold, until a line does not have the format or the module ends.
\<close>

section \<open>Operations\<close>

definition draw_fractal :: "os \<Rightarrow> (u32 \<times> u32 \<times> colour) list \<Rightarrow> session \<Rightarrow> session" where
  "draw_fractal sys = fold (\<lambda>(x, y, r, g, b) s. fst (sys_call sys (Call_draw x y r g b) s))"

definition video_mode :: "os \<Rightarrow> session \<Rightarrow> session" where
  "video_mode sys s =
     fst (sys_call sys (Call_video (of_nat DEFAULT_WIDTH) (of_nat DEFAULT_HEIGHT) (of_nat DEFAULT_BPP)) s)"

lemma draw_fractal_data [simp]: "s_data (draw_fractal sys ds s) = s_data s"
  by (induction ds arbitrary: s) (auto simp: draw_fractal_def sys_call_def)

lemma video_mode_data [simp]: "s_data (video_mode sys s) = s_data s"
  by (simp add: video_mode_def sys_call_def)

definition parameters_format :: "u8 list" where
  "parameters_format = str_bytes ''%s %d %d %d %d %d %d %d''"

text \<open>The name is stored in an array of five characters, with its terminator.\<close>

definition name_overflows :: "stored list \<Rightarrow> bool" where
  "name_overflows st \<longleftrightarrow> (case st of SStr nm # _ \<Rightarrow> 5 \<le> length nm | _ \<Rightarrow> False)"

function fractal_loop :: "os \<Rightarrow> session \<Rightarrow> (session \<times> u32) option" where
  "fractal_loop sys s =
     (case fscanf STDDATA (s_data s) (s_out s) (replicate MAX_SIZE 0) parameters_format of
        None \<Rightarrow> None
      | Some (input, out, st, args) \<Rightarrow>
          let s' = s\<lparr>s_data := input, s_out := out\<rparr> in
          if name_overflows st then None
          else if args \<noteq> 8 then refuse ''Wrong format!'' s'
          else (case st of
                  [SStr nm, SInt iter, SInt r, SInt g, SInt b, SInt r2, SInt g2, SInt b2] \<Rightarrow>
                    fractal_loop sys
                      (draw_fractal sys (mandelbrot iter (ucast r) (ucast g) (ucast b) (ucast r2) (ucast g2) (ucast b2))
                        (video_mode sys s'))
                | _ \<Rightarrow> None))"
  by pat_completeness auto
termination
  by (relation "measure (\<lambda>(sys, s). length (s_data s))") (auto simp: fscanf_def dest!: vfscanf_shorter)

declare fractal_loop.simps [simp del]

definition fractal :: "os \<Rightarrow> u8 list list \<Rightarrow> session \<Rightarrow> (session \<times> u32) option" where
  "fractal sys argv s =
     (if length argv > 1 then Some (refuse_puts ''Too many arguments!'' s)
      else if argv = []
      then map_option (\<lambda>s'. (s', 0))
             (print_lines [str_bytes ''Available fractals: '' @ [10], [9] @ str_bytes ''1- Mandelbrot'' @ [10],
                [9] @ str_bytes ''2- Julia Set'' @ [10]] s)
      else if argv ! 0 = str_bytes ''1'' then fractal_loop sys s
      else if argv ! 0 = str_bytes ''2'' then Some (draw_fractal sys juliaSet (video_mode sys s), 0)
      else map_option (\<lambda>s'. (s', - 1))
             (print_fd STDERR (str_bytes ''Invalid option '' @ [39, 37, 115, 39, 10]) [StrArg (argv ! 0)] s))"

section \<open>A line of parameters\<close>

lemma scan_spaced:
  assumes "skip_spaces buffer = c # cs" "skip_spaces fmt = 37 # o' # fs" "o' \<in> set SUPPORTED_SCANF_FORMATS"
    and "read_arg (c # cs) o' (char_at fs) = (len, v)" "0 < len" "len \<le> length (c # cs)"
  shows "scan_loop out format buffer fmt st read = scan_loop out format (drop len (c # cs)) fs (st @ v) (read + 1)"
proof -
  have "buffer \<noteq> []" "fmt \<noteq> []" using assms(1,2) by (auto simp: skip_spaces_def)
  then show ?thesis using assms by (subst scan_loop.simps) (simp add: Let_def char_at_def)
qed

definition spaced :: "int list \<Rightarrow> u8 list" where
  "spaced ns = concat (map (\<lambda>n. 32 # int_text n) ns)"

definition spaced_format :: "nat \<Rightarrow> u8 list" where
  "spaced_format k = concat (replicate k [32, 37, 100])"

lemma spaced_end: "spaced ns = [] \<or> char_at (spaced ns) = 32"
  by (cases ns) (simp_all add: spaced_def char_at_def)

lemma scan_numbers:
  assumes "\<forall>n \<in> set ns. - (2 ^ 31) < n \<and> n < 2 ^ 31"
  shows "scan_loop out format (spaced ns) (spaced_format (length ns)) st read =
    Some (out, st @ map (SInt \<circ> of_int) ns, int (read + length ns))"
  using assms
proof (induction ns arbitrary: st read)
  case Nil
  show ?case by (subst scan_loop.simps) (simp add: spaced_def spaced_format_def skip_spaces_def)
next
  case (Cons n ns)
  let ?rest = "spaced ns"
  obtain c cs where t: "int_text n = c # cs" "solid c" using int_text_solid by blast
  have "number_ends ?rest"
    using spaced_end [of ns] by (cases ?rest) (auto simp: number_ends_def isdigit_def char_at_def)
  then have "read_dec (int_text n @ ?rest) = (of_int n, length (int_text n))"
    using Cons.prems by (intro read_dec_text) auto
  then have a: "read_arg (c # cs @ ?rest) 100 (char_at (spaced_format (length ns))) = (length (c # cs), [SInt (of_int n)])"
    using t(1) by (simp add: read_arg_def)
  have b: "skip_spaces (spaced (n # ns)) = c # cs @ ?rest"
    using t skip_solid [OF t(2), of "cs @ ?rest"] by (simp add: spaced_def skip_spaces_def isspace_def)
  have f: "skip_spaces (spaced_format (length (n # ns))) = 37 # 100 # spaced_format (length ns)"
    by (simp add: spaced_format_def skip_spaces_def isspace_def)
  have o: "(100 :: u8) \<in> set SUPPORTED_SCANF_FORMATS" by (simp add: SUPPORTED_SCANF_FORMATS_def)
  have "scan_loop out format (spaced (n # ns)) (spaced_format (length (n # ns))) st read =
      scan_loop out format ?rest (spaced_format (length ns)) (st @ [SInt (of_int n)]) (read + 1)"
    using scan_spaced [OF b f o a, of out format st read] by simp
  then show ?case using Cons.IH [of "st @ [SInt (of_int n)]" "read + 1"] Cons.prems by simp
qed

type_synonym parameters = "u8 list \<times> int list"

fun line_of :: "parameters \<Rightarrow> u8 list" where
  "line_of (nm, ns) = nm @ spaced ns"

fun parameters_ok :: "parameters \<Rightarrow> bool" where
  "parameters_ok (nm, ns) \<longleftrightarrow> nm \<noteq> [] \<and> length nm < 5 \<and> (\<forall>c \<in> set nm. solid c \<and> sint c > 0 \<and> c \<noteq> 8) \<and>
     length ns = 7 \<and> (\<forall>n \<in> set ns. - (2 ^ 31) < n \<and> n < 2 ^ 31) \<and> length (line_of (nm, ns)) < MAX_SIZE"

lemma parameters_format_parts: "parameters_format = [37, 115] @ spaced_format 7"
  by (simp add: parameters_format_def spaced_format_def str_bytes_def numeral_eq_Suc)

lemma scan_parameters:
  assumes "parameters_ok (nm, ns)"
  shows "vsscanf out (line_of (nm, ns)) parameters_format = Some (out, SStr nm # map (SInt \<circ> of_int) ns, 8)"
proof -
  have nm: "\<forall>c \<in> set nm. solid c" and ns: "length ns = 7" "\<forall>n \<in> set ns. - (2 ^ 31) < n \<and> n < 2 ^ 31"
    using assms by simp_all
  obtain c cs where c: "nm = c # cs" "solid c" using assms by (cases nm) auto
  have next32: "char_at (spaced_format 7) = 32" by (simp add: spaced_format_def char_at_def numeral_eq_Suc)
  have "32 \<notin> set nm" using nm by (auto simp: solid_def isspace_def)
  then have "read_str (nm @ spaced ns) 32 = nm"
    using nm spaced_end [of ns] by (intro read_str_solid) auto
  then have a: "read_arg (c # cs @ spaced ns) 115 (char_at (spaced_format 7)) = (length nm, [SStr nm])"
    unfolding next32 using c(1) by (simp add: read_arg_def Let_def)
  have b: "skip_spaces (line_of (nm, ns)) = c # cs @ spaced ns" using c skip_solid [OF c(2)] by simp
  have f: "skip_spaces parameters_format = 37 # 115 # spaced_format 7"
    unfolding parameters_format_parts using skip_solid [OF percent_solid] by simp
  have o: "(115 :: u8) \<in> set SUPPORTED_SCANF_FORMATS" by (simp add: SUPPORTED_SCANF_FORMATS_def)
  have "vsscanf out (line_of (nm, ns)) parameters_format =
      scan_loop out parameters_format (spaced ns) (spaced_format 7) [SStr nm] 1"
    using scan_spaced [OF b f o a, of out parameters_format "[]" 0] c(1) by (simp add: vsscanf_def)
  then show ?thesis using scan_numbers [OF ns(2), of out parameters_format "[SStr nm]" 1] ns(1) by simp
qed

lemma line_chars:
  assumes "parameters_ok p" "c \<in> set (line_of p)"
  shows "sint c > 0 \<and> c \<noteq> 8 \<and> c \<noteq> 10 \<and> c \<noteq> EOF"
proof -
  obtain nm ns where p: "p = (nm, ns)" by (cases p)
  then consider "c \<in> set nm" | "c \<in> set (spaced ns)" using assms(2) by auto
  then show ?thesis
  proof cases
    case 1
    then show ?thesis using assms(1) p by (auto simp: solid_def isspace_def)
  next
    case 2
    then obtain n where "c = 32 \<or> c \<in> set (int_text n)" by (auto simp: spaced_def split: if_splits)
    then have "c = 32 \<or> 45 \<le> sint c" using int_text_chars by blast
    then show ?thesis by (auto simp: EOF_def)
  qed
qed

lemma read_parameters:
  assumes "parameters_ok (nm, ns)"
  shows "fscanf STDDATA (line_of (nm, ns) @ 10 # input) out (replicate MAX_SIZE 0) parameters_format =
    Some (input, out, SStr nm # map (SInt \<circ> of_int) ns, 8)"
proof -
  let ?l = "line_of (nm, ns)"
  have plain: "\<forall>c \<in> set ?l. c \<noteq> EOF \<and> c \<noteq> 10" using line_chars [OF assms] by blast
  have e: "edit [] (take k ?l) = take k ?l" for k
    using edit_plain [of "take k ?l" "[]"] line_chars [OF assms] by (auto dest: in_set_takeD)
  have len: "length ?l < MAX_SIZE" using assms by simp
  have "\<forall>k \<le> length ?l. length (edit [] (take k ?l)) < MAX_SIZE"
    unfolding e by (intro allI impI le_less_trans [OF _ len]) (simp only: length_take)
  from fgets_correct [OF plain _ this, of "replicate MAX_SIZE 0" STDDATA input out]
  obtain str' where "fgets STDDATA (?l @ 10 # input) out (replicate MAX_SIZE 0) MAX_SIZE = Some (input, out, str', True)"
    "cstring str' = ?l" using e [of "length ?l"] by (auto simp: descriptors)
  then show ?thesis
    using scan_parameters [OF assms, of out] by (simp add: fscanf_def vfscanf_def del: line_of.simps)
qed

lemma read_end:
  "fscanf STDDATA (EOF # input) out (replicate MAX_SIZE 0) fmt = Some (input, out, [], - 1)"
  by (simp add: fscanf_def vfscanf_def fgets_def descriptors MAX_SIZE_def)

section \<open>All lines\<close>

fun picture_calls :: "parameters \<Rightarrow> call list" where
  "picture_calls (nm, ns) =
     (case map of_int ns :: u32 list of
        [iter, r, g, b, r2, g2, b2] \<Rightarrow>
          Call_video 1024 768 24 # map (\<lambda>(x, y, r, g, b). Call_draw x y r g b)
            (mandelbrot iter (ucast r) (ucast g) (ucast b) (ucast r2) (ucast g2) (ucast b2))
      | _ \<Rightarrow> [])"

lemma draw_fractal_calls:
  "draw_fractal sys ds s =
     s\<lparr>s_calls := s_calls s @ map (Pair (length (s_out s))) (map (\<lambda>(x, y, r, g, b). Call_draw x y r g b) ds)\<rparr>"
  by (induction ds arbitrary: s) (auto simp: draw_fractal_def sys_call_def)

lemma fractal_loop_step:
  assumes "parameters_ok p" "s_data s = line_of p @ 10 # input"
  shows "fractal_loop sys s = fractal_loop sys
    (s\<lparr>s_data := input, s_calls := s_calls s @ map (Pair (length (s_out s))) (picture_calls p)\<rparr>)"
proof -
  obtain nm ns where p: "p = (nm, ns)" by (cases p)
  have len: "length ns = 7" "length nm < 5" using assms(1) p by simp_all
  then obtain iter r g b r2 g2 b2 where "ns = [iter, r, g, b, r2, g2, b2]" by (auto simp: length_Suc_conv numeral_eq_Suc)
  then show ?thesis
    using read_parameters [of nm ns input "s_out s"] assms len(2) p
    by (subst fractal_loop.simps)
      (simp add: name_overflows_def draw_fractal_calls video_mode_def sys_call_def DEFAULT_WIDTH_def DEFAULT_HEIGHT_def
        DEFAULT_BPP_def Let_def del: line_of.simps parameters_ok.simps)
qed

text \<open>
  C18: \<open>fractal 1\<close> on a data module that holds lines of parameters: every line is one picture, drawn with just its
  numbers and in their order, and the name is not used; the command ends with the end of the data, which it
  reports as a wrong format.
\<close>

theorem fractal_pictures:
  assumes "s_data s = concat (map (\<lambda>p. line_of p @ [10]) ps) @ EOF # rest" "\<forall>p \<in> set ps. parameters_ok p"
  shows "fractal sys [str_bytes ''1''] s = Some (message ''Wrong format!''
    (s\<lparr>s_data := rest, s_calls := s_calls s @ map (Pair (length (s_out s))) (concat (map picture_calls ps))\<rparr>), - 1)"
proof -
  have "fractal_loop sys s = Some (message ''Wrong format!''
    (s\<lparr>s_data := rest, s_calls := s_calls s @ map (Pair (length (s_out s))) (concat (map picture_calls ps))\<rparr>), - 1)"
    using assms
  proof (induction ps arbitrary: s)
    case Nil
    then show ?case
      by (subst fractal_loop.simps) (simp add: read_end name_overflows_def Let_def refuse_message str_bytes_def)
  next
    case (Cons p ps)
    let ?s = "s\<lparr>s_data := concat (map (\<lambda>p. line_of p @ [10]) ps) @ EOF # rest,
      s_calls := s_calls s @ map (Pair (length (s_out s))) (picture_calls p)\<rparr>"
    have "fractal_loop sys s = fractal_loop sys ?s"
      using Cons.prems by (intro fractal_loop_step) (auto simp del: line_of.simps)
    then show ?case using Cons.IH [of ?s] Cons.prems(2) by simp
  qed
  then show ?thesis by (simp add: fractal_def str_bytes_def)
qed

text \<open>The first line of the repository's data module.\<close>

theorem fractal_pictures_witness:
  "\<exists>s'. fractal sample_os [str_bytes ''1''] (sample_session\<lparr>s_data := str_bytes ''FR2 30 0 0 0 255 0 0'' @ [10, EOF]\<rparr>) = Some (s', - 1) \<and>
     map snd (s_calls s') = Call_video 1024 768 24 # map (\<lambda>(x, y, r, g, b). Call_draw x y r g b) (mandelbrot 30 0 0 0 255 0 0)"
proof -
  let ?p = "(str_bytes ''FR2'', [30, 0, 0, 0, 255, 0, 0])"
  have t: "int_text 30 = str_bytes ''30''" "int_text 0 = str_bytes ''0''" "int_text 255 = str_bytes ''255''" by code_simp+
  have l: "line_of ?p = str_bytes ''FR2 30 0 0 0 255 0 0''" by (simp add: spaced_def t) code_simp
  have o: "parameters_ok ?p" using l by (simp add: str_bytes_def solid_def EOF_def isspace_def MAX_SIZE_def)
  show ?thesis
    using fractal_pictures [of "sample_session\<lparr>s_data := str_bytes ''FR2 30 0 0 0 255 0 0'' @ [10, EOF]\<rparr>" "[?p]" "[]" sample_os] l o
    by (simp add: sample_session_def message_def comp_def del: line_of.simps parameters_ok.simps)
qed

end
