(* ===== verification/Painting.thy ===== *)
theory Painting
  imports Usercalls Fractals
begin

text \<open>
  The fractals on the machine: the calls of \<open>video\<close> and \<open>draw\<close> they make, and the picture these leave in the
  frame buffer of the graphics adapter.
\<close>

section \<open>Drawing\<close>

fun draw_all :: "(u32 \<times> u32 \<times> colour) list \<Rightarrow> event list \<Rightarrow> machine \<Rightarrow> (machine \<times> event list) option" where
  "draw_all [] env s = Some (s, env)"
| "draw_all ((x, y, r, g, b) # ds) env s =
     (case user_draw x y r g b env s of None \<Rightarrow> None | Some (s', out, env') \<Rightarrow> draw_all ds env' s')"

definition show_fractal :: "(u32 \<times> u32 \<times> colour) list \<Rightarrow> event list \<Rightarrow> machine \<Rightarrow> (machine \<times> event list) option" where
  "show_fractal ds env s =
     (case user_video (of_nat DEFAULT_WIDTH) (of_nat DEFAULT_HEIGHT) (of_nat DEFAULT_BPP) env s of
        None \<Rightarrow> None | Some (s', out, env') \<Rightarrow> draw_all ds env' s')"

section \<open>The frame buffer\<close>

abbreviation frame :: "machine \<Rightarrow> ptr" where
  "frame s \<equiv> load64 (ram s) addressAddress"

definition FRAME_SIZE :: nat where
  "FRAME_SIZE = 2359296"

definition channel :: "nat \<Rightarrow> colour \<Rightarrow> u8" where
  "channel k c = (case c of (r, g, b) \<Rightarrow> if k = 0 then b else if k = 1 then g else r)"

text \<open>The bytes of memory that hold the address of the frame buffer lie outside it.\<close>

definition frame_apart :: "machine \<Rightarrow> bool" where
  "frame_apart s \<longleftrightarrow> (\<forall>k < 8. addressAddress + of_nat k \<notin> region (frame s) FRAME_SIZE)"

definition graphics :: "machine \<Rightarrow> bool" where
  "graphics s \<longleftrightarrow> machine_inv s \<and> width (m_bga s) = 1024 \<and> height (m_bga s) = 768 \<and> frame_apart s"

lemma load64_cong: "\<forall>k < 8. m (a + of_nat k) = m' (a + of_nat k) \<Longrightarrow> load64 m a = load64 m' a"
  by (simp add: load64_def load32_def numeral_eq_Suc All_less_Suc add.assoc)

lemma outside_frame:
  assumes "frame_apart s" "\<forall>j < 2 ^ 64. FRAME_SIZE \<le> j \<longrightarrow> m (frame s + of_nat j) = ram s (frame s + of_nat j)"
  shows "load64 m addressAddress = frame s"
proof (rule load64_cong, intro allI impI)
  fix k :: nat assume "k < 8"
  then have "addressAddress + of_nat k \<notin> region (frame s) FRAME_SIZE" using assms(1) by (simp add: frame_apart_def)
  then have "FRAME_SIZE \<le> unat (addressAddress + of_nat k - frame s)" by (simp add: in_region_iff FRAME_SIZE_def)
  then show "m (addressAddress + of_nat k) = ram s (addressAddress + of_nat k)"
    using assms(2) [rule_format, of "unat (addressAddress + of_nat k - frame s)"]
      unat_u64_less [of "addressAddress + of_nat k - frame s"] by simp
qed

lemma draw_in_mode:
  assumes "width d = 1024" "height d = 768" "i < 1024 * 768"
  shows "\<exists>d'. BgaDrawPixel d (of_nat (i mod 1024)) (of_nat (i div 1024)) r g b = (d', True) \<and>
    width d' = 1024 \<and> height d' = 768 \<and>
    (\<forall>j < 2 ^ 64. gmem d' (linearBuffer d + of_nat j) =
      (if j div 3 = i then channel (j mod 3) (r, g, b) else gmem d (linearBuffer d + of_nat j)))"
proof -
  have m: "mode_ok d" using assms(1,2) by (simp add: mode_ok_def)
  have xy: "unat (of_nat (i mod 1024) :: u32) = i mod 1024" "unat (of_nat (i div 1024) :: u32) = i div 1024"
    using assms(3) by (simp_all add: unat_of_nat)
  have "unat (of_nat (i div 1024) :: u32) < unat (height d)" using assms by (simp add: xy)
  moreover have "unat (of_nat (i mod 1024) :: u32) < unat (width d)" using assms(1) by (simp add: xy)
  ultimately have "\<exists>d'. BgaDrawPixel d (of_nat (i mod 1024)) (of_nat (i div 1024)) r g b = (d', True) \<and>
    (\<forall>j < 2 ^ 64. gmem d' (linearBuffer d + of_nat j) =
       (let p = 3 * (unat (of_nat (i div 1024) :: u32) * unat (width d) + unat (of_nat (i mod 1024) :: u32)) in
        if j = p then b else if j = p + 1 then g else if j = p + 2 then r else gmem d (linearBuffer d + of_nat j)))"
    by (intro draw_pixel_correct [OF m])
  then obtain d' where
    d': "BgaDrawPixel d (of_nat (i mod 1024)) (of_nat (i div 1024)) r g b = (d', True)"
    "\<forall>j < 2 ^ 64. gmem d' (linearBuffer d + of_nat j) =
      (let p = 3 * i in
       if j = p then b else if j = p + 1 then g else if j = p + 2 then r else gmem d (linearBuffer d + of_nat j))"
    unfolding xy assms(1) by auto
  have "gmem d' (linearBuffer d + of_nat j) =
      (if j div 3 = i then channel (j mod 3) (r, g, b) else gmem d (linearBuffer d + of_nat j))" if j: "j < 2 ^ 64" for j
  proof -
    have "j = 3 * i \<longleftrightarrow> j div 3 = i \<and> j mod 3 = 0" "j = 3 * i + 1 \<longleftrightarrow> j div 3 = i \<and> j mod 3 = 1"
      "j = 3 * i + 2 \<longleftrightarrow> j div 3 = i \<and> j mod 3 = 2" "j mod 3 < 3" by presburger+
    then show ?thesis using d'(2) [rule_format, OF j] by (auto simp: channel_def Let_def)
  qed
  moreover have "width d' = 1024" "height d' = 768"
    using d'(1) assms(1,2) by (auto simp: BgaDrawPixel_def Let_def split: if_splits)
  ultimately show ?thesis using d'(1) by blast
qed

lemma draw_one:
  assumes "graphics s" "i < 1024 * 768"
  shows "\<exists>s'. user_draw (of_nat (i mod 1024)) (of_nat (i div 1024)) r g b env s = Some (s', Returned 1, env) \<and>
    graphics s' \<and> frame s' = frame s \<and>
    (\<forall>j < 2 ^ 64. ram s' (frame s + of_nat j) =
      (if j div 3 = i then channel (j mod 3) (r, g, b) else ram s (frame s + of_nat j)))"
proof -
  let ?d = "(m_bga s)\<lparr>gmem := ram s\<rparr>"
  have "width ?d = 1024" "height ?d = 768" "gmem ?d = ram s" using assms(1) by (simp_all add: graphics_def)
  with draw_in_mode [of ?d i r g b] assms(2) obtain d where
    d: "BgaDrawPixel ?d (of_nat (i mod 1024)) (of_nat (i div 1024)) r g b = (d, True)" "width d = 1024" "height d = 768"
    and byte: "\<forall>j < 2 ^ 64. gmem d (frame s + of_nat j) =
      (if j div 3 = i then channel (j mod 3) (r, g, b) else ram s (frame s + of_nat j))" by metis
  let ?s = "set_ram (s\<lparr>m_bga := d\<rparr>) (gmem d)"
  have call: "user_draw (of_nat (i mod 1024)) (of_nat (i div 1024)) r g b env s = Some (?s, Returned 1, env)"
    using draw_packs_colour [of s "of_nat (i mod 1024)" "of_nat (i div 1024)" r g b env] assms(1) d(1)
    by (simp add: graphics_def with_bga_def)
  have far: "j div 3 \<noteq> i" if "FRAME_SIZE \<le> j" for j using that assms(2) by (simp add: FRAME_SIZE_def)
  have "load64 (gmem d) addressAddress = frame s"
    using outside_frame [of s "gmem d"] assms(1) byte far by (simp add: graphics_def)
  moreover from this have "frame_apart ?s" using assms(1) by (simp add: graphics_def frame_apart_def)
  ultimately have "graphics ?s" using assms(1) d(2,3) inv_set_ram [of "s\<lparr>m_bga := d\<rparr>"] by (simp add: graphics_def set_ram_def)
  then show ?thesis using call byte \<open>load64 (gmem d) addressAddress = frame s\<close> by (intro exI [of _ ?s]) simp
qed

lemma hsv_range:
  "HsvToRgb h s v = (r, g, b) \<Longrightarrow> Max {unat r, unat g, unat b} = unat v \<and>
     Min {unat r, unat g, unat b} = (if s = 0 then unat v else unat v * (255 - unat s) div 256)"
  using hsv_extremes [where h = h and s = s and v = v] by simp

section \<open>A picture\<close>

lemma concat_rows:
  assumes "0 < w"
  shows "concat (map (\<lambda>y. map (\<lambda>x. f x y) [0..<w]) [0..<h]) = map (\<lambda>i. f (i mod w) (i div w)) [0..<h * w]"
proof (induction h)
  case (Suc h)
  have "[0..<Suc h * w] = [0..<h * w] @ map (\<lambda>x. h * w + x) [0..<w]"
    using upt_add_eq_append [of 0 "h * w" w] by (simp add: add.commute map_add_upt)
  moreover have "map (\<lambda>i. f (i mod w) (i div w)) (map (\<lambda>x. h * w + x) [0..<w]) = map (\<lambda>x. f x h) [0..<w]"
    using assms by simp
  ultimately show ?case using Suc by simp
qed simp

lemma draws_pixels:
  "draws colour = map (\<lambda>i. (of_nat (i mod 1024), of_nat (i div 1024), colour (i mod 1024) (i div 1024))) [0..<1024 * 768]"
proof -
  have "draws colour = map (\<lambda>i. (of_nat (i mod 1024), of_nat (i div 1024), colour (i mod 1024) (i div 1024))) [0..<768 * 1024]"
    unfolding draws_def DEFAULT_WIDTH_def DEFAULT_HEIGHT_def by (rule concat_rows) simp
  then show ?thesis by (simp only: mult.commute)
qed

lemma draw_all_append:
  "draw_all (xs @ ys) env s = (case draw_all xs env s of None \<Rightarrow> None | Some (s', env') \<Rightarrow> draw_all ys env' s')"
  by (induction xs env s rule: draw_all.induct) (auto split: option.splits prod.splits)

lemma draw_first:
  assumes "graphics s" "n \<le> 1024 * 768"
  shows "\<exists>s'. draw_all (map (\<lambda>i. (of_nat (i mod 1024), of_nat (i div 1024), c i)) [0..<n]) env s = Some (s', env) \<and>
    graphics s' \<and> frame s' = frame s \<and>
    (\<forall>j < 2 ^ 64. ram s' (frame s + of_nat j) =
      (if j div 3 < n then channel (j mod 3) (c (j div 3)) else ram s (frame s + of_nat j)))"
  using assms(2)
proof (induction n)
  case 0
  show ?case using assms(1) by simp
next
  case (Suc n)
  then obtain s1 where s1: "draw_all (map (\<lambda>i. (of_nat (i mod 1024), of_nat (i div 1024), c i)) [0..<n]) env s = Some (s1, env)"
    "graphics s1" "frame s1 = frame s" "\<forall>j < 2 ^ 64. ram s1 (frame s + of_nat j) =
      (if j div 3 < n then channel (j mod 3) (c (j div 3)) else ram s (frame s + of_nat j))" by auto
  obtain r g b where c: "c n = (r, g, b)" by (cases "c n")
  have "n < 1024 * 768" using Suc.prems by simp
  from draw_one [OF s1(2) this, of r g b env] obtain s2 where
    s2: "user_draw (of_nat (n mod 1024)) (of_nat (n div 1024)) r g b env s1 = Some (s2, Returned 1, env)"
    "graphics s2" "frame s2 = frame s" "\<forall>j < 2 ^ 64. ram s2 (frame s + of_nat j) =
      (if j div 3 = n then channel (j mod 3) (c n) else ram s1 (frame s + of_nat j))"
    unfolding s1(3) c by blast
  have "draw_all (map (\<lambda>i. (of_nat (i mod 1024), of_nat (i div 1024), c i)) [0..<Suc n]) env s = Some (s2, env)"
    using s1(1) s2(1) c by (simp add: draw_all_append)
  moreover have "\<forall>j < 2 ^ 64. ram s2 (frame s + of_nat j) =
      (if j div 3 < Suc n then channel (j mod 3) (c (j div 3)) else ram s (frame s + of_nat j))"
    using s1(4) s2(4) by (simp add: less_Suc_eq)
  ultimately show ?case using s2(2,3) by blast
qed

lemma draws_picture:
  assumes "graphics s"
  shows "\<exists>s'. draw_all (draws colour) env s = Some (s', env) \<and> graphics s' \<and> frame s' = frame s \<and>
    (\<forall>j < 2 ^ 64. ram s' (frame s + of_nat j) =
      (if j < FRAME_SIZE then channel (j mod 3) (colour (j div 3 mod 1024) (j div 3 div 1024))
       else ram s (frame s + of_nat j)))"
proof -
  have "j div 3 < 1024 * 768 \<longleftrightarrow> j < FRAME_SIZE" for j unfolding FRAME_SIZE_def by auto
  then show ?thesis
    using draw_first [OF assms order_refl, of "\<lambda>i. colour (i mod 1024) (i div 1024)" env] unfolding draws_pixels by simp
qed

section \<open>Graphics mode\<close>

text \<open>A machine that shows text, or one that is in the mode of the fractals already.\<close>

definition can_show :: "machine \<Rightarrow> bool" where
  "can_show s \<longleftrightarrow> machine_inv s \<and> frame_apart s \<and>
     (video_mode_enabled s \<longrightarrow> width (m_bga s) = 1024 \<and> height (m_bga s) = 768)"

lemma mode_set:
  assumes "frame_apart s"
  defines "d \<equiv> BgaFillScreen (BgaSetVideoMode ((m_bga s)\<lparr>gmem := ram s\<rparr>) 1024 768 24 True True) 0 0 0"
  shows "load64 (gmem d) addressAddress = frame s \<and> width d = 1024 \<and> height d = 768"
proof -
  let ?d = "BgaSetVideoMode ((m_bga s)\<lparr>gmem := ram s\<rparr>) 1024 768 24 True True"
  have m: "width ?d = 1024" "height ?d = 768" "gmem ?d = ram s"
    by (simp_all add: BgaSetVideoMode_def BgaWriteRegister_def Let_def)
  then have "mode_ok ?d" "frame_bytes ?d = FRAME_SIZE" by (simp_all add: mode_ok_def frame_bytes_def FRAME_SIZE_def)
  then have "\<forall>j < 2 ^ 64. FRAME_SIZE \<le> j \<longrightarrow> gmem d (frame s + of_nat j) = ram s (frame s + of_nat j)"
    using fill_screen_correct [of ?d _ 0 0 0] m by (auto simp: d_def FRAME_SIZE_def)
  from outside_frame [OF assms(1) this] show ?thesis using m by (simp add: d_def BgaFillScreen_def)
qed

lemma video_call:
  assumes "can_show s"
  shows "\<exists>s'. user_video 1024 768 24 env s = Some (s', Returned 0, env) \<and> graphics s' \<and> frame s' = frame s \<and>
    video_mode_enabled s'"
proof -
  have inv: "machine_inv s" and apart: "frame_apart s" using assms by (simp_all add: can_show_def)
  have call: "user_video 1024 768 24 env s = map_option (\<lambda>(s', r). (s', Returned (ucast r), env)) (sys_video s 1024 768 24)"
    using int80_handler [OF inv, of SYS_VIDEO Sys_video] boot_table
    by (simp add: user_video_def as_int_def call_numbers option.map_comp comp_def split_def)
  show ?thesis
  proof (cases "video_mode_enabled s")
    case True
    then show ?thesis using assms call by (simp add: sys_video_def graphics_def can_show_def)
  next
    case False
    have "8 \<notin> set (str_bytes ''Starting video mode...'')" by (simp add: str_bytes_def)
    moreover have "video_inv (m_video s)" using inv by (simp add: machine_inv_def)
    ultimately obtain v where v: "puts (m_video s) (str_bytes ''Starting video mode...'') LIGHT_GREY = Some v"
      "video_inv v" "same_outside (m_video s) v" using puts_spec by blast
    let ?s = "s\<lparr>m_video := v\<rparr>"
    have "addressAddress + of_nat k \<notin> region 0xB8000 SCREENSIZE" if "k < 8" for k :: nat
    proof -
      have "k \<in> {0, 1, 2, 3, 4, 5, 6, 7}" using that by auto
      then show ?thesis by (auto simp: in_region_iff screen_layout addressAddress_def)
    qed
    then have "load64 (vmem v) addressAddress = frame s"
      using same_outside_memory [OF v(3)] by (intro load64_cong) simp
    then have f: "frame_apart ?s" "frame ?s = frame s" using apart by (simp_all add: frame_apart_def)
    define d where "d = BgaFillScreen (BgaSetVideoMode ((m_bga ?s)\<lparr>gmem := ram ?s\<rparr>) 1024 768 24 True True) 0 0 0"
    let ?s' = "(set_ram (?s\<lparr>m_bga := d\<rparr>) (gmem d))\<lparr>video_mode_enabled := True\<rparr>"
    have d: "load64 (gmem d) addressAddress = frame s" "width d = 1024" "height d = 768"
      using mode_set [OF f(1)] f(2) unfolding d_def by simp_all
    have "sys_video s 1024 768 24 = Some (?s', 0)"
      using False v(1) by (simp add: sys_video_def with_bga_def d_def)
    moreover have "machine_inv ?s'" using inv_set_ram inv_video [OF inv v(2)] by simp
    ultimately show ?thesis
      using call d apart by (simp add: graphics_def frame_apart_def set_ram_def)
  qed
qed

lemma show_picture:
  assumes "can_show s"
  shows "\<exists>s'. show_fractal (draws colour) env s = Some (s', env) \<and> can_show s' \<and>
    (\<forall>x < 1024. \<forall>y < 768. \<forall>k < 3. ram s' (frame s + of_nat (3 * (y * 1024 + x) + k)) = channel k (colour x y))"
proof -
  from video_call [OF assms, of env] obtain s1 where s1: "user_video 1024 768 24 env s = Some (s1, Returned 0, env)"
    "graphics s1" "frame s1 = frame s" by blast
  from draws_picture [OF s1(2), of colour env] obtain s' where
    s': "draw_all (draws colour) env s1 = Some (s', env)" "graphics s'" "\<forall>j < 2 ^ 64. ram s' (frame s + of_nat j) =
      (if j < FRAME_SIZE then channel (j mod 3) (colour (j div 3 mod 1024) (j div 3 div 1024))
       else ram s1 (frame s + of_nat j))" unfolding s1(3) by blast
  have "ram s' (frame s + of_nat (3 * (y * 1024 + x) + k)) = channel k (colour x y)"
    if b: "x < 1024" "y < 768" "k < 3" for x y k
  proof -
    define j where "j = 3 * (y * 1024 + x) + k"
    have "j < FRAME_SIZE" "j < 2 ^ 64" using b by (simp_all add: j_def FRAME_SIZE_def)
    moreover have "(3 * m + k) mod 3 = k" "(3 * m + k) div 3 = m" for m using b(3) by presburger+
    then have "j mod 3 = k" "j div 3 = y * 1024 + x" unfolding j_def by blast+
    moreover have "(y * 1024 + x) mod 1024 = x" "(y * 1024 + x) div 1024 = y" using b by simp_all
    ultimately show ?thesis using s'(3) unfolding j_def [symmetric] by simp
  qed
  moreover have "can_show s'" using s'(2) by (simp add: can_show_def graphics_def)
  ultimately show ?thesis
    using s1(1) s'(1) by (simp add: show_fractal_def DEFAULT_WIDTH_def DEFAULT_HEIGHT_def DEFAULT_BPP_def)
qed

section \<open>Properties\<close>

text \<open>
  C17: the Mandelbrot command leaves on the screen the picture of the set: every pixel whose point does not leave
  the circle of radius 2 within \<open>iter\<close> steps has the first colour, every other one the second colour scaled by
  the number of steps its point takes, in integer arithmetic and cut to a byte.
\<close>

theorem mandelbrot_picture:
  assumes "can_show s"
  shows "\<exists>s'. show_fractal (mandelbrot iter r g b r2 g2 b2) env s = Some (s', env) \<and> can_show s' \<and>
    (\<forall>x < 1024. \<forall>y < 768. \<forall>k < 3. ram s' (frame s + of_nat (3 * (y * 1024 + x) + k)) =
      (let c = mandel_point x y; out = (\<lambda>n. mandel_outside ((mandel_step c ^^ n) c)) in
       if \<exists>n < unat iter. out n then fade (channel k (r2, g2, b2)) iter (LEAST n. out n) else channel k (r, g, b)))"
proof -
  have c: "channel k (mandel_colour iter (r, g, b) (r2, g2, b2) x y) =
      (let c = mandel_point x y; out = (\<lambda>n. mandel_outside ((mandel_step c ^^ n) c)) in
       if \<exists>n < unat iter. out n then fade (channel k (r2, g2, b2)) iter (LEAST n. out n) else channel k (r, g, b))" for k x y
    by (auto simp: mandel_colour_def mandel_loop_least Let_def channel_def)
  show ?thesis unfolding mandelbrot_def c [symmetric] by (rule show_picture [OF assms])
qed

text \<open>
  the Julia command leaves a picture in which a pixel is black exactly when its point stays within the
  circle of radius 2 for all 128 steps; every other pixel has a fully saturated colour of full value, whose
  largest component is 255 and whose smallest is 0.
\<close>

theorem julia_picture:
  assumes "can_show s"
  shows "\<exists>s'. show_fractal juliaSet env s = Some (s', env) \<and> can_show s' \<and>
    (\<forall>x < 1024. \<forall>y < 768.
      (let p = frame s + of_nat (3 * (y * 1024 + x)); c = {unat (ram s' p), unat (ram s' (p + 1)), unat (ram s' (p + 2))} in
       Max c = (if \<exists>n < 128. julia_outside ((julia_step ^^ Suc n) (julia_point x y)) then 255 else 0) \<and> Min c = 0))"
proof -
  obtain s' where s': "show_fractal juliaSet env s = Some (s', env)" "can_show s'"
    "\<forall>x < 1024. \<forall>y < 768. \<forall>k < 3. ram s' (frame s + of_nat (3 * (y * 1024 + x) + k)) = channel k (julia_colour x y)"
    using show_picture [OF assms] unfolding juliaSet_def by blast
  have "let p = frame s + of_nat (3 * (y * 1024 + x)); c = {unat (ram s' p), unat (ram s' (p + 1)), unat (ram s' (p + 2))} in
      Max c = (if \<exists>n < 128. julia_outside ((julia_step ^^ Suc n) (julia_point x y)) then 255 else 0) \<and> Min c = 0"
    if b: "x < 1024" "y < 768" for x y
  proof -
    obtain r g b where c: "julia_colour x y = (r, g, b)" by (cases "julia_colour x y")
    let ?i = "julia_loop 128 0 (julia_point x y)" and ?p = "frame s + of_nat (3 * (y * 1024 + x))"
    have i: "?i < 128 \<longleftrightarrow> (\<exists>n < 128. julia_outside ((julia_step ^^ Suc n) (julia_point x y)))"
      unfolding julia_loop_least by (auto intro: le_less_trans [OF Least_le])
    have "HsvToRgb (of_nat (?i mod 256)) 255 (if ?i < 128 then 255 else 0) = (r, g, b)"
      using c by (simp add: julia_colour_def maxIterations_def Let_def split: if_splits)
    from hsv_range [OF this] have "Max {unat r, unat g, unat b} = (if ?i < 128 then 255 else 0)" "Min {unat r, unat g, unat b} = 0"
      by simp_all
    moreover have "ram s' ?p = b" "ram s' (?p + 1) = g" "ram s' (?p + 2) = r"
      using s'(3) [rule_format, OF b, of 0] s'(3) [rule_format, OF b, of 1] s'(3) [rule_format, OF b, of 2] c
      by (simp_all add: channel_def ac_simps)
    ultimately show ?thesis using i by (simp add: Let_def insert_commute)
  qed
  then show ?thesis using s'(1,2) by blast
qed

lemma sample_can_show: "frame sample_machine = 0x2020202020202020" "can_show sample_machine"
proof -
  show f: "frame sample_machine = 0x2020202020202020"
    by (simp add: sample_machine_def blank_video_def load64_def load32_def)
  have "addressAddress + of_nat k \<notin> region 0x2020202020202020 FRAME_SIZE" if "k < 8" for k :: nat
  proof -
    have "k \<in> {0, 1, 2, 3, 4, 5, 6, 7}" using that by auto
    then show ?thesis by (auto simp: in_region_iff FRAME_SIZE_def addressAddress_def)
  qed
  then have "frame_apart sample_machine" unfolding frame_apart_def f by blast
  then show "can_show sample_machine"
    using sample_machine_inv by (simp add: can_show_def sample_machine_def)
qed

theorem mandelbrot_picture_witness:
  "\<exists>s'. show_fractal (mandelbrot 0 1 2 3 200 100 50) [] sample_machine = Some (s', []) \<and> ram s' 0x2020202020202022 = 1"
proof -
  obtain s' where s': "show_fractal (mandelbrot 0 1 2 3 200 100 50) [] sample_machine = Some (s', [])"
    "\<forall>x < 1024. \<forall>y < 768. \<forall>k < 3. ram s' (0x2020202020202020 + of_nat (3 * (y * 1024 + x) + k)) = channel k (1, 2, 3)"
    using mandelbrot_picture [OF sample_can_show(2), of 0 1 2 3 200 100 50 "[]"] sample_can_show(1)
    by (auto simp: Let_def)
  from s'(2) [rule_format, of 0 0 2] s'(1) show ?thesis by (simp add: channel_def)
qed

theorem julia_picture_witness: "\<exists>s'. show_fractal juliaSet [] sample_machine = Some (s', []) \<and> can_show s'"
  using julia_picture [OF sample_can_show(2), of "[]"] by blast

end
