(* ===== verification/Shell.thy ===== *)
theory Shell
  imports Fractalcmd
begin

text \<open>
  The shell, \<open>shell/shell.c\<close>: the line editor, the splitting of a line into arguments, which overwrites the
  separators in the line buffer, and the dispatch of the commands. The keys a program waits for come from a
  list. \<open>None\<close> stands for an access outside the line buffer, for a name that is NULL, and for input that has
  not come yet.
\<close>

section \<open>State\<close>

definition LINE_SIZE :: nat where
  "LINE_SIZE = 256"

definition MAX_USERNAME_SIZE :: nat where
  "MAX_USERNAME_SIZE = 20"

record shell =
  sh_buffer :: "u8 list"
  current_pos :: nat
  sh_session :: session

text \<open>The commands that are modelled are called by name; the test programs are an argument.\<close>

type_synonym command_fn = "u8 list list \<Rightarrow> session \<Rightarrow> (session \<times> u32) option"

definition run_command :: "os \<Rightarrow> (command_id \<Rightarrow> command_fn) \<Rightarrow> command_id \<Rightarrow> command_fn" where
  "run_command sys other i argv s =
     (case i of
        ECHO \<Rightarrow> echo argv s
      | FRACTAL \<Rightarrow> fractal sys argv s
      | HELP \<Rightarrow> cmd_help argv s
      | CLEAR \<Rightarrow> cmd_clear sys argv s
      | EXIT \<Rightarrow> cmd_exit argv s
      | TIME \<Rightarrow> cmd_time sys argv s
      | DATE \<Rightarrow> cmd_date sys argv s
      | SET_TIME \<Rightarrow> cmd_set_time sys argv s
      | SET_DATE \<Rightarrow> cmd_set_date sys argv s
      | SLEEP \<Rightarrow> sleep sys argv s
      | PRINTF \<Rightarrow> cmd_printf argv s
      | _ \<Rightarrow> other i argv s)"

section \<open>Arguments\<close>

text \<open>Both loops over characters, from a place in the buffer to the first one that fails the test.\<close>

function skip_while :: "(u8 \<Rightarrow> bool) \<Rightarrow> u8 list \<Rightarrow> nat \<Rightarrow> nat option" where
  "skip_while test buffer i =
     (if i < length buffer then if test (buffer ! i) then skip_while test buffer (i + 1) else Some i else None)"
  by pat_completeness auto
termination by (relation "measure (\<lambda>(test, buffer, i). length buffer - i)") auto

declare skip_while.simps [simp del]

definition ignore_spaces :: "u8 list \<Rightarrow> nat \<Rightarrow> nat option" where
  "ignore_spaces = skip_while (\<lambda>c. isspace (sint c))"

definition ignore_characters :: "u8 list \<Rightarrow> nat \<Rightarrow> nat option" where
  "ignore_characters = skip_while (\<lambda>c. c \<noteq> 0 \<and> \<not> isspace (sint c))"

lemma skip_while_ge: "skip_while test buffer i = Some j \<Longrightarrow> i \<le> j \<and> j < length buffer"
proof (induction test buffer i rule: skip_while.induct)
  case (1 test buffer i)
  then show ?case by (subst (asm) skip_while.simps) (auto split: if_splits)
qed

function parse_loop :: "u8 list \<Rightarrow> nat \<Rightarrow> nat list \<Rightarrow> (u8 list \<times> nat list) option" where
  "parse_loop buffer str argv =
     (if buffer ! str = 0 then Some (buffer, argv)
      else case ignore_characters buffer str of
             None \<Rightarrow> None
           | Some e \<Rightarrow>
               let buffer' = buffer[e := 0]; argv' = argv @ [str] in
               if length argv' = MAX_ARGS then Some (buffer', argv')
               else (case ignore_spaces buffer' (e + 1) of
                       None \<Rightarrow> None
                     | Some str' \<Rightarrow> parse_loop buffer' str' argv'))"
  by pat_completeness auto
termination
  by (relation "measure (\<lambda>(buffer, str, argv). length buffer - str)")
    (auto simp: ignore_spaces_def ignore_characters_def dest!: skip_while_ge)

declare parse_loop.simps [simp del]

definition parse_args :: "u8 list \<Rightarrow> nat \<Rightarrow> (u8 list \<times> nat list) option" where
  "parse_args buffer str =
     (case ignore_spaces buffer str of None \<Rightarrow> None | Some i \<Rightarrow> parse_loop buffer i [])"

section \<open>The line\<close>

fun name_prefix :: "u8 list \<Rightarrow> u8 list \<Rightarrow> nat \<Rightarrow> nat" where
  "name_prefix [] str2 i = i"
| "name_prefix (x # xs) [] i = 0"
| "name_prefix (x # xs) (y # ys) i = (if y = 0 \<or> x \<noteq> y then 0 else name_prefix xs ys (i + 1))"

definition is_empty :: "shell \<Rightarrow> bool" where
  "is_empty sh \<longleftrightarrow> char_at (sh_buffer sh) = 0"

definition clean_buffer :: "shell \<Rightarrow> shell" where
  "clean_buffer sh = sh\<lparr>sh_buffer := replicate LINE_SIZE 0, current_pos := 0\<rparr>"

definition on_session :: "(session \<Rightarrow> session option) \<Rightarrow> shell \<Rightarrow> shell option" where
  "on_session f sh = map_option (\<lambda>s. sh\<lparr>sh_session := s\<rparr>) (f (sh_session sh))"

definition prompt :: "shell \<Rightarrow> shell option" where
  "prompt sh =
     on_session (\<lambda>s. print_fd STDOUT (str_bytes ''%s@%s> '') [StrArg (s_username s), StrArg (str_bytes ''os'')] s) sh"

definition sh_putchar :: "u8 \<Rightarrow> shell \<Rightarrow> shell" where
  "sh_putchar c sh = sh\<lparr>sh_session := put_char c (sh_session sh)\<rparr>"

fun command_loop ::
  "os \<Rightarrow> (command_id \<Rightarrow> command_fn) \<Rightarrow> command_t option list \<Rightarrow> shell \<Rightarrow> shell option" where
  "command_loop sys other [] sh = on_session (print_fd STDERR (str_bytes ''Invalid command!'' @ [10]) []) sh"
| "command_loop sys other (None # cs) sh = None"
| "command_loop sys other (Some c # cs) sh =
     (let len = name_prefix (cmd_name c) (sh_buffer sh) 0 in
      if len > 0
      then if sh_buffer sh ! len \<noteq> 0 \<and> \<not> isspace (sint (sh_buffer sh ! len))
           then on_session (print_fd STDERR (str_bytes ''Invalid command!'' @ [10]) []) sh
           else (case parse_args (sh_buffer sh) len of
                   None \<Rightarrow> None
                 | Some (buffer', argv) \<Rightarrow>
                     (case run_command sys other (cmd_id c) (map (\<lambda>a. cstring (drop a buffer')) argv) (sh_session sh) of
                        None \<Rightarrow> None
                      | Some (s, r) \<Rightarrow> Some (sh\<lparr>sh_buffer := buffer', sh_session := s\<rparr>)))
      else command_loop sys other cs sh)"

definition execute_command :: "os \<Rightarrow> (command_id \<Rightarrow> command_fn) \<Rightarrow> shell \<Rightarrow> shell option" where
  "execute_command sys other sh =
     (if is_empty sh then Some (sh_putchar 10 sh)
      else command_loop sys other (s_commands (sh_session sh)) sh)"

text \<open>A command that exits halts the machine, so the prompt after it is never printed.\<close>

definition update_shell :: "os \<Rightarrow> (command_id \<Rightarrow> command_fn) \<Rightarrow> u8 \<Rightarrow> shell \<Rightarrow> shell option" where
  "update_shell sys other key sh =
     (if sint key \<le> 0 then Some sh
      else if key = 10
      then (let sh1 = (if current_pos sh \<noteq> 0 then sh_putchar 10 sh else sh) in
            case execute_command sys other sh1 of
              None \<Rightarrow> None
            | Some sh2 \<Rightarrow> if exited (sh_session sh2) then Some sh2 else map_option clean_buffer (prompt sh2))
      else if key = 8
      then Some (if current_pos sh > 0
                 then (sh_putchar 8 sh)\<lparr>sh_buffer := (sh_buffer sh)[current_pos sh - 1 := 0],
                                        current_pos := current_pos sh - 1\<rparr>
                 else sh)
      else if (key = 32 \<or> key = 9) \<and> current_pos sh = 0 then Some sh
      else let pos = (if current_pos sh = LINE_SIZE then 0 else current_pos sh) in
           Some ((sh_putchar key sh)\<lparr>sh_buffer := (sh_buffer sh)[pos := key], current_pos := pos + 1\<rparr>))"

section \<open>The start of the shell\<close>

text \<open>One line of input for the name, with the number of its characters. Nothing bounds that number.\<close>

fun username_loop :: "u8 list \<Rightarrow> u8 list \<Rightarrow> nat \<Rightarrow> session \<Rightarrow> (u8 list \<times> u8 list \<times> nat \<times> session) option" where
  "username_loop [] buffer i s = None"
| "username_loop (c # input) buffer i s =
     (if c = 10 then Some (input, buffer, i, s)
      else if c = 8
      then if i > 0 then username_loop input (buffer[i - 1 := 0]) (i - 1) (put_char 8 s) else username_loop input buffer i s
      else if sint c > 0 \<and> \<not> isspace (sint c)
      then if i < length buffer then username_loop input (buffer[i := c]) (i + 1) (put_char c s) else None
      else username_loop input buffer i s)"

lemma username_loop_shorter: "username_loop input buffer i s = Some (rest, b, j, t) \<Longrightarrow> length rest < length input"
  by (induction input buffer i s rule: username_loop.induct) (auto split: if_splits)

text \<open>The name and its terminator are copied to an array of \<open>MAX_USERNAME_SIZE\<close> characters.\<close>

function ask_username :: "u8 list \<Rightarrow> session \<Rightarrow> (u8 list \<times> session) option" where
  "ask_username input s =
     (case print_fd STDOUT (str_bytes ''Please enter your username (up to %d characters): '')
             [IntArg (of_nat MAX_USERNAME_SIZE)] s of
        None \<Rightarrow> None
      | Some s1 \<Rightarrow>
          (case username_loop input (replicate LINE_SIZE 0) 0 s1 of
             None \<Rightarrow> None
           | Some (rest, buffer, i, s2) \<Rightarrow>
               if i = 0 then ask_username rest (put_char 10 s2)
               else if i > MAX_USERNAME_SIZE
               then (case print_fd STDERR ([10] @ str_bytes ''Too long...'' @ [10]) [] s2 of
                       None \<Rightarrow> None | Some s3 \<Rightarrow> ask_username rest s3)
               else if length (cstring buffer) < MAX_USERNAME_SIZE
               then Some (rest, s2\<lparr>s_username := cstring buffer\<rparr>)
               else None))"
  by pat_completeness auto
termination
  by (relation "measure (\<lambda>(input, s). length input)") (auto dest: username_loop_shorter)

declare ask_username.simps [simp del]

definition init_shell :: "u8 list \<Rightarrow> shell \<Rightarrow> (u8 list \<times> shell) option" where
  "init_shell input sh =
     (case ask_username input (sh_session sh) of
        None \<Rightarrow> None
      | Some (rest, s) \<Rightarrow>
          map_option (Pair rest)
            (prompt (sh_putchar 10 (clean_buffer (sh\<lparr>sh_session := s\<lparr>s_commands := init_commands (s_commands s)\<rparr>\<rparr>)))))"

section \<open>Words\<close>

definition blank :: "u8 \<Rightarrow> bool" where
  "blank c \<longleftrightarrow> isspace (sint c)"

lemma blank_0: "\<not> blank 0"
  by (simp add: blank_def isspace_def)

text \<open>The words of a text, as a reference.\<close>

function words :: "u8 list \<Rightarrow> u8 list list" where
  "words cs =
     (case dropWhile blank cs of
        [] \<Rightarrow> []
      | d # ds \<Rightarrow> (d # takeWhile (\<lambda>c. \<not> blank c) ds) # words (dropWhile (\<lambda>c. \<not> blank c) ds))"
  by pat_completeness auto
termination
proof (relation "measure length")
  fix cs d ds assume "dropWhile blank cs = d # (ds :: u8 list)"
  then have "length (d # ds) \<le> length cs" by (metis length_dropWhile_le)
  then show "(dropWhile (\<lambda>c. \<not> blank c) ds, cs) \<in> measure length"
    using length_dropWhile_le [of "\<lambda>c. \<not> blank c" ds] by simp
qed simp

declare words.simps [simp del]

lemma skip_while_spec:
  assumes "\<forall>c \<in> set xs. test c" "\<not> test y"
  shows "skip_while test (pre @ xs @ y # ys) (length pre) = Some (length pre + length xs)"
  using assms(1)
proof (induction xs arbitrary: pre)
  case Nil
  show ?case by (subst skip_while.simps) (simp add: assms(2))
next
  case (Cons x xs)
  have "skip_while test ((pre @ [x]) @ xs @ y # ys) (length (pre @ [x])) = Some (length (pre @ [x]) + length xs)"
    using Cons by (intro Cons.IH) simp
  with Cons.prems show ?case by (subst skip_while.simps) simp
qed

lemma words_drop: "words (dropWhile blank cs) = words cs"
proof -
  have "dropWhile blank (dropWhile blank cs) = dropWhile blank cs" by (rule dropWhile_idem)
  then show ?thesis by (simp add: words.simps [of cs] words.simps [of "dropWhile blank cs"])
qed

lemma cstring_word: "0 \<notin> set w \<Longrightarrow> cstring (w @ 0 # xs) = w"
  unfolding cstring_def by (induction w) auto

text \<open>What follows a word: its separator or the terminator, more spaces, and the rest of the line.\<close>

lemma after_word:
  assumes "0 \<notin> set r" "2 \<le> k" "r = [] \<or> blank (hd r)"
  obtains y sp rest k' where "r @ replicate k 0 = y # sp @ rest @ replicate k' 0" "y = 0 \<or> blank y"
    "\<forall>c \<in> set sp. blank c" "rest = [] \<or> \<not> blank (hd rest)" "words rest = words r" "0 \<notin> set rest"
    "2 \<le> k' \<or> rest = [] \<and> 1 \<le> k'" "length rest \<le> length r"
proof (cases r)
  case Nil
  obtain j where "k = Suc (Suc j)" using assms(2) by (metis add_2_eq_Suc le_Suc_ex)
  then show thesis using Nil by (intro that [of 0 "[]" "[]" "Suc j"]) simp_all
next
  case (Cons y ys)
  have "ys = takeWhile blank ys @ dropWhile blank ys" by simp
  moreover have "dropWhile blank ys = [] \<or> \<not> blank (hd (dropWhile blank ys))" using hd_dropWhile by blast
  moreover have "words (dropWhile blank ys) = words r"
    using assms(3) Cons words_drop [of ys] by (simp add: words.simps [of "y # ys"] words.simps [of ys])
  moreover have "0 \<notin> set (dropWhile blank ys)" using assms(1) Cons by (auto dest: set_dropWhileD)
  moreover have "length (dropWhile blank ys) \<le> length r" using length_dropWhile_le [of blank ys] Cons by simp
  ultimately show thesis using assms Cons
    by (intro that [of y "takeWhile blank ys" "dropWhile blank ys" k]) (auto dest: set_takeWhileD)
qed

lemma parse_loop_words:
  assumes "0 \<notin> set rest" "2 \<le> k \<or> rest = [] \<and> 1 \<le> k" "rest = [] \<or> \<not> blank (hd rest)" "length argv < MAX_ARGS"
  shows "\<exists>buffer' idx. parse_loop (pre @ rest @ replicate k 0) (length pre) argv = Some (buffer', argv @ idx) \<and>
    length buffer' = length pre + length rest + k \<and> take (length pre) buffer' = pre \<and>
    map (\<lambda>a. cstring (drop a buffer')) idx = take (MAX_ARGS - length argv) (words rest)"
  using assms
proof (induction "length rest" arbitrary: rest pre k argv rule: less_induct)
  case less
  let ?buf = "pre @ rest @ replicate k 0"
  show ?case
  proof (cases rest)
    case Nil
    then have "parse_loop ?buf (length pre) argv = Some (?buf, argv)"
      using less.prems(2) by (subst parse_loop.simps) (auto simp: nth_append)
    then show ?thesis using Nil by (intro exI [of _ ?buf] exI [of _ "[]"]) (simp add: words.simps [of "[]"])
  next
    case (Cons d ds)
    let ?w = "d # takeWhile (\<lambda>c. \<not> blank c) ds" and ?r = "dropWhile (\<lambda>c. \<not> blank c) ds"
    let ?e = "length pre + length ?w"
    have d: "d \<noteq> 0" "\<not> blank d" "2 \<le> k" using less.prems(1-3) Cons by auto
    have w: "\<forall>c \<in> set ?w. c \<noteq> 0 \<and> \<not> isspace (sint c)" "0 \<notin> set ?w"
      using less.prems(1) d Cons by (auto simp: blank_def dest: set_takeWhileD)
    have r: "0 \<notin> set ?r" "?r = [] \<or> blank (hd ?r)"
      using less.prems(1) Cons hd_dropWhile [of "\<lambda>c. \<not> blank c" ds] by (auto dest: set_dropWhileD)
    obtain y sp rest' k' where y: "?r @ replicate k 0 = y # sp @ rest' @ replicate k' 0" "y = 0 \<or> blank y"
      "\<forall>c \<in> set sp. blank c" "rest' = [] \<or> \<not> blank (hd rest')" "words rest' = words ?r" "0 \<notin> set rest'"
      "2 \<le> k' \<or> rest' = [] \<and> 1 \<le> k'" "length rest' \<le> length ?r" using after_word [OF r(1) d(3) r(2)] by blast
    have "rest = ?w @ ?r" using Cons by simp
    then have "?buf = pre @ ?w @ ?r @ replicate k 0" by (simp only: append.assoc)
    then have buf: "?buf = pre @ ?w @ y # sp @ rest' @ replicate k' 0" unfolding y(1) .
    have wd: "words rest = ?w # words ?r" using d(2) Cons by (subst words.simps) simp
    have shorter: "length rest' < length rest"
      using y(8) Cons length_dropWhile_le [of "\<lambda>c. \<not> blank c" ds] by simp
    let ?pre = "pre @ ?w @ 0 # sp"
    let ?buf' = "?pre @ rest' @ replicate k' 0"
    have e: "ignore_characters ?buf (length pre) = Some ?e"
      unfolding ignore_characters_def buf using y(2) by (intro skip_while_spec w(1)) (auto simp: blank_def)
    have put: "?buf[?e := 0] = ?buf'" unfolding buf by (simp add: list_update_append)
    have word: "cstring (drop (length pre) b) = ?w" if "take (length ?pre) b = ?pre" for b
    proof -
      define t where "t = drop (length ?pre) b"
      have "b = ?pre @ t" using append_take_drop_id [of "length ?pre" b] unfolding that t_def by (rule sym)
      then have "drop (length pre) b = ?w @ 0 # sp @ t" by simp
      then show ?thesis by (simp only: cstring_word [OF w(2)])
    qed
    have nd: "?buf ! length pre \<noteq> 0" using d(1) Cons by (simp add: nth_append)
    have step: "parse_loop ?buf (length pre) argv =
        (if Suc (length argv) = MAX_ARGS then Some (?buf', argv @ [length pre])
         else case ignore_spaces ?buf' (?e + 1) of None \<Rightarrow> None
              | Some str' \<Rightarrow> parse_loop ?buf' str' (argv @ [length pre]))"
      using nd e put by (subst parse_loop.simps) (simp add: Let_def del: append_assoc append_Cons append.simps)
    show ?thesis
    proof (cases "Suc (length argv) = MAX_ARGS")
      case True
      then have "parse_loop ?buf (length pre) argv = Some (?buf', argv @ [length pre])" using step by simp
      moreover have "length ?buf' = length pre + length rest + k" using arg_cong [OF buf, of length] by simp
      moreover have "MAX_ARGS - length argv = 1" using True by simp
      moreover have "map (\<lambda>a. cstring (drop a ?buf')) [length pre] = [?w]" using word [of ?buf'] by simp
      ultimately show ?thesis using wd by (intro exI [of _ ?buf'] exI [of _ "[length pre]"]) simp
    next
      case False
      obtain z zs where z: "rest' @ replicate k' 0 = z # zs" "\<not> blank z"
        using y(4,7) blank_0 by (cases rest'; cases k') auto
      have "?buf' = (pre @ ?w @ [0]) @ sp @ z # zs" using z(1) by simp
      moreover have "?e + 1 = length (pre @ ?w @ [0])" by simp
      ultimately have "ignore_spaces ?buf' (?e + 1) = Some (length (pre @ ?w @ [0]) + length sp)"
        unfolding ignore_spaces_def using y(3) z(2) skip_while_spec [of sp "\<lambda>c. isspace (sint c)" z "pre @ ?w @ [0]" zs]
        by (simp add: blank_def)
      then have s: "parse_loop ?buf (length pre) argv = parse_loop ?buf' (length ?pre) (argv @ [length pre])"
        using step False by (simp add: add.assoc)
      have "length (argv @ [length pre]) < MAX_ARGS" using less.prems(4) False by simp
      from less.hyps [OF shorter y(6,7,4) this, of ?pre] obtain b idx where b:
        "parse_loop ?buf' (length ?pre) (argv @ [length pre]) = Some (b, (argv @ [length pre]) @ idx)"
        "length b = length ?pre + length rest' + k'" "take (length ?pre) b = ?pre"
        "map (\<lambda>a. cstring (drop a b)) idx = take (MAX_ARGS - length (argv @ [length pre])) (words rest')" by auto
      have "length b = length pre + length rest + k" using b(2) arg_cong [OF buf, of length] by simp
      moreover have "take (length pre) b = pre" using b(3) by (metis append_eq_conv_conj take_take min.absorb1 length_append le_add1)
      moreover have "MAX_ARGS - length argv = Suc (MAX_ARGS - length (argv @ [length pre]))"
        using less.prems(4) by simp
      ultimately show ?thesis using s b(1,4) word [OF b(3)] wd y(5)
        by (intro exI [of _ b] exI [of _ "length pre # idx"]) simp
    qed
  qed
qed

lemma parse_args_words:
  assumes "0 \<notin> set line" "2 \<le> k"
  shows "\<exists>buffer' idx. parse_args (pre @ line @ replicate k 0) (length pre) = Some (buffer', idx) \<and>
    length buffer' = length pre + length line + k \<and>
    map (\<lambda>a. cstring (drop a buffer')) idx = take MAX_ARGS (words line)"
proof -
  let ?sp = "takeWhile blank line" and ?r = "dropWhile blank line"
  obtain j where k: "k = Suc (Suc j)" using assms(2) by (metis add_2_eq_Suc le_Suc_ex)
  obtain z zs where z: "?r @ replicate k 0 = z # zs" "\<not> blank z"
    using hd_dropWhile [of blank line] blank_0 k by (cases ?r) auto
  have line: "pre @ line @ replicate k 0 = pre @ ?sp @ ?r @ replicate k 0"
    by (metis append.assoc takeWhile_dropWhile_id)
  have "\<forall>c \<in> set ?sp. isspace (sint c)" by (auto simp: blank_def dest: set_takeWhileD)
  then have "ignore_spaces (pre @ line @ replicate k 0) (length pre) = Some (length pre + length ?sp)"
    unfolding line z(1) ignore_spaces_def using z(2) by (intro skip_while_spec) (simp_all add: blank_def)
  then have s: "parse_args (pre @ line @ replicate k 0) (length pre) =
      parse_loop ((pre @ ?sp) @ ?r @ replicate k 0) (length (pre @ ?sp)) []"
    unfolding parse_args_def line by simp
  have r: "0 \<notin> set ?r" "2 \<le> k \<or> ?r = [] \<and> 1 \<le> k" "?r = [] \<or> \<not> blank (hd ?r)" "length ([] :: nat list) < MAX_ARGS"
    using assms hd_dropWhile [of blank line] by (auto simp: MAX_ARGS_def dest: set_dropWhileD)
  have "length (pre @ ?sp) + length ?r + k = length pre + length line + k"
    using arg_cong [OF line, of length] by simp
  then show ?thesis using parse_loop_words [OF r, of "pre @ ?sp"] words_drop [of line] unfolding s by auto
qed

section \<open>The line editor\<close>

text \<open>What typing makes of a line: a backspace takes back a character, blanks at the start are ignored.\<close>

fun line_edit :: "u8 list \<Rightarrow> u8 list \<Rightarrow> u8 list" where
  "line_edit acc [] = acc"
| "line_edit acc (c # cs) =
     line_edit (if c = 8 then butlast acc else if (c = 32 \<or> c = 9) \<and> acc = [] then [] else acc @ [c]) cs"

text \<open>What of it appears on the screen.\<close>

fun line_echo :: "u8 list \<Rightarrow> u8 list \<Rightarrow> u8 list" where
  "line_echo acc [] = []"
| "line_echo acc (c # cs) =
     (if acc = [] \<and> c \<in> {8, 9, 32} then line_echo acc cs
      else c # line_echo (if c = 8 then butlast acc else acc @ [c]) cs)"

text \<open>The line never gets longer than so many characters.\<close>

fun line_within :: "nat \<Rightarrow> u8 list \<Rightarrow> u8 list \<Rightarrow> bool" where
  "line_within n acc [] \<longleftrightarrow> length acc \<le> n"
| "line_within n acc (c # cs) \<longleftrightarrow> length acc \<le> n \<and>
     line_within n (if c = 8 then butlast acc else if (c = 32 \<or> c = 9) \<and> acc = [] then [] else acc @ [c]) cs"

text \<open>The rounds of the program's loop, one for each key, as long as it runs.\<close>

fun type_keys :: "os \<Rightarrow> (command_id \<Rightarrow> command_fn) \<Rightarrow> u8 list \<Rightarrow> shell \<Rightarrow> shell option" where
  "type_keys sys other [] sh = Some sh"
| "type_keys sys other (k # ks) sh =
     (if exited (sh_session sh) then Some sh else Option.bind (update_shell sys other k sh) (type_keys sys other ks))"

definition holds_line :: "shell \<Rightarrow> u8 list \<Rightarrow> bool" where
  "holds_line sh line \<longleftrightarrow> length line \<le> LINE_SIZE \<and> current_pos sh = length line \<and>
     sh_buffer sh = line @ replicate (LINE_SIZE - length line) 0"

definition echoing :: "u8 list \<Rightarrow> shell \<Rightarrow> shell" where
  "echoing cs sh = sh\<lparr>sh_session := (sh_session sh)\<lparr>s_out := s_out (sh_session sh) @ map (Pair STDOUT) cs\<rparr>\<rparr>"

lemma sh_putchar_echo: "c \<noteq> 0 \<Longrightarrow> sh_putchar c sh = echoing [c] sh"
  by (simp add: sh_putchar_def put_char_def uputchar_def fputc_out echoing_def)

lemma type_line:
  assumes "\<forall>c \<in> set ks. sint c > 0 \<and> c \<noteq> 10" "holds_line sh acc" "line_within (LINE_SIZE - 1) acc ks"
    and "\<not> exited (sh_session sh)"
  shows "\<exists>sh'. type_keys sys other (ks @ rest) sh = type_keys sys other rest sh' \<and> holds_line sh' (line_edit acc ks) \<and>
    sh_session sh' = sh_session (echoing (line_echo acc ks) sh)"
  using assms
proof (induction ks arbitrary: acc sh)
  case Nil
  then show ?case by (intro exI [of _ sh]) (simp add: echoing_def)
next
  case (Cons c ks)
  have c: "sint c > 0" "c \<noteq> 10" "c \<noteq> 0" using Cons.prems(1) by auto
  have len: "length acc \<le> 255" using Cons.prems(3) by (simp add: LINE_SIZE_def)
  have pos: "current_pos sh = length acc" "sh_buffer sh = acc @ replicate (256 - length acc) 0"
    using Cons.prems(2) by (simp_all add: holds_line_def LINE_SIZE_def)
  have within: "\<forall>c \<in> set ks. sint c > 0 \<and> c \<noteq> 10" using Cons.prems(1) by simp
  show ?case
  proof (cases "acc = [] \<and> c \<in> {8, 9, 32}")
    case True
    then have "update_shell sys other c sh = Some sh" using c pos(1) by (auto simp: update_shell_def)
    then show ?thesis
      using True Cons.IH [OF within Cons.prems(2)] Cons.prems(3,4) by auto
  next
    case False
    let ?acc = "if c = 8 then butlast acc else acc @ [c]"
    obtain sh1 where sh1: "update_shell sys other c sh = Some sh1" "holds_line sh1 ?acc"
      "sh_session sh1 = sh_session (echoing [c] sh)"
    proof (cases "c = 8")
      case True
      then obtain a x where acc: "acc = a @ [x]" using False by (cases acc rule: rev_cases) auto
      let ?sh = "(echoing [8] sh)\<lparr>sh_buffer := (sh_buffer sh)[length acc - 1 := 0], current_pos := length acc - 1\<rparr>"
      have "(sh_buffer sh)[length acc - 1 := 0] = a @ 0 # replicate (256 - length acc) 0"
        unfolding pos(2) acc by (simp add: list_update_append)
      also have "\<dots> = a @ replicate (256 - length a) 0" using len acc
        by (simp add: Suc_diff_le flip: replicate_Suc)
      finally have "holds_line ?sh a" using len acc by (simp add: holds_line_def LINE_SIZE_def)
      moreover have "update_shell sys other c sh = Some ?sh"
        using True pos(1) acc by (simp add: update_shell_def sh_putchar_echo)
      ultimately show thesis using True acc by (intro that [of ?sh]) (simp_all add: echoing_def)
    next
      case n8: False
      let ?sh = "(echoing [c] sh)\<lparr>sh_buffer := (sh_buffer sh)[length acc := c], current_pos := length acc + 1\<rparr>"
      obtain j where j: "256 - length acc = Suc j" using len by (cases "256 - length acc") simp_all
      then have "(sh_buffer sh)[length acc := c] = (acc @ [c]) @ replicate (256 - length (acc @ [c])) 0"
        unfolding pos(2) by (simp add: list_update_append)
      then have "holds_line ?sh (acc @ [c])" using len by (simp add: holds_line_def LINE_SIZE_def)
      moreover have "update_shell sys other c sh = Some ?sh"
        using n8 False c pos(1) len by (auto simp: update_shell_def sh_putchar_echo LINE_SIZE_def Let_def)
      ultimately show thesis using n8 by (intro that [of ?sh]) (simp_all add: echoing_def)
    qed
    have "line_within (LINE_SIZE - 1) ?acc ks" "line_edit acc (c # ks) = line_edit ?acc ks"
      using Cons.prems(3) False by auto
    moreover have "\<not> exited (sh_session sh1)" using Cons.prems(4) sh1(3) by (simp add: echoing_def)
    ultimately show ?thesis using Cons.IH [OF within sh1(2)] Cons.prems(4) sh1(1,3) False by (auto simp: echoing_def)
  qed
qed

section \<open>The dispatch\<close>

text \<open>The table that \<open>init_commands\<close> sets up.\<close>

definition command_table :: "command_t list" where
  "command_table = map the (init_commands (replicate COMMANDS_SIZE None))"

lemma command_table_init: "init_commands (replicate COMMANDS_SIZE None) = map Some command_table"
  by code_simp

lemma boot_names: "\<forall>c \<in> set command_table. cmd_name c \<noteq> [] \<and> 0 \<notin> set (cmd_name c) \<and> length (cmd_name c) < 10 \<and>
    list_all (\<lambda>x. \<not> blank x) (cmd_name c)"
  by code_simp

lemma boot_prefix_free:
  "\<forall>c \<in> set command_table. \<forall>d \<in> set command_table. take (length (cmd_name c)) (cmd_name d) = cmd_name c \<longrightarrow> c = d"
  by code_simp

lemma name_prefix_take:
  "0 \<notin> set xs \<Longrightarrow> name_prefix xs ys i = (if take (length xs) ys = xs then i + length xs else 0)"
proof (induction xs ys i rule: name_prefix.induct)
  case (3 x xs y ys i)
  then show ?case by (cases "x = y") simp_all
qed simp_all

lemma find_unique:
  assumes "x \<in> set xs" "P x" "\<forall>y \<in> set xs. P y \<longrightarrow> y = x"
  shows "find P xs = Some x"
proof (cases "find P xs")
  case None
  then show ?thesis using assms(1,2) by (auto simp: find_None_iff)
next
  case (Some z)
  then have "z \<in> set xs" "P z" by (auto simp: find_Some_iff)
  then show ?thesis using assms(3) Some by simp
qed

definition run_line :: "os \<Rightarrow> (command_id \<Rightarrow> command_fn) \<Rightarrow> command_t \<Rightarrow> shell \<Rightarrow> shell option" where
  "run_line sys other c sh =
     (let len = length (cmd_name c) in
      if sh_buffer sh ! len \<noteq> 0 \<and> \<not> blank (sh_buffer sh ! len)
      then on_session (print_fd STDERR (str_bytes ''Invalid command!'' @ [10]) []) sh
      else (case parse_args (sh_buffer sh) len of
              None \<Rightarrow> None
            | Some (buffer', argv) \<Rightarrow>
                (case run_command sys other (cmd_id c) (map (\<lambda>a. cstring (drop a buffer')) argv) (sh_session sh) of
                   None \<Rightarrow> None
                 | Some (s, r) \<Rightarrow> Some (sh\<lparr>sh_buffer := buffer', sh_session := s\<rparr>))))"

lemma command_loop_find:
  assumes "\<forall>c \<in> set cs. cmd_name c \<noteq> [] \<and> 0 \<notin> set (cmd_name c)"
  shows "command_loop sys other (map Some cs) sh =
    (case find (\<lambda>c. take (length (cmd_name c)) (sh_buffer sh) = cmd_name c) cs of
       None \<Rightarrow> on_session (print_fd STDERR (str_bytes ''Invalid command!'' @ [10]) []) sh
     | Some c \<Rightarrow> run_line sys other c sh)"
  using assms by (induction cs) (simp_all add: name_prefix_take run_line_def blank_def Let_def)

lemma print_prompt:
  assumes "0 \<notin> set (s_username s)"
  shows "print_fd STDOUT (str_bytes ''%s@%s> '') [StrArg (s_username s), StrArg (str_bytes ''os'')] s =
    Some (s\<lparr>s_out := s_out s @ map (Pair STDOUT) (s_username s @ str_bytes ''@os> '')\<rparr>)"
  using print_fd_pieces [of STDOUT "[Strp (s_username s), Lit 64, Strp (str_bytes ''os''), Lit 62, Lit 32]"
      "str_bytes ''%s@%s> ''" "[StrArg (s_username s), StrArg (str_bytes ''os'')]" s] assms
  by (simp add: str_bytes_def)

definition prompted :: "session \<Rightarrow> session" where
  "prompted s = s\<lparr>s_out := s_out s @ map (Pair STDOUT) (s_username s @ str_bytes ''@os> '')\<rparr>"

lemma update_enter:
  assumes "holds_line sh line" "line \<noteq> []" "0 \<notin> set line"
  shows "update_shell sys other 10 sh =
    (case command_loop sys other (s_commands (sh_session sh)) (echoing [10] sh) of
       None \<Rightarrow> None
     | Some sh2 \<Rightarrow> if exited (sh_session sh2) then Some sh2 else map_option clean_buffer (prompt sh2))"
proof -
  have "current_pos sh \<noteq> 0" "char_at (sh_buffer sh) \<noteq> 0"
    using assms by (cases line; auto simp: holds_line_def char_at_def)+
  then show ?thesis
    by (simp add: update_shell_def execute_command_def is_empty_def sh_putchar_echo Let_def) (simp add: echoing_def)
qed

lemma prompt_prompted:
  "0 \<notin> set (s_username (sh_session sh)) \<Longrightarrow> prompt sh = Some (sh\<lparr>sh_session := prompted (sh_session sh)\<rparr>)"
  by (simp add: prompt_def on_session_def print_prompt prompted_def)

lemma holds_clean: "holds_line (clean_buffer sh) []"
  by (simp add: holds_line_def clean_buffer_def LINE_SIZE_def)


lemma parse_line:
  assumes "holds_line sh line" "0 \<notin> set line" "length line < 255" "line = pre @ rest"
  shows "\<exists>buffer' idx. parse_args (sh_buffer sh) (length pre) = Some (buffer', idx) \<and>
    map (\<lambda>a. cstring (drop a buffer')) idx = take MAX_ARGS (words rest)"
proof -
  have "sh_buffer sh = pre @ rest @ replicate (LINE_SIZE - length line) 0"
    using assms(1,4) by (simp add: holds_line_def)
  moreover have "0 \<notin> set rest" "2 \<le> LINE_SIZE - length line" using assms by (auto simp: LINE_SIZE_def)
  ultimately show ?thesis using parse_args_words [of rest "LINE_SIZE - length line" pre] by fastforce
qed

lemma find_typed:
  assumes "c \<in> set command_table" "buffer = cmd_name c @ xs"
  shows "find (\<lambda>c. take (length (cmd_name c)) buffer = cmd_name c) command_table = Some c"
proof (rule find_unique [OF assms(1)])
  show "\<forall>d \<in> set command_table. take (length (cmd_name d)) buffer = cmd_name d \<longrightarrow> d = c"
  proof (intro ballI impI)
    fix d assume d: "d \<in> set command_table" "take (length (cmd_name d)) buffer = cmd_name d"
    show "d = c"
    proof (cases "length (cmd_name d) \<le> length (cmd_name c)")
      case True
      then have "take (length (cmd_name d)) (cmd_name c) = cmd_name d" using d(2) unfolding assms(2) by simp
      then show ?thesis using boot_prefix_free d(1) assms(1) by blast
    next
      case False
      then have "cmd_name d = cmd_name c @ take (length (cmd_name d) - length (cmd_name c)) xs"
        using d(2) unfolding assms(2) by simp
      then have "take (length (cmd_name c)) (cmd_name d) = cmd_name c" by (metis append_eq_conv_conj)
      then show ?thesis using boot_prefix_free d(1) assms(1) by blast
    qed
  qed
qed (simp add: assms(2))

lemma line_edit_no_zero: "\<forall>c \<in> set ks. sint c > 0 \<Longrightarrow> 0 \<notin> set acc \<Longrightarrow> 0 \<notin> set (line_edit acc ks)"
proof (induction acc ks rule: line_edit.induct)
  case (2 acc c cs)
  have "c \<noteq> 0" using 2(2) by auto
  then have "0 \<notin> set (if c = 8 then butlast acc else if (c = 32 \<or> c = 9) \<and> acc = [] then [] else acc @ [c])"
    using 2(3) by (auto dest: in_set_butlastD)
  then show ?case using 2 by simp
qed simp

lemma type_one: "\<not> exited (sh_session sh) \<Longrightarrow> type_keys sys other [k] sh = update_shell sys other k sh"
  by (cases "update_shell sys other k sh") simp_all

text \<open>A shell that has read no key of a line yet, with the table of commands it started with.\<close>

definition ready :: "shell \<Rightarrow> bool" where
  "ready sh \<longleftrightarrow> holds_line sh [] \<and> s_commands (sh_session sh) = init_commands (replicate COMMANDS_SIZE None) \<and>
     0 \<notin> set (s_username (sh_session sh))"

lemma type_enter:
  assumes "ready sh" "\<not> exited (sh_session sh)" "\<forall>c \<in> set keys. sint c > 0 \<and> c \<noteq> 10" "line_within 254 [] keys" "line_edit [] keys \<noteq> []"
  obtains sh1 where "holds_line sh1 (line_edit [] keys)" "0 \<notin> set (line_edit [] keys)"
    "length (line_edit [] keys) < 255"
    "sh_session sh1 = sh_session (echoing (line_echo [] keys @ [10]) sh)"
    "type_keys sys other (keys @ [10]) sh =
      (case command_loop sys other (map Some command_table) sh1 of
       None \<Rightarrow> None
     | Some sh2 \<Rightarrow> if exited (sh_session sh2) then Some sh2 else map_option clean_buffer (prompt sh2))"
proof -
  have within: "line_within n acc ks \<Longrightarrow> length (line_edit acc ks) \<le> n \<and> line_within (Suc n) acc ks" for n acc ks
    by (induction n acc ks rule: line_within.induct) auto
  have z: "0 \<notin> set (line_edit [] keys)" using assms(3) by (intro line_edit_no_zero) auto
  obtain sh0 where sh0: "type_keys sys other (keys @ [10]) sh = type_keys sys other [10] sh0"
    "holds_line sh0 (line_edit [] keys)" "sh_session sh0 = sh_session (echoing (line_echo [] keys) sh)"
    using type_line [of keys sh "[]" sys other "[10]"] assms within [of 254 "[]" keys]
    by (auto simp: ready_def LINE_SIZE_def)
  have cmds: "s_commands (sh_session sh0) = map Some command_table"
    using assms(1) sh0(3) by (simp add: ready_def echoing_def command_table_init)
  show thesis
  proof (rule that)
    show "holds_line (echoing [10] sh0) (line_edit [] keys)"
      using sh0(2) by (simp add: holds_line_def echoing_def)
    show "type_keys sys other (keys @ [10]) sh =
      (case command_loop sys other (map Some command_table) (echoing [10] sh0) of
       None \<Rightarrow> None
     | Some sh2 \<Rightarrow> if exited (sh_session sh2) then Some sh2 else map_option clean_buffer (prompt sh2))"
      unfolding sh0(1) using update_enter [OF sh0(2) assms(5) z] type_one [of sh0 sys other 10] assms(2) sh0(3) cmds by (simp add: echoing_def)
    show "sh_session (echoing [10] sh0) = sh_session (echoing (line_echo [] keys @ [10]) sh)"
      using sh0(3) by (simp add: echoing_def)
  qed (use z within [of 254 "[]" keys] assms(4) in auto)
qed

section \<open>What the loop over the commands does\<close>

lemma line_runs:
  assumes "holds_line sh1 line" "0 \<notin> set line" "length line < 255"
    and "c \<in> set command_table" "line = cmd_name c @ rest" "rest = [] \<or> blank (hd rest)"
  shows "\<exists>b. command_loop sys other (map Some command_table) sh1 =
    map_option (\<lambda>(s, r). sh1\<lparr>sh_buffer := b, sh_session := s\<rparr>)
      (run_command sys other (cmd_id c) (take MAX_ARGS (words rest)) (sh_session sh1))"
proof -
  obtain k where k: "LINE_SIZE - length line = Suc k" using assms(3) by (cases "LINE_SIZE - length line") (auto simp: LINE_SIZE_def)
  then have buf: "sh_buffer sh1 = cmd_name c @ rest @ replicate (Suc k) 0"
    using assms(1,5) by (simp add: holds_line_def)
  have sep: "sh_buffer sh1 ! length (cmd_name c) \<noteq> 0 \<longrightarrow> blank (sh_buffer sh1 ! length (cmd_name c))"
    using assms(6) unfolding buf by (cases rest) simp_all
  obtain b idx where b: "parse_args (sh_buffer sh1) (length (cmd_name c)) = Some (b, idx)"
    "map (\<lambda>a. cstring (drop a b)) idx = take MAX_ARGS (words rest)"
    using parse_line [OF assms(1-3,5)] by blast
  have "command_loop sys other (map Some command_table) sh1 = run_line sys other c sh1"
    using command_loop_find [of command_table sys other sh1] find_typed [OF assms(4) buf] boot_names by auto
  also have "\<dots> = map_option (\<lambda>(s, r). sh1\<lparr>sh_buffer := b, sh_session := s\<rparr>)
      (run_command sys other (cmd_id c) (take MAX_ARGS (words rest)) (sh_session sh1))"
    using sep b by (auto simp: run_line_def Let_def split: option.splits)
  finally show ?thesis ..
qed

lemma command_in_line:
  assumes "c \<in> set command_table" "take (length (cmd_name c)) (word @ y # ys) = cmd_name c" "y = 0 \<or> blank y"
    and "word \<notin> cmd_name ` set command_table"
  shows "length (cmd_name c) < length word"
proof (rule ccontr)
  let ?n = "length (cmd_name c)"
  assume n: "\<not> ?n < length word"
  have names: "\<forall>x \<in> set (cmd_name c). \<not> blank x \<and> x \<noteq> 0"
    using boot_names assms(1) by (auto simp: list_all_iff)
  have t: "cmd_name c = word @ take (?n - length word) (y # ys)" using assms(2) n by simp
  then have "?n \<noteq> length word" using assms(1,4) by force
  then obtain j where "?n - length word = Suc j" using n by (cases "?n - length word") auto
  with t have "cmd_name c = word @ y # take j ys" by simp
  then have "y \<in> set (cmd_name c)" by simp
  then show False using names assms(3) by auto
qed

lemma line_refused:
  assumes "holds_line sh1 line" "0 \<notin> set line" "length line < 255"
    and "line = word @ rest" "\<forall>x \<in> set word. \<not> blank x" "rest = [] \<or> blank (hd rest)"
    and "word \<notin> cmd_name ` set command_table"
  shows "command_loop sys other (map Some command_table) sh1 =
    Some (sh1\<lparr>sh_session := message ''Invalid command!'' (sh_session sh1)\<rparr>)"
proof -
  let ?msg = "sh1\<lparr>sh_session := message ''Invalid command!'' (sh_session sh1)\<rparr>"
  have m: "on_session (print_fd STDERR (str_bytes ''Invalid command!'' @ [10]) []) sh1 = Some ?msg"
    by (simp add: on_session_def print_fd_text str_bytes_def message_def)
  obtain k where k: "LINE_SIZE - length line = Suc k" using assms(3) by (cases "LINE_SIZE - length line") (auto simp: LINE_SIZE_def)
  obtain y ys where y: "rest @ replicate (Suc k) 0 = y # ys" "y = 0 \<or> blank y" using assms(6) by (cases rest) auto
  have buf: "sh_buffer sh1 = word @ y # ys" using assms(1,4) k y(1) by (simp add: holds_line_def)
  have "run_line sys other c sh1 = Some ?msg"
    if c: "c \<in> set command_table" "take (length (cmd_name c)) (sh_buffer sh1) = cmd_name c" for c
  proof -
    have "length (cmd_name c) < length word" using command_in_line [OF c(1) _ y(2) assms(7)] c(2) unfolding buf .
    then have "sh_buffer sh1 ! length (cmd_name c) \<in> set word" unfolding buf by (simp add: nth_append)
    then show ?thesis using assms(2,4,5) m by (auto simp: run_line_def Let_def)
  qed
  then show ?thesis
    using command_loop_find [of command_table sys other sh1] boot_names m
    by (auto split: option.splits simp: find_Some_iff)
qed

section \<open>Properties\<close>

text \<open>
  the keys of a line and Enter, typed at the prompt, run the command that the edited line names, on the first ten
  words of what follows the name. The keys are echoed before, and afterwards, unless the command was \<open>exit\<close>, there is
  a new prompt and the buffer is clean.
\<close>

theorem shell_runs_line:
  assumes "ready sh" "\<not> exited (sh_session sh)" "\<forall>c \<in> set keys. sint c > 0 \<and> c \<noteq> 10" "line_within 254 [] keys"
    and "c \<in> set command_table" "line_edit [] keys = cmd_name c @ rest" "rest = [] \<or> blank (hd rest)"
    and "run_command sys other (cmd_id c) (take MAX_ARGS (words rest))
      (sh_session (echoing (line_echo [] keys @ [10]) sh)) = Some (s, r)"
    and "0 \<notin> set (s_username s)"
  shows "\<exists>sh'. type_keys sys other (keys @ [10]) sh = Some sh' \<and>
    (if exited s then sh_session sh' = s else holds_line sh' [] \<and> sh_session sh' = prompted s)"
proof -
  have n: "cmd_name c \<noteq> []" "length (cmd_name c) < 10" using boot_names assms(5) by auto
  then have "line_edit [] keys \<noteq> []" using assms(6) by simp
  from type_enter [OF assms(1-4) this] obtain sh1 where sh1: "holds_line sh1 (line_edit [] keys)"
    "0 \<notin> set (line_edit [] keys)" "length (line_edit [] keys) < 255"
    "sh_session sh1 = sh_session (echoing (line_echo [] keys @ [10]) sh)"
    "type_keys sys other (keys @ [10]) sh = (case command_loop sys other (map Some command_table) sh1 of
       None \<Rightarrow> None
     | Some sh2 \<Rightarrow> if exited (sh_session sh2) then Some sh2 else map_option clean_buffer (prompt sh2))" .
  obtain b where "command_loop sys other (map Some command_table) sh1 = Some (sh1\<lparr>sh_buffer := b, sh_session := s\<rparr>)"
    using line_runs [OF sh1(1-3) assms(5-7), of sys other] assms(8) sh1(4) by auto
  then show ?thesis
    using sh1(5) assms(9) holds_clean by (auto simp: prompt_prompted) (simp add: clean_buffer_def)
qed

definition sample_shell :: shell where
  "sample_shell = \<lparr>sh_buffer = replicate LINE_SIZE 0, current_pos = 0, sh_session = sample_session\<rparr>"

definition no_other :: "command_id \<Rightarrow> command_fn" where
  "no_other i argv s = None"

lemma sample_shell_ready: "ready sample_shell" "\<not> exited (sh_session sample_shell)"
  by (simp_all add: ready_def sample_shell_def sample_session_def holds_line_def exited_def)

text \<open>A space, \<open>clx\<close>, a backspace and \<open>ear\<close>.\<close>

theorem shell_runs_line_witness:
  "\<exists>sh'. type_keys sample_os no_other [32, 99, 108, 120, 8, 101, 97, 114, 10] sample_shell = Some sh' \<and> holds_line sh' [] \<and>
     s_calls (sh_session sh') = [(8, Call_clear)]"
proof -
  let ?keys = "[32, 99, 108, 120, 8, 101, 97, 114] :: u8 list"
  let ?c = "\<lparr>cmd_id = CLEAR, cmd_name = str_bytes ''clear'', cmd_desc = str_bytes ''clear''\<rparr>"
  let ?s = "sh_session (echoing (line_echo [] ?keys @ [10]) sample_shell)"
  have c: "?c \<in> set command_table" by code_simp
  have e: "line_edit [] ?keys = cmd_name ?c @ []" by (simp add: str_bytes_def)
  have w: "words [] = []" by (simp add: words.simps)
  have r: "run_command sample_os no_other (cmd_id ?c) (take MAX_ARGS (words [])) ?s =
      Some (fst (sys_call sample_os Call_clear ?s), 0)" by (simp add: run_command_def cmd_clear_def w)
  have u: "0 \<notin> set (s_username (fst (sys_call sample_os Call_clear ?s)))"
    by (simp add: sys_call_def echoing_def sample_shell_def sample_session_def)
  have k: "\<forall>c \<in> set ?keys. sint c > 0 \<and> c \<noteq> 10" "line_within 254 [] ?keys" by simp_all
  from shell_runs_line [OF sample_shell_ready k c e _ r u]
  show ?thesis
    by (auto simp: prompted_def sys_call_def echoing_def sample_shell_def sample_session_def exited_def)
qed

text \<open>
  a line whose first word is no command is answered with a message on the error descriptor, and nothing is run.
\<close>

theorem shell_refuses_line:
  assumes "ready sh" "\<not> exited (sh_session sh)" "\<forall>c \<in> set keys. sint c > 0 \<and> c \<noteq> 10" "line_within 254 [] keys"
    and "line_edit [] keys = word @ rest" "word \<noteq> []" "\<forall>x \<in> set word. \<not> blank x" "rest = [] \<or> blank (hd rest)"
    and "word \<notin> cmd_name ` set command_table"
  shows "\<exists>sh'. type_keys sys other (keys @ [10]) sh = Some sh' \<and> holds_line sh' [] \<and>
    sh_session sh' = prompted (message ''Invalid command!'' (sh_session (echoing (line_echo [] keys @ [10]) sh)))"
proof -
  have "line_edit [] keys \<noteq> []" using assms(5,6) by simp
  from type_enter [OF assms(1-4) this] obtain sh1 where sh1: "holds_line sh1 (line_edit [] keys)"
    "0 \<notin> set (line_edit [] keys)" "length (line_edit [] keys) < 255"
    "sh_session sh1 = sh_session (echoing (line_echo [] keys @ [10]) sh)"
    "type_keys sys other (keys @ [10]) sh = (case command_loop sys other (map Some command_table) sh1 of
       None \<Rightarrow> None
     | Some sh2 \<Rightarrow> if exited (sh_session sh2) then Some sh2 else map_option clean_buffer (prompt sh2))" .
  have "command_loop sys other (map Some command_table) sh1 =
      Some (sh1\<lparr>sh_session := message ''Invalid command!'' (sh_session sh1)\<rparr>)"
    by (rule line_refused [OF sh1(1-3) assms(5,7-9)])
  moreover have "0 \<notin> set (s_username (message ''Invalid command!'' (sh_session sh1)))"
    using assms(1) sh1(4) by (simp add: ready_def message_def echoing_def)
  moreover have "\<not> exited (message ''Invalid command!'' (sh_session sh1))"
    using assms(2) sh1(4) by (simp add: message_def echoing_def)
  ultimately show ?thesis
    using sh1(4,5) holds_clean by (auto simp: prompt_prompted) (simp add: clean_buffer_def)
qed

theorem shell_refuses_line_witness:
  "\<exists>sh'. type_keys sample_os no_other [99, 108, 101, 97, 114, 115, 10] sample_shell = Some sh' \<and> holds_line sh' [] \<and>
     s_calls (sh_session sh') = []"
proof -
  let ?keys = "[99, 108, 101, 97, 114, 115] :: u8 list"
  have k: "\<forall>c \<in> set ?keys. sint c > 0 \<and> c \<noteq> 10" "line_within 254 [] ?keys" by simp_all
  have e: "line_edit [] ?keys = ?keys @ []" "?keys \<noteq> []" by simp_all
  have b: "\<forall>x \<in> set ?keys. \<not> blank x" "([] :: u8 list) = [] \<or> blank (hd [])" by (simp_all add: blank_def isspace_def)
  have n: "?keys \<notin> cmd_name ` set command_table" by code_simp
  from shell_refuses_line [OF sample_shell_ready k e b n, of sample_os no_other]
  show ?thesis by (auto simp: prompted_def message_def echoing_def sample_shell_def sample_session_def)
qed

text \<open>
  a name of 1 to 19 characters, none of them blank, becomes the user's name. The prompt offers up to 20
  characters, but with 20 the copy runs over the end of the array.
\<close>

theorem username_read:
  assumes "\<forall>c \<in> set u. sint c > 0 \<and> \<not> blank c \<and> c \<noteq> 8" "u \<noteq> []" "length u \<le> 20"
  shows "ask_username (u @ 10 # input) s =
    (if length u < 20
     then Some (input, s\<lparr>s_out := s_out s @
       map (Pair STDOUT) (str_bytes ''Please enter your username (up to 20 characters): '' @ u), s_username := u\<rparr>)
     else None)"
proof -
  let ?p = "str_bytes ''Please enter your username (up to 20 characters): ''"
  let ?s = "s\<lparr>s_out := s_out s @ map (Pair STDOUT) ?p\<rparr>"
  let ?a = "str_bytes ''Please enter your username (up to ''" and ?b = "str_bytes '' characters): ''"
  let ?ps = "map Lit ?a @ [Dec 20] @ map Lit ?b"
  have f: "concat (map piece_format (map Lit l)) = l" "concat (map piece_text (map Lit l)) = l"
    "concat (map piece_args (map Lit l)) = []" for l by (induction l) simp_all
  have "int_text 20 = str_bytes ''20''" by code_simp
  moreover have "str_bytes ''Please enter your username (up to %d characters): '' = ?a @ str_bytes ''%d'' @ ?b"
    "?p = ?a @ str_bytes ''20'' @ ?b" "str_bytes ''%d'' = [37, 100]" by code_simp+
  moreover have "\<forall>p \<in> set ?ps. piece_ok p" by (simp add: str_bytes_def)
  ultimately have p: "print_fd STDOUT (str_bytes ''Please enter your username (up to %d characters): '')
      [IntArg (of_nat MAX_USERNAME_SIZE)] s = Some ?s"
    using print_fd_pieces [of STDOUT ?ps _ "[IntArg (of_nat MAX_USERNAME_SIZE)]" s]
    by (simp add: f MAX_USERNAME_SIZE_def del: map_map)
  have loop: "\<forall>c \<in> set v. sint c > 0 \<and> \<not> blank c \<and> c \<noteq> 8 \<Longrightarrow> length w + length v \<le> 20 \<Longrightarrow>
      username_loop (v @ 10 # input) (w @ replicate (256 - length w) 0) (length w) t =
      Some (input, (w @ v) @ replicate (256 - length (w @ v)) 0, length (w @ v),
        t\<lparr>s_out := s_out t @ map (Pair STDOUT) v\<rparr>)" for v w t
  proof (induction v arbitrary: w t)
    case (Cons c v)
    have c: "c \<noteq> 10" "c \<noteq> 8" "sint c > 0" "\<not> isspace (sint c)" "c \<noteq> 0"
      using Cons.prems(1) by (auto simp: blank_def isspace_def)
    obtain j where j: "256 - length w = Suc j" using Cons.prems(2) by (cases "256 - length w") simp_all
    then have "(w @ replicate (256 - length w) 0)[length w := c] = (w @ [c]) @ replicate (256 - length (w @ [c])) 0"
      by (simp add: list_update_append)
    then show ?case using c Cons.IH [of "w @ [c]" "put_char c t"] Cons.prems
      by (simp add: put_char_def uputchar_def fputc_out)
  qed simp
  have z: "0 \<notin> set u" using assms(1) by auto
  have n: "256 - length u = Suc (255 - length u)" "0 < length u" using assms(2,3) by auto
  have "cstring (u @ replicate (256 - length u) 0) = u" unfolding n(1) by (simp add: cstring_word [OF z])
  then show ?thesis
    unfolding ask_username.simps [of "u @ 10 # input" s] p
    using loop [of u "[]" ?s] assms n(2) by (simp add: LINE_SIZE_def MAX_USERNAME_SIZE_def)
qed

theorem username_read_witness:
  "ask_username [116, 104, 101, 120, 120, 120, 120, 120, 120, 120, 120, 120, 120, 120, 120, 120, 120, 120, 120, 120, 10]
     sample_session = None"
  using username_read [of "[116, 104, 101, 120, 120, 120, 120, 120, 120, 120, 120, 120, 120, 120, 120, 120, 120, 120, 120, 120]"
      "[]" sample_session] by (simp add: blank_def isspace_def)

end
