(* ===== verification/Cmdrel.thy ===== *)
theory Cmdrel
  imports Shell
begin

text \<open>
  What every command of the shell does to a session, whatever it is that is asked: the commands print, read
  the data module, call the kernel and do nothing else. A relation between sessions that holds for these steps
  holds from before to after any command.
\<close>

section \<open>What is printed is appended\<close>

text \<open>No function of the library takes back what it has written, and none gets a 0 through the kernel.\<close>

definition extends :: "outp \<Rightarrow> outp \<Rightarrow> bool" where
  "extends out out' \<longleftrightarrow>
     (\<exists>new. out' = out @ new \<and> (\<forall>(fd, c) \<in> set new. (fd = STDOUT \<or> fd = STDERR) \<and> c \<noteq> 0))"

lemma extends_refl [simp]: "extends out out"
  by (simp add: extends_def)

lemma extends_trans: "extends out out1 \<Longrightarrow> extends out1 out2 \<Longrightarrow> extends out out2"
  unfolding extends_def by (fastforce simp: append.assoc)

named_theorems appends "functions of the library that only append to the output"

lemma write_fd_appends [appends]: "extends out (fst (write_fd out fd bytes))"
  by (auto simp: write_fd_def extends_def dest: set_takeWhileD)

lemma write_appended: "write_fd out fd bytes = (out', w) \<Longrightarrow> extends out out'"
  using write_fd_appends [of out fd bytes] by simp

lemma fputc_appends [appends]: "extends out (fputc out fd c)"
  by (simp add: fputc_def appends)

lemma fputs_appends [appends]: "extends out (fst (fputs out fd str))"
proof (induction str arbitrary: out)
  case (Cons c str)
  have "extends out (fputc out fd c)" by (rule appends)
  then show ?case using Cons [of "fputc out fd c"] by (auto split: prod.split intro: extends_trans)
qed simp

lemma print_base_appends: "print_base out fd num base = Some (out', w) \<Longrightarrow> extends out out'"
  by (auto simp: print_base_def fputsn_def split: option.splits if_splits dest: arg_cong [of _ _ fst] intro: write_appended)

lemma print_dec_appends: "print_dec out fd num = Some (out', w) \<Longrightarrow> extends out out'"
  using fputc_appends [of out fd 45]
  by (auto simp: print_dec_def split: if_splits dest!: print_base_appends intro: extends_trans)

lemma print_arg_appends: "print_arg out fd ap opt = Some (out', w, ap') \<Longrightarrow> extends out out'"
proof (induction out fd ap opt rule: print_arg.induct)
  case (1 out fd s ap opt)
  then show ?case using fputs_appends [of out fd s] by (auto split: if_splits prod.splits)
next
  case (2 out fd i ap opt)
  then show ?case using fputc_appends
    by (auto simp: print_hex_def print_oct_def print_bin_def split: if_splits dest: print_base_appends print_dec_appends)
qed simp

lemma vfprintf_appends: "vfprintf out fd fmt ap n = Some (out', w) \<Longrightarrow> extends out out'"
proof (induction out fd fmt ap n rule: vfprintf.induct)
  case (2 out fd c fmt ap n)
  then show ?case
    using fputc_appends [of out fd 37] fputc_appends [of out fd c]
    by (auto simp: Let_def split: if_splits option.splits dest!: print_arg_appends intro: extends_trans)
qed simp

lemma fprintf_appends: "fprintf out fd fmt ap = Some (out', w) \<Longrightarrow> extends out out'"
  by (auto simp: fprintf_def dest: vfprintf_appends)

lemma complain_appends: "complain out msg conv ap = Some out' \<Longrightarrow> extends out out'"
  by (auto simp: complain_def dest: fprintf_appends)

lemma scan_loop_appends: "scan_loop out format buffer fmt st n = Some (out', r) \<Longrightarrow> extends out out'"
proof (induction "length fmt" arbitrary: buffer fmt st n rule: less_induct)
  case less
  have rec: "skip_spaces fmt = f # fs \<Longrightarrow> scan_loop out format b fs st' k = Some (out', r) \<Longrightarrow> extends out out'"
    "skip_spaces fmt = f # fs \<Longrightarrow> scan_loop out format b (tl fs) st' k = Some (out', r) \<Longrightarrow> extends out out'"
    for f fs b st' k
    using less.hyps [of fs b st' k] less.hyps [of "tl fs" b st' k] skip_spaces_length [of fmt f fs] by simp_all
  from less.prems show ?case
    by (subst (asm) scan_loop.simps)
      (auto simp: Let_def split: if_splits list.splits prod.splits dest!: complain_appends intro: rec)
qed

lemma fgets_loop_appends:
  "fgets_loop fd n input out str k = Some (rest, out', r) \<Longrightarrow> extends out out'"
proof (induction fd n input out str k rule: fgets_loop.induct)
  case (2 fd n c input out str k)
  then show ?case using fputc_appends [of out STDOUT c] by (auto split: if_splits intro: extends_trans)
qed simp

lemma fscanf_appends: "fscanf fd input out buffer fmt = Some (rest, out', r) \<Longrightarrow> extends out out'"
proof -
  have step: "extends out (fputc o1 STDOUT 10)" if "extends out o1" for o1
    using that fputc_appends by (rule extends_trans)
  assume "fscanf fd input out buffer fmt = Some (rest, out', r)"
  then show ?thesis
    by (auto simp: fscanf_def vfscanf_def vsscanf_def fgets_def Let_def split: option.splits if_splits
        dest!: fgets_loop_appends scan_loop_appends)
      (meson step extends_trans)+
qed


section \<open>Relations that every command respects\<close>

locale session_relation =
  fixes R :: "session \<Rightarrow> session \<Rightarrow> bool"
  assumes related_refl: "R s s"
    and related_trans: "R s t \<Longrightarrow> R t u \<Longrightarrow> R s u"
    and printed: "extends (s_out s) out \<Longrightarrow> R s (s\<lparr>s_out := out\<rparr>)"
    and consumed: "R s (s\<lparr>s_data := d\<rparr>)"
    and called: "R s (fst (sys_call sys k s))"
begin

lemma step_put_char: "R s (put_char c s)"
  using printed [OF fputc_appends] by (simp add: put_char_def uputchar_def)

lemma step_put_string: "R s (put_string fd str s)"
  using printed [OF fputs_appends] by (simp add: put_string_def)

lemmas session_steps [simp] = related_refl step_put_char step_put_string called

lemma print_rel: "print_fd fd fmt ap s = Some t \<Longrightarrow> R s t"
  by (auto simp: print_fd_def intro: printed dest: fprintf_appends)

lemma refuse_rel: "refuse msg s = Some (t, r) \<Longrightarrow> R s t" "R s (fst (refuse_puts msg s))"
  by (auto simp: refuse_def refuse_puts_def print_rel)

lemma scan_rel: "scan_int str s = Some (t, v) \<Longrightarrow> R s t"
  by (auto simp: scan_int_def sscanf_def vsscanf_def intro: printed dest: scan_loop_appends split: option.splits prod.splits)

lemma scans_rel: "scan_ints argv s = Some (t, vs) \<Longrightarrow> R s t"
proof (induction argv arbitrary: s t vs)
  case (Cons a argv)
  then show ?case by (auto split: option.splits prod.splits dest!: scan_rel) (metis related_trans)+
qed simp

lemma echo_rel: "echo argv s = Some (t, r) \<Longrightarrow> R s t"
proof -
  have loop: "echo_loop argv s = Some t \<Longrightarrow> R s t" for argv s t
  proof (induction argv arbitrary: s)
    case (Cons a argv)
    then show ?case
      by (auto simp: option_bind_Some_iff split: if_splits dest!: print_rel) (metis related_trans)+
  qed simp
  assume "echo argv s = Some (t, r)"
  then show ?thesis using loop [of argv s] by (auto simp: echo_def intro: related_trans)
qed

lemma lines_rel: "print_lines ls s = Some t \<Longrightarrow> R s t"
  by (induction ls arbitrary: s) (auto simp: option_bind_Some_iff dest!: print_rel intro: related_trans)

lemma help_all_rel: "help_all cs s = Some t \<Longrightarrow> R s t"
proof (induction cs arbitrary: s)
  case (Cons c cs)
  then show ?case
    by (cases c) (auto simp: option_bind_Some_iff dest!: print_rel intro: related_trans)
qed simp

lemma refuse_eq_rel: "refuse_puts msg s = (t, r) \<Longrightarrow> R s t"
  using refuse_rel(2) [of s msg] by simp

lemma help_rel: "cmd_help argv s = Some (t, r) \<Longrightarrow> R s t"
  by (auto simp: cmd_help_def option_bind_Some_iff refuse_rel
      split: if_splits option.splits dest!: refuse_eq_rel print_rel lines_rel help_all_rel
      intro: related_trans)

lemma call_rel: "sys_call sys k s = (t, r) \<Longrightarrow> R s t"
  using called [of s sys k] by simp

lemma exit_rel: "R s (exit_call code s)"
  using called [of s undefined "Call_exit code"] by (simp add: sys_call_def exit_call_def)

lemma calls_rel:
  "cmd_clear sys argv s = Some (t, r) \<Longrightarrow> R s t"
  "cmd_exit argv s = Some (t, r) \<Longrightarrow> R s t"
  "cmd_time sys argv s = Some (t, r) \<Longrightarrow> R s t"
  "cmd_date sys argv s = Some (t, r) \<Longrightarrow> R s t"
  by (auto simp: cmd_clear_def cmd_exit_def cmd_time_def cmd_date_def
      split: if_splits dest!: refuse_eq_rel call_rel print_rel)
    (metis called exit_rel fst_conv related_trans)+

lemma set_rel:
  assumes "cmd_set_time sys argv s = Some (t, r) \<or> cmd_set_date sys argv s = Some (t, r)"
  shows "R s t"
proof -
  have step: "scan_ints argv s = Some (s', vs) \<Longrightarrow> R s' t \<Longrightarrow> R s t" for s' vs
    by (auto dest: scans_rel intro: related_trans)
  show ?thesis
    using assms
    by (auto simp: cmd_set_time_def cmd_set_date_def split: if_splits option.splits prod.splits list.splits
        dest!: refuse_rel(1) call_rel intro: step)
qed

lemma sleep_rel: "sleep sys argv s = Some (t, r) \<Longrightarrow> R s t"
  by (auto simp: sleep_def split: if_splits option.splits prod.splits
      dest!: refuse_rel(1) call_rel print_rel scan_rel intro: related_trans)

lemma printf_loop_rel: "printf_loop fmt args s = Some (t, r) \<Longrightarrow> R s t"
proof (induction fmt args s arbitrary: t r rule: printf_loop.induct)
  case (2 c fmt args s)
  have step: "R s s' \<Longrightarrow> R s' t \<Longrightarrow> R s t" for s' by (rule related_trans)
  show ?case
  proof (cases "c = 37")
    case False
    then obtain str where str: "check_special_characters (c # fmt) = Some str"
      "printf_loop (tl str) args (put_char (hd str) s) = Some (t, r)" using "2.prems" by (auto split: option.splits)
    show ?thesis by (rule step [OF step_put_char "2.IH"(4) [OF False str]])
  next
    case True
    show ?thesis
    proof (cases args)
      case Nil
      then show ?thesis using True "2.prems" by (auto dest: refuse_rel(1))
    next
      case (Cons arg rest)
      consider (s) "char_at fmt = 115" | (d) "char_at fmt = 100" | (c) "char_at fmt = 99"
        | (other) "char_at fmt \<noteq> 115" "char_at fmt \<noteq> 100" "char_at fmt \<noteq> 99" by blast
      then show ?thesis
      proof cases
        case s
        then have "printf_loop (tl fmt) rest (put_string STDOUT arg s) = Some (t, r)" using True Cons "2.prems" by simp
        then show ?thesis by (intro step [OF step_put_string "2.IH"(1) [OF True Cons s]])
      next
        case d
        then obtain s' v where v: "scan_int arg s = Some (s', v)" using True Cons "2.prems" by (auto split: option.splits)
        have scan: "R s s'" by (rule scan_rel [OF v])
        show ?thesis
        proof (cases v)
          case None
          then have "R s' t" using True Cons d v "2.prems" by (auto dest: print_rel)
          then show ?thesis by (rule step [OF scan])
        next
          case (Some n)
          obtain s'' where s'': "print_fd STDOUT (str_bytes ''%d'') [IntArg n] s' = Some s''"
            "printf_loop (tl fmt) rest s'' = Some (t, r)"
            using True Cons d v Some "2.prems" by (auto split: option.splits)
          have "R s'' t" using "2.IH"(2) [OF True Cons _ d v _ Some s''] d by simp
          then show ?thesis using scan print_rel [OF s''(1)] by (metis related_trans)
        qed
      next
        case c
        then have "printf_loop (tl fmt) rest (put_char (char_at arg) s) = Some (t, r)" using True Cons "2.prems" by simp
        then show ?thesis using "2.IH"(3) [OF True Cons _ _ c] c by (intro step [OF step_put_char]) simp
      next
        case other
        then show ?thesis using True Cons "2.prems" by (auto dest: print_rel)
      qed
    qed
  qed
qed simp

lemma printf_rel: "cmd_printf argv s = Some (t, r) \<Longrightarrow> R s t"
  by (auto simp: cmd_printf_def split: list.splits dest: printf_loop_rel)

lemma draw_rel: "R s (draw_fractal sys ds (video_mode sys s))"
proof -
  have "R u (draw_fractal sys ds u)" for u
  proof (induction ds arbitrary: u)
    case (Cons d ds)
    then show ?case by (cases d) (auto simp: draw_fractal_def intro: related_trans [OF called])
  qed (simp add: draw_fractal_def)
  then show ?thesis unfolding video_mode_def by (rule related_trans [OF called])
qed

lemma fractal_loop_rel: "fractal_loop sys s = Some (t, r) \<Longrightarrow> R s t"
proof (induction "length (s_data s)" arbitrary: s rule: less_induct)
  case less
  obtain input out st args where scan: "fscanf STDDATA (s_data s) (s_out s) (replicate MAX_SIZE 0) parameters_format =
      Some (input, out, st, args)" using less.prems by (subst (asm) fractal_loop.simps) (auto split: option.splits)
  let ?s = "s\<lparr>s_data := input, s_out := out\<rparr>"
  have "extends (s_out s) out" using scan by (cases st; auto dest: fscanf_appends)
  then have s: "R s ?s" by (intro related_trans [OF consumed [of s input] printed]) simp
  show ?case
  proof (cases "args = 8 \<and> \<not> name_overflows st")
    case True
    then obtain nm iter r1 g1 b1 r2 g2 b2 where
      v: "st = [SStr nm, SInt iter, SInt r1, SInt g1, SInt b1, SInt r2, SInt g2, SInt b2]"
      using less.prems scan
      by (subst (asm) fractal_loop.simps) (simp split: list.splits stored.splits)
    let ?ds = "mandelbrot iter (ucast r1) (ucast g1) (ucast b1) (ucast r2) (ucast g2) (ucast b2)"
    have rec: "fractal_loop sys (draw_fractal sys ?ds (video_mode sys ?s)) = Some (t, r)"
      using less.prems scan True v by (subst (asm) fractal_loop.simps) simp
    have "length input < length (s_data s)" using scan by (auto simp: fscanf_def dest: vfscanf_shorter)
    then have "R (draw_fractal sys ?ds (video_mode sys ?s)) t" by (intro less.hyps [OF _ rec]) simp
    with s draw_rel show ?thesis by (blast intro: related_trans)
  next
    case False
    have "(if name_overflows st then None else refuse ''Wrong format!'' ?s) = Some (t, r)"
      using less.prems scan False by (subst (asm) fractal_loop.simps) (cases "name_overflows st"; simp)
    then have "R ?s t" by (auto split: if_splits dest: refuse_rel(1))
    with s show ?thesis by (rule related_trans)
  qed
qed

lemma fractal_rel: "fractal sys argv s = Some (t, r) \<Longrightarrow> R s t"
proof -
  assume "fractal sys argv s = Some (t, r)"
  then show ?thesis using draw_rel
    by (auto simp: fractal_def simp del: print_lines.simps split: if_splits dest!: refuse_eq_rel lines_rel print_rel fractal_loop_rel)
qed

lemma run_rel:
  assumes "\<forall>i argv s t r. other i argv s = Some (t, r) \<longrightarrow> R s t"
    and "run_command sys other i argv s = Some (t, r)"
  shows "R s t"
proof -
  have o: "other i argv s = Some (t, r) \<Longrightarrow> R s t" using assms(1) by blast
  show ?thesis
    using assms(2)
    by (cases i)
      (auto simp: run_command_def intro: o echo_rel help_rel calls_rel set_rel sleep_rel
        printf_rel fractal_rel)
qed

lemma on_session_rel:
  assumes "on_session f sh = Some sh'" "\<And>t. f (sh_session sh) = Some t \<Longrightarrow> R (sh_session sh) t"
  shows "R (sh_session sh) (sh_session sh')"
  using assms by (auto simp: on_session_def)

lemma prompt_rel: "prompt sh = Some sh' \<Longrightarrow> R (sh_session sh) (sh_session sh')"
  unfolding prompt_def by (erule on_session_rel) (rule print_rel)

lemma sh_putchar_rel [simp]: "R (sh_session sh) (sh_session (sh_putchar c sh))"
  by (simp add: sh_putchar_def)

lemma command_loop_rel:
  assumes "\<forall>i argv s t r. other i argv s = Some (t, r) \<longrightarrow> R s t"
  shows "command_loop sys other cs sh = Some sh' \<Longrightarrow> R (sh_session sh) (sh_session sh')"
proof (induction cs)
  case Nil
  then show ?case by (auto elim!: on_session_rel intro: print_rel)
next
  case (Cons c cs)
  then show ?case
    by (cases c) (auto simp: Let_def split: if_splits option.splits prod.splits
        elim!: on_session_rel intro: print_rel run_rel [OF assms])
qed

lemma update_shell_rel:
  assumes "\<forall>i argv s t r. other i argv s = Some (t, r) \<longrightarrow> R s t" "update_shell sys other key sh = Some sh'"
  shows "R (sh_session sh) (sh_session sh')"
proof -
  have ex: "R (sh_session sh) (sh_session sh2)" if "execute_command sys other sh = Some sh2" for sh sh2
    using that command_loop_rel [OF assms(1)] by (auto simp: execute_command_def split: if_splits)
  show ?thesis
  proof (cases "key = 10")
    case True
    let ?sh1 = "if current_pos sh \<noteq> 0 then sh_putchar 10 sh else sh"
    obtain sh2 where sh2: "execute_command sys other ?sh1 = Some sh2"
      "sh' = sh2 \<or> (\<exists>sh3. prompt sh2 = Some sh3 \<and> sh' = clean_buffer sh3)"
      using assms(2) True by (auto simp: update_shell_def Let_def simp del: neq0_conv split: option.splits if_splits)
    have "R (sh_session sh) (sh_session sh2)" using ex [OF sh2(1)] by (rule related_trans [rotated]) simp
    then show ?thesis using sh2(2) prompt_rel by (auto simp: clean_buffer_def intro: related_trans)
  next
    case False
    then show ?thesis using assms(2) by (auto simp: update_shell_def Let_def split: if_splits)
  qed
qed

lemma type_keys_rel:
  assumes "\<forall>i argv s t r. other i argv s = Some (t, r) \<longrightarrow> R s t"
  shows "type_keys sys other keys sh = Some sh' \<Longrightarrow> R (sh_session sh) (sh_session sh')"
proof (induction keys arbitrary: sh)
  case (Cons key keys)
  show ?case
  proof (cases "exited (sh_session sh)")
    case False
    with Cons.prems obtain sh1 where sh1: "update_shell sys other key sh = Some sh1" "type_keys sys other keys sh1 = Some sh'"
      by (auto split: bind_splits)
    show ?thesis by (rule related_trans [OF update_shell_rel [OF assms sh1(1)] Cons.IH [OF sh1(2)]])
  qed (use Cons.prems in simp)
qed simp

end

end
