(* ===== verification/Session.thy ===== *)
theory Session
  imports Cmdrel
begin

text \<open>
  The user program, \<open>codeModule.c\<close>: the shell from the question for the name to the last key that has been
  typed. Its abstract counterpart is an interpreter of whole lines that knows nothing of the line buffer.
\<close>

section \<open>The program\<close>

text \<open>
  The loop of \<open>main\<close> has no end of its own; the result is the state after the keys that have come so far, or at the
  command that halts the machine.
\<close>

definition program_main ::
  "os \<Rightarrow> (command_id \<Rightarrow> command_fn) \<Rightarrow> u8 list \<Rightarrow> shell \<Rightarrow> shell option" where
  "program_main sys other input sh =
     (case init_shell input sh of
        None \<Rightarrow> None
      | Some (keys, sh') \<Rightarrow> type_keys sys other keys sh')"

section \<open>The interpreter of lines\<close>

text \<open>It stops at a line that halts the machine, and such a line has no prompt behind it.\<close>

definition say :: "u8 list \<Rightarrow> session \<Rightarrow> session" where
  "say text s = s\<lparr>s_out := s_out s @ map (Pair STDOUT) text\<rparr>"

definition session_line ::
  "os \<Rightarrow> (command_id \<Rightarrow> command_fn) \<Rightarrow> u8 list \<Rightarrow> session \<Rightarrow> session option" where
  "session_line sys other keys s =
     (let line = line_edit [] keys;
          word = takeWhile (\<lambda>x. \<not> blank x) line;
          rest = dropWhile (\<lambda>x. \<not> blank x) line;
          s1 = say (line_echo [] keys @ [10]) s
      in map_option (\<lambda>t. if exited t then t else prompted t)
           (if line = [] then Some s1
            else case find (\<lambda>c. cmd_name c = word) command_table of
                   None \<Rightarrow> Some (message ''Invalid command!'' s1)
                 | Some c \<Rightarrow> map_option fst (run_command sys other (cmd_id c) (take MAX_ARGS (words rest)) s1)))"

fun session_lines ::
  "os \<Rightarrow> (command_id \<Rightarrow> command_fn) \<Rightarrow> u8 list list \<Rightarrow> session \<Rightarrow> session option" where
  "session_lines sys other [] s = Some s"
| "session_lines sys other (keys # lines) s =
     (if exited s then Some s else Option.bind (session_line sys other keys s) (session_lines sys other lines))"

section \<open>No command touches the table or the name\<close>

definition same_user :: "session \<Rightarrow> session \<Rightarrow> bool" where
  "same_user s t \<longleftrightarrow> s_commands t = s_commands s \<and> s_username t = s_username s"

lemma same_user_refl [simp]: "same_user s s"
  by (simp add: same_user_def)

lemma same_user_trans: "same_user s t \<Longrightarrow> same_user t u \<Longrightarrow> same_user s u"
  by (simp add: same_user_def)

lemma same_user_simps [simp]:
  "same_user s (put_char c s)" "same_user s (put_string fd str s)" "same_user s (fst (sys_call sys k s))"
  "same_user s (message msg s)" "same_user s (say text s)" "same_user s (prompted s)"
  by (simp_all add: same_user_def put_char_def put_string_def sys_call_def message_def say_def prompted_def)

interpretation user: session_relation same_user
  by unfold_locales (simp_all add: same_user_def sys_call_def)

section \<open>A line at a time\<close>

definition fresh_line :: "session \<Rightarrow> shell" where
  "fresh_line s = \<lparr>sh_buffer = replicate LINE_SIZE 0, current_pos = 0, sh_session = s\<rparr>"

lemma clean_fresh: "clean_buffer sh = fresh_line (sh_session sh)"
  by (simp add: clean_buffer_def fresh_line_def)

lemma ready_fresh:
  "s_commands s = map Some command_table \<Longrightarrow> 0 \<notin> set (s_username s) \<Longrightarrow> ready (fresh_line s)"
  by (simp add: ready_def fresh_line_def holds_line_def LINE_SIZE_def command_table_init)

lemma ready_same_user: "ready sh \<Longrightarrow> same_user (sh_session sh) s \<Longrightarrow> ready (fresh_line s)"
  by (intro ready_fresh) (simp_all add: ready_def same_user_def command_table_init)

lemma session_echoing: "sh_session (echoing cs sh) = say cs (sh_session sh)"
  by (simp add: echoing_def say_def)

lemma typed_append:
  "type_keys sys other (xs @ ys) sh = Option.bind (type_keys sys other xs sh) (type_keys sys other ys)"
proof (induction xs arbitrary: sh)
  case (Cons x xs)
  have "exited (sh_session sh) \<Longrightarrow> type_keys sys other ys sh = Some sh" by (cases ys) simp_all
  with Cons show ?case by (cases "update_shell sys other x sh") simp_all
qed simp

lemma session_line_same_user:
  assumes "\<forall>i argv s t r. other i argv s = Some (t, r) \<longrightarrow> same_user s t" "session_line sys other keys s = Some t"
  shows "same_user s t"
proof -
  have "same_user (say (line_echo [] keys @ [10]) s) u \<Longrightarrow> same_user s (prompted u)" for u
    by (metis same_user_simps(5,6) same_user_trans)
  moreover have "same_user (say (line_echo [] keys @ [10]) s) u \<Longrightarrow> same_user s u" for u
    by (metis same_user_simps(5) same_user_trans)
  ultimately show ?thesis
    using assms(2) user.run_rel [OF assms(1)]
    by (auto simp: session_line_def Let_def split: if_splits option.splits)
qed

lemma enter_prompts:
  assumes "0 \<notin> set (s_username (sh_session sh))"
  shows "map_option clean_buffer (prompt sh) = Some (fresh_line (prompted (sh_session sh)))"
  using assms by (simp add: prompt_prompted clean_fresh)

lemma exited_say [simp]: "exited (say text s) = exited s" "exited (message msg s) = exited s" "exited (prompted s) = exited s"
  by (simp_all add: say_def message_def prompted_def)

lemma empty_line:
  assumes "ready sh" "\<not> exited (sh_session sh)" "\<forall>c \<in> set keys. sint c > 0 \<and> c \<noteq> 10" "line_within 254 [] keys"
    and "line_edit [] keys = []"
  shows "type_keys sys other (keys @ [10]) sh = Some (fresh_line (prompted (say (line_echo [] keys @ [10]) (sh_session sh))))"
proof -
  have within: "line_within n acc ks \<Longrightarrow> line_within (Suc n) acc ks" for n acc ks
    by (induction n acc ks rule: line_within.induct) auto
  obtain sh0 where sh0: "type_keys sys other (keys @ [10]) sh = type_keys sys other [10] sh0"
    "holds_line sh0 []" "sh_session sh0 = sh_session (echoing (line_echo [] keys) sh)"
    using type_line [of keys sh "[]" sys other "[10]"] assms within [of 254 "[]" keys]
    by (auto simp: ready_def LINE_SIZE_def)
  have "sh_buffer sh0 = replicate (Suc 255) 0" "current_pos sh0 = 0"
    using sh0(2) by (simp_all add: holds_line_def LINE_SIZE_def del: replicate_Suc)
  then have "sh_buffer sh0 = 0 # replicate 255 0" "current_pos sh0 = 0" by (simp_all only: replicate_Suc)
  then have "is_empty sh0" "current_pos sh0 = 0" by (simp_all add: is_empty_def char_at_def)
  moreover have ex: "\<not> exited (sh_session (echoing cs sh0))" for cs
    using assms(2) sh0(3) by (simp add: session_echoing)
  ultimately have "update_shell sys other 10 sh0 = map_option clean_buffer (prompt (echoing [10] sh0))"
    by (simp add: update_shell_def execute_command_def sh_putchar_echo)
  moreover have "0 \<notin> set (s_username (sh_session (echoing [10] sh0)))"
    using assms(1) sh0(3) by (simp add: ready_def echoing_def)
  moreover have "sh_session (echoing [10] sh0) = say (line_echo [] keys @ [10]) (sh_session sh)"
    using sh0(3) by (simp add: session_echoing say_def)
  moreover have "\<not> exited (sh_session sh0)" using assms(2) sh0(3) by (simp add: session_echoing)
  ultimately show ?thesis using sh0(1) by (simp add: type_one enter_prompts del: type_keys.simps)
qed

text \<open>What the shell holds after a line: nothing, unless it has halted the machine in the middle of it.\<close>

definition after_line :: "session option \<Rightarrow> shell option \<Rightarrow> bool" where
  "after_line t x \<longleftrightarrow> map_option sh_session x = t \<and>
     (\<forall>sh. x = Some sh \<longrightarrow> \<not> exited (sh_session sh) \<longrightarrow> sh = fresh_line (sh_session sh))"

lemma after_line_simps [simp]:
  "after_line None x \<longleftrightarrow> x = None" "after_line (Some t) (Some (fresh_line t))"
  by (auto simp: after_line_def fresh_line_def)

lemma after_prompt:
  assumes "0 \<notin> set (s_username (sh_session sh))"
  shows "after_line (Some (if exited (sh_session sh) then sh_session sh else prompted (sh_session sh)))
    (if exited (sh_session sh) then Some sh else map_option clean_buffer (prompt sh))"
  using assms by (simp add: enter_prompts) (simp add: after_line_def)

lemma line_session:
  assumes "ready sh" "\<not> exited (sh_session sh)" "\<forall>c \<in> set keys. sint c > 0 \<and> c \<noteq> 10" "line_within 254 [] keys"
    and keeps: "\<forall>i argv s t r. other i argv s = Some (t, r) \<longrightarrow> same_user s t"
  shows "after_line (session_line sys other keys (sh_session sh)) (type_keys sys other (keys @ [10]) sh)"
proof (cases "line_edit [] keys = []")
  case True
  then show ?thesis using empty_line [OF assms(1-4)] assms(2) by (simp add: session_line_def del: type_keys.simps)
next
  case False
  let ?line = "line_edit [] keys" and ?s1 = "say (line_echo [] keys @ [10]) (sh_session sh)"
  let ?word = "takeWhile (\<lambda>x. \<not> blank x) ?line" and ?rest = "dropWhile (\<lambda>x. \<not> blank x) ?line"
  from type_enter [OF assms(1-4) False] obtain sh1 where sh1: "holds_line sh1 ?line"
    "0 \<notin> set ?line" "length ?line < 255" "sh_session sh1 = ?s1"
    "type_keys sys other (keys @ [10]) sh = (case command_loop sys other (map Some command_table) sh1 of
       None \<Rightarrow> None
     | Some sh2 \<Rightarrow> if exited (sh_session sh2) then Some sh2 else map_option clean_buffer (prompt sh2))"
    unfolding session_echoing .
  have name: "0 \<notin> set (s_username t)" if "same_user ?s1 t" for t
    using that assms(1) by (simp add: ready_def same_user_def say_def)
  have rest: "?rest = [] \<or> blank (hd ?rest)" using hd_dropWhile [of "\<lambda>x. \<not> blank x" ?line] by auto
  show ?thesis
  proof (cases "find (\<lambda>c. cmd_name c = ?word) command_table")
    case None
    then have "?word \<notin> cmd_name ` set command_table" by (auto simp: find_None_iff)
    then have "command_loop sys other (map Some command_table) sh1 =
        Some (sh1\<lparr>sh_session := message ''Invalid command!'' ?s1\<rparr>)"
      using line_refused [OF sh1(1-3), of ?word ?rest] rest sh1(4) by (auto dest: set_takeWhileD)
    then show ?thesis
      using None False sh1(5) assms(2) after_prompt [of "sh1\<lparr>sh_session := message ''Invalid command!'' ?s1\<rparr>"]
        name [of "message ''Invalid command!'' ?s1"]
      by (simp add: session_line_def Let_def del: type_keys.simps)
  next
    case (Some c)
    then have c: "c \<in> set command_table" "?line = cmd_name c @ ?rest" by (auto simp: find_Some_iff)
    obtain b where b: "command_loop sys other (map Some command_table) sh1 =
        map_option (\<lambda>(s, r). sh1\<lparr>sh_buffer := b, sh_session := s\<rparr>)
          (run_command sys other (cmd_id c) (take MAX_ARGS (words ?rest)) ?s1)"
      using line_runs [OF sh1(1-3) c rest] sh1(4) by auto
    show ?thesis
    proof (cases "run_command sys other (cmd_id c) (take MAX_ARGS (words ?rest)) ?s1")
      case None
      then show ?thesis using Some False sh1(5) b by (simp add: session_line_def Let_def del: type_keys.simps)
    next
      case run: (Some r)
      then have "0 \<notin> set (s_username (fst r))" using name user.run_rel [OF keeps] by (cases r) auto
      then show ?thesis
        using run Some False sh1(5) b after_prompt [of "sh1\<lparr>sh_buffer := b, sh_session := fst r\<rparr>"]
        by (cases "exited (fst r)") (simp_all add: session_line_def Let_def split_def del: type_keys.simps)
    qed
  qed
qed

lemma lines_session:
  assumes "ready sh" "sh = fresh_line s" "\<forall>keys \<in> set lines. (\<forall>c \<in> set keys. sint c > 0 \<and> c \<noteq> 10) \<and> line_within 254 [] keys"
    and keeps: "\<forall>i argv s t r. other i argv s = Some (t, r) \<longrightarrow> same_user s t"
  shows "after_line (session_lines sys other lines s) (type_keys sys other (concat (map (\<lambda>keys. keys @ [10]) lines)) sh)"
  using assms(1-3)
proof (induction lines arbitrary: sh s)
  case (Cons keys lines)
  have s: "sh_session sh = s" using Cons.prems(2) by (simp add: fresh_line_def)
  have stop: "exited (sh_session sh1) \<Longrightarrow> type_keys sys other ks sh1 = Some sh1" for ks sh1 by (cases ks) simp_all
  have stop2: "exited s1 \<Longrightarrow> session_lines sys other ls s1 = Some s1" for ls s1 by (cases ls) simp_all
  show ?case
  proof (cases "exited s")
    case True
    then show ?thesis using Cons.prems(2) stop [of sh] s by (simp del: type_keys.simps)
  next
    case False
    have one: "after_line (session_line sys other keys s) (type_keys sys other (keys @ [10]) sh)"
      using line_session [OF Cons.prems(1) _ _ _ keeps] Cons.prems(3) s False by simp
    have app: "type_keys sys other (concat (map (\<lambda>keys. keys @ [10]) (keys # lines))) sh =
        Option.bind (type_keys sys other (keys @ [10]) sh) (type_keys sys other (concat (map (\<lambda>keys. keys @ [10]) lines)))"
      by (simp only: list.map concat.simps typed_append)
    show ?thesis
    proof (cases "session_line sys other keys s")
      case None
      then show ?thesis using one False unfolding app by simp
    next
      case (Some t)
      then obtain sh1 where sh1: "type_keys sys other (keys @ [10]) sh = Some sh1" "sh_session sh1 = t"
        "\<not> exited t \<longrightarrow> sh1 = fresh_line t" using one by (auto simp: after_line_def)
      show ?thesis
      proof (cases "exited t")
        case True
        then show ?thesis using Some sh1 False stop [of sh1] stop2 [of t] unfolding app by (simp add: after_line_def)
      next
        case no: False
        have "same_user (sh_session sh) t" unfolding s by (rule session_line_same_user [OF keeps Some])
        then have "ready (fresh_line t)" by (rule ready_same_user [OF Cons.prems(1)])
        from Cons.IH [OF this refl] Cons.prems(3) Some sh1 no False show ?thesis unfolding app by simp
      qed
    qed
  qed
qed simp

section \<open>The whole program\<close>

definition greeted :: "u8 list \<Rightarrow> session \<Rightarrow> session" where
  "greeted u s =
     prompted ((say (str_bytes ''Please enter your username (up to 20 characters): '' @ u @ [10]) s)
       \<lparr>s_username := u, s_commands := map Some command_table\<rparr>)"

lemma init_shell_greeted:
  assumes "\<forall>c \<in> set u. sint c > 0 \<and> \<not> blank c \<and> c \<noteq> 8" "u \<noteq> []" "length u < 20"
    and "s_commands (sh_session sh) = replicate COMMANDS_SIZE None"
  shows "init_shell (u @ 10 # input) sh = Some (input, fresh_line (greeted u (sh_session sh)))"
proof -
  have u: "0 \<notin> set u" using assms(1) by auto
  show ?thesis
    using username_read [OF assms(1,2), of input "sh_session sh"] assms(3,4) u
    by (simp add: init_shell_def sh_putchar_echo prompt_prompted clean_fresh command_table_init)
      (simp add: greeted_def fresh_line_def echoing_def say_def prompted_def prompt_prompted)
qed

text \<open>
  C6: the program from its start: after a name of 1 to 19 characters without blanks, the keys of any number of
  lines, none of which grows beyond 254 characters, do what the interpreter of lines does with these lines, whatever
  the test programs do to the screen and the kernel. Backspaces, the line buffer, its terminators and the splitting in
  place are not seen in the result, and no line leaves anything behind in the buffer. The interpreter runs the first word
  of an edited line, if it names a command, on the next ten words. A line that runs \<open>exit\<close> is the last one: the
  machine is halted, and neither a prompt nor any later line has an effect.
\<close>

theorem program_session:
  assumes "s_commands (sh_session sh) = replicate COMMANDS_SIZE None" "\<not> exited (sh_session sh)"
    and "\<forall>c \<in> set u. sint c > 0 \<and> \<not> blank c \<and> c \<noteq> 8" "u \<noteq> []" "length u < 20"
    and "\<forall>keys \<in> set lines. (\<forall>c \<in> set keys. sint c > 0 \<and> c \<noteq> 10) \<and> line_within 254 [] keys"
    and "\<forall>i argv s t r. other i argv s = Some (t, r) \<longrightarrow> same_user s t"
  shows "case program_main sys other (u @ 10 # concat (map (\<lambda>keys. keys @ [10]) lines)) sh of
      None \<Rightarrow> session_lines sys other lines (greeted u (sh_session sh)) = None
    | Some sh' \<Rightarrow> session_lines sys other lines (greeted u (sh_session sh)) = Some (sh_session sh') \<and>
        (if exited (sh_session sh') then True else sh' = fresh_line (sh_session sh'))"
proof -
  have "0 \<notin> set u" using assms(3) by auto
  then have "ready (fresh_line (greeted u (sh_session sh)))"
    by (intro ready_fresh) (simp_all add: greeted_def prompted_def)
  from lines_session [OF this refl assms(6,7), of sys] show ?thesis
    by (auto simp: after_line_def program_main_def init_shell_greeted [OF assms(3-5,1)] split: option.split)
qed

text \<open>A name, an empty line, \<open>clear\<close> with a mistyped key taken back, \<open>exit\<close>, and a \<open>clear\<close> that is not read any more.\<close>

theorem program_session_witness:
  "\<exists>sh'. program_main sample_os no_other
        ([98, 111, 98, 10] @ [10] @ [99, 108, 120, 8, 101, 97, 114, 10] @ [101, 120, 105, 116, 10] @ [99, 108, 101, 97, 114, 10])
      \<lparr>sh_buffer = [], current_pos = 0, sh_session = sample_session\<lparr>s_commands := replicate COMMANDS_SIZE None\<rparr>\<rparr> =
      Some sh' \<and> map snd (s_calls (sh_session sh')) = [Call_clear, Call_exit 0] \<and>
      s_username (sh_session sh') = [98, 111, 98]"
proof -
  let ?sh = "\<lparr>sh_buffer = [], current_pos = 0, sh_session = sample_session\<lparr>s_commands := replicate COMMANDS_SIZE None\<rparr>\<rparr> :: shell"
  let ?u = "[98, 111, 98] :: u8 list"
  let ?lines = "[[], [99, 108, 120, 8, 101, 97, 114], [101, 120, 105, 116], [99, 108, 101, 97, 114]] :: u8 list list"
  have u: "\<forall>c \<in> set ?u. sint c > 0 \<and> \<not> blank c \<and> c \<noteq> 8" "?u \<noteq> []" "length ?u < 20"
    by (simp_all add: blank_def isspace_def)
  have l: "\<forall>keys \<in> set ?lines. (\<forall>c \<in> set keys. sint c > 0 \<and> c \<noteq> 10) \<and> line_within 254 [] keys" by simp
  have o: "\<forall>i argv s t r. no_other i argv s = Some (t, r) \<longrightarrow> same_user s t" by (simp add: no_other_def)
  have s: "s_commands (sh_session ?sh) = replicate COMMANDS_SIZE None" "\<not> exited (sh_session ?sh)"
    by (simp_all add: exited_def sample_session_def)
  have f: "find (\<lambda>c. cmd_name c = [99, 108, 101, 97, 114]) command_table =
      Some \<lparr>cmd_id = CLEAR, cmd_name = str_bytes ''clear'', cmd_desc = str_bytes ''clear''\<rparr>"
    "find (\<lambda>c. cmd_name c = [101, 120, 105, 116]) command_table =
      Some \<lparr>cmd_id = EXIT, cmd_name = str_bytes ''exit'', cmd_desc = str_bytes ''exit''\<rparr>" by code_simp+
  obtain t where t: "session_lines sample_os no_other ?lines (greeted ?u (sh_session ?sh)) = Some t"
    "map snd (s_calls t) = [Call_clear, Call_exit 0]" "s_username t = [98, 111, 98]"
    using f
    by (simp add: session_line_def Let_def blank_def isspace_def run_command_def cmd_clear_def cmd_exit_def words.simps greeted_def
        prompted_def say_def sys_call_def exit_call_def exited_def sample_session_def)
  from program_session [OF s u l o, of sample_os] t show ?thesis by (auto split: option.splits)
qed

end
