(* ===== verification/Terminal.thy ===== *)
theory Terminal
  imports Session Chario
begin

text \<open>
  The program on the machine: the loop of \<open>codeModule.c\<close> with its keys from the keyboard and its output and calls
  carried out by the kernel, from one key to the next. The shell's step is that of \<open>Shell\<close>, which notes what it prints
  and calls; here the notes are executed before the next key is read.
\<close>

section \<open>What a screen shows\<close>

definition same_screen :: "video \<Rightarrow> video \<Rightarrow> bool" where
  "same_screen v w \<longleftrightarrow> current_loc w = current_loc v \<and> (\<forall>j < SCREENSIZE. peek w j = peek v j)"

lemma same_screen_refl [simp]: "same_screen v v"
  by (simp add: same_screen_def)

lemma same_screen_trans: "same_screen u v \<Longrightarrow> same_screen v w \<Longrightarrow> same_screen u w"
  by (simp add: same_screen_def)

lemma same_screen_inv: "same_screen v w \<Longrightarrow> video_inv v \<Longrightarrow> video_inv w"
  by (simp add: same_screen_def video_inv_def)

lemma same_screen_loc:
  "same_screen v w \<Longrightarrow> same_screen (v\<lparr>current_loc := l\<rparr>) (w\<lparr>current_loc := l\<rparr>)"
  by (simp add: same_screen_def)

lemma same_screen_scroll: "same_screen v w \<Longrightarrow> same_screen (scroll v) (scroll w)"
  by (auto simp: same_screen_def peek_scroll screensize) (simp_all add: scroll_def)

lemma same_screen_finish: "same_screen v w \<Longrightarrow> same_screen (finish_putchar v) (finish_putchar w)"
proof -
  assume s: "same_screen v w"
  have u: "same_screen (update_cursor v) (update_cursor w) = same_screen v w" for v w by (simp add: same_screen_def)
  have "current_loc w = current_loc v" using s by (simp add: same_screen_def)
  with s same_screen_scroll [OF s] show ?thesis by (simp add: finish_putchar_def u)
qed

lemma same_screen_plain:
  assumes "same_screen v w" "video_inv v" "ch \<noteq> 8"
  obtains v' w' where "putchar_plain v ch attr = Some v'" "putchar_plain w ch attr = Some w'" "same_screen v' w'" "video_inv v'"
proof (cases "ch = 10")
  case True
  have "putchar_plain w 10 attr = Some (finish_putchar (w\<lparr>current_loc := current_loc v + (of_nat (COLS * 2) - current_loc v mod of_nat (COLS * 2))\<rparr>))"
    using assms(1) by (simp add: putchar_plain_def Let_def same_screen_def)
  moreover have "putchar_plain v 10 attr = Some (finish_putchar (v\<lparr>current_loc := current_loc v + (of_nat (COLS * 2) - current_loc v mod of_nat (COLS * 2))\<rparr>))"
    by (simp add: putchar_plain_def Let_def)
  ultimately show thesis
    using True that same_screen_finish [OF same_screen_loc [OF assms(1)]] plain_newline [OF assms(2), of attr] by auto
next
  case False
  have w: "video_inv w" by (rule same_screen_inv [OF assms(1,2)])
  have l: "unat (current_loc v) < 4000" using assms(2) by (simp add: video_inv_def screensize)
  have eq: "current_loc w = current_loc v" using assms(1) by (simp add: same_screen_def)
  have "same_screen (put_cell v ch attr) (put_cell w ch attr)"
    using assms(1) put_cell_spec(3) [OF assms(2), of _ ch attr] put_cell_spec(3) [OF w, of _ ch attr] eq
    by (auto simp: same_screen_def screensize) (simp add: put_cell_def)
  from same_screen_finish [OF this] show thesis
    using that plain_cell [OF assms(2,3) False] plain_cell [OF w assms(3) False] put_cell_finish [OF assms(2)] by blast
qed

lemma same_screen_putchar:
  assumes "same_screen v w" "video_inv v" "ch \<noteq> 8"
  shows "\<exists>v' w'. putchar v ch attr = Some v' \<and> putchar w ch attr = Some w' \<and> same_screen v' w' \<and> video_inv v'"
proof (cases "ch = 9")
  case True
  obtain v1 w1 where 1: "putchar_plain v SPACE attr = Some v1" "putchar_plain w SPACE attr = Some w1" "same_screen v1 w1" "video_inv v1"
    using same_screen_plain [OF assms(1,2), of SPACE attr] by auto
  obtain v2 w2 where 2: "putchar_plain v1 SPACE attr = Some v2" "putchar_plain w1 SPACE attr = Some w2" "same_screen v2 w2" "video_inv v2"
    using same_screen_plain [OF 1(3,4), of SPACE attr] by auto
  obtain v3 w3 where 3: "putchar_plain v2 SPACE attr = Some v3" "putchar_plain w2 SPACE attr = Some w3" "same_screen v3 w3" "video_inv v3"
    using same_screen_plain [OF 2(3,4), of SPACE attr] by auto
  obtain v4 w4 where 4: "putchar_plain v3 SPACE attr = Some v4" "putchar_plain w3 SPACE attr = Some w4" "same_screen v4 w4" "video_inv v4"
    using same_screen_plain [OF 3(3,4), of SPACE attr] by auto
  have "video_inv (finish_putchar v4)"
    using 4(4) finish_spec(1) [of v4 v4] by (simp add: video_inv_def screensize)
  then show ?thesis using True 1 2 3 4 same_screen_finish [OF 4(3)] by (simp add: putchar_def)
next
  case False
  obtain v' w' where "putchar_plain v ch attr = Some v'" "putchar_plain w ch attr = Some w'" "same_screen v' w'" "video_inv v'"
    by (rule same_screen_plain [OF assms])
  then show ?thesis using False by (simp add: putchar_def)
qed


lemma same_screen_clear: "same_screen (clear_console v) (clear_console w)" if "same_screen v w"
proof -
  have p: "peek (clear_console u) j = (if 160 \<le> j \<and> j < SCREENSIZE then (if even j then SPACE else LIGHT_GREY) else peek u j)"
    if "j < SCREENSIZE" for u j
    using that fill_loop_at [of 160 j] by (simp add: clear_console_def screen_layout)
  show ?thesis using that by (auto simp: same_screen_def p) (simp add: clear_console_def)
qed

section \<open>Reading leaves a screen without a clock as it is\<close>

definition quiet :: "machine \<Rightarrow> bool" where
  "quiet s \<longleftrightarrow> active (m_timer s) = []"

lemma quiet_tick: "machine_inv s \<Longrightarrow> quiet s \<Longrightarrow> serve Tick s = Some s' \<Longrightarrow> m_video s' = m_video s \<and> quiet s'"
  using timer_handler_spec [of "m_timer s"]
  by (auto simp: machine_inv_def quiet_def interrupt_def irqDispatcher_def routines_boot)

lemma quiet_serve:
  assumes "machine_inv s" "quiet s" "serve e s = Some s'"
  shows "m_video s' = m_video s \<and> quiet s'"
proof (cases e)
  case Tick
  with quiet_tick [OF assms(1,2)] assms(3) show ?thesis by blast
next
  case (Key status data)
  with key_spec [OF assms(1), of status data] assms(2,3) show ?thesis by (auto simp: quiet_def)
next
  case Step
  with assms(2,3) show ?thesis by simp
qed

lemma poke_off_screen:
  "a \<notin> region 0xB8000 SCREENSIZE \<Longrightarrow> same_screen v (v\<lparr>vmem := (vmem v)(a := b)\<rparr>)"
proof -
  assume a: "a \<notin> region 0xB8000 SCREENSIZE"
  have "vaddr j \<noteq> a" if "j < SCREENSIZE" for j
    using a that unat_of_nat_u64 [of j] by (auto simp: in_region_iff vaddr_def screen_layout)
  then show ?thesis by (simp add: same_screen_def peek_def)
qed

lemma stdin_loop_quiet:
  assumes "stdin_loop env s c 1 0 None = Some (s', i', env')" "machine_inv s" "quiet s" "c \<notin> region 0xB8000 SCREENSIZE"
  shows "same_screen (m_video s) (m_video s') \<and> quiet s'"
proof -
  let ?P = "\<lambda>t (i :: u32). machine_inv t \<and> quiet t \<and> same_screen (m_video s) (m_video t) \<and> (i = 0 \<or> i = 1)"
  have "?P s' 1 \<and> i' = 1"
  proof (rule stdin_loop_invariant [OF assms(1), where P = ?P])
    show "?P s 0" using assms(2,3) by simp
  next
    fix t u i e assume "?P t i" "serve e t = Some u"
    then show "?P u i" using serve_spec [of t e] quiet_serve [of t e u] by auto
  next
    fix t and i :: u32 assume "?P t i"
    then show "?P (t\<lparr>m_keyboard := clear_key (m_keyboard t)\<rparr>) i"
      using clear_key_inv by (simp add: machine_inv_def clock_only_def quiet_def)
  next
    fix t x and i :: u32 assume p: "?P t i" and "i <s 1"
    then have i: "i = 0" by (auto simp: word_sless_alt)
    have "same_screen (m_video s) (m_video (set_ram t ((ram t)(c := x))))"
      using p same_screen_trans [OF _ poke_off_screen [OF assms(4)]] by (simp add: set_ram_def)
    then show "?P (set_ram t ((ram t)(c + scast i := x))) (i + 1)"
      using p i inv_set_ram by (simp add: quiet_def set_ram_def)
  qed (simp_all add: word_sle_eq)
  then show ?thesis by blast
qed

lemma get_char_quiet:
  assumes "get_char 0 c es = Some (es', x)" "machine_inv (snd es)" "quiet (snd es)" "c \<notin> region 0xB8000 SCREENSIZE"
  shows "same_screen (m_video (snd es)) (m_video (snd es')) \<and> quiet (snd es')"
proof -
  obtain i where "stdin_loop (fst es) (snd es) c 1 0 None = Some (snd es', i, fst es')"
    using assms(1) user_fgetc_machine [OF assms(2), of 0 c "fst es"]
    by (auto simp: get_char_def sys_read_def read_stdin_def kernel_descriptors)
  from stdin_loop_quiet [OF this assms(2-4)] show ?thesis .
qed


section \<open>Printing and calling\<close>

text \<open>The character is a parameter, whose address on the stack is an argument.\<close>

definition user_fputc :: "nat \<Rightarrow> ptr \<Rightarrow> u8 \<Rightarrow> event list \<Rightarrow> machine \<Rightarrow> (machine \<times> u32 outcome \<times> event list) option" where
  "user_fputc fd c ch env s = user_write (of_nat fd) c 1 env (set_ram s ((ram s)(c := ch)))"

definition returned :: "(machine \<times> 'r outcome \<times> event list) option \<Rightarrow> (event list \<times> machine) option" where
  "returned r = (case r of Some (s, Returned x, env) \<Rightarrow> Some (env, s) | _ \<Rightarrow> None)"

definition halted :: "(machine \<times> 'r outcome \<times> event list) option \<Rightarrow> (event list \<times> machine) option" where
  "halted r = (case r of Some (s, Halted, env) \<Rightarrow> Some (env, s) | _ \<Rightarrow> None)"

text \<open>A call whose result the shell does not use; \<open>exit\<close> leaves a halted machine.\<close>

definition user_call :: "call \<Rightarrow> event list \<times> machine \<Rightarrow> (event list \<times> machine) option" where
  "user_call k es = (case es of (env, s) \<Rightarrow>
     (case k of
        Call_clear \<Rightarrow> returned (user_clear env s)
      | Call_exit code \<Rightarrow> halted (user_exit code env s)
      | Call_time \<Rightarrow> returned (user_time env s)
      | Call_date \<Rightarrow> returned (user_date env s)
      | Call_set_time h m sec \<Rightarrow> returned (user_set_time h m sec env s)
      | Call_set_date d m y \<Rightarrow> returned (user_set_date d m y env s)
      | Call_wait ms \<Rightarrow> returned (user_wait ms env s)
      | Call_video w h d \<Rightarrow> returned (user_video w h d env s)
      | Call_draw x y r g b \<Rightarrow> returned (user_draw x y r g b env s)))"

datatype action = Print nat u8 | Call call

fun act :: "ptr \<Rightarrow> action \<Rightarrow> event list \<times> machine \<Rightarrow> (event list \<times> machine) option" where
  "act c (Print fd ch) es = returned (user_fputc fd c ch (fst es) (snd es))"
| "act c (Call k) es = user_call k es"

fun act_all :: "ptr \<Rightarrow> action list \<Rightarrow> event list \<times> machine \<Rightarrow> (event list \<times> machine) option" where
  "act_all c [] es = Some es"
| "act_all c (a # as) es = Option.bind (act c a es) (act_all c as)"

text \<open>The characters and the calls of a session in one order, from the place that every call is noted with.\<close>

fun actions :: "nat \<Rightarrow> outp \<Rightarrow> (nat \<times> call) list \<Rightarrow> action list" where
  "actions n out [] = map (\<lambda>(fd, ch). Print fd ch) out"
| "actions n [] (k # ks) = Call (snd k) # actions n [] ks"
| "actions n (x # out) (k # ks) =
     (if fst k \<le> n then Call (snd k) # actions n (x # out) ks
      else Print (fst x) (snd x) # actions (Suc n) out (k # ks))"

definition new_actions :: "session \<Rightarrow> session \<Rightarrow> action list" where
  "new_actions s t =
     actions (length (s_out s)) (drop (length (s_out s)) (s_out t)) (drop (length (s_calls s)) (s_calls t))"

text \<open>What they make of a screen; a call other than \<open>clear\<close> has no answer here.\<close>

fun show_actions :: "video \<Rightarrow> action list \<Rightarrow> video option" where
  "show_actions v [] = Some v"
| "show_actions v (Print fd ch # as) =
     Option.bind (putchar v ch (if fd = Printf.STDOUT then LIGHT_GREY else RED)) (\<lambda>w. show_actions w as)"
| "show_actions v (Call k # as) = (if k = Call_clear then show_actions (clear_console v) as else None)"

fun textual :: "action \<Rightarrow> bool" where
  "textual (Print fd ch) \<longleftrightarrow> ch \<noteq> 8"
| "textual (Call k) \<longleftrightarrow> k = Call_clear"

text \<open>What the library hands to the kernel, as the lemma on growing sessions shows.\<close>

fun sound_action :: "action \<Rightarrow> bool" where
  "sound_action (Print fd ch) \<longleftrightarrow> (fd = Printf.STDOUT \<or> fd = Printf.STDERR) \<and> ch \<noteq> 0"
| "sound_action (Call k) \<longleftrightarrow> True"

definition keeps_input :: "machine \<Rightarrow> machine \<Rightarrow> bool" where
  "keeps_input s s' \<longleftrightarrow> machine_inv s' \<and> m_keyboard s' = m_keyboard s \<and> m_timer s' = m_timer s \<and> time_str s' = time_str s"

lemma fputc_shows:
  assumes "machine_inv s" "fd = Printf.STDOUT \<or> fd = Printf.STDERR" "ch \<noteq> 0" "ch \<noteq> 8" "c \<notin> region 0xB8000 SCREENSIZE"
    and "same_screen v (m_video s)"
  obtains s' w where "user_fputc fd c ch env s = Some (s', Returned 1, env)" "keeps_input s s'"
    "putchar v ch (if fd = Printf.STDOUT then LIGHT_GREY else RED) = Some w" "same_screen w (m_video s')"
proof -
  let ?s = "set_ram s ((ram s)(c := ch))" and ?col = "if fd = Printf.STDOUT then LIGHT_GREY else RED"
  have fd: "(of_nat fd :: u64) = Syscalls.STDOUT \<or> (of_nat fd :: u64) = Syscalls.STDERR"
    "(of_nat fd :: u64) = Syscalls.STDOUT \<longleftrightarrow> fd = Printf.STDOUT" "fd < 2 ^ 32"
    using assms(2) by (auto simp: descriptors kernel_descriptors)
  have t: "text_at (ram ?s) c (unat (1 :: u64)) = [ch]" using assms(3) by (simp add: set_ram_def)
  have one: "unat (1 :: u64) = Suc 0" by simp
  have inv: "machine_inv ?s" by (rule inv_set_ram [OF assms(1)])
  have "off_screen c (unat (1 :: u64))" unfolding one using assms(5) by (simp add: off_screen_def)
  then obtain u where u: "puts (m_video ?s) [ch] ?col = Some u" "machine_inv (?s\<lparr>m_video := u\<rparr>)"
    "sys_write ?s (of_nat fd) c 1 = Some (?s\<lparr>m_video := u\<rparr>, 1)"
    using sys_write_spec [OF inv fd(1), of 1 c] assms(4) unfolding t fd(2) by auto
  have "user_write (of_nat fd) c 1 env ?s = map_option (\<lambda>(s', k). (s', Returned (ucast k), env)) (sys_write ?s (of_nat fd) c 1)"
    using int80_handler [OF inv, of SYS_WRITE Sys_write] boot_table fd(3)
    by (simp add: user_write_def as_int_def call_numbers option.map_comp comp_def split_def unsigned_of_nat
        take_bit_nat_eq_self)
  then have call: "user_fputc fd c ch env s = Some (?s\<lparr>m_video := u\<rparr>, Returned 1, env)" by (simp add: user_fputc_def u(3))
  have keeps: "keeps_input s (?s\<lparr>m_video := u\<rparr>)" using u(2) by (simp add: keeps_input_def set_ram_def)
  have scr: "same_screen v (m_video ?s)"
    using same_screen_trans [OF assms(6) poke_off_screen [OF assms(5)]] by (simp add: set_ram_def)
  have "video_inv (m_video ?s)" using inv by (simp add: machine_inv_def)
  then have v: "video_inv v" using scr by (simp add: same_screen_def video_inv_def)
  obtain w u' where "putchar v ch ?col = Some w" "putchar (m_video ?s) ch ?col = Some u'" "same_screen w u'"
    using same_screen_putchar [OF scr v assms(4)] by blast
  with u(1) that [OF call keeps] show thesis by (auto split: bind_splits)
qed

lemma clear_shows:
  assumes "machine_inv s" "same_screen v (m_video s)"
  obtains s' where "user_call Call_clear (env, s) = Some (env, s')" "keeps_input s s'"
    "same_screen (clear_console v) (m_video s')"
proof -
  have "user_call Call_clear (env, s) = Some (env, sys_clear s)"
    using int80_handler [OF assms(1), of SYS_CLEAR Sys_clear 0 0 0 env] boot_table
    by (simp add: user_call_def returned_def user_clear_def call_numbers)
  moreover have "keeps_input s (sys_clear s)"
    using handler_safe [OF assms(1), of Sys_clear 0 0 0 "[]"] by (simp add: keeps_input_def sys_clear_def)
  moreover have "same_screen (clear_console v) (m_video (sys_clear s))"
    using same_screen_clear [OF assms(2)] by (simp add: sys_clear_def)
  ultimately show thesis by (rule that)
qed

lemma keeps_input_trans: "keeps_input s t \<Longrightarrow> keeps_input t u \<Longrightarrow> keeps_input s u"
  by (simp add: keeps_input_def)

lemma act_all_shows:
  assumes "machine_inv s" "\<forall>a \<in> set as. textual a \<and> sound_action a" "c \<notin> region 0xB8000 SCREENSIZE"
    and "same_screen v (m_video s)"
  shows "\<exists>s' w. act_all c as (env, s) = Some (env, s') \<and> keeps_input s s' \<and>
    show_actions v as = Some w \<and> same_screen w (m_video s')"
  using assms(1,2,4)
proof (induction as arbitrary: s v)
  case Nil
  then show ?case by (simp add: keeps_input_def)
next
  case (Cons a as)
  have "\<exists>s1 v1. act c a (env, s) = Some (env, s1) \<and> keeps_input s s1 \<and> same_screen v1 (m_video s1) \<and>
      show_actions v (a # as) = show_actions v1 as"
  proof (cases a)
    case (Print fd ch)
    then have ch: "fd = Printf.STDOUT \<or> fd = Printf.STDERR" "ch \<noteq> 0" "ch \<noteq> 8" using Cons.prems(2) by auto
    obtain s1 v1 where "user_fputc fd c ch env s = Some (s1, Returned 1, env)" "keeps_input s s1"
      "putchar v ch (if fd = Printf.STDOUT then LIGHT_GREY else RED) = Some v1" "same_screen v1 (m_video s1)"
      using fputc_shows [OF Cons.prems(1) ch assms(3) Cons.prems(3)] .
    then show ?thesis using Print by (intro exI [of _ s1] exI [of _ v1]) (simp add: returned_def)
  next
    case (Call k)
    then have k: "k = Call_clear" using Cons.prems(2) by simp
    obtain s1 where "user_call Call_clear (env, s) = Some (env, s1)" "keeps_input s s1"
      "same_screen (clear_console v) (m_video s1)" using clear_shows [OF Cons.prems(1,3)] .
    then show ?thesis using Call k by (intro exI [of _ s1] exI [of _ "clear_console v"]) simp
  qed
  then obtain s1 v1 where s1: "act c a (env, s) = Some (env, s1)" "keeps_input s s1" "same_screen v1 (m_video s1)"
    "show_actions v (a # as) = show_actions v1 as" by blast
  then have "machine_inv s1" by (simp add: keeps_input_def)
  then obtain s' w where "act_all c as (env, s1) = Some (env, s')" "keeps_input s1 s'" "show_actions v1 as = Some w"
    "same_screen w (m_video s')" using Cons.IH [of s1 v1] Cons.prems(2) s1(3) by auto
  then show ?case using s1 keeps_input_trans [OF s1(2)] by (intro exI [of _ s'] exI [of _ w]) simp
qed


section \<open>A session only grows\<close>

definition grows :: "session \<Rightarrow> session \<Rightarrow> bool" where
  "grows s t \<longleftrightarrow> extends (s_out s) (s_out t) \<and>
     (\<exists>ks. s_calls t = s_calls s @ ks \<and> (\<forall>k \<in> set ks. length (s_out s) \<le> fst k \<and> fst k \<le> length (s_out t)))"

lemma extends_length: "extends out out' \<Longrightarrow> length out \<le> length out'"
  by (auto simp: extends_def)

interpretation growing: session_relation grows
proof unfold_locales
  fix s t u assume g: "grows s t" "grows t u"
  have "length (s_out s) \<le> length (s_out t)" "length (s_out t) \<le> length (s_out u)"
    using g extends_length by (auto simp: grows_def)
  then show "grows s u"
    using g extends_trans [of "s_out s" "s_out t" "s_out u"] by (auto simp: grows_def) (drule (1) bspec, simp)+
qed (auto simp: grows_def sys_call_def)

lemma actions_append:
  assumes "\<forall>k \<in> set ks. fst k \<le> n + length xs" "\<forall>k \<in> set ls. n + length xs \<le> fst k"
  shows "actions n (xs @ ys) (ks @ ls) = actions n xs ks @ actions (n + length xs) ys ls"
  using assms
proof (induction n xs ks rule: actions.induct)
  case (1 n xs)
  have "actions n (xs @ ys) ls = map (\<lambda>(fd, ch). Print fd ch) xs @ actions (n + length xs) ys ls"
    using 1(2)
  proof (induction xs arbitrary: n)
    case (Cons x xs)
    have "actions (Suc n) (xs @ ys) ls = map (\<lambda>(fd, ch). Print fd ch) xs @ actions (Suc n + length xs) ys ls"
      using Cons.prems by (intro Cons.IH) simp
    then show ?case using Cons.prems by (cases ls) (auto split: prod.split)
  qed simp
  then show ?case by simp
next
  case (2 n k ks)
  then show ?case by (cases ys) auto
qed auto

lemma new_actions_append:
  assumes "grows s t" "grows t u"
  shows "new_actions s u = new_actions s t @ new_actions t u"
proof -
  obtain xs ks where t: "s_out t = s_out s @ xs" "s_calls t = s_calls s @ ks" "\<forall>k \<in> set ks. fst k \<le> length (s_out t)"
    using assms(1) by (auto simp: grows_def extends_def)
  obtain ys ls where u: "s_out u = s_out t @ ys" "s_calls u = s_calls t @ ls" "\<forall>k \<in> set ls. length (s_out t) \<le> fst k"
    using assms(2) by (auto simp: grows_def extends_def)
  show ?thesis using t u actions_append [of ks "length (s_out s)" xs ls ys] by (simp add: new_actions_def)
qed

lemma actions_sound:
  "\<forall>(fd, ch) \<in> set out. (fd = Printf.STDOUT \<or> fd = Printf.STDERR) \<and> ch \<noteq> 0 \<Longrightarrow> \<forall>a \<in> set (actions n out ks). sound_action a"
  by (induction n out ks rule: actions.induct) auto

lemma new_actions_sound: "grows s t \<Longrightarrow> \<forall>a \<in> set (new_actions s t). sound_action a"
  unfolding new_actions_def by (intro actions_sound) (auto simp: grows_def extends_def)

section \<open>The terminal\<close>

text \<open>One round of the loop of \<open>main\<close>; the local variables whose addresses the calls take share one place.\<close>

definition terminal_step ::
  "os \<Rightarrow> (command_id \<Rightarrow> command_fn) \<Rightarrow> ptr \<Rightarrow> (event list \<times> machine) \<times> shell \<Rightarrow> ((event list \<times> machine) \<times> shell) option" where
  "terminal_step sys other c x = (case x of (es, sh) \<Rightarrow>
     do { (es1, key) \<leftarrow> get_char 0 c es;
          sh1 \<leftarrow> update_shell sys other key sh;
          es2 \<leftarrow> act_all c (new_actions (sh_session sh) (sh_session sh1)) es1;
          Some (es2, sh1) })"

text \<open>So many rounds, unless one of them halts the machine.\<close>

fun terminal ::
  "os \<Rightarrow> (command_id \<Rightarrow> command_fn) \<Rightarrow> ptr \<Rightarrow> nat \<Rightarrow> (event list \<times> machine) \<times> shell \<Rightarrow>
   ((event list \<times> machine) \<times> shell) option" where
  "terminal sys other c 0 x = Some x"
| "terminal sys other c (Suc n) x =
     (if exited (sh_session (snd x)) then Some x else Option.bind (terminal_step sys other c x) (terminal sys other c n))"

lemma to_come_keeps:
  "typing_to_come c (env, s) xs \<Longrightarrow> keeps_input s s' \<Longrightarrow> typing_to_come c (env, s') xs"
  by (auto simp: typing_to_come_def keeps_input_def slow_typing_def typed_text_def clock_memory_def)

lemma terminal_one:
  assumes "typing_to_come c es (x # xs)" "quiet (snd es)" "same_screen v (m_video (snd es))"
    and "update_shell sys other x sh = Some sh'" "grows (sh_session sh) (sh_session sh')"
    and "\<forall>a \<in> set (new_actions (sh_session sh) (sh_session sh')). textual a"
  shows "\<exists>es' w. terminal_step sys other c (es, sh) = Some (es', sh') \<and> typing_to_come c es' xs \<and> quiet (snd es') \<and>
    show_actions v (new_actions (sh_session sh) (sh_session sh')) = Some w \<and> same_screen w (m_video (snd es'))"
proof -
  have es: "machine_inv (snd es)" "c \<notin> region 0xB8000 SCREENSIZE"
    using assms(1) by (auto simp: typing_to_come_def clock_memory_def)
  obtain es1 where es1: "get_char 0 c es = Some (es1, x)" "typing_to_come c es1 xs"
    using keyboard_source.get_next [OF assms(1)] by blast
  obtain env s where e: "es1 = (env, s)" by (cases es1)
  have q: "same_screen (m_video (snd es)) (m_video s)" "quiet s"
    using get_char_quiet [OF es1(1) es(1) assms(2) es(2)] e by simp_all
  have inv: "machine_inv s" using es1(2) e by (auto simp: typing_to_come_def)
  have ok: "\<forall>a \<in> set (new_actions (sh_session sh) (sh_session sh')). textual a \<and> sound_action a"
    using assms(6) new_actions_sound [OF assms(5)] by blast
  obtain s' w where s': "act_all c (new_actions (sh_session sh) (sh_session sh')) (env, s) = Some (env, s')" "keeps_input s s'"
    "show_actions v (new_actions (sh_session sh) (sh_session sh')) = Some w" "same_screen w (m_video s')"
    using act_all_shows [OF inv ok es(2) same_screen_trans [OF assms(3) q(1)]] by blast
  have "typing_to_come c (env, s') xs" "quiet s'"
    using to_come_keeps [OF _ s'(2)] es1(2) q(2) s'(2) by (simp_all add: e quiet_def keeps_input_def)
  then show ?thesis using es1(1) e assms(4) s' by (auto simp: terminal_step_def)
qed

lemma show_actions_append:
  "show_actions v (as @ bs) = Option.bind (show_actions v as) (\<lambda>w. show_actions w bs)"
  by (induction v as rule: show_actions.induct) (auto split: bind_splits)

lemma terminal_typed:
  assumes "\<forall>i argv s t r. other i argv s = Some (t, r) \<longrightarrow> grows s t"
    and "typing_to_come c es xs" "quiet (snd es)" "same_screen v (m_video (snd es))"
    and "type_keys sys other xs sh = Some sh'" "\<forall>a \<in> set (new_actions (sh_session sh) (sh_session sh')). textual a"
  shows "\<exists>es' w. terminal sys other c (length xs) (es, sh) = Some (es', sh') \<and> machine_inv (snd es') \<and>
    show_actions v (new_actions (sh_session sh) (sh_session sh')) = Some w \<and> same_screen w (m_video (snd es'))"
  using assms(2-6)
proof (induction xs arbitrary: es sh v)
  case Nil
  then show ?case by (auto simp: typing_to_come_def new_actions_def)
next
  case (Cons x xs)
  show ?case
  proof (cases "exited (sh_session sh)")
    case True
    then show ?thesis using Cons.prems by (auto simp: typing_to_come_def new_actions_def)
  next
    case False
    obtain sh1 where sh1: "update_shell sys other x sh = Some sh1" "type_keys sys other xs sh1 = Some sh'"
      using Cons.prems(4) False by (auto split: bind_splits)
    have g1: "grows (sh_session sh) (sh_session sh1)" by (rule growing.update_shell_rel [OF assms(1) sh1(1)])
    have g: "grows (sh_session sh1) (sh_session sh')" using sh1(2) by (rule growing.type_keys_rel [OF assms(1)])
    note app = new_actions_append [OF g1 g]
    obtain es1 w1 where s1: "terminal_step sys other c (es, sh) = Some (es1, sh1)" "typing_to_come c es1 xs" "quiet (snd es1)"
      "show_actions v (new_actions (sh_session sh) (sh_session sh1)) = Some w1" "same_screen w1 (m_video (snd es1))"
      using terminal_one [OF Cons.prems(1-3) sh1(1) g1] Cons.prems(5) app by auto
    show ?thesis using Cons.IH [OF s1(2,3,5) sh1(2)] Cons.prems(5) s1(1,4) app False by (auto simp: show_actions_append)
  qed
qed

lemma actions_calls: "k \<in> set ks \<Longrightarrow> Call (snd k) \<in> set (actions n out ks)"
  by (induction n out ks rule: actions.induct) auto

lemma textual_exited:
  assumes "grows s t" "\<forall>a \<in> set (new_actions s t). textual a" "exited t"
  shows "exited s"
proof -
  obtain ks where ks: "s_calls t = s_calls s @ ks" using assms(1) by (auto simp: grows_def)
  have "\<not> halts (snd k)" if "k \<in> set ks" for k
    using actions_calls [OF that] assms(2) ks by (force simp: new_actions_def)
  then show ?thesis using assms(3) ks by (auto simp: exited_def list_ex_iff)
qed


text \<open>
  C7: from the keyboard to the screen. Lines are typed slowly on a machine that has no clock running; between the
  keys and while the shell waits, timer interrupts come in any number. Every character goes the way of the code:
  interrupt, key buffer, system call \<open>read\<close>, \<open>getchar\<close>, the shell's line buffer and commands, \<open>write\<close> for each
  character that is printed. If the interpreter of lines makes of the lines a session whose only call of the kernel
  is \<open>clear\<close> and that prints no backspace, the machine gets through all keys, and its screen shows what the
  interpreter's text and clearings show on a screen alone.
\<close>

theorem terminal_shows_session:
  assumes "machine_inv m" "quiet m" "drained (m_keyboard m)" "slow_typing m ks" "c \<notin> clock_memory m"
    and "typed_text m ks = concat (map (\<lambda>keys. keys @ [10]) lines)"
    and "\<forall>keys \<in> set lines. (\<forall>x \<in> set keys. sint x > 0 \<and> x \<noteq> 10) \<and> line_within 254 [] keys"
    and "s_commands s = map Some command_table" "0 \<notin> set (s_username s)"
    and "\<forall>i argv s t r. other i argv s = Some (t, r) \<longrightarrow> same_user s t \<and> grows s t"
    and "session_lines sys other lines s = Some t" "\<forall>a \<in> set (new_actions s t). textual a"
  shows "\<exists>env m' v. terminal sys other c (length ks) ((typing ks, m), fresh_line s) = Some ((env, m'), fresh_line t) \<and>
    machine_inv m' \<and> show_actions (m_video m) (new_actions s t) = Some v \<and> same_screen v (m_video m')"
proof -
  have keep: "\<forall>i argv s t r. other i argv s = Some (t, r) \<longrightarrow> same_user s t"
    and grow: "\<forall>i argv s t r. other i argv s = Some (t, r) \<longrightarrow> grows s t" using assms(10) by blast+
  obtain sh' where sh': "type_keys sys other (typed_text m ks) (fresh_line s) = Some sh'" "sh_session sh' = t"
    "\<not> exited t \<longrightarrow> sh' = fresh_line t"
    using lines_session [OF ready_fresh [OF assms(8,9)] refl assms(7) keep, of sys] assms(6,11) by (auto simp: after_line_def)
  have "sh' = fresh_line t"
  proof (cases "exited s")
    case True
    then have "type_keys sys other (typed_text m ks) (fresh_line s) = Some (fresh_line s)"
      by (cases "typed_text m ks") (simp_all add: fresh_line_def)
    then show ?thesis using sh'(1,2) by (auto simp: fresh_line_def)
  next
    case False
    have "grows s t" using growing.type_keys_rel [OF grow sh'(1)] sh'(2) by (simp add: fresh_line_def)
    with False textual_exited [OF _ assms(12)] sh'(3) show ?thesis by blast
  qed
  with sh'(1) have "type_keys sys other (typed_text m ks) (fresh_line s) = Some (fresh_line t)" by simp
  moreover have "sh_session (fresh_line u) = u" for u by (simp add: fresh_line_def)
  moreover have "length (typed_text m ks) = length ks" by (simp add: typed_text_def)
  ultimately show ?thesis
    using terminal_typed [OF grow typing_starts [OF assms(1,3-5)], of "m_video m" sys "fresh_line s" "fresh_line t"] assms(2,12)
    by fastforce
qed

lemma clear_keys:
  "prints False False 46 \<and> prints False False 38 \<and> prints False False 18 \<and> prints False False 19 \<and> prints False False 28"
  "key_char False False 46 = 99" "key_char False False 38 = 108" "key_char False False 18 = 101"
  "key_char False False 19 = 114" "key_char False False 28 = 10"
  by (simp_all add: prints_def special_keys KEY_RELEASED_def key_char_def keyboard_map_def lower_map_def)

text \<open>The line \<open>clear\<close>, typed key by key: the screen is cleared and shows the prompt again.\<close>

theorem terminal_shows_session_witness:
  "\<exists>env m' t v. terminal sample_os no_other 0x700000 6
      ((typing (map (\<lambda>k. (k, False # replicate 64 True)) [46, 38, 18, 30, 19, 28]), sample_machine), fresh_line sample_session) =
      Some ((env, m'), fresh_line t) \<and>
    new_actions sample_session t =
      map (Print 1) [99, 108, 101, 97, 114, 10] @ Call Call_clear # map (Print 1) [97, 64, 111, 115, 62, 32] \<and>
    show_actions (m_video sample_machine) (new_actions sample_session t) = Some v \<and> same_screen v (m_video m')"
proof -
  let ?ks = "map (\<lambda>k. (k, False # replicate 64 True)) [46, 38, 18, 30, 19, 28] :: (u8 \<times> bool list) list"
  let ?lines = "[[99, 108, 101, 97, 114]] :: u8 list list"
  have m: "slow_typing sample_machine ?ks" "typed_text sample_machine ?ks = concat (map (\<lambda>keys. keys @ [10]) ?lines)"
    "drained (m_keyboard sample_machine)" "quiet sample_machine" "0x700000 \<notin> clock_memory sample_machine"
    using kb_ready_ok(1)
    by (auto simp: slow_typing_def typed_text_def sample_keyboard letters_print clear_keys polls_def BUFFER_SIZE_def
        quiet_def sample_machine_def empty_timer_def active_def clock_memory_def in_region_iff screen_layout region_shift)
  have l: "\<forall>keys \<in> set ?lines. (\<forall>x \<in> set keys. sint x > 0 \<and> x \<noteq> 10) \<and> line_within 254 [] keys" by simp
  have u: "s_commands sample_session = map Some command_table" "0 \<notin> set (s_username sample_session)"
    by (simp_all add: sample_session_def command_table_init)
  have n: "\<forall>i argv s t r. no_other i argv s = Some (t, r) \<longrightarrow> same_user s t \<and> grows s t" by (simp add: no_other_def)
  have f: "find (\<lambda>c. cmd_name c = [99, 108, 101, 97, 114]) command_table =
      Some \<lparr>cmd_id = CLEAR, cmd_name = str_bytes ''clear'', cmd_desc = str_bytes ''clear''\<rparr>" by code_simp
  obtain t where t: "session_lines sample_os no_other ?lines sample_session = Some t"
    "s_out t = map (Pair 1) ([99, 108, 101, 97, 114, 10] @ [97, 64, 111, 115, 62, 32])" "s_calls t = [(6, Call_clear)]"
    using f by (auto simp: session_line_def Let_def blank_def isspace_def run_command_def cmd_clear_def words.simps
        prompted_def say_def sys_call_def sample_session_def str_bytes_def descriptors exited_def)
  have a: "new_actions sample_session t =
      map (Print 1) [99, 108, 101, 97, 114, 10] @ Call Call_clear # map (Print 1) [97, 64, 111, 115, 62, 32]"
    by (simp add: new_actions_def t(2,3) sample_session_def)
  have x: "\<forall>a \<in> set (new_actions sample_session t). textual a" by (simp add: a)
  have len: "length ?ks = 6" by simp
  show ?thesis
    using terminal_shows_session [OF sample_machine_inv m(4,3,1,5,2) l u n t(1) x, unfolded len] a by blast
qed

end
