(* ===== verification/Tests.thy ===== *)
theory Tests
  imports Usercalls Session "HOL-Library.Monad_Syntax"
begin

text \<open>
  The test programs of the user library, \<open>tests/tests.c\<close>. What is typed comes from a list, as for the shell; what
  the allocation function does is an argument of the test of \<open>malloc\<close>, which is then run on the machine.
\<close>

section \<open>Operations\<close>

definition ERROR_MESSAGE :: string where
  "ERROR_MESSAGE = ''TEST FAILED''"

definition UCHAR_MAX :: u32 where
  "UCHAR_MAX = 0xFF"

definition assert :: "bool \<Rightarrow> string \<Rightarrow> session \<Rightarrow> (session \<times> bool) option" where
  "assert condition msg s =
     (if \<not> condition
      then map_option (\<lambda>s'. (s', False)) (print_fd STDERR (str_bytes ''%s'' @ [10]) [StrArg (str_bytes msg)] s)
      else Some (s, True))"

definition print_count :: "u8 list \<Rightarrow> va list \<Rightarrow> session \<Rightarrow> (session \<times> u32) option" where
  "print_count fmt ap s =
     map_option (\<lambda>(out, n). (s\<lparr>s_out := out\<rparr>, of_nat n)) (fprintf (s_out s) STDOUT fmt ap)"

definition test_puts :: "u8 list \<Rightarrow> session \<Rightarrow> session" where
  "test_puts str s = put_string STDOUT str s"

text \<open>The three lines that the test of \<open>printf\<close> repeats.\<close>

definition printf_check :: "u8 list \<Rightarrow> va list \<Rightarrow> u32 \<Rightarrow> session \<Rightarrow> session option" where
  "printf_check fmt ap k s =
     do {
       (s, i) \<leftarrow> print_count fmt ap s;
       s \<leftarrow> print_fd STDOUT (str_bytes ''characters written: %d'' @ [10]) [IntArg i] s;
       (s, ok) \<leftarrow> assert (i = k) ERROR_MESSAGE s;
       Some s
     }"

definition printf_test :: "session \<Rightarrow> session option" where
  "printf_test s =
     do {
       let s = test_puts (str_bytes ''printf test:'' @ [10]) s;
       s \<leftarrow> printf_check (str_bytes ''%s'' @ [10]) [StrArg (str_bytes ''string'')] 7 s;
       s \<leftarrow> printf_check (str_bytes ''%x'' @ [10]) [IntArg 10] 2 s;
       s \<leftarrow> printf_check (str_bytes ''%d'' @ [10]) [IntArg (- 10)] 4 s;
       s \<leftarrow> printf_check (str_bytes ''%o'' @ [10]) [IntArg 10] 3 s;
       s \<leftarrow> printf_check (str_bytes ''%b'' @ [10]) [IntArg 10] 5 s;
       printf_check (str_bytes ''%c %c'' @ [10]) [IntArg 65, IntArg (65 + UCHAR_MAX + 1)] 4 s
     }"

text \<open>The three variables keep their first values when less is read.\<close>

definition stored_chr :: "stored list \<Rightarrow> u8" where
  "stored_chr st = (case st of SChr c # _ \<Rightarrow> c | _ \<Rightarrow> 0)"

definition stored_str :: "stored list \<Rightarrow> u8 list" where
  "stored_str st = (case st of _ # SStr str # _ \<Rightarrow> str | _ \<Rightarrow> [])"

definition stored_int :: "stored list \<Rightarrow> u32" where
  "stored_int st = (case st of _ # _ # SInt n # _ \<Rightarrow> n | _ \<Rightarrow> 0)"

definition scanf_fmt :: "u8 list" where
  "scanf_fmt = str_bytes ''start-%c-%s-%d-end''"

definition scanf_test :: "u8 list \<Rightarrow> session \<Rightarrow> (u8 list \<times> session) option" where
  "scanf_test input s =
     do {
       let s = test_puts (str_bytes ''scanf test:'' @ [10]) s;
       s \<leftarrow> print_fd STDOUT (str_bytes ''Type a text with the following format (ignore spaces): '' @ [39, 37, 115, 39, 32, 10])
              [StrArg scanf_fmt] s;
       (input, out, st, i) \<leftarrow> scanf input (s_out s) (replicate MAX_SIZE 0) scanf_fmt;
       s \<leftarrow> print_fd STDOUT (str_bytes ''You typed: %c, %s, %d'' @ [10])
              [IntArg (scast (stored_chr st)), StrArg (stored_str st), IntArg (stored_int st)] (s\<lparr>s_out := out\<rparr>);
       (s, ok) \<leftarrow> assert (i = 3) ERROR_MESSAGE s;
       Some (input, s)
     }"

text \<open>The array keeps what it holds from line to line.\<close>

lemma fgets_shorter: "fgets fd input out str n = Some (rest, r) \<Longrightarrow> length rest < length input"
  by (auto simp: fgets_def Let_def split: option.splits if_splits dest!: fgets_loop_shorter)

function fgets_test_loop :: "u8 list \<Rightarrow> session \<Rightarrow> session option" where
  "fgets_test_loop buffer s =
     (case fgets STDDATA (s_data s) (s_out s) buffer 50 of
        None \<Rightarrow> None
      | Some (data, out, buffer', ok) \<Rightarrow>
          let s' = s\<lparr>s_data := data, s_out := out\<rparr> in
          if \<not> ok then Some s'
          else (case print_fd STDOUT (str_bytes ''%s'' @ [10]) [StrArg (cstring buffer')] s' of
                  None \<Rightarrow> None | Some s'' \<Rightarrow> fgets_test_loop buffer' s''))"
  by pat_completeness auto
termination
  by (relation "measure (\<lambda>(buffer, s). length (s_data s))") (auto simp: print_fd_def dest!: fgets_shorter)

declare fgets_test_loop.simps [simp del]

definition fgets_test :: "session \<Rightarrow> session option" where
  "fgets_test s =
     (let s1 = test_puts (str_bytes ''fgets test:'' @ [10]) s;
          s2 = test_puts (str_bytes ''Reading from data module...'' @ [10]) s1
      in fgets_test_loop (replicate 50 0) s2)"

definition malloc_test :: "('h \<Rightarrow> u64 \<Rightarrow> ('h \<times> ptr) option) \<Rightarrow> 'h \<Rightarrow> session \<Rightarrow> ('h \<times> session) option" where
  "malloc_test alloc h s =
     do {
       let s = test_puts (str_bytes ''malloc test:'' @ [10]) s;
       (h, p) \<leftarrow> alloc h 4;
       s \<leftarrow> print_fd STDOUT (str_bytes ''ptr = %d'' @ [10]) [IntArg (ucast p)] s;
       let address = p;
       (h, p) \<leftarrow> alloc h 10;
       (s, ok) \<leftarrow> assert (p = address + 4) ERROR_MESSAGE s;
       s \<leftarrow> print_fd STDOUT (str_bytes ''ptr = %d'' @ [10]) [IntArg (ucast p)] s;
       let address = p;
       (h, p) \<leftarrow> alloc h 0;
       (s, ok) \<leftarrow> assert (p = address + 10) ERROR_MESSAGE s;
       s \<leftarrow> print_fd STDOUT (str_bytes ''ptr = %d'' @ [10]) [IntArg (ucast p)] s;
       Some (h, s)
     }"

text \<open>Up to the next Enter; without one the program waits for more.\<close>

fun CLEAN_BUFFER :: "u8 list \<Rightarrow> u8 list option" where
  "CLEAN_BUFFER [] = None"
| "CLEAN_BUFFER (c # input) = (if c = 10 then Some input else CLEAN_BUFFER input)"

definition run_test ::
  "(u8 list \<Rightarrow> session \<Rightarrow> (u8 list \<times> session) option) \<Rightarrow> u8 list \<Rightarrow> session \<Rightarrow> (u8 list \<times> session) option" where
  "run_test test input s =
     do {
       let s = test_puts ([10] @ str_bytes ''Type enter to start the next test...'' @ [10]) s;
       input \<leftarrow> CLEAN_BUFFER input;
       let s = test_puts (replicate 31 42 @ [10]) s;
       (input, s) \<leftarrow> test input s;
       Some (input, test_puts (replicate 31 42 @ [10]) s)
     }"

text \<open>A test that reads nothing.\<close>

definition quiet :: "(session \<Rightarrow> session option) \<Rightarrow> u8 list \<Rightarrow> session \<Rightarrow> (u8 list \<times> session) option" where
  "quiet test input s = map_option (Pair input) (test s)"

definition run_tests ::
  "os \<Rightarrow> ('h \<Rightarrow> u64 \<Rightarrow> ('h \<times> ptr) option) \<Rightarrow> 'h \<Rightarrow> u8 list \<Rightarrow> session \<Rightarrow> (u8 list \<times> session) option" where
  "run_tests sys alloc h input s =
     do {
       (input, s) \<leftarrow> run_test (quiet printf_test) input s;
       (input, s) \<leftarrow> run_test scanf_test input s;
       (input, s) \<leftarrow> run_test (quiet fgets_test) input s;
       (input, s) \<leftarrow> run_test (quiet (\<lambda>s. map_option snd (malloc_test alloc h s))) input s;
       let s = test_puts (str_bytes ''Type enter to continue...'') s;
       input \<leftarrow> CLEAN_BUFFER input;
       Some (input, fst (sys_call sys Call_clear s))
     }"

definition cmd_tests ::
  "os \<Rightarrow> ('h \<Rightarrow> u64 \<Rightarrow> ('h \<times> ptr) option) \<Rightarrow> 'h \<Rightarrow> u8 list list \<Rightarrow> u8 list \<Rightarrow> session \<Rightarrow>
   (u8 list \<times> session \<times> u32) option" where
  "cmd_tests sys alloc h argv input s =
     (if argv \<noteq> [] then map_option (Pair input) (refuse ''Invalid number of arguments!'' s)
      else map_option (\<lambda>(input', s'). (input', s', 0)) (run_tests sys alloc h input s))"

section \<open>Printing\<close>

lemma say_simps [simp]: "s_out (say l s) = s_out s @ map (Pair STDOUT) l" "s_data (say l s) = s_data s"
  "say l (say k s) = say (k @ l) s" "say [] s = s"
  by (simp_all add: say_def)

lemma print_pieces_say:
  assumes "\<forall>p \<in> set ps. piece_ok p" "fmt = concat (map piece_format ps)" "ap = concat (map piece_args ps)"
  shows "print_fd STDOUT fmt ap s = Some (say (concat (map piece_text ps)) s)"
  using print_fd_pieces [of STDOUT ps fmt ap s] assms by (simp add: say_def)

lemma test_puts_say: "0 \<notin> set l \<Longrightarrow> test_puts l s = say l s"
  using fputs_out [of STDOUT l "s_out s"] by (simp add: test_puts_def put_string_def say_def)

lemma literal_pieces:
  "concat (map piece_format (map Lit l)) = l" "concat (map piece_text (map Lit l)) = l"
  "concat (map piece_args (map Lit l)) = []"
  by (induction l) simp_all

lemma printf_check_pieces:
  assumes "\<forall>p \<in> set ps. piece_ok p" "fmt = concat (map piece_format ps)" "ap = concat (map piece_args ps)"
    and "text = concat (map piece_text ps)" "k = of_nat (length text)" "length text < 2 ^ 31"
  shows "printf_check fmt ap k s = Some (say (text @ str_bytes ''characters written: '' @ int_text (int (length text)) @ [10]) s)"
proof -
  have c: "print_count fmt ap s = Some (say text s, k)"
    using vfprintf_pieces [of STDOUT ps "s_out s" 0] assms by (simp add: print_count_def fprintf_def say_def)
  have "sint k = int (length text)" using assms(5,6) sint_of_int_range [of "int (length text)"] by simp
  then have "print_fd STDOUT (str_bytes ''characters written: %d'' @ [10]) [IntArg k] (say text s) =
      Some (say (str_bytes ''characters written: '' @ int_text (int (length text)) @ [10]) (say text s))"
    using print_pieces_say [of "map Lit (str_bytes ''characters written: '') @ [Dec k, Lit 10]"
        "str_bytes ''characters written: %d'' @ [10]" "[IntArg k]" "say text s"]
    by (simp add: literal_pieces del: map_map) (simp add: str_bytes_def)
  then show ?thesis using c by (simp add: printf_check_def assert_def)
qed

section \<open>Properties\<close>

text \<open>
  the test of \<open>printf\<close> passes: it prints the six lines and their lengths as it expects them, and no message of
  failure.
\<close>

theorem printf_test_passes:
  "printf_test s = Some (say (str_bytes ''printf test:'' @ [10] @
     concat (map (\<lambda>(text, n). str_bytes text @ [10] @ str_bytes ''characters written: '' @ str_bytes n @ [10])
       [(''string'', ''7''), (''A'', ''2''), (''-10'', ''4''), (''12'', ''3''), (''1010'', ''5''), (''A A'', ''4'')])) s)"
proof -
  have n: "int_text 7 = str_bytes ''7''" "int_text 2 = str_bytes ''2''" "int_text 4 = str_bytes ''4''"
    "int_text 3 = str_bytes ''3''" "int_text 5 = str_bytes ''5''" "int_text (- 10) = str_bytes ''-10''"
    "digits_text 16 10 = str_bytes ''A''" "digits_text 8 10 = str_bytes ''12''" "digits_text 2 10 = str_bytes ''1010''"
    by code_simp+
  have c: "printf_check fmt ap k s = Some (say (str_bytes str @ [10] @ str_bytes ''characters written: '' @ int_text (int m) @ [10]) s)"
    if "\<forall>p \<in> set ps. piece_ok p" "fmt = concat (map piece_format ps)" "ap = concat (map piece_args ps)"
      "str_bytes str @ [10] = concat (map piece_text ps)" "m = Suc (length str)" "k = of_nat m" "m < 2 ^ 31"
    for fmt ap k str m ps s
    using printf_check_pieces [OF that(1-4), of k s] that(5-7) by (simp add: str_bytes_def)
  have "printf_check (str_bytes ''%s'' @ [10]) [StrArg (str_bytes ''string'')] 7 s =
      Some (say (str_bytes ''string'' @ [10] @ str_bytes ''characters written: '' @ int_text (int 7) @ [10]) s)" for s
    by (rule c [of "[Strp (str_bytes ''string''), Lit 10]"]) (simp_all add: str_bytes_def)
  moreover have "printf_check (str_bytes ''%x'' @ [10]) [IntArg 10] 2 s =
      Some (say (str_bytes ''A'' @ [10] @ str_bytes ''characters written: '' @ int_text (int 2) @ [10]) s)" for s
    by (rule c [of "[Hexa 10, Lit 10]"]) (simp_all add: n, simp_all add: str_bytes_def)
  moreover have "printf_check (str_bytes ''%d'' @ [10]) [IntArg (- 10)] 4 s =
      Some (say (str_bytes ''-10'' @ [10] @ str_bytes ''characters written: '' @ int_text (int 4) @ [10]) s)" for s
    by (rule c [of "[Dec (- 10), Lit 10]"]) (simp_all add: n, simp_all add: str_bytes_def)
  moreover have "printf_check (str_bytes ''%o'' @ [10]) [IntArg 10] 3 s =
      Some (say (str_bytes ''12'' @ [10] @ str_bytes ''characters written: '' @ int_text (int 3) @ [10]) s)" for s
    by (rule c [of "[Octa 10, Lit 10]"]) (simp_all add: n, simp_all add: str_bytes_def)
  moreover have "printf_check (str_bytes ''%b'' @ [10]) [IntArg 10] 5 s =
      Some (say (str_bytes ''1010'' @ [10] @ str_bytes ''characters written: '' @ int_text (int 5) @ [10]) s)" for s
    by (rule c [of "[Bina 10, Lit 10]"]) (simp_all add: n, simp_all add: str_bytes_def)
  moreover have "printf_check (str_bytes ''%c %c'' @ [10]) [IntArg 65, IntArg (65 + UCHAR_MAX + 1)] 4 s =
      Some (say (str_bytes ''A A'' @ [10] @ str_bytes ''characters written: '' @ int_text (int 4) @ [10]) s)" for s
    by (rule c [of "[Chr 65, Lit 32, Chr (65 + UCHAR_MAX + 1), Lit 10]"]) (simp_all add: str_bytes_def UCHAR_MAX_def)
  moreover have "test_puts (str_bytes ''printf test:'' @ [10]) s = say (str_bytes ''printf test:'' @ [10]) s"
    by (rule test_puts_say) (simp add: str_bytes_def)
  ultimately show ?thesis by (simp add: printf_test_def n)
qed

lemma echoed_plain: "\<forall>c \<in> set l. sint c > 0 \<and> c \<noteq> 8 \<Longrightarrow> echoed acc l = l"
  by (induction l arbitrary: acc) (simp_all add: echoed.simps echoes_def)

definition typed_line :: "u8 \<Rightarrow> u8 list \<Rightarrow> int \<Rightarrow> u8 list" where
  "typed_line c str n = str_bytes ''start-'' @ [c, 45] @ str @ [45] @ int_text n @ str_bytes ''-end''"

definition typed_ok :: "u8 \<Rightarrow> u8 list \<Rightarrow> int \<Rightarrow> bool" where
  "typed_ok c str n \<longleftrightarrow> (\<forall>x \<in> set (c # str). solid x \<and> sint x > 0 \<and> x \<noteq> 8) \<and> str \<noteq> [] \<and> 45 \<notin> set str \<and>
     - (2 ^ 31) < n \<and> n < 2 ^ 31 \<and> length (typed_line c str n) < MAX_SIZE"

lemma typed_chars:
  assumes "typed_ok c str n" "x \<in> set (typed_line c str n)"
  shows "sint x > 0 \<and> x \<noteq> 8 \<and> x \<noteq> 10 \<and> x \<noteq> EOF"
proof -
  have w: "\<forall>x \<in> set (str_bytes ''start-'' @ [45] @ str_bytes ''-end''). sint x > 0 \<and> x \<noteq> 8 \<and> x \<noteq> 10 \<and> x \<noteq> EOF"
    by (simp add: str_bytes_def EOF_def)
  have s: "solid x \<Longrightarrow> x \<noteq> 10 \<and> x \<noteq> EOF" for x by (auto simp: solid_def isspace_def)
  have "45 \<le> sint x \<Longrightarrow> sint x > 0 \<and> x \<noteq> 8 \<and> x \<noteq> 10 \<and> x \<noteq> EOF" by (auto simp: EOF_def)
  then show ?thesis
    using assms w s int_text_chars [of x n] by (auto simp: typed_line_def typed_ok_def)
qed

lemma scan_typed:
  assumes "typed_ok c str n"
  shows "scanf (typed_line c str n @ 10 # input) out (replicate MAX_SIZE 0) scanf_fmt =
    Some (input, out @ map (Pair STDOUT) (typed_line c str n @ [10]), [SChr c, SStr str, SInt (of_int n)], 3)"
proof -
  let ?l = "typed_line c str n"
  let ?ps = "map Lit (str_bytes ''start-'') @ [Chr (scast c), Lit 45, Strp str, Lit 45, Dec (of_int n)] @ map Lit (str_bytes ''-end'')"
  have i: "sint (of_int n :: u32) = n" using assms by (intro sint_of_int_range) (simp_all add: typed_ok_def)
  have u: "(ucast (scast c :: u32) :: u8) = c" by (rule bit_word_eqI) (simp add: bit_simps)
  have ps: "scannable ?ps" "text_of ?ps = ?l" "format_of ?ps = scanf_fmt"
      "concat (map piece_stored ?ps) = [SChr c, SStr str, SInt (of_int n)]"
    using assms i u by (auto simp: typed_ok_def typed_line_def str_bytes_def text_of_def format_of_def scanf_fmt_def
        solid_def EOF_def isspace_def isdigit_def)
  have plain: "\<forall>x \<in> set ?l. x \<noteq> EOF \<and> x \<noteq> 10" "\<forall>x \<in> set ?l. sint x > 0 \<and> x \<noteq> 8"
    using typed_chars [OF assms] by blast+
  have e: "edit [] (take k ?l) = take k ?l" for k
    using edit_plain [of "take k ?l" "[]"] plain(2) by (auto dest: in_set_takeD)
  have len: "length ?l < MAX_SIZE" using assms by (simp add: typed_ok_def)
  have "\<forall>k \<le> length ?l. length (edit [] (take k ?l)) < MAX_SIZE"
    unfolding e by (intro allI impI le_less_trans [OF _ len]) (simp only: length_take)
  from fgets_correct [OF plain(1) _ this, of "replicate MAX_SIZE 0" STDIN input out]
  obtain str' where "fgets STDIN (?l @ 10 # input) out (replicate MAX_SIZE 0) MAX_SIZE =
      Some (input, out @ map (Pair STDOUT) (?l @ [10]), str', True)" "cstring str' = ?l"
    using e [of "length ?l"] echoed_plain [OF plain(2)] by auto
  then show ?thesis
    using scan_pieces [OF ps(1), of _ scanf_fmt "[]" 0] unfolding ps(2-4) by (simp add: scanf_def vfscanf_def vsscanf_def)
qed

text \<open>
  the test of \<open>scanf\<close> passes on what it asks for: the typed line is echoed, the character, the word and the
  number come back in the answer, and there is no message of failure.
\<close>

theorem scanf_test_passes:
  assumes "typed_ok c str n"
  shows "scanf_test (typed_line c str n @ 10 # input) s = Some (input, say
    (str_bytes ''scanf test:'' @ [10] @ str_bytes ''Type a text with the following format (ignore spaces): '' @
     [39] @ scanf_fmt @ [39, 32, 10] @ typed_line c str n @ [10] @
     str_bytes ''You typed: '' @ [c] @ str_bytes '', '' @ str @ str_bytes '', '' @ int_text n @ [10]) s)"
proof -
  let ?q = "str_bytes ''Type a text with the following format (ignore spaces): ''"
  have z: "0 \<notin> set scanf_fmt" "0 \<notin> set str" "(ucast (scast c :: u32) :: u8) = c" "c \<noteq> 0"
    using assms by (auto simp: scanf_fmt_def str_bytes_def typed_ok_def solid_def bit_simps intro!: bit_word_eqI)
  have i: "sint (of_int n :: u32) = n" using assms by (intro sint_of_int_range) (simp_all add: typed_ok_def)
  have p: "print_fd STDOUT (?q @ [39, 37, 115, 39, 32, 10]) [StrArg scanf_fmt] t = Some (say (?q @ [39] @ scanf_fmt @ [39, 32, 10]) t)" for t
    using print_pieces_say [of "map Lit (?q @ [39]) @ [Strp scanf_fmt] @ map Lit [39, 32, 10]"
        "?q @ [39, 37, 115, 39, 32, 10]" "[StrArg scanf_fmt]" t] z(1)
    by (simp add: literal_pieces del: map_map) (simp add: str_bytes_def)
  have y: "print_fd STDOUT (str_bytes ''You typed: %c, %s, %d'' @ [10]) [IntArg (scast c), StrArg str, IntArg (of_int n)] t =
      Some (say (str_bytes ''You typed: '' @ [c] @ str_bytes '', '' @ str @ str_bytes '', '' @ int_text n @ [10]) t)" for t
    using print_pieces_say [of "map Lit (str_bytes ''You typed: '') @ [Chr (scast c), Lit 44, Lit 32, Strp str, Lit 44, Lit 32, Dec (of_int n), Lit 10]"
        "str_bytes ''You typed: %c, %s, %d'' @ [10]" "[IntArg (scast c), StrArg str, IntArg (of_int n)]" t] z i
    by (simp add: literal_pieces del: map_map) (simp add: str_bytes_def)
  have "test_puts (str_bytes ''scanf test:'' @ [10]) s = say (str_bytes ''scanf test:'' @ [10]) s"
    by (rule test_puts_say) (simp add: str_bytes_def)
  then show ?thesis
    by (simp add: scanf_test_def p scan_typed [OF assms] stored_chr_def stored_str_def stored_int_def assert_def y)
      (simp add: y say_def)
qed

theorem scanf_test_passes_witness:
  "\<exists>s'. scanf_test (str_bytes ''start-A-hello--42-end'' @ [10]) sample_session = Some ([], s') \<and>
     STDERR \<notin> fst ` set (s_out s')"
proof -
  have t: "int_text (- 42) = str_bytes ''-42''" by code_simp
  have l: "typed_line 65 (str_bytes ''hello'') (- 42) = str_bytes ''start-A-hello--42-end''"
    by (simp add: typed_line_def t str_bytes_def)
  have "typed_ok 65 (str_bytes ''hello'') (- 42)"
    using l by (simp add: typed_ok_def str_bytes_def solid_def EOF_def isspace_def MAX_SIZE_def)
  from scanf_test_passes [OF this, of "[]" sample_session] show ?thesis
    unfolding l by (auto simp: sample_session_def descriptors say_def)
qed

lemma fgets_data_line:
  assumes "\<forall>x \<in> set l. sint x > 0 \<and> x \<noteq> 8 \<and> x \<noteq> 10" "length l < 50" "length buffer = 50"
  shows "\<exists>buffer'. fgets STDDATA (l @ 10 # input) out buffer 50 = Some (input, out, buffer', True) \<and>
    length buffer' = 50 \<and> cstring buffer' = l"
proof -
  have plain: "\<forall>x \<in> set l. x \<noteq> EOF \<and> x \<noteq> 10" using assms(1) by (auto simp: EOF_def)
  have e: "edit [] (take k l) = take k l" for k
    using edit_plain [of "take k l" "[]"] assms(1) by (auto dest: in_set_takeD)
  have "\<forall>k \<le> length l. length (edit [] (take k l)) < 50"
    unfolding e by (intro allI impI le_less_trans [OF _ assms(2)]) simp
  from fgets_correct [OF plain _ this, of buffer STDDATA input out] assms(3) e [of "length l"] show ?thesis
    by (auto simp: descriptors)
qed

lemma fgets_test_lines:
  assumes "s_data s = concat (map (\<lambda>l. l @ [10]) ls) @ EOF # rest" "length buffer = 50"
    and "\<forall>l \<in> set ls. length l < 50 \<and> (\<forall>x \<in> set l. sint x > 0 \<and> x \<noteq> 8 \<and> x \<noteq> 10)"
  shows "fgets_test_loop buffer s = Some (say (concat (map (\<lambda>l. l @ [10]) ls)) (s\<lparr>s_data := rest\<rparr>))"
  using assms
proof (induction ls arbitrary: s buffer)
  case Nil
  then show ?case by (subst fgets_test_loop.simps) (simp add: fgets_def descriptors)
next
  case (Cons l ls)
  let ?rest = "concat (map (\<lambda>l. l @ [10]) ls) @ EOF # rest"
  obtain buffer' where b: "fgets STDDATA (s_data s) (s_out s) buffer 50 = Some (?rest, s_out s, buffer', True)"
    "length buffer' = 50" "cstring buffer' = l"
    using fgets_data_line [of l buffer ?rest "s_out s"] Cons.prems by auto
  have "0 \<notin> set l" using Cons.prems(3) by auto
  then have p: "print_fd STDOUT (str_bytes ''%s'' @ [10]) [StrArg l] t = Some (say (l @ [10]) t)" for t
    using print_pieces_say [of "[Strp l, Lit 10]" "str_bytes ''%s'' @ [10]" "[StrArg l]" t] by (simp add: str_bytes_def)
  have "fgets_test_loop buffer s = fgets_test_loop buffer' (say (l @ [10]) (s\<lparr>s_data := ?rest\<rparr>))"
    using b p [of "s\<lparr>s_data := ?rest\<rparr>"] by (subst fgets_test_loop.simps) simp
  also have "\<dots> = Some (say (concat (map (\<lambda>l. l @ [10]) ls)) ((say (l @ [10]) (s\<lparr>s_data := ?rest\<rparr>))\<lparr>s_data := rest\<rparr>))"
    using Cons.prems(3) by (intro Cons.IH b(2)) simp_all
  finally show ?case by (simp add: say_def)
qed

text \<open>
  the test of \<open>fgets\<close> prints the data module line by line and stops at its end, if every line has fewer than 50
  characters.
\<close>

theorem fgets_test_prints:
  assumes "s_data s = concat (map (\<lambda>l. l @ [10]) ls) @ EOF # rest"
    and "\<forall>l \<in> set ls. length l < 50 \<and> (\<forall>x \<in> set l. sint x > 0 \<and> x \<noteq> 8 \<and> x \<noteq> 10)"
  shows "fgets_test s = Some (say (str_bytes ''fgets test:'' @ [10] @ str_bytes ''Reading from data module...'' @ [10] @
    concat (map (\<lambda>l. l @ [10]) ls)) (s\<lparr>s_data := rest\<rparr>))"
proof -
  let ?h = "str_bytes ''fgets test:'' @ [10] @ str_bytes ''Reading from data module...'' @ [10]"
  have "test_puts (str_bytes ''fgets test:'' @ [10]) t = say (str_bytes ''fgets test:'' @ [10]) t"
    "test_puts (str_bytes ''Reading from data module...'' @ [10]) t = say (str_bytes ''Reading from data module...'' @ [10]) t" for t
    by (rule test_puts_say; simp add: str_bytes_def)+
  then have "fgets_test s = fgets_test_loop (replicate 50 0) (say ?h s)" by (simp add: fgets_test_def)
  then show ?thesis
    using fgets_test_lines [of "say ?h s" ls rest "replicate 50 0"] assms by (simp add: say_def)
qed

theorem fgets_test_prints_witness:
  "fgets_test (sample_session\<lparr>s_data := [97, 98, 10, 10, EOF]\<rparr>) =
     Some (say (str_bytes ''fgets test:'' @ [10] @ str_bytes ''Reading from data module...'' @ [10, 97, 98, 10, 10]) sample_session)"
  using fgets_test_prints [of "sample_session\<lparr>s_data := [97, 98, 10, 10, EOF]\<rparr>" "[[97, 98], []]" "[]"]
  by (simp add: sample_session_def)

section \<open>The test of malloc\<close>

definition machine_alloc :: "event list \<Rightarrow> machine \<Rightarrow> u64 \<Rightarrow> (machine \<times> ptr) option" where
  "machine_alloc env s sz =
     (case user_malloc sz env s of Some (s', Returned p, env') \<Rightarrow> Some (s', p) | _ \<Rightarrow> None)"

text \<open>With the library's \<open>malloc\<close> the last test never gets to its first answer.\<close>

lemma malloc_test_faults: "machine_inv h \<Longrightarrow> malloc_test (machine_alloc env) h s = None"
  using int80_null [of h SYS_MALLOC] boot_table
  by (simp add: malloc_test_def machine_alloc_def user_malloc_def s_malloc_def call_numbers)

end
