(* ===== verification/Streams.thy ===== *)
theory Streams
  imports Printf Fractals
begin

text \<open>
  Files of the host, for the tools that run there: what \<open>Bootloader/BMFS/bmfs.c\<close> uses of the standard
  library's streams. A stream is the content of its file, the position, the end of the room on its medium and
  the error indicator that \<open>ferror\<close> reads.
\<close>

section \<open>Operations\<close>

record stream =
  content :: "u8 list"
  fpos :: nat
  room :: nat
  failed :: bool

text \<open>A write behind the end of the file leaves zeros between the end and its first byte.\<close>

definition put_at :: "u8 list \<Rightarrow> nat \<Rightarrow> u8 list \<Rightarrow> u8 list" where
  "put_at c p bs =
     (if bs = [] then c else take p (c @ replicate (p - length c) 0) @ bs @ drop (p + length bs) c)"

definition get_at :: "u8 list \<Rightarrow> nat \<Rightarrow> nat \<Rightarrow> u8 list" where
  "get_at c p n = take n (drop p c)"

text \<open>The offset is a \<open>long\<close>; a negative one is refused and leaves the position as it is.\<close>

definition fseek_set :: "u64 \<Rightarrow> stream \<Rightarrow> stream" where
  "fseek_set off f = (if sint off < 0 then f else f\<lparr>fpos := unat off\<rparr>)"

definition rewind :: "stream \<Rightarrow> stream" where
  "rewind f = f\<lparr>fpos := 0, failed := False\<rparr>"

definition fread :: "nat \<Rightarrow> stream \<Rightarrow> u8 list \<times> stream" where
  "fread n f = (let bs = get_at (content f) (fpos f) n in (bs, f\<lparr>fpos := fpos f + length bs\<rparr>))"

text \<open>A read into a buffer keeps what lies behind the bytes that were read.\<close>

definition fread_into :: "u8 list \<Rightarrow> stream \<Rightarrow> u8 list \<times> stream" where
  "fread_into buffer f = (case fread (length buffer) f of (bs, f') \<Rightarrow> (bs @ drop (length bs) buffer, f'))"

definition fwrite :: "u8 list \<Rightarrow> stream \<Rightarrow> stream \<times> bool" where
  "fwrite bs f =
     (let fit = take (room f - fpos f) bs; ok = (length fit = length bs)
      in (f\<lparr>content := put_at (content f) (fpos f) fit, fpos := fpos f + length fit, failed := failed f \<or> \<not> ok\<rparr>, ok))"

text \<open>At the end of the file the result is \<open>EOF\<close>, whose byte is 255.\<close>

definition getc :: "stream \<Rightarrow> u8 \<times> stream" where
  "getc f = (if fpos f < length (content f) then (content f ! fpos f, f\<lparr>fpos := fpos f + 1\<rparr>) else (255, f))"

definition putc :: "u8 \<Rightarrow> stream \<Rightarrow> stream" where
  "putc c f = fst (fwrite [c] f)"

section \<open>Writing and reading at a position\<close>

lemma put_at_Nil [simp]: "put_at c p [] = c"
  by (simp add: put_at_def)

lemma length_put_at: "bs \<noteq> [] \<Longrightarrow> length (put_at c p bs) = max (length c) (p + length bs)"
  by (auto simp: put_at_def)

lemma length_put_at_within [simp]: "p + length bs \<le> length c \<Longrightarrow> length (put_at c p bs) = length c"
  by (cases "bs = []") (auto simp: length_put_at)

lemma nth_put_at:
  assumes "i < length (put_at c p bs)"
  shows "put_at c p bs ! i = (if p \<le> i \<and> i < p + length bs then bs ! (i - p) else if i < length c then c ! i else 0)"
proof (cases "bs = []")
  case False
  define t where "t = take p (c @ replicate (p - length c) 0)"
  have t: "length t = p" "put_at c p bs = t @ bs @ drop (p + length bs) c" using False by (simp_all add: t_def put_at_def)
  have nth_t: "t ! i = (if i < length c then c ! i else 0)" if "i < p"
    using that by (simp add: t_def nth_append less_diff_conv2)
  consider "i < p" | "p \<le> i" "i < p + length bs" | "p + length bs \<le> i" by linarith
  then show ?thesis
  proof cases
    case 3
    then have "i < length c" using assms False by (auto simp: length_put_at)
    with 3 show ?thesis by (auto simp: t nth_append)
  qed (auto simp: t nth_t nth_append)
qed (use assms in auto)

lemma length_get_at: "length (get_at c p n) = min n (length c - p)"
  by (simp add: get_at_def)

lemma nth_get_at: "i < length (get_at c p n) \<Longrightarrow> get_at c p n ! i = c ! (p + i)"
  by (cases "p \<le> length c") (simp_all add: get_at_def)

lemma get_put_same: "p + length bs \<le> length c \<or> bs \<noteq> [] \<Longrightarrow> get_at (put_at c p bs) p (length bs) = bs"
  by (cases "bs = []") (auto simp: put_at_def get_at_def)

lemma get_put_other:
  assumes "q + n \<le> p \<or> p + length bs \<le> q" "q + n \<le> length c"
  shows "get_at (put_at c p bs) q n = get_at c q n"
proof -
  have l: "length c \<le> length (put_at c p bs)" by (cases "bs = []") (auto simp: length_put_at)
  show ?thesis
  proof (rule nth_equalityI)
    fix i assume "i < length (get_at (put_at c p bs) q n)"
    then have i: "i < n" "q + i < length (put_at c p bs)" using assms(2) l by (simp_all add: length_get_at)
    then show "get_at (put_at c p bs) q n ! i = get_at c q n ! i"
      using assms l by (simp add: nth_get_at length_get_at nth_put_at) linarith
  qed (use assms(2) l in \<open>simp add: length_get_at\<close>)
qed

lemma put_at_within: "p + length bs \<le> length c \<Longrightarrow> put_at c p bs = take p c @ bs @ drop (p + length bs) c"
  by (simp add: put_at_def)

lemma put_at_end: "put_at c (length c) bs = c @ bs"
  by (simp add: put_at_def)

section \<open>A stream with enough room\<close>

lemma fwrite_room:
  assumes "fpos f + length bs \<le> room f"
  shows "fwrite bs f = (f\<lparr>content := put_at (content f) (fpos f) bs, fpos := fpos f + length bs\<rparr>, True)"
  using assms by (simp add: fwrite_def Let_def)

lemma fread_simp: "fread n f = (get_at (content f) (fpos f) n, f\<lparr>fpos := fpos f + length (get_at (content f) (fpos f) n)\<rparr>)"
  by (simp add: fread_def Let_def)

lemma fseek_small: "off < 2 ^ 63 \<Longrightarrow> fseek_set (of_nat off) f = f\<lparr>fpos := off\<rparr>"
proof -
  assume a: "off < 2 ^ 63"
  then have u: "unat (of_nat off :: u64) = off" by (intro unat_of_nat_u64) simp
  then have "sint (of_nat off :: u64) = int off" using sint_small [of "of_nat off :: u64"] a by simp
  with u show ?thesis by (simp add: fseek_set_def)
qed

end
