(* ===== verification/Bmfs.thy ===== *)
theory Bmfs
  imports Streams
begin

text \<open>
  The file system utility, \<open>Bootloader/BMFS/bmfs.c\<close>, that builds the disk image the system boots from: its
  directory and the commands on files. The directory is the array of 4096 bytes the program keeps it in;
  \<open>None\<close> stands for what C leaves undefined: a string without end, a NULL name, a write behind the array.
\<close>

section \<open>State\<close>

type_synonym hostname = "u8 list"

record BMFSEntry =
  FileName :: "u8 list"
  StartingBlock :: u64
  ReservedBlocks :: u64
  FileSize :: u64
  Unused :: u64

text \<open>
  What the program finds: the file of the disk, the room for it, whether it can be created, whether memory can
  be had, and the other files of the directory it runs in, which of them can be created and how long one may
  become. The disk is none of these files.
\<close>

record host =
  disk_file :: "u8 list option"
  disk_room :: nat
  disk_opens :: bool
  has_memory :: bool
  local_files :: "hostname \<Rightarrow> u8 list option"
  can_create :: "hostname \<Rightarrow> bool"
  local_room :: nat

text \<open>The globals of the program besides, and what it has printed.\<close>

record bmfs = host +
  DiskInfo :: "u8 list"
  Directory :: "u8 list"
  disksize :: u32
  disk :: stream
  printed :: "u8 list"

definition tell :: "u8 list \<Rightarrow> bmfs \<Rightarrow> bmfs" where
  "tell text s = s\<lparr>printed := printed s @ text\<rparr>"

definition line :: "string \<Rightarrow> u8 list" where
  "line msg = str_bytes msg @ [10]"

definition padding :: "nat \<Rightarrow> u8 list \<Rightarrow> u8 list" where
  "padding n text = replicate (n - length text) 32"

section \<open>Entries\<close>

text \<open>The fields of a structure as the bytes of a little-endian machine.\<close>

definition u64_bytes :: "u64 \<Rightarrow> u8 list" where
  "u64_bytes w = map (\<lambda>i. ucast (drop_bit (8 * i) w)) [0..<8]"

definition bytes_u64 :: "u8 list \<Rightarrow> u64" where
  "bytes_u64 bs = foldr (\<lambda>b w. push_bit 8 w OR ucast b) bs 0"

definition entry_bytes :: "u8 list \<Rightarrow> nat \<Rightarrow> u8 list" where
  "entry_bytes dir i = get_at dir (64 * i) 64"

definition entry_of :: "u8 list \<Rightarrow> BMFSEntry" where
  "entry_of bs =
     \<lparr>FileName = get_at bs 0 32, StartingBlock = bytes_u64 (get_at bs 32 8), ReservedBlocks = bytes_u64 (get_at bs 40 8),
      FileSize = bytes_u64 (get_at bs 48 8), Unused = bytes_u64 (get_at bs 56 8)\<rparr>"

definition end_of_directory :: "BMFSEntry \<Rightarrow> bool" where
  "end_of_directory e \<longleftrightarrow> FileName e ! 0 = 0"

definition unused_entry :: "BMFSEntry \<Rightarrow> bool" where
  "unused_entry e \<longleftrightarrow> FileName e ! 0 = 1"

text \<open>Comparing a string with the bytes of a structure, and the string that begins there.\<close>

fun strcmp_is_0 :: "u8 list \<Rightarrow> u8 list \<Rightarrow> bool option" where
  "strcmp_is_0 xs [] = None"
| "strcmp_is_0 [] (b # bs) = Some (b = 0)"
| "strcmp_is_0 (x # xs) (b # bs) = (if x = b then strcmp_is_0 xs bs else Some False)"

definition string_at :: "u8 list \<Rightarrow> u8 list option" where
  "string_at bs = (if 0 \<in> set bs then Some (takeWhile (\<lambda>c. c \<noteq> 0) bs) else None)"

section \<open>Looking up\<close>

fun findfile_loop :: "hostname option \<Rightarrow> u8 list \<Rightarrow> nat \<Rightarrow> nat \<Rightarrow> nat option option" where
  "findfile_loop name dir tint 0 = Some None"
| "findfile_loop name dir tint (Suc k) =
     (let e = entry_of (entry_bytes dir tint) in
      if end_of_directory e then Some None
      else if unused_entry e then findfile_loop name dir (tint + 1) k
      else do {
        nm \<leftarrow> name;
        same \<leftarrow> strcmp_is_0 nm (entry_bytes dir tint);
        if same then Some (Some tint) else findfile_loop name dir (tint + 1) k
      })"

text \<open>The bytes of the entry and its number, if there is one of that name.\<close>

definition findfile :: "hostname option \<Rightarrow> u8 list \<Rightarrow> (u8 list \<times> nat) option option" where
  "findfile name dir = map_option (map_option (\<lambda>i. (entry_bytes dir i, i))) (findfile_loop name dir 0 64)"

definition list_entry :: "u8 list \<Rightarrow> u8 list option" where
  "list_entry bs =
     map_option (\<lambda>nm.
         let e = entry_of bs; sz = int_text (sint (FileSize e)); reserved = int_text (sint (ReservedBlocks e * 2))
         in nm @ padding 32 nm @ [32] @ padding 20 sz @ sz @ [32] @ padding 20 reserved @ reserved @ [10])
       (string_at bs)"

fun list_loop :: "u8 list \<Rightarrow> nat \<Rightarrow> nat \<Rightarrow> bmfs \<Rightarrow> bmfs option" where
  "list_loop dir tint 0 s = Some s"
| "list_loop dir tint (Suc k) s =
     (let e = entry_of (entry_bytes dir tint) in
      if end_of_directory e then Some s
      else if unused_entry e then list_loop dir (tint + 1) k s
      else do { text \<leftarrow> list_entry (entry_bytes dir tint); list_loop dir (tint + 1) k (tell text s) })"

definition bmfs_list :: "hostname \<Rightarrow> bmfs \<Rightarrow> bmfs option" where
  "bmfs_list diskname s =
     list_loop (Directory s) 0 64
       (tell (line ''=========================================================================='')
       (tell (line ''Name                            |            Size (B)|      Reserved (MiB)'')
       (tell (diskname @ [10] @ str_bytes ''Disk Size: '' @ int_text (sint (disksize s)) @ line '' MiB'') s)))"

section \<open>Changing the directory\<close>

definition fs_tag :: "u8 list" where
  "fs_tag = str_bytes ''BMFS''"

definition flush_directory :: "bmfs \<Rightarrow> bmfs" where
  "flush_directory s = s\<lparr>disk := fst (fwrite (Directory s) (fseek_set 4096 (disk s)))\<rparr>"

definition bmfs_format :: "bmfs \<Rightarrow> bmfs" where
  "bmfs_format s =
     (let s1 = s\<lparr>DiskInfo := put_at (replicate 512 0) 0 fs_tag, Directory := replicate 4096 0\<rparr>;
          s2 = s1\<lparr>disk := fst (fwrite (DiskInfo s1) (fseek_set 1024 (disk s1)))\<rparr>
      in tell (line ''Format complete.'') (flush_directory s2))"

text \<open>
  The comparison has the type \<open>int\<close>. \<open>qsort\<close> is modelled by insertion; what it makes of a comparison that
  says of two unused entries that each is greater than the other, C leaves open.
\<close>

definition StartingBlockCmp :: "BMFSEntry \<Rightarrow> BMFSEntry \<Rightarrow> u32" where
  "StartingBlockCmp ea eb =
     (if unused_entry ea then 1 else if unused_entry eb then - 1 else ucast (StartingBlock ea - StartingBlock eb))"

fun qsort_insert :: "BMFSEntry \<Rightarrow> BMFSEntry list \<Rightarrow> BMFSEntry list" where
  "qsort_insert e [] = [e]"
| "qsort_insert e (d # ds) = (if StartingBlockCmp e d \<le>s 0 then e # d # ds else d # qsort_insert e ds)"

definition qsort_directory :: "BMFSEntry list \<Rightarrow> BMFSEntry list" where
  "qsort_directory es = foldr qsort_insert es []"

text \<open>
  The count of the entries up to the end of the directory and the first one that can be taken. If the
  directory has no end the count keeps its first value, 0.
\<close>

fun count_entries :: "u8 list \<Rightarrow> nat \<Rightarrow> nat \<Rightarrow> nat option \<Rightarrow> nat \<times> nat option" where
  "count_entries dir tint 0 first_free = (0, first_free)"
| "count_entries dir tint (Suc k) first_free =
     (let e = entry_of (entry_bytes dir tint); free_here = (if first_free = None then Some tint else first_free) in
      if end_of_directory e then (tint, free_here)
      else if unused_entry e then count_entries dir (tint + 1) k free_here
      else count_entries dir (tint + 1) k first_free)"

text \<open>The start of a free area before one of the files or behind the last one; 0 if there is none.\<close>

fun fit_loop :: "u64 \<Rightarrow> u64 \<Rightarrow> u64 \<Rightarrow> BMFSEntry list \<Rightarrow> u64" where
  "fit_loop num_blocks blocks_requested prev_file_end [] =
     (if num_blocks - 1 - prev_file_end \<ge> blocks_requested then prev_file_end else 0)"
| "fit_loop num_blocks blocks_requested prev_file_end (e # es) =
     (let this_file_start = (if unused_entry e then num_blocks - 1 else StartingBlock e) in
      if this_file_start - prev_file_end \<ge> blocks_requested then prev_file_end
      else fit_loop num_blocks blocks_requested (StartingBlock e + ReservedBlocks e) es)"

definition dir_entries :: "u8 list \<Rightarrow> nat \<Rightarrow> BMFSEntry list" where
  "dir_entries dir n = map (\<lambda>i. entry_of (entry_bytes dir i)) [0..<n]"

text \<open>The fields first and the name, with its terminator, after them.\<close>

definition add_record :: "hostname \<Rightarrow> u64 \<Rightarrow> u64 \<Rightarrow> nat \<Rightarrow> u8 list \<Rightarrow> u8 list option" where
  "add_record name new_file_start blocks_requested slot dir =
     (let dir1 = put_at dir (64 * slot + 32) (u64_bytes new_file_start);
          dir2 = put_at dir1 (64 * slot + 40) (u64_bytes blocks_requested);
          dir3 = put_at dir2 (64 * slot + 48) (u64_bytes 0)
      in if 64 * slot + length name < length dir3 then Some (put_at dir3 (64 * slot) (name @ [0])) else None)"

definition bmfs_create :: "hostname \<Rightarrow> u64 \<Rightarrow> bmfs \<Rightarrow> bmfs option" where
  "bmfs_create name mib s =
     (let maxsize = (if mib mod 2 \<noteq> 0 then mib + 1 else mib) in
      case findfile (Some name) (Directory s) of
        None \<Rightarrow> None
      | Some (Some _) \<Rightarrow> Some (tell (line ''Error: File already exists.'') s)
      | Some None \<Rightarrow>
          let blocks_requested = maxsize div 2;
              num_blocks = ucast (disksize s div 2);
              s1 = tell (line ''Creating new file...'') s
          in (case count_entries (Directory s) 0 64 None of
                (num_used_entries, None) \<Rightarrow> Some (tell (line ''Cannot create file: no free directory entries.'') s1)
              | (num_used_entries, Some first_free_entry) \<Rightarrow>
                  let new_file_start =
                        fit_loop num_blocks blocks_requested 1
                          (qsort_directory (dir_entries (Directory s) num_used_entries))
                  in if new_file_start = 0
                     then Some (tell (str_bytes ''Cannot create file of size '' @ int_text (sint maxsize) @ line '' MiB.'') s1)
                     else (case add_record name new_file_start blocks_requested first_free_entry (Directory s) of
                             None \<Rightarrow> None
                           | Some dir \<Rightarrow>
                               let dir' = (if first_free_entry = num_used_entries \<and> num_used_entries + 1 < 64
                                           then put_at dir (64 * (num_used_entries + 1)) [0] else dir)
                               in Some (tell (line ''Complete'') (flush_directory (s1\<lparr>Directory := dir'\<rparr>))))))"

definition bmfs_delete :: "hostname option \<Rightarrow> bmfs \<Rightarrow> bmfs option" where
  "bmfs_delete name s =
     (case findfile name (Directory s) of
        None \<Rightarrow> None
      | Some None \<Rightarrow> Some (tell (line ''Error: File not found in BMFS.'') s)
      | Some (Some (_, slot)) \<Rightarrow>
          map_option (\<lambda>filename.
              tell (line ''Complete'')
                (flush_directory ((tell (str_bytes ''Deleting file '' @ [39] @ filename @ [39] @ str_bytes '' from BMFS... '') s)
                  \<lparr>Directory := put_at (Directory s) (64 * slot) [1]\<rparr>)))
            name)"

section \<open>Copying to and from local files\<close>

fun copy_chars :: "nat \<Rightarrow> stream \<Rightarrow> stream \<Rightarrow> stream \<times> stream" where
  "copy_chars 0 src dst = (src, dst)"
| "copy_chars (Suc n) src dst = (case getc src of (c, src') \<Rightarrow> copy_chars n src' (putc c dst))"

text \<open>The counter of the two loops is an \<open>int\<close>, which must not overflow.\<close>

definition counts_to :: "u64 \<Rightarrow> nat option" where
  "counts_to n = (if unat n < 2 ^ 31 then Some (unat n) else None)"

definition bmfs_read :: "hostname option \<Rightarrow> bmfs \<Rightarrow> bmfs option" where
  "bmfs_read name s =
     (case findfile name (Directory s) of
        None \<Rightarrow> None
      | Some None \<Rightarrow> Some (tell (line ''Error: File not found in BMFS.'') s)
      | Some (Some (bs, slot)) \<Rightarrow> do {
          filename \<leftarrow> name;
          entry_name \<leftarrow> string_at bs;
          let tempentry = entry_of bs;
              s1 = tell (str_bytes ''Reading '' @ [39] @ filename @ [39] @ str_bytes '' from BMFS to local file... '') s
          in if \<not> can_create s entry_name
             then Some (tell (str_bytes ''Error: Could not open local file '' @ [39] @ entry_name @ [39, 10]) s1)
             else do {
               n \<leftarrow> counts_to (FileSize tempentry);
               (case copy_chars n (fseek_set (StartingBlock tempentry * 2097152) (disk s))
                       \<lparr>content = [], fpos = 0, room = local_room s, failed = False\<rparr> of
                  (disk', tfile) \<Rightarrow>
                    Some (tell (line ''Complete'') (s1\<lparr>disk := disk', local_files := (local_files s)(entry_name \<mapsto> content tfile)\<rparr>)))
             }
        })"

definition bmfs_write :: "hostname option \<Rightarrow> bmfs \<Rightarrow> bmfs option" where
  "bmfs_write name s =
     (case findfile name (Directory s) of
        None \<Rightarrow> None
      | Some None \<Rightarrow> Some (tell (line ''Error: File not found in BMFS. A file entry must first be created.'') s)
      | Some (Some (bs, slot)) \<Rightarrow> do {
          filename \<leftarrow> name;
          entry_name \<leftarrow> string_at bs;
          let tempentry = entry_of bs;
              s1 = tell (str_bytes ''Writing local file '' @ [39] @ filename @ [39] @ str_bytes '' to BMFS... '') s
          in (case local_files s filename of
                None \<Rightarrow> Some (tell (str_bytes ''Error: Could not open local file '' @ [39] @ entry_name @ [39, 10]) s1)
              | Some bytes \<Rightarrow>
                  let tempfilesize = of_nat (length bytes) :: u64 in
                  if ReservedBlocks tempentry * 2097152 < tempfilesize
                  then Some (tell (line ''Not enough reserved space in BMFS.'') s1)
                  else do {
                    n \<leftarrow> counts_to tempfilesize;
                    (case copy_chars n \<lparr>content = bytes, fpos = 0, room = length bytes, failed = False\<rparr>
                            (fseek_set (StartingBlock tempentry * 2097152) (disk s)) of
                       (tfile, disk') \<Rightarrow>
                         Some (tell (line ''Complete'')
                           (flush_directory (s1\<lparr>disk := disk',
                              Directory := put_at (Directory s) (64 * slot + 48) (u64_bytes tempfilesize)\<rparr>))))
                  })
        })"

end
