(* ===== verification/Diskimage.thy ===== *)
theory Diskimage
  imports Bmfs
begin

text \<open>
  The rest of \<open>Bootloader/BMFS/bmfs.c\<close>: \<open>initialize\<close>, which writes the disk image with the boot record, the boot
  loader and the kernel, and \<open>main\<close>, which opens a disk, runs one command and closes it.
\<close>

section \<open>The size of the image\<close>

definition minimumDiskSize :: u64 where
  "minimumDiskSize = 6 * 1024 * 1024"

definition is_digit :: "u8 \<Rightarrow> bool" where
  "is_digit c \<longleftrightarrow> 48 \<le> c \<and> c \<le> 57"

definition to_upper :: "u8 \<Rightarrow> u8" where
  "to_upper c = (if 97 \<le> c \<and> c \<le> 122 then c - 32 else c)"

definition unit_factor :: "u8 \<Rightarrow> nat option" where
  "unit_factor ch =
     (if ch = 75 then Some 1 else if ch = 77 then Some 2 else if ch = 71 then Some 3
      else if ch = 84 then Some 4 else if ch = 80 then Some 5 else None)"

definition too_large :: "u8 list" where
  "too_large = line ''Error: Disk size is too large''"

definition invalid_size :: "u8 list \<Rightarrow> u8 list" where
  "invalid_size sz = str_bytes ''Error: Invalid disk size string: '' @ [39] @ sz @ [39, 10]"

text \<open>The characters that are left, whether none has been read yet, and the number so far.\<close>

fun parse_size :: "u8 list \<Rightarrow> u8 list \<Rightarrow> bool \<Rightarrow> u64 \<Rightarrow> u8 list + u64 \<times> nat" where
  "parse_size sz [] first diskSize = Inr (diskSize, 0)"
| "parse_size sz (ch # cs) first diskSize =
     (if is_digit ch
      then let n = ucast (ch - 48) :: u64 in
           if diskSize * 10 > diskSize then parse_size sz cs False (diskSize * 10 + n)
           else if diskSize = 0 then parse_size sz cs False (diskSize + n)
           else Inl too_large
      else if first then Inl (line ''Error: A numeric disk size must be specified'')
      else (case unit_factor (to_upper ch) of
              None \<Rightarrow> Inl (invalid_size sz)
            | Some k \<Rightarrow> if cs \<noteq> [] then Inl (invalid_size sz) else Inr (diskSize, k)))"

text \<open>The number and how many of its multiplications overflowed; the loop goes on after one that did.\<close>

fun scale_size :: "u64 \<Rightarrow> nat \<Rightarrow> u64 \<times> nat" where
  "scale_size diskSize 0 = (diskSize, 0)"
| "scale_size diskSize (Suc k) =
     (if diskSize * 1024 > diskSize then scale_size (diskSize * 1024) k
      else (case scale_size diskSize k of (n, errors) \<Rightarrow> (n, errors + 1)))"

definition image_size :: "u8 list \<Rightarrow> u8 list + u64" where
  "image_size sz =
     (case parse_size sz sz True 0 of
        Inl msg \<Rightarrow> Inl msg
      | Inr (n, k) \<Rightarrow>
          (case (if n > 0 \<and> k > 0 then scale_size n k else (n, 0)) of
             (diskSize, errors) \<Rightarrow>
               if errors > 0 then Inl (concat (replicate errors too_large))
               else if diskSize < minimumDiskSize
               then Inl (str_bytes ''Error: Disk size must be at least '' @ digits_text 10 (unat minimumDiskSize) @
                      str_bytes '' bytes ('' @ digits_text 10 (unat minimumDiskSize div (1024 * 1024)) @ line ''MiB)'')
               else Inr diskSize))"

section \<open>Writing the image\<close>

definition bufferSize :: nat where
  "bufferSize = 50 * 1024"

definition quoted :: "string \<Rightarrow> u8 list \<Rightarrow> u8 list" where
  "quoted msg name = str_bytes msg @ [39] @ name @ [39, 10]"

definition progress :: "nat \<Rightarrow> nat \<Rightarrow> u8 list" where
  "progress writeSize diskSize =
     (let percent = dbl (of_nat writeSize); percent = dbl (percent / dbl (of_nat diskSize)); percent = dbl (percent * 100)
      in str_bytes ''Formatting disk: '' @ digits_text 10 writeSize @ str_bytes '' of '' @ digits_text 10 diskSize @
         str_bytes '' bytes ('' @ int_text (nearest_even percent) @ str_bytes ''%)...'' @ [13])"

text \<open>One write to the disk; a failure is reported and makes the exit code 1.\<close>

definition write_disk :: "hostname \<Rightarrow> u8 list \<Rightarrow> nat \<times> bmfs \<Rightarrow> nat \<times> bmfs" where
  "write_disk diskname bs rs =
     (case (rs, fwrite bs (disk (snd rs))) of
        ((ret, s), d, ok) \<Rightarrow>
          if ok then (ret, s\<lparr>disk := d\<rparr>)
          else (1, tell (quoted ''Error: Failed to write disk '' diskname) (s\<lparr>disk := d\<rparr>)))"

function fill_disk :: "hostname \<Rightarrow> nat \<Rightarrow> nat \<Rightarrow> bmfs \<Rightarrow> nat \<times> bmfs" where
  "fill_disk diskname diskSize writeSize s =
     (if writeSize < diskSize
      then let chunkSize = min bufferSize (diskSize - writeSize) in
           (case write_disk diskname (replicate chunkSize 0) (0, tell (progress writeSize diskSize) s) of
              (ret, s') \<Rightarrow> if ret \<noteq> 0 then (ret, s') else fill_disk diskname diskSize (writeSize + chunkSize) s')
      else (0, tell (str_bytes ''Formatting disk: '' @ digits_text 10 writeSize @ str_bytes '' of '' @
                 digits_text 10 diskSize @ str_bytes '' bytes (100%)'' @ padding 9 [] @ [10]) s))"
  by pat_completeness auto
termination
  by (relation "measure (\<lambda>(diskname, diskSize, writeSize, s). diskSize - writeSize)") (auto simp: bufferSize_def)

declare fill_disk.simps [simp del]

text \<open>
  The loop that copies a file in chunks goes on after a failed write; at its end it asks the disk, not the
  file, for an error.
\<close>

function write_chunks :: "hostname \<Rightarrow> hostname \<Rightarrow> u8 list \<Rightarrow> nat \<times> bmfs \<Rightarrow> nat \<times> bmfs" where
  "write_chunks diskname name bytes rs =
     (let chunk = take bufferSize bytes in
      if chunk \<noteq> [] then write_chunks diskname name (drop bufferSize bytes) (write_disk diskname chunk rs)
      else if failed (disk (snd rs))
      then (1, tell (quoted ''Error: Failed to read file '' name) (snd rs))
      else rs)"
  by pat_completeness auto
termination by (relation "measure (\<lambda>(diskname, name, bytes, rs). length bytes)") (auto simp: bufferSize_def)

declare write_chunks.simps [simp del]

definition write_mbr :: "hostname \<Rightarrow> hostname \<Rightarrow> u8 list \<Rightarrow> nat \<times> bmfs \<Rightarrow> nat \<times> bmfs" where
  "write_mbr diskname mbr bytes rs =
     (let s = tell (line ''Writing master boot record.'') (snd rs); s1 = s\<lparr>disk := fseek_set 0 (disk s)\<rparr>
      in if 512 \<le> length bytes then write_disk diskname (take 512 bytes) (0, s1)
         else (1, tell (quoted ''Error: Failed to read file '' mbr) s1))"

text \<open>The files that are named must exist; the first that does not ends the program.\<close>

definition open_input :: "string \<Rightarrow> hostname option \<Rightarrow> bmfs \<Rightarrow> u8 list + u8 list option" where
  "open_input what name s =
     (case name of
        None \<Rightarrow> Inr None
      | Some nm \<Rightarrow>
          (case local_files s nm of
             None \<Rightarrow> Inl (quoted (''Error: Unable to open '' @ what @ '' file '') nm)
           | Some bytes \<Rightarrow> Inr (Some bytes)))"

definition bootFileType :: "hostname option \<Rightarrow> string" where
  "bootFileType kfile = (if kfile = None then ''system'' else ''boot loader'')"

definition image_files ::
  "hostname option \<Rightarrow> hostname option \<Rightarrow> hostname option \<Rightarrow> bmfs \<Rightarrow>
   u8 list + u8 list option \<times> u8 list option \<times> u8 list option" where
  "image_files mbr boot kfile s =
     (case open_input ''MBR'' mbr s of
        Inl msg \<Rightarrow> Inl msg
      | Inr mbrFile \<Rightarrow>
          (case open_input (bootFileType kfile) boot s of
             Inl msg \<Rightarrow> Inl msg
           | Inr bootFile \<Rightarrow>
               (case open_input ''kernel'' kfile s of
                  Inl msg \<Rightarrow> Inl msg
                | Inr kernelFile \<Rightarrow> Inr (mbrFile, bootFile, kernelFile))))"

text \<open>A step that is taken if nothing has failed and its file was named.\<close>

definition if_named :: "'a option \<Rightarrow> ('a \<Rightarrow> nat \<times> bmfs \<Rightarrow> nat \<times> bmfs) \<Rightarrow> nat \<times> bmfs \<Rightarrow> nat \<times> bmfs" where
  "if_named name step rs = (if fst rs \<noteq> 0 then rs else case name of None \<Rightarrow> rs | Some nm \<Rightarrow> step nm rs)"

definition write_image ::
  "hostname \<Rightarrow> nat \<Rightarrow> hostname option \<Rightarrow> hostname option \<Rightarrow> hostname option \<Rightarrow>
   u8 list option \<Rightarrow> u8 list option \<Rightarrow> u8 list option \<Rightarrow> bmfs \<Rightarrow> nat \<times> bmfs" where
  "write_image diskname diskSize mbr boot kfile mbrFile bootFile kernelFile s =
     (case fill_disk diskname diskSize 0 s of
        (ret, s1) \<Rightarrow>
          let rs2 = (if ret \<noteq> 0 then (ret, s1) else (0, bmfs_format (s1\<lparr>disk := rewind (disk s1)\<rparr>)));
              rs3 = if_named mbrFile (write_mbr diskname (the mbr)) rs2;
              rs4 = if_named bootFile (\<lambda>bytes (ret, s).
                      let s' = tell (str_bytes ''Writing '' @ str_bytes (bootFileType kfile) @ line '' file.'') s
                      in write_chunks diskname (the boot) bytes (0, s'\<lparr>disk := fseek_set 8192 (disk s')\<rparr>)) rs3
          in if_named kernelFile (\<lambda>bytes (ret, s).
               write_chunks diskname (the kfile) bytes (0, tell (line ''Writing kernel.'') s)) rs4)"

definition close_disk :: "bmfs \<Rightarrow> bmfs" where
  "close_disk s = s\<lparr>disk_file := Some (content (disk s))\<rparr>"

definition initialize ::
  "hostname \<Rightarrow> u8 list \<Rightarrow> hostname option \<Rightarrow> hostname option \<Rightarrow> hostname option \<Rightarrow> bmfs \<Rightarrow> nat \<times> bmfs" where
  "initialize diskname sz mbr boot kfile s =
     (case image_size sz of
        Inl msg \<Rightarrow> (1, tell msg s)
      | Inr diskSize \<Rightarrow>
          (case image_files mbr boot kfile s of
             Inl msg \<Rightarrow> (1, tell msg s)
           | Inr (mbrFile, bootFile, kernelFile) \<Rightarrow>
               if \<not> has_memory s then (1, tell (line ''Error: Failed to allocate buffer'') s)
               else if \<not> disk_opens s then (1, tell (quoted ''Error: Unable to open disk '' diskname) s)
               else (case write_image diskname (unat diskSize) mbr boot kfile mbrFile bootFile kernelFile
                            (s\<lparr>disk := \<lparr>content = [], fpos = 0, room = disk_room s, failed = False\<rparr>\<rparr>) of
                       (ret, s') \<Rightarrow>
                         let s'' = close_disk s'
                         in (ret, if ret = 0 then tell (line ''Disk initialization complete.'') s'' else s''))))"

section \<open>The program\<close>

definition to_lower :: "u8 \<Rightarrow> u8" where
  "to_lower c = (if 65 \<le> c \<and> c \<le> 90 then c + 32 else c)"

definition same_command :: "string \<Rightarrow> u8 list \<Rightarrow> bool" where
  "same_command name arg \<longleftrightarrow> map to_lower (str_bytes name) = map to_lower arg"

text \<open>\<open>atoi\<close> of the host, undefined for numbers that are no \<open>int\<close>, and the line that \<open>fgets\<close> reads.\<close>

definition host_atoi :: "u8 list \<Rightarrow> int option" where
  "host_atoi str =
     (let t = dropWhile (\<lambda>c. c = 32 \<or> (9 \<le> c \<and> c \<le> 13)) str;
          (neg, ds) = (case t of [] \<Rightarrow> (False, []) | c # cs \<Rightarrow> if c = 45 then (True, cs) else if c = 43 then (False, cs) else (False, t));
          n = int (foldl (\<lambda>acc c. acc * 10 + unat (c - 48)) 0 (takeWhile is_digit ds));
          v = (if neg then - n else n)
      in if - (2 ^ 31) \<le> v \<and> v < 2 ^ 31 then Some v else None)"

definition host_fgets :: "nat \<Rightarrow> u8 list \<Rightarrow> u8 list" where
  "host_fgets n input =
     (let cs = take (n - 1) input; l = takeWhile (\<lambda>c. c \<noteq> 10) cs in if length l < length cs then l @ [10] else l)"

definition usage :: "u8 list \<Rightarrow> u8 list" where
  "usage name =
     line ''BareMetal File System Utility v1.0 (2013 04 10)'' @
     line ''Written by Ian Seyler @ Return Infinity (ian.seyler@returninfinity.com)'' @ [10] @
     str_bytes ''Usage: '' @ name @ line '' disk function file'' @
     line ''Disk: the name of the disk file'' @
     line ''Function: list, read, write, create, delete, format, initialize'' @
     line ''File: (if applicable)''"

definition open_disk :: "u8 list \<Rightarrow> bmfs \<Rightarrow> bmfs" where
  "open_disk bytes s =
     (let d0 = \<lparr>content = bytes, fpos = 0, room = disk_room s, failed = False\<rparr>;
          (info, d1) = fread_into (DiskInfo s) (fseek_set 1024 d0);
          (dir, d2) = fread_into (Directory s) (fseek_set 4096 d1)
      in s\<lparr>disksize := of_nat (length bytes div 1048576), DiskInfo := info, Directory := dir, disk := rewind d2\<rparr>)"

definition formatted :: "u8 list \<Rightarrow> bool option" where
  "formatted info = strcmp_is_0 (map to_lower fs_tag) (map to_lower info)"

definition create_command :: "hostname option \<Rightarrow> u8 list list \<Rightarrow> u8 list \<Rightarrow> bmfs \<Rightarrow> bmfs option" where
  "create_command filename argv stdin s =
     (case filename of
        None \<Rightarrow> Some (tell (line ''Error: File name not specified.'') s)
      | Some name \<Rightarrow>
          if length argv > 4
          then do {
            filesize \<leftarrow> host_atoi (argv ! 4);
            (if filesize \<ge> 1 then bmfs_create name (of_int filesize) s else Some (tell (line ''Error: Invalid file size.'') s))
          }
          else do {
            let s1 = tell (str_bytes ''Maximum file size in MiB: '') s;
            number \<leftarrow> host_atoi (takeWhile (\<lambda>c. c \<noteq> 0) (host_fgets 32 stdin));
            let filesize = (of_int number :: u32);
            (if filesize \<ge> 1 then bmfs_create name (ucast filesize) s1 else Some (tell (line ''Error: Invalid file size.'') s1))
          })"

definition run_disk_command :: "u8 list list \<Rightarrow> u8 list \<Rightarrow> bmfs \<Rightarrow> bmfs option" where
  "run_disk_command argv stdin s =
     (let command = argv ! 2; filename = (if length argv > 3 then Some (argv ! 3) else None) in
      if same_command ''list'' command then bmfs_list (argv ! 1) s
      else if same_command ''format'' command
      then Some (if length argv > 3 \<and> same_command ''/FORCE'' (argv ! 3) then bmfs_format s
                 else tell (line ''Format aborted!'') s)
      else if same_command ''create'' command then create_command filename argv stdin s
      else if same_command ''read'' command then bmfs_read filename s
      else if same_command ''write'' command then bmfs_write filename s
      else if same_command ''delete'' command then bmfs_delete filename s
      else Some (tell (line ''Unknown command'') s))"

text \<open>The exit code, the files and the output.\<close>

definition bmfs_main :: "u8 list list \<Rightarrow> u8 list \<Rightarrow> host \<Rightarrow> (nat \<times> host \<times> u8 list) option" where
  "bmfs_main argv stdin h =
     (let s = host.extend h (bmfs.fields (replicate 512 0) (replicate 4096 0) 0
                \<lparr>content = [], fpos = 0, room = 0, failed = False\<rparr> []);
          result = (\<lambda>ret s. Some (ret, host.truncate s, printed s));
          arg = (\<lambda>i. if length argv > i then Some (argv ! i) else None)
      in if length argv < 3 then result 0 (tell (usage (argv ! 0)) s)
         else if same_command ''initialize'' (argv ! 2)
         then if length argv \<ge> 4
              then (case initialize (argv ! 1) (argv ! 3) (arg 4) (arg 5) (arg 6) s of (ret, s') \<Rightarrow> result ret s')
              else result 1 (tell (str_bytes ''Usage: '' @ argv ! 0 @ str_bytes '' disk '' @ argv ! 2 @ [32] @
                     str_bytes ''size [mbr_file] '' @ line ''[bootloader_file] [kernel_file]'') s)
         else (case disk_file h of
                 None \<Rightarrow> result 0 (tell (quoted ''Error: Unable to open disk '' (argv ! 1)) s)
               | Some bytes \<Rightarrow>
                   let s1 = open_disk bytes s in
                   (case formatted (DiskInfo s1) of
                      None \<Rightarrow> None
                    | Some False \<Rightarrow>
                        result 0 (close_disk
                          (if same_command ''format'' (argv ! 2) then bmfs_format s1
                           else tell (line ''Error: Not a valid BMFS drive (Disk is not BMFS formatted).'') s1))
                    | Some True \<Rightarrow>
                        Option.bind (run_disk_command argv stdin s1) (\<lambda>s2. result 0 (close_disk s2)))))"

end
