(* ===== verification/Disks.thy ===== *)
theory Disks
  imports Diskimage
begin

text \<open>
  What the file system utility promises. Seen from outside a disk is a list of files in the order of their
  creation, each with the blocks that are reserved for it and its bytes; the data of a file starts where the
  blocks of the one before it end. Every command of the program does to the disk what the abstract
  command does to the list, as long as nothing is created after a deletion.
\<close>

section \<open>Bytes of entries\<close>

lemma length_u64_bytes [simp]: "length (u64_bytes w) = 8"
  by (simp add: u64_bytes_def)

lemma bit_bytes_u64:
  "bit (bytes_u64 bs) n \<longleftrightarrow> n < 64 \<and> n < 8 * length bs \<and> bit (bs ! (n div 8)) (n mod 8)"
proof (induction bs arbitrary: n)
  case Nil
  then show ?case by (simp add: bytes_u64_def)
next
  case (Cons b bs)
  have c: "bytes_u64 (b # bs) = push_bit 8 (bytes_u64 bs) OR ucast b" by (simp add: bytes_u64_def)
  show ?case
  proof (cases "n < 8")
    case True
    then show ?thesis unfolding c by (simp add: bit_simps)
  next
    case False
    then have "n div 8 = Suc ((n - 8) div 8)" "n mod 8 = (n - 8) mod 8" by (auto simp: le_div_geq le_mod_geq)
    then show ?thesis using False unfolding c by (auto simp: bit_simps Cons.IH dest: bit_imp_le_length)
  qed
qed

lemma bytes_u64_bytes [simp]: "bytes_u64 (u64_bytes w) = w"
proof (rule bit_word_eqI)
  fix n assume "n < LENGTH(64)"
  then have "n < 64" by simp
  then have "u64_bytes w ! (n div 8) = ucast (drop_bit (8 * (n div 8)) w)" by (simp add: u64_bytes_def less_mult_imp_div_less)
  then show "bit (bytes_u64 (u64_bytes w)) n = bit w n"
    using \<open>n < 64\<close> by (simp add: bit_bytes_u64 bit_simps)
qed

lemma length_entry_bytes: "length dir = 4096 \<Longrightarrow> i < 64 \<Longrightarrow> length (entry_bytes dir i) = 64"
  by (simp add: entry_bytes_def length_get_at)

lemma get_put_sub:
  assumes "o1 + length bs \<le> n" "p + n \<le> length c"
  shows "get_at (put_at c (p + o1) bs) p n = put_at (get_at c p n) o1 bs"
proof -
  have l: "length (get_at c p n) = n" "length (put_at c (p + o1) bs) = length c" using assms by (simp_all add: length_get_at)
  show ?thesis
  proof (rule nth_equalityI)
    fix i assume "i < length (get_at (put_at c (p + o1) bs) p n)"
    then have "i < n" using assms l by (simp add: length_get_at)
    then show "get_at (put_at c (p + o1) bs) p n ! i = put_at (get_at c p n) o1 bs ! i"
      using assms l by (subst nth_put_at) (auto simp: nth_get_at length_get_at nth_put_at)
  qed (use assms l in \<open>simp add: length_get_at\<close>)
qed

lemma entry_put:
  assumes "length dir = 4096" "i < 64" "j < 64" "off + length bs \<le> 64"
  shows "entry_bytes (put_at dir (64 * i + off) bs) j = (if j = i then put_at (entry_bytes dir i) off bs else entry_bytes dir j)"
proof (cases "j = i")
  case True
  then show ?thesis using assms by (simp add: entry_bytes_def get_put_sub)
next
  case False
  then have "64 * j + 64 \<le> 64 * i + off \<or> 64 * i + off + length bs \<le> 64 * j" using assms(4) by linarith
  then show ?thesis using False assms by (simp add: entry_bytes_def get_put_other)
qed

lemma length_dir_put [simp]: "length dir = 4096 \<Longrightarrow> i < 64 \<Longrightarrow> off + length bs \<le> 64 \<Longrightarrow> length (put_at dir (64 * i + off) bs) = 4096"
  by simp

lemma first_of_entry: "length bs = 64 \<Longrightarrow> FileName (entry_of bs) ! 0 = bs ! 0"
  by (simp add: entry_of_def nth_get_at length_get_at)

lemma name_compare: "0 \<notin> set xs \<Longrightarrow> 0 \<notin> set ys \<Longrightarrow> strcmp_is_0 xs (ys @ 0 # rest) = Some (xs = ys)"
proof (induction xs arbitrary: ys)
  case Nil
  then show ?case by (cases ys) auto
next
  case (Cons x xs)
  then show ?case by (cases ys) auto
qed

lemma string_at_name: "0 \<notin> set nm \<Longrightarrow> string_at (nm @ 0 # rest) = Some nm"
  by (auto simp: string_at_def takeWhile_append)

section \<open>Copying\<close>

lemma put_at_Cons: "p \<le> length c \<Longrightarrow> put_at (put_at c p [x]) (Suc p) bs = put_at c p (x # bs)"
  by (cases "bs = []") (auto simp: put_at_def add.commute)

lemma get_at_Cons: "p < length c \<Longrightarrow> get_at c p (Suc n) = c ! p # get_at c (Suc p) n"
  by (simp add: get_at_def Cons_nth_drop_Suc [symmetric])

lemma copy_chars_spec:
  assumes "fpos src + n \<le> length (content src)" "fpos dst + n \<le> room dst" "fpos dst \<le> length (content dst)"
  shows "copy_chars n src dst =
    (src\<lparr>fpos := fpos src + n\<rparr>,
     dst\<lparr>content := put_at (content dst) (fpos dst) (get_at (content src) (fpos src) n), fpos := fpos dst + n\<rparr>)"
  using assms
proof (induction n arbitrary: src dst)
  case (Suc n)
  let ?c = "content src ! fpos src"
  let ?src = "src\<lparr>fpos := fpos src + 1\<rparr>"
  let ?dst = "dst\<lparr>content := put_at (content dst) (fpos dst) [?c], fpos := fpos dst + 1\<rparr>"
  have "copy_chars (Suc n) src dst = copy_chars n ?src ?dst"
    using Suc.prems by (simp add: getc_def putc_def fwrite_room)
  also have "\<dots> = (?src\<lparr>fpos := fpos ?src + n\<rparr>,
      ?dst\<lparr>content := put_at (content ?dst) (fpos ?dst) (get_at (content ?src) (fpos ?src) n), fpos := fpos ?dst + n\<rparr>)"
    using Suc.prems by (intro Suc.IH) (auto simp: length_put_at)
  finally show ?case using Suc.prems by (simp add: put_at_Cons get_at_Cons)
qed (simp add: get_at_def)

section \<open>The abstract disk\<close>

text \<open>A name, or none after a deletion, the number of reserved blocks and the bytes.\<close>

type_synonym afile = "hostname option \<times> nat \<times> u8 list"

definition block_size :: nat where
  "block_size = 2097152"

definition file_name :: "hostname \<Rightarrow> bool" where
  "file_name nm \<longleftrightarrow> nm \<noteq> [] \<and> 0 \<notin> set nm \<and> hd nm \<noteq> 1 \<and> length nm \<le> 31"

definition reserved :: "afile \<Rightarrow> nat" where
  "reserved f = fst (snd f)"

definition bytes_of :: "afile \<Rightarrow> u8 list" where
  "bytes_of f = snd (snd f)"

definition first_block :: "afile list \<Rightarrow> nat \<Rightarrow> nat" where
  "first_block a i = 1 + sum_list (map reserved (take i a))"

definition position :: "hostname \<Rightarrow> afile list \<Rightarrow> nat option" where
  "position nm a = find (\<lambda>i. fst (a ! i) = Some nm) [0..<length a]"

definition blocks_for :: "nat \<Rightarrow> nat" where
  "blocks_for mib = (mib + 1) div 2"

text \<open>A disk of \<open>nb\<close> blocks: the first and the last one hold no file.\<close>

definition create_file :: "nat \<Rightarrow> hostname \<Rightarrow> nat \<Rightarrow> afile list \<Rightarrow> afile list" where
  "create_file nb nm mib a =
     (if position nm a = None \<and> length a < 64 \<and> first_block a (length a) + blocks_for mib < nb
      then a @ [(Some nm, blocks_for mib, [])] else a)"

definition write_file_to :: "hostname \<Rightarrow> u8 list \<Rightarrow> afile list \<Rightarrow> afile list" where
  "write_file_to nm bytes a =
     (case position nm a of
        None \<Rightarrow> a
      | Some i \<Rightarrow> if length bytes \<le> reserved (a ! i) * block_size then a[i := (Some nm, reserved (a ! i), bytes)] else a)"

definition delete_file :: "hostname \<Rightarrow> afile list \<Rightarrow> afile list" where
  "delete_file nm a =
     (case position nm a of None \<Rightarrow> a | Some i \<Rightarrow> a[i := (None, reserved (a ! i), bytes_of (a ! i))])"

definition read_file :: "hostname \<Rightarrow> afile list \<Rightarrow> u8 list option" where
  "read_file nm a = map_option (\<lambda>i. bytes_of (a ! i)) (position nm a)"

section \<open>What the directory holds\<close>

definition file_entry :: "u8 list \<Rightarrow> nat \<Rightarrow> afile \<Rightarrow> bool" where
  "file_entry bs start f \<longleftrightarrow>
     length bs = 64 \<and> StartingBlock (entry_of bs) = of_nat start \<and> ReservedBlocks (entry_of bs) = of_nat (reserved f) \<and>
     (case fst f of
        None \<Rightarrow> bs ! 0 = 1
      | Some nm \<Rightarrow> file_name nm \<and> (\<exists>rest. bs = nm @ 0 # rest) \<and> FileSize (entry_of bs) = of_nat (length (bytes_of f)))"

definition distinct_names :: "afile list \<Rightarrow> bool" where
  "distinct_names a \<longleftrightarrow>
     (\<forall>i < length a. \<forall>j < length a. fst (a ! i) \<noteq> None \<longrightarrow> fst (a ! i) = fst (a ! j) \<longrightarrow> i = j)"

definition dir_holds :: "nat \<Rightarrow> u8 list \<Rightarrow> afile list \<Rightarrow> bool" where
  "dir_holds nb dir a \<longleftrightarrow>
     length dir = 4096 \<and> length a \<le> 64 \<and> nb < 2 ^ 31 \<and> first_block a (length a) < nb \<and> distinct_names a \<and>
     (\<forall>i < length a. file_entry (entry_bytes dir i) (first_block a i) (a ! i)) \<and>
     (length a < 64 \<longrightarrow> entry_bytes dir (length a) ! 0 = 0)"

lemma first_block_Suc: "i < length a \<Longrightarrow> first_block a (Suc i) = first_block a i + reserved (a ! i)"
  by (simp add: first_block_def take_Suc_conv_app_nth)

lemma first_block_mono: "i \<le> j \<Longrightarrow> first_block a i \<le> first_block a j"
proof -
  assume "i \<le> j"
  then have "take j a = take i a @ take (j - i) (drop i a)" by (metis le_add_diff_inverse take_add)
  then show ?thesis by (simp add: first_block_def)
qed

lemma first_block_step: "i < j \<Longrightarrow> i < length a \<Longrightarrow> first_block a i + reserved (a ! i) \<le> first_block a j"
  using first_block_mono [of "Suc i" j a] by (simp add: first_block_Suc)

lemma first_block_update:
  "i < length a \<Longrightarrow> reserved f = reserved (a ! i) \<Longrightarrow> first_block (a[i := f]) j = first_block a j"
proof -
  assume a: "i < length a" "reserved f = reserved (a ! i)"
  have "map reserved (a[i := f]) = map reserved a" using a by (simp add: map_update list_update_same_conv)
  then show ?thesis by (simp add: first_block_def take_map [symmetric])
qed

lemma first_block_append: "j \<le> length a \<Longrightarrow> first_block (a @ b) j = first_block a j"
  by (simp add: first_block_def)

lemma position_Some: "position nm a = Some i \<Longrightarrow> i < length a \<and> fst (a ! i) = Some nm"
  by (auto simp: position_def find_Some_iff)

lemma position_None: "position nm a = None \<longleftrightarrow> (\<forall>i < length a. fst (a ! i) \<noteq> Some nm)"
  by (auto simp: position_def find_None_iff)

lemma position_at: "distinct_names a \<Longrightarrow> i < length a \<Longrightarrow> fst (a ! i) = Some nm \<Longrightarrow> position nm a = Some i"
  by (cases "position nm a") (auto simp: position_None distinct_names_def dest: position_Some)

lemma entry_first:
  assumes "file_entry bs start f"
  shows "unused_entry (entry_of bs) \<longleftrightarrow> fst f = None" "\<not> end_of_directory (entry_of bs)"
proof -
  have "bs ! 0 = hd nm \<and> hd nm \<noteq> 0 \<and> hd nm \<noteq> 1" if "fst f = Some nm" for nm
    using assms that by (cases nm) (auto simp: file_entry_def file_name_def)
  then show "unused_entry (entry_of bs) \<longleftrightarrow> fst f = None" "\<not> end_of_directory (entry_of bs)"
    using assms by (cases "fst f"; auto simp: file_entry_def unused_entry_def end_of_directory_def first_of_entry)+
qed

lemma findfile_loop_spec:
  assumes "dir_holds nb dir a" "0 \<notin> set nm"
  shows "i + k = 64 \<Longrightarrow> i \<le> length a \<Longrightarrow>
    findfile_loop (Some nm) dir i k = Some (find (\<lambda>j. fst (a ! j) = Some nm) [i..<length a])"
proof (induction k arbitrary: i)
  case 0
  then show ?case using assms(1) by (simp add: dir_holds_def)
next
  case (Suc k)
  show ?case
  proof (cases "i < length a")
    case True
    let ?bs = "entry_bytes dir i"
    have e: "file_entry ?bs (first_block a i) (a ! i)" using assms(1) True by (simp add: dir_holds_def)
    have ih: "findfile_loop (Some nm) dir (i + 1) k = Some (find (\<lambda>j. fst (a ! j) = Some nm) [i + 1..<length a])"
      using Suc True by simp
    have u: "[i..<length a] = i # [i + 1..<length a]" using True by (simp add: upt_conv_Cons)
    show ?thesis
    proof (cases "fst (a ! i)")
      case None
      then show ?thesis using entry_first [OF e] ih unfolding u by (simp add: Let_def)
    next
      case (Some name)
      then obtain rest where "?bs = name @ 0 # rest" "0 \<notin> set name" using e by (auto simp: file_entry_def file_name_def)
      then have "strcmp_is_0 nm ?bs = Some (nm = name)" using name_compare [OF assms(2)] by metis
      then show ?thesis using entry_first [OF e] ih Some unfolding u by (simp add: Let_def)
    qed
  next
    case False
    then have "i = length a" "length a < 64" using Suc.prems by simp_all
    moreover have "length (entry_bytes dir i) = 64"
      using assms(1) calculation by (intro length_entry_bytes) (simp_all add: dir_holds_def)
    ultimately show ?thesis using assms(1) by (simp add: dir_holds_def end_of_directory_def first_of_entry Let_def)
  qed
qed

lemma findfile_spec:
  assumes "dir_holds nb dir a" "0 \<notin> set nm"
  shows "findfile (Some nm) dir = Some (map_option (\<lambda>i. (entry_bytes dir i, i)) (position nm a))"
  using findfile_loop_spec [OF assms, of 0 64] by (simp add: findfile_def position_def)

section \<open>Creating files\<close>

lemma count_entries_spec:
  assumes "dir_holds nb dir a" "\<forall>i < length a. fst (a ! i) \<noteq> None"
  shows "i + k = 64 \<Longrightarrow> i \<le> length a \<Longrightarrow>
    count_entries dir i k None = (if length a < 64 then (length a, Some (length a)) else (0, None))"
proof (induction k arbitrary: i)
  case 0
  then show ?case using assms(1) by (simp add: dir_holds_def)
next
  case (Suc k)
  show ?case
  proof (cases "i < length a")
    case True
    have e: "file_entry (entry_bytes dir i) (first_block a i) (a ! i)" using assms(1) True by (simp add: dir_holds_def)
    show ?thesis using entry_first [OF e] Suc True assms(2) by (simp add: Let_def)
  next
    case False
    then have "i = length a" "length a < 64" using Suc.prems by simp_all
    moreover have "length (entry_bytes dir i) = 64"
      using assms(1) calculation by (intro length_entry_bytes) (simp_all add: dir_holds_def)
    ultimately show ?thesis using assms(1) by (simp add: dir_holds_def end_of_directory_def first_of_entry Let_def)
  qed
qed

lemma compare_blocks:
  assumes "StartingBlock e = of_nat s" "StartingBlock d = of_nat t" "s \<le> t" "t < 2 ^ 31" "\<not> unused_entry e" "\<not> unused_entry d"
  shows "StartingBlockCmp e d \<le>s 0"
proof -
  let ?k = "int s - int t"
  have "(of_nat s - of_nat t :: u64) = of_int ?k" by simp
  then have "StartingBlockCmp e d = of_int ?k"
    using assms by (simp add: StartingBlockCmp_def unsigned_of_int word_of_int_eq_iff del: of_int_diff)
  moreover have "signed_take_bit 31 ?k = ?k" using assms(3,4) by (intro signed_take_bit_int_eq_self) simp_all
  then have "sint (of_int ?k :: u32) = ?k" by (simp add: signed_of_int del: of_int_diff)
  ultimately show ?thesis using assms(3) by (simp add: word_sle_eq)
qed

lemma qsort_sorted:
  "sorted_wrt (\<lambda>e d. StartingBlockCmp e d \<le>s 0) es \<Longrightarrow> qsort_directory es = es"
proof (induction es)
  case (Cons e es)
  then show ?case by (cases es) (simp_all add: qsort_directory_def)
qed (simp add: qsort_directory_def)

lemma qsort_dir:
  assumes "dir_holds nb dir a" "\<forall>i < length a. fst (a ! i) \<noteq> None"
  shows "qsort_directory (dir_entries dir (length a)) = dir_entries dir (length a)"
proof (rule qsort_sorted, unfold sorted_wrt_iff_nth_less, intro allI impI)
  fix i j assume l: "i < j" "j < length (dir_entries dir (length a))"
  then have ij: "i < length a" "j < length a" by (simp_all add: dir_entries_def)
  have e: "file_entry (entry_bytes dir i) (first_block a i) (a ! i)" "file_entry (entry_bytes dir j) (first_block a j) (a ! j)"
    using assms(1) ij by (simp_all add: dir_holds_def)
  have b: "first_block a j < 2 ^ 31"
    using assms(1) first_block_mono [of j "length a" a] ij by (simp add: dir_holds_def)
  have "StartingBlockCmp (entry_of (entry_bytes dir i)) (entry_of (entry_bytes dir j)) \<le>s 0"
  proof (rule compare_blocks [OF _ _ _ b])
    show "first_block a i \<le> first_block a j" using l(1) by (intro first_block_mono) simp
  qed (use e entry_first(1) [OF e(1)] entry_first(1) [OF e(2)] assms(2) ij in \<open>simp_all add: file_entry_def\<close>)
  then show "StartingBlockCmp (dir_entries dir (length a) ! i) (dir_entries dir (length a) ! j) \<le>s 0"
    using ij by (simp add: dir_entries_def)
qed

text \<open>There is no gap between the files, so only the area behind the last one can do.\<close>

lemma fit_loop_spec:
  assumes "dir_holds nb dir a" "\<forall>i < length a. fst (a ! i) \<noteq> None" "0 < req" "req < 2 ^ 32"
  shows "i \<le> length a \<Longrightarrow>
    fit_loop (of_nat nb) (of_nat req) (of_nat (first_block a i))
      (map (\<lambda>i. entry_of (entry_bytes dir i)) [i..<length a]) =
    (if first_block a (length a) + req < nb then of_nat (first_block a (length a)) else 0)"
proof (induction "length a - i" arbitrary: i)
  case 0
  let ?f = "first_block a (length a)"
  have i: "i = length a" using 0 by simp
  have nb: "?f < nb" "nb < 2 ^ 31" using assms(1) by (simp_all add: dir_holds_def)
  have "of_nat nb - 1 - of_nat ?f = (of_nat (nb - 1 - ?f) :: u64)" using nb by (simp add: of_nat_diff)
  moreover have "unat (of_nat (nb - 1 - ?f) :: u64) = nb - 1 - ?f" using nb by (intro unat_of_nat_u64) simp
  moreover have "unat (of_nat req :: u64) = req" using assms(4) by (intro unat_of_nat_u64) simp
  ultimately have "of_nat req \<le> (of_nat nb - 1 - of_nat ?f :: u64) \<longleftrightarrow> req \<le> nb - 1 - ?f"
    unfolding word_le_nat_alt by simp
  then show ?case using i nb by auto
next
  case (Suc n)
  then have i: "i < length a" by simp
  have u: "[i..<length a] = i # [Suc i..<length a]" using i by (simp add: upt_conv_Cons)
  have e: "file_entry (entry_bytes dir i) (first_block a i) (a ! i)" using assms(1) i by (simp add: dir_holds_def)
  have used: "\<not> unused_entry (entry_of (entry_bytes dir i))" using entry_first(1) [OF e] assms(2) i by simp
  have f: "StartingBlock (entry_of (entry_bytes dir i)) = of_nat (first_block a i)"
    "ReservedBlocks (entry_of (entry_bytes dir i)) = of_nat (reserved (a ! i))" using e by (simp_all add: file_entry_def)
  have "unat (of_nat req :: u64) = req" using assms(4) by (intro unat_of_nat_u64) simp
  then have "\<not> of_nat req \<le> (0 :: u64)" using assms(3) by (simp add: word_le_nat_alt)
  moreover have "of_nat (first_block a i) + of_nat (reserved (a ! i)) = (of_nat (first_block a (Suc i)) :: u64)"
    by (simp add: first_block_Suc [OF i])
  ultimately show ?case using Suc.hyps(1) [of "Suc i"] Suc.hyps(2) i unfolding u by (simp add: used f Let_def)
qed

lemma add_record_spec:
  assumes "length dir = 4096" "slot < 64" "length nm \<le> 31"
  obtains dir' rest where "add_record nm start req slot dir = Some dir'" "length dir' = 4096"
    "entry_bytes dir' slot = nm @ 0 # rest" "StartingBlock (entry_of (entry_bytes dir' slot)) = start"
    "ReservedBlocks (entry_of (entry_bytes dir' slot)) = req" "FileSize (entry_of (entry_bytes dir' slot)) = 0"
    "\<And>j. j < 64 \<Longrightarrow> j \<noteq> slot \<Longrightarrow> entry_bytes dir' j = entry_bytes dir j"
proof -
  let ?e = "entry_bytes dir slot"
  define d3 where "d3 = put_at (put_at (put_at dir (64 * slot + 32) (u64_bytes start)) (64 * slot + 40) (u64_bytes req))
    (64 * slot + 48) (u64_bytes 0)"
  define e3 where "e3 = put_at (put_at (put_at ?e 32 (u64_bytes start)) 40 (u64_bytes req)) 48 (u64_bytes 0)"
  have le: "length ?e = 64" "length e3 = 64" using length_entry_bytes [OF assms(1,2)] by (simp_all add: e3_def)
  have d3: "length d3 = 4096" "\<And>j. j < 64 \<Longrightarrow> entry_bytes d3 j = (if j = slot then e3 else entry_bytes dir j)"
    using assms(1,2) by (simp_all add: d3_def e3_def entry_put)
  let ?d = "put_at d3 (64 * slot) (nm @ [0])"
  have d: "length ?d = 4096" using length_dir_put [OF d3(1) assms(2), of 0 "nm @ [0]"] assms(3) by simp
  have ed: "entry_bytes ?d j = (if j = slot then put_at e3 0 (nm @ [0]) else entry_bytes dir j)" if "j < 64" for j
    using entry_put [OF d3(1) assms(2) that, of 0 "nm @ [0]"] d3(2) that assms(3) by (simp add: assms(2))
  have e: "entry_bytes ?d slot = nm @ 0 # drop (Suc (length nm)) e3"
    using ed [OF assms(2)] by (simp add: put_at_def)
  have f: "get_at (nm @ 0 # drop (Suc (length nm)) e3) q 8 = get_at e3 q 8" if "32 \<le> q" "q + 8 \<le> 64" for q
    using get_put_other [of q 8 0 "nm @ [0]" e3] that assms(3) le by (simp add: put_at_def)
  have g: "get_at e3 32 8 = u64_bytes start" "get_at e3 40 8 = u64_bytes req" "get_at e3 48 8 = u64_bytes 0"
    using le(1) get_put_same [of 32 "u64_bytes start" ?e] get_put_same [of 40 "u64_bytes req" "put_at ?e 32 (u64_bytes start)"]
      get_put_same [of 48 "u64_bytes 0" "put_at (put_at ?e 32 (u64_bytes start)) 40 (u64_bytes req)"]
    by (simp_all add: e3_def get_put_other)
  have "add_record nm start req slot dir = Some ?d"
    using d3(1) assms(2,3) by (simp add: add_record_def Let_def d3_def)
  then show thesis
    using that [OF _ d e] e ed by (simp add: entry_of_def f g)
qed

section \<open>What the disk holds\<close>

definition data_holds :: "u8 list \<Rightarrow> afile list \<Rightarrow> bool" where
  "data_holds c a \<longleftrightarrow>
     (\<forall>i < length a. fst (a ! i) \<noteq> None \<longrightarrow>
        length (bytes_of (a ! i)) \<le> reserved (a ! i) * block_size \<and> length (bytes_of (a ! i)) < 2 ^ 31 \<and>
        get_at c (first_block a i * block_size) (length (bytes_of (a ! i))) = bytes_of (a ! i))"

definition blocks :: "u8 list \<Rightarrow> nat" where
  "blocks c = length c div block_size"

definition disk_holds :: "u8 list \<Rightarrow> afile list \<Rightarrow> bool" where
  "disk_holds c a \<longleftrightarrow>
     formatted (get_at c 1024 512) = Some True \<and> dir_holds (blocks c) (get_at c 4096 4096) a \<and> data_holds c a"

text \<open>A disk that has been opened, and the state after a command.\<close>

definition opened :: "bmfs \<Rightarrow> afile list \<Rightarrow> bool" where
  "opened s a \<longleftrightarrow>
     disk_holds (content (disk s)) a \<and> Directory s = get_at (content (disk s)) 4096 4096 \<and>
     disksize s = of_nat (length (content (disk s)) div 1048576) \<and> length (content (disk s)) \<le> room (disk s)"

definition leaves :: "bmfs \<Rightarrow> bmfs \<Rightarrow> afile list \<Rightarrow> bool" where
  "leaves s s' a \<longleftrightarrow>
     disk_holds (content (disk s')) a \<and> length (content (disk s')) = length (content (disk s)) \<and>
     host.truncate s' = host.truncate s"

lemma disk_holds_length: "disk_holds c a \<Longrightarrow> 2 * block_size \<le> length c \<and> length c < 2 ^ 31 * block_size"
proof -
  assume "disk_holds c a"
  then have b: "2 \<le> blocks c" "blocks c < 2 ^ 31" by (auto simp: disk_holds_def dir_holds_def first_block_def)
  have "2 * block_size \<le> blocks c * block_size" using b(1) by (intro mult_le_mono1)
  also have "\<dots> \<le> length c" by (simp add: blocks_def)
  finally have l: "2 * block_size \<le> length c" .
  have "length c < (blocks c + 1) * block_size" by (simp add: blocks_def block_size_def)
  also have "\<dots> \<le> 2 ^ 31 * block_size" using b(2) by (intro mult_le_mono1) simp
  finally show ?thesis using l by simp
qed

lemma file_within:
  assumes "disk_holds c a" "i < length a" "n \<le> reserved (a ! i) * block_size"
  shows "block_size \<le> first_block a i * block_size" "first_block a i * block_size + n \<le> length c"
proof -
  have d: "first_block a (length a) < blocks c" using assms(1) by (simp add: disk_holds_def dir_holds_def)
  show "block_size \<le> first_block a i * block_size" by (simp add: first_block_def)
  have "first_block a i + reserved (a ! i) \<le> blocks c" using first_block_step [OF assms(2) assms(2)] d by simp
  then have "(first_block a i + reserved (a ! i)) * block_size \<le> blocks c * block_size" by (rule mult_le_mono1)
  also have "\<dots> \<le> length c" by (simp add: blocks_def)
  finally show "first_block a i * block_size + n \<le> length c" using assms(3) by (simp add: add_mult_distrib)
qed

lemma flush_holds:
  assumes "formatted (get_at c 1024 512) = Some True" "dir_holds (blocks c) dir a'" "data_holds c a'"
  shows "disk_holds (put_at c 4096 dir) a'" "length (put_at c 4096 dir) = length c"
proof -
  have b: "first_block a' (length a') < blocks c" "length dir = 4096" using assms(2) by (simp_all add: dir_holds_def)
  then have "2 \<le> blocks c" by (simp add: first_block_def)
  then have "2 * block_size \<le> blocks c * block_size" by (rule mult_le_mono1)
  also have l: "\<dots> \<le> length c" by (simp add: blocks_def)
  finally have l2: "2 * block_size \<le> length c" .
  then show len: "length (put_at c 4096 dir) = length c" using b(2) by (simp add: block_size_def)
  have "get_at (put_at c 4096 dir) 1024 512 = get_at c 1024 512" using l2 b(2) by (intro get_put_other) (simp_all add: block_size_def)
  moreover have "get_at (put_at c 4096 dir) 4096 4096 = dir"
    using get_put_same [of 4096 dir c] l2 b(2) by (simp add: block_size_def)
  moreover have "get_at (put_at c 4096 dir) (first_block a' i * block_size) n = get_at c (first_block a' i * block_size) n"
    if "i < length a'" "n \<le> reserved (a' ! i) * block_size" for i n
  proof -
    have "first_block a' i + reserved (a' ! i) \<le> blocks c" using first_block_step [OF that(1) that(1)] b(1) by simp
    then have "(first_block a' i + reserved (a' ! i)) * block_size \<le> blocks c * block_size" by (rule mult_le_mono1)
    then have "first_block a' i * block_size + n \<le> length c" using that(2) l by (simp add: add_mult_distrib)
    moreover have "4096 + length dir \<le> first_block a' i * block_size" using b(2) by (simp add: first_block_def block_size_def)
    ultimately show ?thesis by (intro get_put_other) simp_all
  qed
  ultimately show "disk_holds (put_at c 4096 dir) a'"
    using assms by (simp add: disk_holds_def data_holds_def blocks_def len)
qed

lemma flush_directory_content:
  assumes "length (content (disk s)) \<le> room (disk s)" "4096 + length (Directory s) \<le> length (content (disk s))"
  shows "content (disk (flush_directory s)) = put_at (content (disk s)) 4096 (Directory s)"
    "host.truncate (flush_directory s) = host.truncate s"
  using assms fseek_small [of 4096 "disk s"]
  by (simp_all add: flush_directory_def fwrite_room host.truncate_def)

lemma tell_simps [simp]:
  "disk (tell t s) = disk s" "Directory (tell t s) = Directory s" "host.truncate (tell t s) = host.truncate s"
  "disksize (tell t s) = disksize s" "local_files (tell t s) = local_files s" "can_create (tell t s) = can_create s"
  "opened (tell t s) a = opened s a" "leaves s (tell t s') a = leaves s s' a" "DiskInfo (tell t s) = DiskInfo s"
  "printed (tell t s) = printed s @ t"
  by (simp_all add: tell_def host.truncate_def opened_def leaves_def)

lemma leaves_same: "opened s a \<Longrightarrow> leaves s s a"
  by (simp add: leaves_def opened_def)

lemma leaves_flush_to:
  assumes "opened s a" "length (content d) = length (content (disk s))" "room d = room (disk s)"
    and "formatted (get_at (content d) 1024 512) = Some True"
    and "dir_holds (blocks (content (disk s))) dir a'" "data_holds (content d) a'"
  shows "leaves s (flush_directory (s\<lparr>disk := d, Directory := dir\<rparr>)) a'"
proof -
  have c: "disk_holds (content (disk s)) a" "length (content d) \<le> room d" using assms(1-3) by (simp_all add: opened_def)
  have "4096 + length dir \<le> length (content d)"
    using disk_holds_length [OF c(1)] assms(2,5) by (simp add: dir_holds_def block_size_def)
  moreover have "dir_holds (blocks (content d)) dir a'" using assms(2,5) by (simp add: blocks_def)
  ultimately show ?thesis
    using flush_directory_content [of "s\<lparr>disk := d, Directory := dir\<rparr>"] flush_holds [OF assms(4) _ assms(6)] c(2) assms(2)
    by (simp add: leaves_def host.truncate_def)
qed

lemma leaves_flush:
  assumes "opened s a" "dir_holds (blocks (content (disk s))) dir a'" "data_holds (content (disk s)) a'"
  shows "leaves s (flush_directory (s\<lparr>Directory := dir\<rparr>)) a'"
proof -
  have "s\<lparr>disk := disk s, Directory := dir\<rparr> = s\<lparr>Directory := dir\<rparr>" by (cases s) simp
  then show ?thesis using leaves_flush_to [OF assms(1) _ _ _ assms(2,3)] assms(1) by (simp add: opened_def disk_holds_def)
qed

lemma blocks_requested:
  assumes "mib < 2 ^ 31"
  shows "(if of_nat mib mod 2 \<noteq> (0 :: u64) then of_nat mib + 1 else of_nat mib :: u64) div 2 = of_nat (blocks_for mib)"
proof -
  have u: "unat (of_nat n :: u64) = n" if "n < 2 ^ 32" for n using that by (intro unat_of_nat_u64) simp
  have "of_nat mib mod 2 = (0 :: u64) \<longleftrightarrow> even mib"
    using u [of mib] assms by (simp add: word_unat_eq_iff unat_mod even_iff_mod_2_eq_zero)
  moreover have "of_nat n div (2 :: u64) = of_nat (n div 2)" if "n < 2 ^ 32" for n
    using u [OF that] u [of "n div 2"] that by (simp add: word_unat_eq_iff unat_div)
  then have "of_nat (mib + 1) div (2 :: u64) = of_nat ((mib + 1) div 2)" "of_nat mib div (2 :: u64) = of_nat (mib div 2)"
    using assms by (simp_all del: of_nat_Suc of_nat_add)
  moreover have "even mib \<Longrightarrow> mib div 2 = (mib + 1) div 2" by simp
  ultimately show ?thesis by (auto simp: blocks_for_def add.commute)
qed

lemma num_blocks:
  assumes "opened s a"
  shows "ucast (disksize s div 2) = (of_nat (blocks (content (disk s))) :: u64)"
proof -
  let ?n = "length (content (disk s)) div 1048576"
  have "length (content (disk s)) < 2 ^ 31 * block_size" using assms disk_holds_length by (auto simp: opened_def)
  then have n: "?n < 2 ^ 32" by (simp add: block_size_def less_mult_imp_div_less)
  then have "unat (disksize s) = ?n" using assms by (simp add: opened_def unat_of_nat)
  then have "unat (disksize s div 2) = blocks (content (disk s))"
    by (simp add: unat_div blocks_def block_size_def div_mult2_eq [symmetric])
  then have "unat (ucast (disksize s div 2) :: u64) = blocks (content (disk s))" using unat_ucast_u32 by metis
  moreover have "blocks (content (disk s)) \<le> ?n" by (simp add: blocks_def block_size_def div_le_mono2)
  then have "unat (of_nat (blocks (content (disk s))) :: u64) = blocks (content (disk s))"
    using n by (intro unat_of_nat_u64) simp
  ultimately show ?thesis by (simp add: word_unat_eq_iff)
qed

lemma create_dir:
  assumes d: "dir_holds nb dir a" and used: "\<forall>i < length a. fst (a ! i) \<noteq> None"
    and new: "position nm a = None" "file_name nm" "length a < 64" "first_block a (length a) + req < nb"
  obtains dir' where "add_record nm (of_nat (first_block a (length a))) (of_nat req) (length a) dir = Some dir'"
    "dir_holds nb (if length a + 1 < 64 then put_at dir' (64 * (length a + 1)) [0] else dir') (a @ [(Some nm, req, [])])"
proof -
  let ?n = "length a" and ?a = "a @ [(Some nm, req, [])]"
  have dl: "length dir = 4096" and nm: "length nm \<le> 31" using d new(2) by (simp_all add: dir_holds_def file_name_def)
  obtain dir' rest where add: "add_record nm (of_nat (first_block a ?n)) (of_nat req) ?n dir = Some dir'"
    and l: "length dir' = 4096" and e: "entry_bytes dir' ?n = nm @ 0 # rest"
      "StartingBlock (entry_of (entry_bytes dir' ?n)) = of_nat (first_block a ?n)"
      "ReservedBlocks (entry_of (entry_bytes dir' ?n)) = of_nat req" "FileSize (entry_of (entry_bytes dir' ?n)) = 0"
    and other: "\<And>j. j < 64 \<Longrightarrow> j \<noteq> ?n \<Longrightarrow> entry_bytes dir' j = entry_bytes dir j"
    by (rule add_record_spec [OF dl new(3) nm]) blast
  define dir'' where "dir'' = (if ?n + 1 < 64 then put_at dir' (64 * (?n + 1)) [0] else dir')"
  have l'': "length dir'' = 4096" using l length_dir_put [OF l, of "?n + 1" 0 "[0]"] by (simp add: dir''_def)
  have e'': "entry_bytes dir'' j = entry_bytes dir' j" if "j \<le> ?n" for j
    using entry_put [OF l, of "?n + 1" j 0 "[0]"] that new(3) by (auto simp: dir''_def)
  have z: "entry_bytes dir'' (?n + 1) ! 0 = 0" if "?n + 1 < 64"
    using entry_put [OF l that that, of 0 "[0]"] length_entry_bytes [OF l that] that
    by (simp add: dir''_def put_at_def)
  have fe: "file_entry (entry_bytes dir'' i) (first_block ?a i) (?a ! i)" if "i < length ?a" for i
  proof (cases "i < ?n")
    case True
    then have "file_entry (entry_bytes dir i) (first_block a i) (a ! i)" using d by (simp add: dir_holds_def)
    then show ?thesis using True e'' [of i] other [of i] new(3) by (simp add: nth_append first_block_append)
  next
    case False
    then have "i = ?n" using that by simp
    then show ?thesis
      using e e'' [of ?n] length_entry_bytes [OF l new(3)] new(2)
      by (auto simp: file_entry_def first_block_append reserved_def bytes_of_def)
  qed
  have fb: "first_block ?a (length ?a) = first_block a ?n + req" by (simp add: first_block_def reserved_def)
  have dn: "distinct_names ?a"
    using d new(1) by (auto simp: distinct_names_def dir_holds_def nth_append position_None less_Suc_eq)
  have "dir_holds nb dir'' ?a"
    unfolding dir_holds_def using l'' new(3,4) fb dn fe z d by (simp add: dir_holds_def)
  then show thesis using that add by (simp add: dir''_def)
qed

lemma create_spec:
  assumes "opened s a" "\<forall>i < length a. fst (a ! i) \<noteq> None" "file_name nm" "1 \<le> mib" "mib < 2 ^ 31"
  shows "\<exists>s'. bmfs_create nm (of_nat mib) s = Some s' \<and>
    leaves s s' (create_file (blocks (content (disk s))) nm mib a)"
proof -
  let ?nb = "blocks (content (disk s))" and ?req = "blocks_for mib" and ?dir = "Directory s"
  have d: "dir_holds ?nb ?dir a" using assms(1) by (simp add: opened_def disk_holds_def)
  have z: "0 \<notin> set nm" using assms(3) by (simp add: file_name_def)
  have req: "0 < ?req" "?req < 2 ^ 32" using assms(4,5) by (auto simp: blocks_for_def)
  have nb: "first_block a (length a) < ?nb" "?nb < 2 ^ 31" using d by (simp_all add: dir_holds_def)
  define m :: u64 where "m = (if of_nat mib mod 2 \<noteq> (0 :: u64) then of_nat mib + 1 else of_nat mib)"
  have m: "m div 2 = of_nat ?req" using blocks_requested [OF assms(5)] by (simp only: m_def)
  note create = bmfs_create_def [of nm "of_nat mib" s, folded m_def]
  note simps = create m Let_def findfile_spec [OF d z] num_blocks [OF assms(1)]
    create_file_def qsort_dir [OF d assms(2)] leaves_same [OF assms(1)]
  show ?thesis
  proof (cases "position nm a")
    case Some
    then show ?thesis by (simp add: simps)
  next
    case None
    show ?thesis
    proof (cases "length a < 64")
      case False
      then show ?thesis using None count_entries_spec [OF d assms(2), of 0 64] by (simp add: simps)
    next
      case True
      have cnt: "count_entries ?dir 0 64 None = (length a, Some (length a))"
        using count_entries_spec [OF d assms(2), of 0 64] True by simp
      have one: "first_block a 0 = 1" by (simp add: first_block_def)
      have fit: "fit_loop (of_nat ?nb) (of_nat ?req) 1 (dir_entries ?dir (length a)) =
          (if first_block a (length a) + ?req < ?nb then of_nat (first_block a (length a)) else 0)"
        using fit_loop_spec [OF d assms(2) req, of 0] by (simp add: one dir_entries_def)
      show ?thesis
      proof (cases "first_block a (length a) + ?req < ?nb")
        case False
        then show ?thesis using None True by (simp add: simps cnt fit)
      next
        case fits: True
        have "unat (of_nat (first_block a (length a)) :: u64) = first_block a (length a)"
          using nb by (intro unat_of_nat_u64) simp
        then have nz: "(of_nat (first_block a (length a)) :: u64) \<noteq> 0" by (auto simp: word_unat_eq_iff first_block_def)
        obtain dir' where add: "add_record nm (of_nat (first_block a (length a))) (of_nat ?req) (length a) ?dir = Some dir'"
          and d': "dir_holds ?nb (if length a + 1 < 64 then put_at dir' (64 * (length a + 1)) [0] else dir')
            (a @ [(Some nm, ?req, [])])"
          using create_dir [OF d assms(2) None assms(3) True fits] by blast
        have "data_holds (content (disk s)) (a @ [(Some nm, ?req, [])])"
          using assms(1) by (auto simp: data_holds_def nth_append first_block_append bytes_of_def reserved_def get_at_def
              opened_def disk_holds_def less_Suc_eq)
        with leaves_flush [of "tell (line ''Creating new file...'') s" a _ "a @ [(Some nm, ?req, [])]"] assms(1) d'
        have "leaves s (flush_directory ((tell (line ''Creating new file...'') s)
            \<lparr>Directory := if length a + 1 < 64 then put_at dir' (64 * (length a + 1)) [0] else dir'\<rparr>)) (a @ [(Some nm, ?req, [])])"
          by (simp add: leaves_def)
        then show ?thesis using None True fits nz by (simp add: simps cnt fit add)
      qed
    qed
  qed
qed

section \<open>Writing, reading and deleting\<close>

lemma found_entry:
  assumes "dir_holds nb dir a" "position nm a = Some i"
  obtains rest where "entry_bytes dir i = nm @ 0 # rest" "length (entry_bytes dir i) = 64" "file_name nm"
    "StartingBlock (entry_of (entry_bytes dir i)) = of_nat (first_block a i)"
    "ReservedBlocks (entry_of (entry_bytes dir i)) = of_nat (reserved (a ! i))"
    "FileSize (entry_of (entry_bytes dir i)) = of_nat (length (bytes_of (a ! i)))" "i < length a"
proof -
  have i: "i < length a" "fst (a ! i) = Some nm" using position_Some [OF assms(2)] by simp_all
  then have "file_entry (entry_bytes dir i) (first_block a i) (a ! i)" using assms(1) by (simp add: dir_holds_def)
  then obtain rest where "entry_bytes dir i = nm @ 0 # rest" by (auto simp: file_entry_def i)
  with \<open>file_entry _ _ _\<close> show thesis by (intro that) (simp_all add: file_entry_def i)
qed

lemma put_at_behind: "length xs \<le> p \<Longrightarrow> put_at (xs @ ys) p bs = xs @ put_at ys (p - length xs) bs"
  by (auto simp: put_at_def)

text \<open>An entry may change in its size field or become unused; its blocks stay.\<close>

lemma update_dir:
  assumes d: "dir_holds nb dir a" and i: "i < length a"
    and f: "reserved f = reserved (a ! i)" "fst f = fst (a ! i) \<or> fst f = None"
    and bs: "off + length bs \<le> 64" "file_entry (put_at (entry_bytes dir i) off bs) (first_block a i) f"
  shows "dir_holds nb (put_at dir (64 * i + off) bs) (a[i := f])"
proof -
  let ?a = "a[i := f]" and ?dir = "put_at dir (64 * i + off) bs"
  have l: "length dir = 4096" "i < 64" "length a \<le> 64" using d i by (simp_all add: dir_holds_def)
  have fb: "first_block ?a j = first_block a j" for j using first_block_update [OF i f(1)] .
  have e: "entry_bytes ?dir j = (if j = i then put_at (entry_bytes dir i) off bs else entry_bytes dir j)" if "j < 64" for j
    using entry_put [OF l(1,2) that bs(1)] .
  have dn: "distinct_names ?a"
    unfolding distinct_names_def
  proof (intro allI impI)
    fix j k assume jk: "j < length ?a" "k < length ?a" "fst (?a ! j) \<noteq> None" "fst (?a ! j) = fst (?a ! k)"
    then have "fst (a ! j) = fst (?a ! j)" "fst (a ! k) = fst (?a ! k)"
      using f(2) i by (cases "j = i"; cases "k = i"; auto)+
    then show "j = k" using d jk by (auto simp: dir_holds_def distinct_names_def)
  qed
  have "file_entry (entry_bytes ?dir j) (first_block ?a j) (?a ! j)" if "j < length a" for j
    using d e [of j] that l bs(2) by (cases "j = i") (simp_all add: fb dir_holds_def)
  then show ?thesis
    unfolding dir_holds_def using d e i l dn fb length_dir_put [OF l(1,2) bs(1)] by (simp add: dir_holds_def)
qed

lemma size_entry:
  assumes d: "dir_holds nb dir a" and p: "position nm a = Some i"
  shows "dir_holds nb (put_at dir (64 * i + 48) (u64_bytes (of_nat (length bytes)))) (a[i := (Some nm, reserved (a ! i), bytes)])"
proof -
  obtain rest where e: "entry_bytes dir i = nm @ 0 # rest" "length (entry_bytes dir i) = 64" "file_name nm"
    "StartingBlock (entry_of (entry_bytes dir i)) = of_nat (first_block a i)"
    "ReservedBlocks (entry_of (entry_bytes dir i)) = of_nat (reserved (a ! i))" "i < length a"
    using found_entry [OF d p] by metis
  let ?w = "u64_bytes (of_nat (length bytes))" and ?e = "entry_bytes dir i"
  have "length (nm @ [0]) \<le> 48" using e(3) by (simp add: file_name_def)
  then have "put_at ((nm @ [0]) @ rest) 48 ?w = (nm @ [0]) @ put_at rest (48 - length (nm @ [0])) ?w" by (rule put_at_behind)
  then have "\<exists>rest'. put_at ?e 48 ?w = nm @ 0 # rest'" using e(1) by simp
  moreover have "get_at (put_at ?e 48 ?w) 48 8 = ?w" using get_put_same [of 48 ?w ?e] e(2) by simp
  moreover have "get_at (put_at ?e 48 ?w) q 8 = get_at ?e q 8" if "q + 8 \<le> 48" for q
    using that e(2) by (intro get_put_other) simp_all
  ultimately have "file_entry (put_at ?e 48 ?w) (first_block a i) (Some nm, reserved (a ! i), bytes)"
    using e by (simp add: file_entry_def entry_of_def reserved_def bytes_of_def)
  then show ?thesis
    using position_Some [OF p] by (intro update_dir [OF d]) (simp_all add: reserved_def)
qed

lemma unused_entry_dir:
  assumes d: "dir_holds nb dir a" and p: "position nm a = Some i"
  shows "dir_holds nb (put_at dir (64 * i) [1]) (a[i := (None, reserved (a ! i), bytes_of (a ! i))])"
proof -
  obtain rest where e: "length (entry_bytes dir i) = 64"
    "StartingBlock (entry_of (entry_bytes dir i)) = of_nat (first_block a i)"
    "ReservedBlocks (entry_of (entry_bytes dir i)) = of_nat (reserved (a ! i))" "i < length a"
    using found_entry [OF d p] by metis
  let ?e = "entry_bytes dir i"
  have "get_at (put_at ?e 0 [1]) q 8 = get_at ?e q 8" if "q + 8 \<le> 64" "1 \<le> q" for q
    using that e(1) by (intro get_put_other) simp_all
  moreover have "put_at ?e 0 [1] ! 0 = 1" by (simp add: put_at_def)
  ultimately have "file_entry (put_at ?e 0 [1]) (first_block a i) (None, reserved (a ! i), bytes_of (a ! i))"
    using e by (simp add: file_entry_def entry_of_def reserved_def)
  then show ?thesis
    using update_dir [OF d e(4), of "(None, reserved (a ! i), bytes_of (a ! i))" 0 "[1]"] by (simp add: reserved_def)
qed

lemma data_update:
  assumes "disk_holds c a" "i < length a" "fst f = fst (a ! i)" "reserved f = reserved (a ! i)"
    and "length (bytes_of f) \<le> reserved f * block_size" "length (bytes_of f) < 2 ^ 31"
  shows "data_holds (put_at c (first_block a i * block_size) (bytes_of f)) (a[i := f])"
  unfolding data_holds_def
proof (intro allI impI, goal_cases)
  case (1 j)
  let ?c = "put_at c (first_block a i * block_size) (bytes_of f)"
  have fb: "first_block (a[i := f]) j = first_block a j" using first_block_update [OF assms(2,4)] .
  have w: "first_block a i * block_size + length (bytes_of f) \<le> length c"
    using file_within [OF assms(1,2), of "length (bytes_of f)"] assms(4,5) by simp
  have j: "j < length a" using 1(1) by simp
  show ?case
  proof (cases "j = i")
    case True
    then show ?thesis using w assms(2,5,6) by (simp add: fb [unfolded True] get_put_same)
  next
    case False
    let ?n = "length (bytes_of (a ! j))"
    have n: "?n \<le> reserved (a ! j) * block_size" "?n < 2 ^ 31"
      "get_at c (first_block a j * block_size) ?n = bytes_of (a ! j)"
      using assms(1) j 1(2) False by (simp_all add: disk_holds_def data_holds_def)
    have "(first_block a j + reserved (a ! j)) * block_size \<le> first_block a i * block_size \<or>
        (first_block a i + reserved (a ! i)) * block_size \<le> first_block a j * block_size"
      using False first_block_step [of j i a] first_block_step [of i j a] j assms(2)
      by (meson linorder_neqE_nat mult_le_mono1)
    then have "first_block a j * block_size + ?n \<le> first_block a i * block_size \<or>
        first_block a i * block_size + length (bytes_of f) \<le> first_block a j * block_size"
      using n(1) assms(4,5) by (auto simp: add_mult_distrib)
    then have "get_at ?c (first_block a j * block_size) ?n = get_at c (first_block a j * block_size) ?n"
      using file_within(2) [OF assms(1) j n(1)] by (intro get_put_other)
    then show ?thesis using False n by (simp add: fb)
  qed
qed

lemma block_position:
  assumes "disk_holds c a" "i < length a"
  shows "fseek_set (of_nat (first_block a i) * 2097152) d = d\<lparr>fpos := first_block a i * block_size\<rparr>"
proof -
  have "first_block a i < 2 ^ 31"
    using assms first_block_mono [of i "length a" a] by (simp add: disk_holds_def dir_holds_def)
  moreover have "of_nat (first_block a i) * 2097152 = (of_nat (first_block a i * block_size) :: u64)"
    by (simp add: block_size_def)
  ultimately show ?thesis using fseek_small [of "first_block a i * block_size" d] by (simp add: block_size_def)
qed

lemma counts_small: "n < 2 ^ 31 \<Longrightarrow> counts_to (of_nat n) = Some n"
  using unat_of_nat_u64 [of n] by (simp add: counts_to_def)

lemma enough_blocks:
  assumes "disk_holds c a" "i < length a" "n < 2 ^ 31"
  shows "(of_nat (reserved (a ! i)) * 2097152 :: u64) < of_nat n \<longleftrightarrow> \<not> n \<le> reserved (a ! i) * block_size"
proof -
  have "reserved (a ! i) < 2 ^ 31"
    using first_block_step [OF assms(2) assms(2)] assms(1) by (simp add: disk_holds_def dir_holds_def)
  then have "unat (of_nat (reserved (a ! i) * block_size) :: u64) = reserved (a ! i) * block_size"
    by (intro unat_of_nat_u64) (simp add: block_size_def)
  moreover have "unat (of_nat n :: u64) = n" using assms(3) by (intro unat_of_nat_u64) simp
  ultimately show ?thesis by (auto simp: word_less_nat_alt block_size_def)
qed

lemma write_spec:
  assumes o: "opened s a" and nm: "0 \<notin> set nm" and l: "\<And>bytes. local_files s nm = Some bytes \<Longrightarrow> length bytes < 2 ^ 31"
  shows "\<exists>s'. bmfs_write (Some nm) s = Some s' \<and>
    leaves s s' (case local_files s nm of None \<Rightarrow> a | Some bytes \<Rightarrow> write_file_to nm bytes a)"
proof -
  let ?c = "content (disk s)" and ?dir = "Directory s"
  have h: "disk_holds ?c a" and d: "dir_holds (blocks ?c) ?dir a" using o by (simp_all add: opened_def disk_holds_def)
  note simps = bmfs_write_def Let_def findfile_spec [OF d nm] write_file_to_def leaves_same [OF o]
  show ?thesis
  proof (cases "position nm a")
    case None
    then show ?thesis by (cases "local_files s nm") (simp_all add: simps)
  next
    case (Some i)
    obtain rest where e: "entry_bytes ?dir i = nm @ 0 # rest"
      "StartingBlock (entry_of (entry_bytes ?dir i)) = of_nat (first_block a i)"
      "ReservedBlocks (entry_of (entry_bytes ?dir i)) = of_nat (reserved (a ! i))" "i < length a"
      using found_entry [OF d Some] by metis
    have str: "string_at (entry_bytes ?dir i) = Some nm" using string_at_name [OF nm] e(1) by simp
    show ?thesis
    proof (cases "local_files s nm")
      case None
      then show ?thesis using Some by (simp add: simps str)
    next
      case bytes: (Some bytes)
      show ?thesis
      proof (cases "length bytes \<le> reserved (a ! i) * block_size")
        case False
        then show ?thesis using Some bytes enough_blocks [OF h e(4) l [OF bytes]] by (simp add: simps str e(3))
      next
        case True
        let ?f = "(Some nm, reserved (a ! i), bytes)" and ?p = "first_block a i * block_size"
        define d' where "d' = (disk s)\<lparr>content := put_at ?c ?p bytes, fpos := ?p + length bytes\<rparr>"
        have w: "?p + length bytes \<le> length ?c" "block_size \<le> ?p" using file_within [OF h e(4) True] by simp_all
        have r: "length ?c \<le> room (disk s)" using o by (simp add: opened_def)
        have "copy_chars (length bytes) \<lparr>content = bytes, fpos = 0, room = length bytes, failed = False\<rparr>
            (fseek_set (of_nat (first_block a i) * 2097152) (disk s)) =
            (\<lparr>content = bytes, fpos = length bytes, room = length bytes, failed = False\<rparr>, d')"
          unfolding block_position [OF h e(4)] d'_def using w r by (subst copy_chars_spec) (simp_all add: get_at_def)
        note copy = this
        have "get_at (put_at ?c ?p bytes) 1024 512 = get_at ?c 1024 512"
          using w by (intro get_put_other) (simp_all add: block_size_def)
        then have fm: "formatted (get_at (content d') 1024 512) = Some True" using h by (simp add: d'_def disk_holds_def)
        have dh: "data_holds (content d') (a[i := ?f])"
          using data_update [OF h e(4), of ?f] position_Some [OF Some] True l [OF bytes]
          by (simp add: d'_def reserved_def bytes_of_def)
        have lv: "leaves s (flush_directory (s\<lparr>disk := d', Directory := put_at ?dir (64 * i + 48) (u64_bytes (of_nat (length bytes)))\<rparr>)) (a[i := ?f])"
          by (rule leaves_flush_to [OF o _ _ fm size_entry [OF d Some] dh]) (use w in \<open>simp_all add: d'_def\<close>)
        have t: "flush_directory ((tell x s)\<lparr>disk := d', Directory := y\<rparr>) = tell x (flush_directory (s\<lparr>disk := d', Directory := y\<rparr>))" for x y
          by (simp add: tell_def flush_directory_def)
        show ?thesis
          using Some bytes True enough_blocks [OF h e(4) l [OF bytes]] lv
          by (simp add: simps str e(2,3) counts_small [OF l [OF bytes]] copy t)
      qed
    qed
  qed
qed

lemma delete_file_spec:
  assumes o: "opened s a" and nm: "0 \<notin> set nm"
  shows "\<exists>s'. bmfs_delete (Some nm) s = Some s' \<and> leaves s s' (delete_file nm a)"
proof -
  let ?c = "content (disk s)" and ?dir = "Directory s"
  have h: "disk_holds ?c a" and d: "dir_holds (blocks ?c) ?dir a" using o by (simp_all add: opened_def disk_holds_def)
  note simps = bmfs_delete_def findfile_spec [OF d nm] delete_file_def leaves_same [OF o]
  show ?thesis
  proof (cases "position nm a")
    case None
    then show ?thesis by (simp add: simps)
  next
    case (Some i)
    have i: "i < length a" using position_Some [OF Some] by simp
    let ?f = "(None, reserved (a ! i), bytes_of (a ! i))"
    have "first_block (a[i := ?f]) j = first_block a j" for j by (rule first_block_update [OF i]) (simp add: reserved_def)
    then have "data_holds ?c (a[i := ?f])"
      using h i by (auto simp: data_holds_def disk_holds_def nth_list_update)
    with leaves_flush [OF o unused_entry_dir [OF d Some]]
    have lv: "leaves s (flush_directory (s\<lparr>Directory := put_at ?dir (64 * i) [1]\<rparr>)) (a[i := ?f])" by simp
    have "flush_directory ((tell x s)\<lparr>Directory := y\<rparr>) = tell x (flush_directory (s\<lparr>Directory := y\<rparr>))" for x y
      by (simp add: tell_def flush_directory_def)
    then show ?thesis using Some lv by (simp add: simps)
  qed
qed

lemma read_spec:
  assumes o: "opened s a" and nm: "0 \<notin> set nm" and r: "\<And>bytes. read_file nm a = Some bytes \<Longrightarrow> length bytes \<le> local_room s"
  shows "\<exists>s'. bmfs_read (Some nm) s = Some s' \<and> disk_holds (content (disk s')) a \<and>
    length (content (disk s')) = length (content (disk s)) \<and>
    host.truncate s' = (host.truncate s)\<lparr>local_files :=
      (case read_file nm a of
         None \<Rightarrow> local_files s
       | Some bytes \<Rightarrow> if can_create s nm then (local_files s)(nm \<mapsto> bytes) else local_files s)\<rparr>"
proof -
  let ?c = "content (disk s)" and ?dir = "Directory s"
  have h: "disk_holds ?c a" and d: "dir_holds (blocks ?c) ?dir a" using o by (simp_all add: opened_def disk_holds_def)
  have same: "(host.truncate s)\<lparr>local_files := local_files s\<rparr> = host.truncate s" by (simp add: host.truncate_def)
  note simps = bmfs_read_def Let_def findfile_spec [OF d nm] read_file_def h same
  show ?thesis
  proof (cases "position nm a")
    case None
    then show ?thesis by (simp add: simps)
  next
    case (Some i)
    obtain rest where e: "entry_bytes ?dir i = nm @ 0 # rest"
      "StartingBlock (entry_of (entry_bytes ?dir i)) = of_nat (first_block a i)"
      "FileSize (entry_of (entry_bytes ?dir i)) = of_nat (length (bytes_of (a ! i)))" "i < length a"
      using found_entry [OF d Some] by metis
    have str: "string_at (entry_bytes ?dir i) = Some nm" using string_at_name [OF nm] e(1) by simp
    show ?thesis
    proof (cases "can_create s nm")
      case False
      then show ?thesis using Some by (simp add: simps str)
    next
      case True
      let ?b = "bytes_of (a ! i)" and ?p = "first_block a i * block_size"
      have b: "length ?b \<le> reserved (a ! i) * block_size" "length ?b < 2 ^ 31" "get_at ?c ?p (length ?b) = ?b"
        using h e(4) position_Some [OF Some] by (simp_all add: disk_holds_def data_holds_def)
      have "copy_chars (length ?b) (fseek_set (of_nat (first_block a i) * 2097152) (disk s))
            \<lparr>content = [], fpos = 0, room = local_room s, failed = False\<rparr> =
          ((disk s)\<lparr>fpos := ?p + length ?b\<rparr>, \<lparr>content = ?b, fpos = length ?b, room = local_room s, failed = False\<rparr>)"
        unfolding block_position [OF h e(4)]
        using file_within(2) [OF h e(4) b(1)] r [of ?b] Some b(3)
        by (subst copy_chars_spec) (simp_all add: read_file_def put_at_def)
      then show ?thesis using Some True
        by (simp add: simps str e(2,3) counts_small [OF b(2)]) (simp add: tell_def host.truncate_def)
    qed
  qed
qed

end
