(* ===== verification/Diskmain.thy ===== *)
theory Diskmain
  imports Disks
begin

text \<open>
  The file system utility as it is called: what any sequence of its commands does to a disk, the image that
  \<open>initialize\<close> writes, and how files are lost when one is created after a deletion.
\<close>

section \<open>The commands of the program\<close>

datatype disk_command =
  Create_file hostname nat | Write_file hostname | Read_file hostname | Delete_file hostname

fun command_args :: "hostname \<Rightarrow> hostname \<Rightarrow> disk_command \<Rightarrow> u8 list list" where
  "command_args prog dsk (Create_file nm mib) = [prog, dsk, str_bytes ''create'', nm, digits_text 10 mib]"
| "command_args prog dsk (Write_file nm) = [prog, dsk, str_bytes ''write'', nm]"
| "command_args prog dsk (Read_file nm) = [prog, dsk, str_bytes ''read'', nm]"
| "command_args prog dsk (Delete_file nm) = [prog, dsk, str_bytes ''delete'', nm]"

text \<open>The program is run once for every command; each run must end with exit code 0.\<close>

fun run_commands :: "hostname \<Rightarrow> hostname \<Rightarrow> disk_command list \<Rightarrow> host \<Rightarrow> host option" where
  "run_commands prog dsk [] h = Some h"
| "run_commands prog dsk (c # cs) h =
     (case bmfs_main (command_args prog dsk c) [] h of
        None \<Rightarrow> None
      | Some (code, h', text) \<Rightarrow> if code = 0 then run_commands prog dsk cs h' else None)"

type_synonym disk_view = "afile list \<times> (hostname \<Rightarrow> u8 list option)"

fun spec_command :: "(hostname \<Rightarrow> bool) \<Rightarrow> nat \<Rightarrow> disk_command \<Rightarrow> disk_view \<Rightarrow> disk_view" where
  "spec_command creates nb (Create_file nm mib) (a, l) = (create_file nb nm mib a, l)"
| "spec_command creates nb (Write_file nm) (a, l) =
     (case l nm of None \<Rightarrow> a | Some bytes \<Rightarrow> write_file_to nm bytes a, l)"
| "spec_command creates nb (Read_file nm) (a, l) =
     (a, case read_file nm a of None \<Rightarrow> l | Some bytes \<Rightarrow> if creates nm then l(nm \<mapsto> bytes) else l)"
| "spec_command creates nb (Delete_file nm) (a, l) = (delete_file nm a, l)"

definition spec_commands :: "(hostname \<Rightarrow> bool) \<Rightarrow> nat \<Rightarrow> disk_command list \<Rightarrow> disk_view \<Rightarrow> disk_view" where
  "spec_commands creates nb = fold (spec_command creates nb)"

fun command_ok :: "disk_command \<Rightarrow> bool" where
  "command_ok (Create_file nm mib) \<longleftrightarrow> file_name nm \<and> 1 \<le> mib \<and> mib < 2 ^ 31"
| "command_ok (Write_file nm) \<longleftrightarrow> 0 \<notin> set nm"
| "command_ok (Read_file nm) \<longleftrightarrow> 0 \<notin> set nm"
| "command_ok (Delete_file nm) \<longleftrightarrow> 0 \<notin> set nm"

fun creates_file :: "disk_command \<Rightarrow> bool" where
  "creates_file (Create_file nm mib) = True"
| "creates_file c = False"

fun creates_before_deletes :: "disk_command list \<Rightarrow> bool" where
  "creates_before_deletes [] = True"
| "creates_before_deletes (Delete_file nm # cs) \<longleftrightarrow> \<not> list_ex creates_file cs \<and> creates_before_deletes cs"
| "creates_before_deletes (c # cs) \<longleftrightarrow> creates_before_deletes cs"

definition none_deleted :: "afile list \<Rightarrow> bool" where
  "none_deleted a \<longleftrightarrow> (\<forall>i < length a. fst (a ! i) \<noteq> None)"

definition short_files :: "(hostname \<Rightarrow> u8 list option) \<Rightarrow> bool" where
  "short_files l \<longleftrightarrow> (\<forall>nm bytes. l nm = Some bytes \<longrightarrow> length bytes < 2 ^ 31)"

section \<open>One run of the program\<close>

lemma numeral_digits_less: "d \<in> set (numeral_digits 10 n) \<Longrightarrow> d < 10"
  using numeral_digits_value [of 10 n] by simp

lemma decimal_digit_char: "d < 10 \<Longrightarrow> unat (base_char d) = d + 48"
  using unat_of_nat [of "d + 48", where 'a = 8] by (simp add: base_char_def del: of_nat_add)

lemma host_atoi_digits: "n < 2 ^ 31 \<Longrightarrow> host_atoi (digits_text 10 n) = Some (int n)"
proof -
  assume n: "n < 2 ^ 31"
  let ?t = "digits_text 10 n"
  have ch: "48 \<le> unat c \<and> unat c \<le> 57" if "c \<in> set ?t" for c
    using that decimal_digit_char numeral_digits_less by (fastforce simp: digits_text_def)
  obtain c cs where t: "?t = c # cs" using numeral_digits_not_Nil [of 10 n] by (cases ?t) (auto simp: digits_text_def)
  then have c: "48 \<le> unat c \<and> unat c \<le> 57" using ch by simp
  have "c \<noteq> 32" "\<not> (9 \<le> c \<and> c \<le> 13)" "c \<noteq> 45" "c \<noteq> 43" using c by (auto simp: word_le_nat_alt)
  then have d: "dropWhile (\<lambda>c. c = 32 \<or> (9 \<le> c \<and> c \<le> 13)) ?t = ?t" unfolding t by auto
  have "takeWhile is_digit ?t = ?t" using ch by (simp add: takeWhile_eq_all_conv is_digit_def word_le_nat_alt)
  moreover have "foldl (\<lambda>acc c. acc * 10 + unat (c - 48)) 0 ?t = n"
  proof -
    have "unat (base_char d - 48) = d" if "d \<in> set (numeral_digits 10 n)" for d
      using decimal_digit_char [OF numeral_digits_less [OF that]] by (subst unat_minus_no_wrap) simp_all
    then have "foldl (\<lambda>acc c. acc * 10 + unat (c - 48)) 0 ?t = foldl (\<lambda>acc d. acc * 10 + d) 0 (numeral_digits 10 n)"
      unfolding digits_text_def foldl_map by (intro foldl_cong) simp_all
    then show ?thesis using numeral_digits_value [of 10 n] by simp
  qed
  ultimately show ?thesis
    using n d \<open>c \<noteq> 45\<close> \<open>c \<noteq> 43\<close> unfolding host_atoi_def Let_def d by (simp add: t)
qed

lemma open_disk_opened:
  assumes "disk_holds c a" "length c \<le> disk_room s" "length (DiskInfo s) = 512" "length (Directory s) = 4096"
  shows "opened (open_disk c s) a" "content (disk (open_disk c s)) = c" "formatted (DiskInfo (open_disk c s)) = Some True"
    "host.truncate (open_disk c s) = host.truncate s"
proof -
  have l: "2 * block_size \<le> length c" using disk_holds_length [OF assms(1)] by simp
  let ?o = "s\<lparr>disksize := of_nat (length c div 1048576), DiskInfo := get_at c 1024 512, Directory := get_at c 4096 4096,
    disk := \<lparr>content = c, fpos = 0, room = disk_room s, failed = False\<rparr>\<rparr>"
  have "open_disk c s = ?o"
    using l assms(3,4) fseek_small [of 1024] fseek_small [of 4096]
    by (simp add: open_disk_def fread_into_def fread_simp rewind_def length_get_at block_size_def)
  then show "opened (open_disk c s) a" "content (disk (open_disk c s)) = c" "formatted (DiskInfo (open_disk c s)) = Some True"
    "host.truncate (open_disk c s) = host.truncate s"
    using assms(1,2) by (simp_all add: opened_def disk_holds_def host.truncate_def)
qed

lemma command_names:
  "\<not> same_command ''initialize'' (str_bytes ''create'')" "\<not> same_command ''initialize'' (str_bytes ''write'')"
  "\<not> same_command ''initialize'' (str_bytes ''read'')" "\<not> same_command ''initialize'' (str_bytes ''delete'')"
  "\<not> same_command ''list'' (str_bytes ''create'')" "\<not> same_command ''list'' (str_bytes ''write'')"
  "\<not> same_command ''list'' (str_bytes ''read'')" "\<not> same_command ''list'' (str_bytes ''delete'')"
  "\<not> same_command ''format'' (str_bytes ''create'')" "\<not> same_command ''format'' (str_bytes ''write'')"
  "\<not> same_command ''format'' (str_bytes ''read'')" "\<not> same_command ''format'' (str_bytes ''delete'')"
  "same_command ''create'' (str_bytes ''create'')" "\<not> same_command ''create'' (str_bytes ''write'')"
  "\<not> same_command ''create'' (str_bytes ''read'')" "\<not> same_command ''create'' (str_bytes ''delete'')"
  "same_command ''read'' (str_bytes ''read'')" "\<not> same_command ''read'' (str_bytes ''write'')"
  "\<not> same_command ''read'' (str_bytes ''delete'')" "same_command ''write'' (str_bytes ''write'')"
  "\<not> same_command ''write'' (str_bytes ''delete'')" "same_command ''delete'' (str_bytes ''delete'')"
  by code_simp+

definition start_state :: "host \<Rightarrow> bmfs" where
  "start_state h = host.extend h (bmfs.fields (replicate 512 0) (replicate 4096 0) 0
     \<lparr>content = [], fpos = 0, room = 0, failed = False\<rparr> [])"

lemma start_state_simps [simp]:
  "length (DiskInfo (start_state h)) = 512" "length (Directory (start_state h)) = 4096" "disk_room (start_state h) = disk_room h"
  "host.truncate (start_state h) = h" "local_files (start_state h) = local_files h"
  by (simp_all add: start_state_def host.defs bmfs.defs)

text \<open>A command on a disk that can be opened: the program runs it between opening and closing.\<close>

lemma main_run:
  assumes "disk_file h = Some c" "disk_holds c a" "length c \<le> disk_room h"
    and "3 \<le> length argv" "\<not> same_command ''initialize'' (argv ! 2)"
    and "run_disk_command argv stdin (open_disk c (start_state h)) = Some s'"
  shows "bmfs_main argv stdin h = Some (0, (host.truncate s')\<lparr>disk_file := Some (content (disk s'))\<rparr>, printed s')"
proof -
  have "formatted (DiskInfo (open_disk c (start_state h))) = Some True"
    using open_disk_opened(3) [OF assms(2), of "start_state h"] assms(3) by simp
  moreover have "host.truncate (close_disk s') = (host.truncate s')\<lparr>disk_file := Some (content (disk s'))\<rparr>"
    "printed (close_disk s') = printed s'"
    by (simp_all add: close_disk_def host.defs)
  ultimately show ?thesis
    using assms unfolding bmfs_main_def start_state_def [symmetric] by (simp add: Let_def)
qed

lemma command_run:
  assumes c: "disk_file h = Some c" "disk_holds c a" "length c \<le> disk_room h"
    and ok: "command_ok cmd" "creates_file cmd \<Longrightarrow> none_deleted a" "short_files (local_files h)" "2 ^ 31 \<le> local_room h"
  obtains h' msg c' where "bmfs_main (command_args prog dsk cmd) [] h = Some (0, h', msg)"
    "disk_file h' = Some c'" "length c' = length c"
    "h' = h\<lparr>disk_file := Some c', local_files := local_files h'\<rparr>"
    "disk_holds c' (fst (spec_command (can_create h) (blocks c) cmd (a, local_files h)))"
    "local_files h' = snd (spec_command (can_create h) (blocks c) cmd (a, local_files h))"
proof -
  let ?s = "open_disk c (start_state h)" and ?v = "spec_command (can_create h) (blocks c) cmd (a, local_files h)"
  have o: "opened ?s a" "content (disk ?s) = c" "host.truncate ?s = h"
    using open_disk_opened [OF c(2), of "start_state h"] c(3) by simp_all
  have fields: "local_files ?s = local_files h" "can_create ?s = can_create h" "local_room ?s = local_room h"
    using arg_cong [OF o(3), of local_files] arg_cong [OF o(3), of can_create] arg_cong [OF o(3), of local_room]
    by (simp_all add: host.defs)
  have small: "length bytes < 2 ^ 31" if "local_files ?s nm = Some bytes" for nm bytes
    using that ok(3) by (simp add: short_files_def fields)
  have "\<exists>s'. run_disk_command (command_args prog dsk cmd) [] ?s = Some s' \<and> disk_holds (content (disk s')) (fst ?v) \<and>
      length (content (disk s')) = length c \<and> host.truncate s' = h\<lparr>local_files := snd ?v\<rparr>"
  proof (cases cmd)
    case (Create_file nm mib)
    then have "\<exists>s'. bmfs_create nm (of_nat mib) ?s = Some s' \<and> leaves ?s s' (create_file (blocks c) nm mib a)"
      using create_spec [OF o(1), of nm mib] ok(1,2) o(2) by (simp add: none_deleted_def)
    moreover have "run_disk_command (command_args prog dsk cmd) [] ?s = bmfs_create nm (of_nat mib) ?s"
      using Create_file ok(1) by (simp add: run_disk_command_def create_command_def command_names host_atoi_digits Let_def)
    ultimately show ?thesis using Create_file o by (auto simp: leaves_def)
  next
    case (Write_file nm)
    then have "\<exists>s'. bmfs_write (Some nm) ?s = Some s' \<and>
        leaves ?s s' (case local_files ?s nm of None \<Rightarrow> a | Some bytes \<Rightarrow> write_file_to nm bytes a)"
      using ok(1) small by (intro write_spec [OF o(1)]) simp_all
    moreover have "run_disk_command (command_args prog dsk cmd) [] ?s = bmfs_write (Some nm) ?s"
      using Write_file by (simp add: run_disk_command_def command_names Let_def)
    ultimately show ?thesis using Write_file o by (auto simp: leaves_def fields)
  next
    case (Read_file nm)
    have "length bytes \<le> local_room ?s" if rd: "read_file nm a = Some bytes" for bytes
    proof -
      obtain i where "position nm a = Some i" "bytes = bytes_of (a ! i)" using rd by (auto simp: read_file_def)
      then have "length bytes < 2 ^ 31" using c(2) position_Some [of nm a i] by (auto simp: disk_holds_def data_holds_def)
      then show ?thesis using ok(4) by (simp add: fields)
    qed
    then have "\<exists>s'. bmfs_read (Some nm) ?s = Some s' \<and> disk_holds (content (disk s')) a \<and>
        length (content (disk s')) = length c \<and> host.truncate s' = h\<lparr>local_files := snd ?v\<rparr>"
      using read_spec [OF o(1), of nm] ok(1) Read_file o(2,3) unfolding fields by simp
    moreover have "run_disk_command (command_args prog dsk cmd) [] ?s = bmfs_read (Some nm) ?s"
      using Read_file by (simp add: run_disk_command_def command_names Let_def)
    ultimately show ?thesis using Read_file by auto
  next
    case (Delete_file nm)
    then have "\<exists>s'. bmfs_delete (Some nm) ?s = Some s' \<and> leaves ?s s' (delete_file nm a)"
      using ok(1) by (intro delete_file_spec [OF o(1)]) simp
    moreover have "run_disk_command (command_args prog dsk cmd) [] ?s = bmfs_delete (Some nm) ?s"
      using Delete_file by (simp add: run_disk_command_def command_names Let_def)
    ultimately show ?thesis using Delete_file o by (auto simp: leaves_def)
  qed
  then obtain s' where s': "run_disk_command (command_args prog dsk cmd) [] ?s = Some s'"
    "disk_holds (content (disk s')) (fst ?v)" "length (content (disk s')) = length c" "host.truncate s' = h\<lparr>local_files := snd ?v\<rparr>"
    by blast
  have "3 \<le> length (command_args prog dsk cmd)" "\<not> same_command ''initialize'' (command_args prog dsk cmd ! 2)"
    by (cases cmd; simp add: command_names)+
  from main_run [OF c this s'(1)] show thesis by (rule that) (use s' in simp_all)
qed

section \<open>Any number of commands\<close>

lemma none_deleted_spec:
  assumes "none_deleted a" "\<forall>nm. cmd \<noteq> Delete_file nm"
  shows "none_deleted (fst (spec_command creates nb cmd (a, l)))"
  using assms
  by (cases cmd) (auto simp: none_deleted_def create_file_def write_file_to_def nth_append nth_list_update less_Suc_eq
      split: option.splits dest: position_Some)

lemma short_files_spec:
  assumes "disk_holds c a" "short_files l"
  shows "short_files (snd (spec_command creates nb cmd (a, l)))"
proof (cases cmd)
  case (Read_file nm)
  have "length bytes < 2 ^ 31" if rd: "read_file nm a = Some bytes" for bytes
  proof -
    obtain i where "position nm a = Some i" "bytes = bytes_of (a ! i)" using rd by (auto simp: read_file_def)
    then show ?thesis using assms(1) position_Some [of nm a i] by (auto simp: disk_holds_def data_holds_def)
  qed
  then show ?thesis using assms(2) Read_file by (auto simp: short_files_def split: option.splits)
qed (use assms(2) in auto)

lemma creates_before_deletes_Cons:
  "creates_before_deletes (c # cs) \<Longrightarrow> creates_before_deletes cs \<and> (list_ex creates_file cs \<longrightarrow> (\<forall>nm. c \<noteq> Delete_file nm))"
  by (cases c) auto

lemma commands_history:
  assumes "disk_file h = Some c" "disk_holds c a" "length c \<le> disk_room h" "short_files (local_files h)" "2 ^ 31 \<le> local_room h"
    and "list_all command_ok cs" "creates_before_deletes cs" "list_ex creates_file cs \<longrightarrow> none_deleted a"
  shows "\<exists>h' c'. run_commands prog dsk cs h = Some h' \<and> disk_file h' = Some c' \<and> length c' = length c \<and>
    disk_holds c' (fst (spec_commands (can_create h) (blocks c) cs (a, local_files h))) \<and>
    local_files h' = snd (spec_commands (can_create h) (blocks c) cs (a, local_files h))"
  using assms
proof (induction cs arbitrary: h c a)
  case (Cons cmd cs)
  let ?v = "spec_command (can_create h) (blocks c) cmd (a, local_files h)"
  obtain h' msg c' where h': "bmfs_main (command_args prog dsk cmd) [] h = Some (0, h', msg)" "disk_file h' = Some c'"
    "length c' = length c" "h' = h\<lparr>disk_file := Some c', local_files := local_files h'\<rparr>" "disk_holds c' (fst ?v)"
    "local_files h' = snd ?v"
    by (rule command_run [OF Cons.prems(1-3), of cmd prog dsk]) (use Cons.prems in auto)
  have same: "can_create h' = can_create h" "disk_room h' = disk_room h" "local_room h' = local_room h" "blocks c' = blocks c"
    using arg_cong [OF h'(4), of can_create] arg_cong [OF h'(4), of disk_room] arg_cong [OF h'(4), of local_room] h'(3)
    by (simp_all add: blocks_def)
  have nd: "list_ex creates_file cs \<longrightarrow> none_deleted (fst ?v)"
    using creates_before_deletes_Cons [OF Cons.prems(7)] Cons.prems(8) none_deleted_spec by auto
  have "\<exists>h'' c''. run_commands prog dsk cs h' = Some h'' \<and> disk_file h'' = Some c'' \<and>
      length c'' = length c' \<and> disk_holds c'' (fst (spec_commands (can_create h') (blocks c') cs (fst ?v, local_files h'))) \<and>
      local_files h'' = snd (spec_commands (can_create h') (blocks c') cs (fst ?v, local_files h'))"
  proof (rule Cons.IH [OF h'(2,5) _ _ _ _ _ nd])
    show "length c' \<le> disk_room h'" "2 ^ 31 \<le> local_room h'" using Cons.prems h'(3) same by simp_all
    show "short_files (local_files h')" using short_files_spec [OF Cons.prems(2,4)] h'(6) by simp
    show "list_all command_ok cs" using Cons.prems(6) by simp
    show "creates_before_deletes cs" using creates_before_deletes_Cons [OF Cons.prems(7)] by simp
  qed
  moreover have "spec_commands (can_create h) (blocks c) (cmd # cs) (a, local_files h) =
      spec_commands (can_create h) (blocks c) cs (fst ?v, local_files h')"
    by (simp add: spec_commands_def h'(6))
  ultimately show ?case using h'(1,3) same by simp
qed (simp add: spec_commands_def)

lemma empty_disk:
  assumes "2 * block_size \<le> length c" "length c < 2 ^ 31 * block_size"
    and "formatted (get_at c 1024 512) = Some True" "get_at c 4096 4096 = replicate 4096 0"
  shows "disk_holds c []"
proof -
  have "2 \<le> blocks c" using div_le_mono [OF assms(1), of block_size] by (simp add: blocks_def block_size_def)
  moreover have "blocks c < 2 ^ 31" using assms(2) by (simp add: blocks_def less_mult_imp_div_less)
  moreover have "get_at (replicate 4096 (0 :: u8)) 0 64 = replicate 64 0" by (simp add: get_at_def)
  ultimately show ?thesis
    using assms(3,4)
    by (simp add: disk_holds_def dir_holds_def data_holds_def first_block_def distinct_names_def entry_bytes_def)
qed

section \<open>What goes wrong after a deletion\<close>

lemma area_fits:
  assumes "y \<le> x" "x < 2 ^ 32" "r < 2 ^ 32"
  shows "of_nat r \<le> (of_nat x - of_nat y :: u64) \<longleftrightarrow> y + r \<le> x"
proof -
  have "of_nat x - of_nat y = (of_nat (x - y) :: u64)" using assms(1) by (simp add: of_nat_diff)
  moreover have "unat (of_nat (x - y) :: u64) = x - y" "unat (of_nat r :: u64) = r"
    using assms by (intro unat_of_nat_u64; simp)+
  ultimately show ?thesis using assms(1) by (auto simp: word_le_nat_alt)
qed

text \<open>What creating a file does once the entry and its blocks have been chosen.\<close>

lemma create_in:
  assumes "opened s a" "file_name new" "position new a = None" "mib < 2 ^ 31" "slot < 64"
    and "count_entries (Directory s) 0 64 None = (used, Some slot)"
    and "fit_loop (of_nat (blocks (content (disk s)))) (of_nat (blocks_for mib)) 1
      (qsort_directory (dir_entries (Directory s) used)) = start" "start \<noteq> 0"
  obtains s' dir rest where "bmfs_create new (of_nat mib) s = Some s'"
    "Directory s' = (if slot = used \<and> used + 1 < 64 then put_at dir (64 * (used + 1)) [0] else dir)"
    "length dir = 4096" "entry_bytes dir slot = new @ 0 # rest" "StartingBlock (entry_of (entry_bytes dir slot)) = start"
    "\<And>j. j < 64 \<Longrightarrow> j \<noteq> slot \<Longrightarrow> entry_bytes dir j = entry_bytes (Directory s) j"
proof -
  have d: "dir_holds (blocks (content (disk s))) (Directory s) a" using assms(1) by (simp add: opened_def disk_holds_def)
  have z: "0 \<notin> set new" and nl: "length new \<le> 31" using assms(2) by (simp_all add: file_name_def)
  have dl: "length (Directory s) = 4096" using d by (simp add: dir_holds_def)
  define m :: u64 where "m = (if of_nat mib mod 2 \<noteq> (0 :: u64) then of_nat mib + 1 else of_nat mib)"
  have m: "m div 2 = of_nat (blocks_for mib)" using blocks_requested [OF assms(4)] by (simp only: m_def)
  obtain dir rest where add: "add_record new start (of_nat (blocks_for mib)) slot (Directory s) = Some dir" "length dir = 4096"
    "entry_bytes dir slot = new @ 0 # rest" "StartingBlock (entry_of (entry_bytes dir slot)) = start"
    "\<And>j. j < 64 \<Longrightarrow> j \<noteq> slot \<Longrightarrow> entry_bytes dir j = entry_bytes (Directory s) j"
    by (rule add_record_spec [OF dl assms(5) nl, of start "of_nat (blocks_for mib)"]) blast
  let ?dir = "if slot = used \<and> used + 1 < 64 then put_at dir (64 * (used + 1)) [0] else dir"
  have "bmfs_create new (of_nat mib) s =
      Some (tell (line ''Complete'') (flush_directory ((tell (line ''Creating new file...'') s)\<lparr>Directory := ?dir\<rparr>)))"
    using findfile_spec [OF d z] assms(3,8)
    by (simp add: bmfs_create_def [of new "of_nat mib" s, folded m_def] m Let_def num_blocks [OF assms(1)] assms(6,7) add(1))
  then show thesis by (rule that [OF _ _ add(2-5)]) (simp add: flush_directory_def)
qed

lemma entry_in_use:
  assumes "length dir = 4096" "i < 64" "entry_bytes dir i = nm @ 0 # rest" "file_name nm"
  shows "\<not> unused_entry (entry_of (entry_bytes dir i))" "\<not> end_of_directory (entry_of (entry_bytes dir i))"
  using assms(3,4) length_entry_bytes [OF assms(1,2)]
  by (cases nm; simp add: unused_entry_def end_of_directory_def first_of_entry file_name_def)+

text \<open>The area behind the old end of an unused first entry, which is tried last.\<close>

lemma fit_behind_unused:
  assumes e0: "unused_entry e0" "StartingBlock e0 = 1" "ReservedBlocks e0 = of_nat r1"
    and e1: "\<not> unused_entry e1" "StartingBlock e1 = of_nat (1 + r1)" "ReservedBlocks e1 = of_nat r2"
    and nb: "nb < 2 ^ 31" "1 + r1 + r2 < nb" "req < 2 ^ 32" "r1 < req" "nb \<le> 1 + r1 + r2 + req" "1 + r1 + req < nb"
  shows "fit_loop (of_nat nb) (of_nat req) 1 (qsort_directory [e0, e1]) = of_nat (1 + r1)"
proof -
  have "StartingBlockCmp e0 e1 = 1" using e0 by (simp add: StartingBlockCmp_def)
  then have sorted: "qsort_directory [e0, e1] = [e1, e0]" by (simp add: qsort_directory_def word_sle_eq)
  have nb1: "of_nat nb - 1 = (of_nat (nb - 1) :: u64)" using nb by (simp add: of_nat_diff)
  have "\<not> of_nat req \<le> (of_nat (1 + r1) - of_nat 1 :: u64)" using area_fits [of 1 "1 + r1" req] nb by simp
  moreover have "\<not> of_nat req \<le> (of_nat (nb - 1) - of_nat (1 + r1 + r2) :: u64)"
    using area_fits [of "1 + r1 + r2" "nb - 1" req] nb by simp
  moreover have "of_nat req \<le> (of_nat (nb - 1) - of_nat (1 + r1) :: u64)"
    using area_fits [of "1 + r1" "nb - 1" req] nb by simp
  ultimately show ?thesis unfolding sorted by (simp add: e0 e1 nb1 Let_def add.assoc)
qed

lemma count_two:
  assumes "unused_entry (entry_of (entry_bytes dir 0))" "\<not> end_of_directory (entry_of (entry_bytes dir 0))"
    and "\<not> unused_entry (entry_of (entry_bytes dir (Suc 0)))" "\<not> end_of_directory (entry_of (entry_bytes dir (Suc 0)))"
    and "end_of_directory (entry_of (entry_bytes dir 2))"
  shows "count_entries dir 0 64 None = (2, Some 0)"
proof -
  have "count_entries dir 2 62 (Some 0) = (2, Some 0)"
    using count_entries.simps(2) [of dir 2 61 "Some 0"] assms(5) by (simp add: Let_def)
  then have "count_entries dir 1 63 (Some 0) = (2, Some 0)"
    using count_entries.simps(2) [of dir 1 62 "Some 0"] assms(3,4) by (simp add: Let_def numeral_2_eq_2)
  then show ?thesis using count_entries.simps(2) [of dir 0 63 None] assms(1,2) by (simp add: Let_def)
qed

lemma find_second:
  assumes "\<not> unused_entry (entry_of (entry_bytes dir 0))" "\<not> end_of_directory (entry_of (entry_bytes dir 0))"
    and "strcmp_is_0 nm (entry_bytes dir 0) = Some False"
  shows "findfile (Some nm) dir = map_option (map_option (\<lambda>i. (entry_bytes dir i, i))) (findfile_loop (Some nm) dir 1 63)"
  using findfile_loop.simps(2) [of "Some nm" dir 0 63] assms by (simp add: findfile_def Let_def)

text \<open>
  C33: creating a file after a deletion can destroy another one: on a disk whose first file has been deleted, a
  new file that fits neither in the gap nor behind the second file is given the blocks from the end of the
  deleted one on, where the second file lies, as soon as they reach far enough to the end of the disk.
\<close>

theorem create_after_delete_overlaps:
  assumes "opened s [(None, r1, b1), (Some old, r2, b2)]" "file_name new" "new \<noteq> old" "1 \<le> mib" "mib < 2 ^ 31"
    and "r1 < blocks_for mib" "blocks (content (disk s)) \<le> 1 + r1 + r2 + blocks_for mib"
    and "1 + r1 + blocks_for mib < blocks (content (disk s))"
  shows "\<exists>s' e e'. bmfs_create new (of_nat mib) s = Some s' \<and> findfile (Some new) (Directory s') = Some (Some (e, 0)) \<and>
    findfile (Some old) (Directory s') = Some (Some (e', 1)) \<and> StartingBlock (entry_of e) = StartingBlock (entry_of e')"
proof -
  let ?a = "[(None, r1, b1), (Some old, r2, b2)]" and ?nb = "blocks (content (disk s))" and ?dir = "Directory s"
  let ?e0 = "entry_of (entry_bytes (Directory s) 0)" and ?e1 = "entry_of (entry_bytes (Directory s) (Suc 0))"
  have d: "dir_holds ?nb ?dir ?a" using assms(1) by (simp add: opened_def disk_holds_def)
  have dl: "length ?dir = 4096" "?nb < 2 ^ 31" "1 + r1 + r2 < ?nb"
    using d by (simp_all add: dir_holds_def first_block_def reserved_def)
  have fe: "file_entry (entry_bytes ?dir 0) 1 (None, r1, b1)" "file_entry (entry_bytes ?dir (Suc 0)) (1 + r1) (Some old, r2, b2)"
    using d by (auto simp: dir_holds_def first_block_def reserved_def nth_Cons split: nat.splits)
  have e2: "end_of_directory (entry_of (entry_bytes ?dir 2))"
    using d length_entry_bytes [OF dl(1), of 2] by (simp add: dir_holds_def end_of_directory_def first_of_entry numeral_2_eq_2)
  have e0: "unused_entry ?e0" "StartingBlock ?e0 = 1" "ReservedBlocks ?e0 = of_nat r1"
    and e1: "\<not> unused_entry ?e1" "StartingBlock ?e1 = of_nat (1 + r1)" "ReservedBlocks ?e1 = of_nat r2"
    using entry_first [OF fe(1)] entry_first [OF fe(2)] fe by (simp_all add: file_entry_def reserved_def)
  have cnt: "count_entries ?dir 0 64 None = (2, Some 0)"
    using e0(1) e1(1) e2 entry_first(2) [OF fe(1)] entry_first(2) [OF fe(2)] by (intro count_two)
  have "dir_entries ?dir 2 = [?e0, ?e1]" by (simp add: dir_entries_def upt_rec numeral_2_eq_2)
  moreover have "blocks_for mib < 2 ^ 32" using assms(5) by (auto simp: blocks_for_def)
  ultimately have fit: "fit_loop (of_nat ?nb) (of_nat (blocks_for mib)) 1 (qsort_directory (dir_entries ?dir 2)) = of_nat (1 + r1)"
    using fit_behind_unused [OF e0 e1 dl(2,3)] assms(6-8) by simp
  have start: "(of_nat (1 + r1) :: u64) \<noteq> 0" using unat_of_nat_u64 [of "1 + r1"] dl by (auto simp: word_unat_eq_iff)
  have pos: "position new ?a = None" using assms(3) by (auto simp: position_None nth_Cons split: nat.splits)
  obtain s' dir rest where c: "bmfs_create new (of_nat mib) s = Some s'" "Directory s' = dir" "length dir = 4096"
    "entry_bytes dir 0 = new @ 0 # rest" "StartingBlock (entry_of (entry_bytes dir 0)) = of_nat (1 + r1)"
    "entry_bytes dir (Suc 0) = entry_bytes ?dir (Suc 0)"
    by (rule create_in [OF assms(1,2) pos assms(5) _ cnt fit start]) auto
  note first = entry_in_use [OF c(3) _ c(4) assms(2), simplified]
  obtain rest' where old: "entry_bytes ?dir (Suc 0) = old @ 0 # rest'" "0 \<notin> set old" "0 \<notin> set new"
    using fe(2) assms(2) by (auto simp: file_entry_def file_name_def)
  have "findfile (Some new) dir = Some (Some (entry_bytes dir 0, 0))"
    using findfile_loop.simps(2) [of "Some new" dir 0 63] first name_compare [OF old(3) old(3), of rest] c(4)
    by (simp add: findfile_def Let_def)
  moreover have "findfile (Some old) dir = Some (Some (entry_bytes dir (Suc 0), 1))"
    using find_second [OF first, of old] findfile_loop.simps(2) [of "Some old" dir 1 62] e1 entry_first(2) [OF fe(2)]
      name_compare [OF old(2,3), of rest] name_compare [OF old(2,2), of rest'] c(4,6) old(1) assms(3)
    by (simp add: Let_def)
  ultimately show ?thesis using c(1,2,5,6) e1(2) by (intro exI conjI) (assumption | simp)+
qed

lemma count_full:
  assumes "dir_holds nb dir a" "length a = 64"
  shows "i + k = 64 \<Longrightarrow> count_entries dir i k (Some x) = (0, Some x)"
proof (induction k arbitrary: i)
  case (Suc k)
  then have e: "file_entry (entry_bytes dir i) (first_block a i) (a ! i)" using assms by (simp add: dir_holds_def)
  show ?case using entry_first [OF e] Suc by (simp add: Let_def)
qed simp

text \<open>
  C34: a directory that was full before a deletion can lose all its files: 64 entries have no end mark, so their
  count stays 0, the freed first entry is taken for the end of the directory, and the mark goes behind it.
\<close>

theorem full_directory_loses_files:
  assumes "opened s a" "length a = 64" "fst (a ! 0) = None" "position new a = None" "file_name new" "1 \<le> mib" "mib < 2 ^ 31"
    and "1 + blocks_for mib < blocks (content (disk s))"
  shows "\<exists>s'. bmfs_create new (of_nat mib) s = Some s' \<and>
    (\<forall>i nm. i < 64 \<and> fst (a ! i) = Some nm \<longrightarrow> findfile (Some nm) (Directory s') = Some None)"
proof -
  let ?nb = "blocks (content (disk s))" and ?dir = "Directory s"
  have d: "dir_holds ?nb ?dir a" and nb: "?nb < 2 ^ 31" using assms(1) by (simp_all add: opened_def disk_holds_def dir_holds_def)
  have fe: "file_entry (entry_bytes ?dir i) (first_block a i) (a ! i)" if "i < 64" for i
    using d assms(2) that by (simp add: dir_holds_def)
  have cnt: "count_entries ?dir 0 64 None = (0, Some 0)"
    using count_entries.simps(2) [of ?dir 0 63 None] entry_first [OF fe [of 0]] assms(3) count_full [OF d assms(2), of 1 63 0]
    by (simp add: Let_def)
  have "blocks_for mib < 2 ^ 32" using assms(7) by (auto simp: blocks_for_def)
  then have "of_nat (blocks_for mib) \<le> (of_nat (?nb - 1) - of_nat 1 :: u64)"
    using area_fits [of 1 "?nb - 1" "blocks_for mib"] nb assms(8) by simp
  then have fit: "fit_loop (of_nat ?nb) (of_nat (blocks_for mib)) 1 (qsort_directory (dir_entries ?dir 0)) = 1"
    using assms(8) by (simp add: dir_entries_def qsort_directory_def of_nat_diff)
  obtain s' dir rest where c: "bmfs_create new (of_nat mib) s = Some s'" "Directory s' = put_at dir 64 [0]" "length dir = 4096"
    "entry_bytes dir 0 = new @ 0 # rest"
    by (rule create_in [OF assms(1,5,4,7) _ cnt fit]) auto
  let ?d = "put_at dir 64 [0]"
  have l: "length ?d = 4096" using length_dir_put [OF c(3), of 1 0 "[0]"] by simp
  have e: "entry_bytes ?d 0 = new @ 0 # rest" "entry_bytes ?d 1 ! 0 = 0"
    using entry_put [OF c(3), of 1 0 0 "[0]"] entry_put [OF c(3), of 1 1 0 "[0]"] c(4) by (simp_all add: put_at_def)
  note first = entry_in_use [OF l _ e(1) assms(5), simplified]
  have second: "end_of_directory (entry_of (entry_bytes ?d 1))"
    using e(2) length_entry_bytes [OF l, of 1] by (simp add: end_of_directory_def first_of_entry)
  have "findfile (Some nm) ?d = Some None" if i: "i < 64" "fst (a ! i) = Some nm" for i nm
  proof -
    have "nm \<noteq> new" using assms(2,4) i by (auto simp: position_None)
    moreover have "0 \<notin> set nm" using fe [OF i(1)] i(2) by (simp add: file_entry_def file_name_def)
    ultimately have "strcmp_is_0 nm (entry_bytes ?d 0) = Some False"
      using name_compare [of nm new rest] assms(5) e(1) by (simp add: file_name_def)
    then show ?thesis
      using find_second [OF first] findfile_loop.simps(2) [of "Some nm" ?d 1 62] second by (simp add: Let_def)
  qed
  then show ?thesis using c(1,2) by (intro exI [of _ s'] conjI allI impI) auto
qed

section \<open>The image\<close>

definition image :: "nat \<Rightarrow> u8 list \<Rightarrow> u8 list \<Rightarrow> u8 list \<Rightarrow> u8 list" where
  "image n mbr boot kern =
     take 512 mbr @ replicate 512 0 @ (fs_tag @ replicate 508 0) @ replicate 6656 0 @ boot @ kern @
     replicate (n - 8192 - length boot - length kern) 0"

lemma put_at_part: "length bs = length ys \<Longrightarrow> length xs = p \<Longrightarrow> put_at (xs @ ys @ zs) p bs = xs @ bs @ zs"
  by (auto simp: put_at_def)

lemma put_at_rest: "length xs = p \<Longrightarrow> put_at (xs @ zs) p bs = xs @ bs @ drop (length bs) zs"
  by (auto simp: put_at_def)

definition reaches :: "bmfs \<Rightarrow> nat \<times> bmfs \<Rightarrow> u8 list \<Rightarrow> nat \<Rightarrow> bool" where
  "reaches s rs c p \<longleftrightarrow>
     fst rs = 0 \<and> disk (snd rs) = (disk s)\<lparr>content := c, fpos := p\<rparr> \<and> host.truncate (snd rs) = host.truncate s"

lemma reaches_tell: "reaches (tell t s) rs c p = reaches s rs c p"
  by (simp add: reaches_def)

lemma truncate_disk [simp]: "host.truncate (s\<lparr>disk := d\<rparr>) = host.truncate s"
  by (simp add: host.truncate_def)

lemma write_disk_room:
  assumes "fpos (disk s) + length bs \<le> room (disk s)"
  shows "write_disk dsk bs (0, s) =
    (0, s\<lparr>disk := (disk s)\<lparr>content := put_at (content (disk s)) (fpos (disk s)) bs, fpos := fpos (disk s) + length bs\<rparr>\<rparr>)"
  using assms by (simp add: write_disk_def fwrite_room)

lemma fill_disk_spec:
  assumes "n \<le> room (disk s)" "content (disk s) = replicate w 0" "fpos (disk s) = w" "w \<le> n"
  shows "reaches s (fill_disk dsk n w s) (replicate n 0) n"
  using assms
proof (induction dsk n w s rule: fill_disk.induct)
  case (1 dsk n w s)
  show ?case
  proof (cases "w < n")
    case False
    then show ?thesis using "1.prems" by (subst fill_disk.simps) (simp add: reaches_def)
  next
    case True
    let ?k = "min bufferSize (n - w)" and ?s = "tell (progress w n) s"
    let ?s' = "?s\<lparr>disk := (disk s)\<lparr>content := replicate (w + ?k) 0, fpos := w + ?k\<rparr>\<rparr>"
    have "replicate w 0 @ replicate ?k 0 = (replicate (w + ?k) 0 :: u8 list)" by (simp add: replicate_add)
    then have p: "put_at (replicate w 0) w (replicate ?k 0) = (replicate (w + ?k) 0 :: u8 list)"
      using put_at_end [of "replicate w 0" "replicate ?k 0"] by simp
    have w: "write_disk dsk (replicate ?k 0) (0, ?s) = (0, ?s')"
      using "1.prems" True p by (subst write_disk_room) simp_all
    have "reaches ?s' (fill_disk dsk n (w + ?k) ?s') (replicate n 0) n"
      using "1.prems" True by (intro "1.IH" [OF True refl w [symmetric]]) simp_all
    then have "reaches s (fill_disk dsk n (w + ?k) ?s') (replicate n 0) n" by (simp add: reaches_def tell_def host.truncate_def)
    moreover have "fill_disk dsk n w s = fill_disk dsk n (w + ?k) ?s'"
      using True w by (subst fill_disk.simps) (simp add: Let_def)
    ultimately show ?thesis by simp
  qed
qed

lemma write_chunks_spec:
  assumes "fpos (disk s) + length bytes \<le> room (disk s)" "\<not> failed (disk s)" "fpos (disk s) \<le> length (content (disk s))"
  shows "reaches s (write_chunks dsk name bytes (0, s)) (put_at (content (disk s)) (fpos (disk s)) bytes)
    (fpos (disk s) + length bytes)"
  using assms
proof (induction "length bytes" arbitrary: bytes s rule: less_induct)
  case less
  let ?chunk = "take bufferSize bytes" and ?rest = "drop bufferSize bytes" and ?c = "content (disk s)" and ?p = "fpos (disk s)"
  show ?case
  proof (cases "bytes = []")
    case True
    then show ?thesis using less.prems by (subst write_chunks.simps) (simp add: reaches_def)
  next
    case False
    let ?s' = "s\<lparr>disk := (disk s)\<lparr>content := put_at ?c ?p ?chunk, fpos := ?p + length ?chunk\<rparr>\<rparr>"
    have ne: "?chunk \<noteq> []" using False by (simp add: bufferSize_def)
    have w: "write_disk dsk ?chunk (0, s) = (0, ?s')" using less.prems(1) by (intro write_disk_room) simp
    have len: "length ?chunk + length ?rest = length bytes" by simp
    have l: "length (put_at ?c ?p ?chunk) \<ge> ?p + length ?chunk" using ne by (simp add: length_put_at)
    have "reaches ?s' (write_chunks dsk name ?rest (0, ?s'))
        (put_at (content (disk ?s')) (fpos (disk ?s')) ?rest) (fpos (disk ?s') + length ?rest)"
      using less.prems l len False by (intro less.hyps) (simp_all add: bufferSize_def)
    moreover have "put_at (put_at ?c ?p ?chunk) (?p + length ?chunk) ?rest = put_at ?c ?p bytes"
    proof -
      have x: "length (take ?p ?c @ ?chunk) = ?p + length ?chunk" using less.prems(3) by simp
      have "put_at ?c ?p ?chunk = (take ?p ?c @ ?chunk) @ drop (?p + length ?chunk) ?c"
        using less.prems(3) ne by (simp add: put_at_def)
      then have "put_at (put_at ?c ?p ?chunk) (?p + length ?chunk) ?rest =
          (take ?p ?c @ ?chunk) @ ?rest @ drop (length ?rest) (drop (?p + length ?chunk) ?c)"
        using put_at_rest [OF x] by (simp only:)
      also have "\<dots> = take ?p ?c @ bytes @ drop (?p + length bytes) ?c" using len by (simp add: ac_simps del: length_take length_drop)
      also have "\<dots> = put_at ?c ?p bytes" using less.prems(3) False by (simp add: put_at_def)
      finally show ?thesis .
    qed
    ultimately have "reaches s (write_chunks dsk name ?rest (0, ?s')) (put_at ?c ?p bytes) (?p + length bytes)"
      using len by (simp add: reaches_def host.truncate_def add.assoc del: length_take length_drop)
    then show ?thesis using ne w by (subst write_chunks.simps) (simp add: Let_def)
  qed
qed

text \<open>The size of the image as a decimal number with one of the units, none of them for 0.\<close>

definition unit_text :: "nat \<Rightarrow> u8 list" where
  "unit_text k = (if k = 0 then [] else [[75, 77, 71, 84, 80] ! (k - 1)])"

lemma foldl_digits_mono: "v \<le> foldl (\<lambda>a d. a * 10 + d) v (ds :: nat list)"
proof (induction ds arbitrary: v)
  case (Cons d ds)
  have "v \<le> v * 10 + d" by simp
  then show ?case unfolding foldl_Cons by (rule le_trans) (rule Cons.IH)
qed simp

lemma parse_digits:
  assumes "\<forall>d \<in> set ds. d < 10" "foldl (\<lambda>a d. a * 10 + d) v ds < 2 ^ 64"
  shows "parse_size sz (map base_char ds @ rest) first (of_nat v) =
    parse_size sz rest (first \<and> ds = []) (of_nat (foldl (\<lambda>a d. a * 10 + d) v ds))"
  using assms
proof (induction ds arbitrary: v first)
  case (Cons d ds)
  have d: "d < 10" using Cons.prems by simp
  have v: "v * 10 + d < 2 ^ 64" using foldl_digits_mono [of "v * 10 + d" ds] Cons.prems(2) by simp
  have dig: "is_digit (base_char d)"
    using decimal_digit_char [OF d] d by (simp add: is_digit_def word_le_nat_alt)
  have "unat (base_char d - 48) = d" using decimal_digit_char [OF d] by (subst unat_minus_no_wrap) simp_all
  then have "(ucast (base_char d - 48) :: u64) = of_nat d" by (metis of_nat_unat)
  moreover have "of_nat v * 10 > (of_nat v :: u64) \<longleftrightarrow> v \<noteq> 0"
    using unat_of_nat_u64 [of v] unat_of_nat_u64 [of "v * 10"] v by (auto simp: word_less_nat_alt)
  ultimately show ?case
    using Cons.IH [of "v * 10 + d" False] Cons.prems dig by (cases "v = 0") (simp_all add: Let_def)
qed simp

lemma scale_spec:
  "0 < n \<Longrightarrow> n * 1024 ^ k < 2 ^ 64 \<Longrightarrow> scale_size (of_nat n) k = (of_nat (n * 1024 ^ k), 0)"
proof (induction k arbitrary: n)
  case (Suc k)
  have "n * 1024 * 1 \<le> n * 1024 * 1024 ^ k" by (intro mult_le_mono2) simp
  moreover have "n * 1024 * 1024 ^ k < 2 ^ 64" using Suc.prems(2) by (simp only: power_Suc mult.assoc)
  ultimately have "n * 1024 < 2 ^ 64" by linarith
  then have "of_nat n * 1024 > (of_nat n :: u64)"
    using unat_of_nat_u64 [of n] unat_of_nat_u64 [of "n * 1024"] Suc.prems(1) by (simp add: word_less_nat_alt)
  then show ?case using Suc.IH [of "n * 1024"] Suc.prems by (simp add: mult.assoc)
qed simp

lemma image_size_text:
  assumes "6291456 \<le> n * 1024 ^ k" "n * 1024 ^ k < 2 ^ 64" "k \<le> 5"
  shows "image_size (digits_text 10 n @ unit_text k) = Inr (of_nat (n * 1024 ^ k))"
proof -
  have n: "0 < n" using assms(1) by (cases n) simp_all
  have "n * 1 \<le> n * 1024 ^ k" by (intro mult_le_mono2) simp
  then have n64: "n < 2 ^ 64" using assms(2) by linarith
  have nd: "foldl (\<lambda>a d. a * 10 + d) 0 (numeral_digits 10 n) = n" "\<forall>d \<in> set (numeral_digits 10 n). d < 10"
    using numeral_digits_value [of 10 n] by simp_all
  let ?sz = "digits_text 10 n @ unit_text k"
  have "parse_size ?sz ?sz True 0 = parse_size ?sz (unit_text k) False (of_nat n)"
    using parse_digits [OF nd(2), of 0 ?sz "unit_text k" True] nd(1) n64 numeral_digits_not_Nil [of 10 n]
    by (simp add: digits_text_def)
  also have "\<dots> = Inr (of_nat n, k)"
  proof -
    have "k = 0 \<or> k = 1 \<or> k = 2 \<or> k = 3 \<or> k = 4 \<or> k = 5" using assms(3) by linarith
    then show ?thesis by (elim disjE) (simp_all add: unit_text_def is_digit_def to_upper_def unit_factor_def)
  qed
  finally have parse: "parse_size ?sz ?sz True 0 = Inr (of_nat n, k)" .
  have "(of_nat n :: u64) \<noteq> 0" using unat_of_nat_u64 [OF n64] n by (auto simp: word_unat_eq_iff)
  then have scale: "(if (of_nat n :: u64) > 0 \<and> k > 0 then scale_size (of_nat n) k else (of_nat n, 0)) = (of_nat (n * 1024 ^ k), 0)"
    using scale_spec [OF n assms(2)] by (simp add: word_neq_0_conv)
  have "\<not> of_nat (n * 1024 ^ k) < minimumDiskSize"
    using unat_of_nat_u64 [OF assms(2)] assms(1) by (simp add: word_less_nat_alt minimumDiskSize_def del: of_nat_mult)
  then show ?thesis unfolding image_size_def parse by (simp add: scale del: of_nat_mult)
qed

lemma format_reaches:
  assumes "content (disk s) = replicate n 0" "8192 \<le> n" "n \<le> room (disk s)"
  shows "reaches s (0, bmfs_format s)
    (replicate 512 0 @ replicate 512 0 @ (fs_tag @ replicate 508 0) @ replicate 6656 0 @ replicate (n - 8192) 0) 8192"
proof -
  have tag: "put_at (replicate 512 0) 0 fs_tag = fs_tag @ replicate 508 0" "length fs_tag = 4"
    by (simp_all add: put_at_def fs_tag_def str_bytes_def)
  have n: "replicate n (0 :: u8) = (replicate 512 0 @ replicate 512 0) @ replicate 512 0 @ replicate 2560 0 @ replicate 4096 0 @ replicate (n - 8192) 0"
    using assms(2) by (simp add: replicate_add [symmetric])
  have w: "put_at (replicate n 0) 1024 (fs_tag @ replicate 508 0) =
      ((replicate 512 0 @ replicate 512 0) @ (fs_tag @ replicate 508 0) @ replicate 2560 0) @ replicate 4096 0 @ replicate (n - 8192) 0"
    unfolding n by (subst put_at_part) (simp_all add: tag(2))
  have "put_at (put_at (replicate n 0) 1024 (fs_tag @ replicate 508 0)) 4096 (replicate 4096 0) =
      put_at (replicate n 0) 1024 (fs_tag @ replicate 508 0)"
    unfolding w by (subst put_at_part) (simp_all add: tag(2))
  moreover have "put_at (replicate n 0) 1024 (fs_tag @ replicate 508 0) =
      replicate 512 0 @ replicate 512 0 @ (fs_tag @ replicate 508 0) @ replicate 6656 0 @ replicate (n - 8192) 0"
    unfolding w using replicate_add [of 2560 4096 "0 :: u8"] by simp
  ultimately show ?thesis
    using assms fseek_small [of 1024] fseek_small [of 4096] tag
    by (simp add: bmfs_format_def Let_def flush_directory_def fwrite_room reaches_def host.truncate_def tell_def)
qed



lemma reachesD:
  "reaches s rs c p \<Longrightarrow> \<exists>s'. rs = (0, s') \<and> disk s' = (disk s)\<lparr>content := c, fpos := p\<rparr> \<and> host.truncate s' = host.truncate s"
  by (cases rs) (simp add: reaches_def)

lemma reaches_trans:
  "reaches s (0, s') c p \<Longrightarrow> reaches s' rs c' p' \<Longrightarrow> reaches s rs c' p'"
  by (simp add: reaches_def)

lemma reaches_seek:
  "off < 2 ^ 63 \<Longrightarrow> reaches (s\<lparr>disk := fseek_set (of_nat off) (disk s)\<rparr>) rs c p = reaches s rs c p"
  by (simp add: reaches_def fseek_small host.truncate_def)

lemma write_image_spec:
  assumes n: "8192 \<le> n" "n \<le> room (disk s)" "8192 + length b + length k \<le> room (disk s)"
    and s: "content (disk s) = []" "fpos (disk s) = 0" "\<not> failed (disk s)" and m: "512 \<le> length m"
  shows "\<exists>p. reaches s (write_image dsk n mbr boot kfile (Some m) (Some b) (Some k) s) (image n m b k) p"
proof -
  let ?r = "replicate (n - 8192) (0 :: u8)" and ?t = "fs_tag @ replicate 508 (0 :: u8)"
  let ?pre = "take 512 m @ replicate 512 0 @ ?t @ replicate 6656 0"
  have pre: "length ?pre = 8192" using m by (simp add: fs_tag_def str_bytes_def)
  obtain s1 where s1: "fill_disk dsk n 0 s = (0, s1)" "disk s1 = (disk s)\<lparr>content := replicate n 0, fpos := n\<rparr>"
    "host.truncate s1 = host.truncate s"
    using reachesD [OF fill_disk_spec [of n s 0 dsk]] n s by auto
  let ?s1 = "s1\<lparr>disk := rewind (disk s1)\<rparr>"
  let ?s2 = "bmfs_format ?s1"
  have s2: "disk ?s2 = (disk s)\<lparr>content := replicate 512 0 @ replicate 512 0 @ ?t @ replicate 6656 0 @ ?r, fpos := 8192\<rparr>"
    "host.truncate ?s2 = host.truncate s"
    using format_reaches [of ?s1 n] s1 n s by (simp_all add: reaches_def rewind_def)
  let ?rs3 = "write_mbr dsk (the mbr) m (0, ?s2)"
  have "put_at (replicate 512 0 @ replicate 512 0 @ ?t @ replicate 6656 0 @ ?r) 0 (take 512 m) = ?pre @ ?r"
    using put_at_part [of "take 512 m" "replicate 512 0" "[]" 0 "replicate 512 0 @ ?t @ replicate 6656 0 @ ?r"] m by simp
  then have "reaches s ?rs3 (?pre @ ?r) 512"
    using m n s2 fseek_small [of 0] by (simp add: write_mbr_def Let_def write_disk_room reaches_def)
  then obtain s3 where s3: "?rs3 = (0, s3)" "disk s3 = (disk s)\<lparr>content := ?pre @ ?r, fpos := 512\<rparr>" "host.truncate s3 = host.truncate s"
    by (auto dest: reachesD)
  let ?s3 = "tell (str_bytes ''Writing '' @ str_bytes (bootFileType kfile) @ line '' file.'') s3"
  let ?s3' = "?s3\<lparr>disk := fseek_set 8192 (disk ?s3)\<rparr>"
  have d3: "disk ?s3' = (disk s)\<lparr>content := ?pre @ ?r, fpos := 8192\<rparr>" "host.truncate ?s3' = host.truncate s"
    using s3 fseek_small [of 8192] by simp_all
  have "reaches ?s3' (write_chunks dsk (the boot) b (0, ?s3'))
      (put_at (content (disk ?s3')) (fpos (disk ?s3')) b) (fpos (disk ?s3') + length b)"
    by (rule write_chunks_spec; unfold d3(1)) (use n s(3) pre in simp_all)
  moreover have "put_at (?pre @ ?r) 8192 b = ?pre @ b @ drop (length b) ?r" by (rule put_at_rest [OF pre])
  ultimately have "reaches s (write_chunks dsk (the boot) b (0, ?s3')) (?pre @ b @ drop (length b) ?r) (8192 + length b)"
    using d3 by (simp add: reaches_def)
  then obtain s4 where s4: "write_chunks dsk (the boot) b (0, ?s3') = (0, s4)"
    "disk s4 = (disk s)\<lparr>content := ?pre @ b @ drop (length b) ?r, fpos := 8192 + length b\<rparr>" "host.truncate s4 = host.truncate s"
    by (auto dest: reachesD)
  let ?s4 = "tell (line ''Writing kernel.'') s4"
  have pre4: "length (?pre @ b) = 8192 + length b" using pre by simp
  have "reaches ?s4 (write_chunks dsk (the kfile) k (0, ?s4))
      (put_at (content (disk ?s4)) (fpos (disk ?s4)) k) (fpos (disk ?s4) + length k)"
    by (rule write_chunks_spec; simp only: tell_simps; unfold s4(2)) (use n s(3) pre in simp_all)
  moreover have "put_at ((?pre @ b) @ drop (length b) ?r) (8192 + length b) k = (?pre @ b) @ k @ drop (length k) (drop (length b) ?r)"
    by (rule put_at_rest [OF pre4])
  moreover have "(?pre @ b) @ k @ drop (length k) (drop (length b) ?r) = image n m b k"
    by (simp add: image_def add.commute)
  ultimately have r5: "reaches s (write_chunks dsk (the kfile) k (0, ?s4)) (image n m b k) (8192 + length b + length k)"
    using s4(2,3) by (simp add: reaches_def)
  have "write_image dsk n mbr boot kfile (Some m) (Some b) (Some k) s = write_chunks dsk (the kfile) k (0, ?s4)"
    unfolding write_image_def s1(1) by (simp add: if_named_def s3(1) s4(1) [simplified] Let_def)
  with r5 show ?thesis by auto
qed

lemma image_formatted:
  assumes "512 \<le> length m" "2 * block_size \<le> n" "n < 2 ^ 31 * block_size" "8192 + length b + length k \<le> n"
  shows "disk_holds (image n m b k) []" "length (image n m b k) = n"
proof -
  have l4: "length fs_tag = 4" by (simp add: fs_tag_def str_bytes_def)
  show len: "length (image n m b k) = n" using assms by (simp add: image_def l4 block_size_def)
  let ?t = "fs_tag @ replicate 508 (0 :: u8)"
  have i: "image n m b k = (take 512 m @ replicate 512 0) @ ?t @ replicate 2560 0 @ replicate 4096 0 @ b @ k @
      replicate (n - 8192 - length b - length k) 0"
    using replicate_add [of 2560 4096 "0 :: u8"] by (simp add: image_def)
  have info: "get_at (image n m b k) 1024 512 = ?t" unfolding i get_at_def using assms(1) by (simp add: l4)
  have dir: "get_at (image n m b k) 4096 4096 = replicate 4096 0" unfolding i get_at_def using assms(1) by (simp add: l4)
  have "formatted ?t = Some True" by code_simp
  then show "disk_holds (image n m b k) []" using assms info dir len by (intro empty_disk) simp_all
qed

text \<open>
  C16: the image that \<open>initialize\<close> writes: for a size in decimal, with or without a unit, that a disk of the
  utility can have, and three files that exist and fit, the disk is the boot record, the mark of a formatted
  disk, an empty directory, and from byte 8192 on the boot loader with the kernel right behind it, filled up
  with zeros to the size; it is a disk without files. So the last disk block holds zeros too, in the image of three
  blocks that \<open>Image/Makefile\<close> builds as in any other, although \<open>BareMetal File System.md\<close> describes it as a copy of the first.
\<close>

theorem initialize_writes_image:
  assumes "local_files h mbr = Some m" "local_files h boot = Some b" "local_files h kern = Some k" "512 \<le> length m"
    and "has_memory h" "disk_opens h" "n * 1024 ^ j \<le> disk_room h" "8192 + length b + length k \<le> n * 1024 ^ j"
    and "6291456 \<le> n * 1024 ^ j" "n * 1024 ^ j < 2 ^ 52" "j \<le> 5"
  shows "\<exists>msg. bmfs_main [prog, dsk, str_bytes ''initialize'', digits_text 10 n @ unit_text j, mbr, boot, kern] stdin h =
      Some (0, h\<lparr>disk_file := Some (image (n * 1024 ^ j) m b k)\<rparr>, msg) \<and> disk_holds (image (n * 1024 ^ j) m b k) []"
proof -
  let ?n = "n * 1024 ^ j" and ?sz = "digits_text 10 n @ unit_text j"
  define s where "s = (start_state h)\<lparr>disk := \<lparr>content = [], fpos = 0, room = disk_room h, failed = False\<rparr>\<rparr>"
  have n: "unat (of_nat ?n :: u64) = ?n" using assms(10) by (intro unat_of_nat_u64) simp
  have sz: "image_size ?sz = Inr (of_nat ?n)" using assms(9-11) by (intro image_size_text) simp_all
  have ds: "disk s = \<lparr>content = [], fpos = 0, room = disk_room h, failed = False\<rparr>" "host.truncate s = h"
    by (simp_all add: s_def start_state_def host.defs bmfs.defs)
  obtain p where "reaches s (write_image dsk ?n (Some mbr) (Some boot) (Some kern) (Some m) (Some b) (Some k) s) (image ?n m b k) p"
    using write_image_spec [of ?n s b k m dsk "Some mbr" "Some boot" "Some kern"] assms ds by auto
  then obtain s' where s': "write_image dsk ?n (Some mbr) (Some boot) (Some kern) (Some m) (Some b) (Some k) s = (0, s')"
    "content (disk s') = image ?n m b k" "host.truncate s' = h"
    using ds by (auto dest!: reachesD)
  have files: "local_files (start_state h) = local_files h" "has_memory (start_state h) = has_memory h"
    "disk_opens (start_state h) = disk_opens h" "disk_room (start_state h) = disk_room h"
    by (simp_all add: start_state_def host.defs bmfs.defs)
  have "initialize dsk ?sz (Some mbr) (Some boot) (Some kern) (start_state h) =
      (0, tell (line ''Disk initialization complete.'') (close_disk s'))"
    using assms(1-3,5,6) s'(1) n
    by (simp add: initialize_def sz image_files_def open_input_def files s_def Let_def del: of_nat_mult)
  moreover have "host.truncate (close_disk s') = h\<lparr>disk_file := Some (image ?n m b k)\<rparr>"
    using s'(2) arg_cong [OF s'(3), of "\<lambda>h. h\<lparr>disk_file := Some (image ?n m b k)\<rparr>"] by (simp add: close_disk_def host.defs)
  moreover have "same_command ''initialize'' (str_bytes ''initialize'')" by code_simp
  ultimately have "bmfs_main [prog, dsk, str_bytes ''initialize'', ?sz, mbr, boot, kern] stdin h =
      Some (0, h\<lparr>disk_file := Some (image ?n m b k)\<rparr>, printed (tell (line ''Disk initialization complete.'') (close_disk s')))"
    unfolding bmfs_main_def start_state_def [symmetric] by (simp add: Let_def)
  moreover have "disk_holds (image ?n m b k) []"
    using assms(4,8-10) by (intro image_formatted) (simp_all add: block_size_def)
  ultimately show ?thesis by blast
qed

section \<open>Runs of the program\<close>

text \<open>
  C15: on a disk that holds a list of files, any sequence of the commands create, write, read and delete that
  creates nothing after a deletion, and nothing with a name of more than 31 characters, does what the abstract
  commands do, as long as the local files have less than \<open>2 ^ 31\<close> bytes: every call of the program ends with
  code 0, the disk holds the abstract list afterwards and the local files are the abstract ones, in
  particular a file that is read back has the bytes last written to it, whatever happened to the others.
\<close>

theorem disk_commands_refine:
  assumes "disk_file h = Some c" "disk_holds c a" "length c \<le> disk_room h" "short_files (local_files h)" "2 ^ 31 \<le> local_room h"
    and "list_all command_ok cs" "creates_before_deletes cs" "list_ex creates_file cs \<longrightarrow> none_deleted a"
  shows "\<exists>h' c'. run_commands prog dsk cs h = Some h' \<and> disk_file h' = Some c' \<and> length c' = length c \<and>
    disk_holds c' (fst (spec_commands (can_create h) (blocks c) cs (a, local_files h))) \<and>
    local_files h' = snd (spec_commands (can_create h) (blocks c) cs (a, local_files h))"
  by (rule commands_history [OF assms])

definition sample_host :: "nat \<Rightarrow> host" where
  "sample_host n =
     \<lparr>disk_file = Some (image n (replicate 512 0) [] []), disk_room = n, disk_opens = True, has_memory = True,
      local_files = Map.empty([120] \<mapsto> [1, 2, 3], [121] \<mapsto> [4]), can_create = (\<lambda>nm. True), local_room = 2 ^ 31\<rparr>"

lemma sample_host_ok:
  assumes "2 * block_size \<le> n" "n < 2 ^ 31 * block_size"
  shows "disk_file (sample_host n) = Some (image n (replicate 512 0) [] [])" "disk_holds (image n (replicate 512 0) [] []) []"
    "length (image n (replicate 512 0) [] []) \<le> disk_room (sample_host n)" "short_files (local_files (sample_host n))"
    "2 ^ 31 \<le> local_room (sample_host n)" "blocks (image n (replicate 512 0) [] []) = n div block_size"
    "length (image n (replicate 512 0) [] []) = n"
  using image_formatted [of "replicate 512 0" n "[]" "[]"] assms
  by (simp_all add: sample_host_def short_files_def blocks_def block_size_def)

lemma position_simps:
  "position nm [] = None"
  "position nm (f # a) = (if fst f = Some nm then Some 0 else map_option Suc (position nm a))"
proof -
  have f: "find P (map Suc xs) = map_option Suc (find (\<lambda>i. P (Suc i)) xs)" for P xs by (induction xs) auto
  have u: "[0..<Suc (length a)] = 0 # map Suc [0..<length a]" by (simp add: upt_conv_Cons map_Suc_upt del: upt_Suc)
  show "position nm (f # a) = (if fst f = Some nm then Some 0 else map_option Suc (position nm a))"
    unfolding position_def length_Cons u by (simp add: f del: upt_Suc)
qed (simp add: position_def)

lemmas sample_spec = create_file_def write_file_to_def delete_file_def read_file_def position_simps blocks_for_def
  first_block_def reserved_def bytes_of_def

theorem disk_commands_refine_witness:
  "\<exists>h'. run_commands [98] [100] [Create_file [120] 2, Create_file [121] 3, Write_file [120], Write_file [121], Read_file [120]]
      (sample_host 41943040) = Some h' \<and> local_files h' [120] = Some [1, 2, 3]"
proof -
  let ?cs = "[Create_file [120] 2, Create_file [121] 3, Write_file [120], Write_file [121], Read_file [120]]"
  let ?h = "sample_host 41943040" and ?c = "image 41943040 (replicate 512 0) [] []"
  have h: "disk_file ?h = Some ?c" "disk_holds ?c []" "length ?c \<le> disk_room ?h" "short_files (local_files ?h)"
    "2 ^ 31 \<le> local_room ?h" "blocks ?c = 20"
    using sample_host_ok [of 41943040] by (simp_all add: block_size_def)
  have "list_all command_ok ?cs" "creates_before_deletes ?cs" "list_ex creates_file ?cs \<longrightarrow> none_deleted []"
    by (simp_all add: file_name_def none_deleted_def)
  from disk_commands_refine [OF h(1-5) this, of "[98]" "[100]"] obtain h' where
    "run_commands [98] [100] ?cs ?h = Some h'" "local_files h' = snd (spec_commands (can_create ?h) 20 ?cs ([], local_files ?h))"
    unfolding h(6) by blast
  moreover have "snd (spec_commands (can_create ?h) 20 ?cs ([], local_files ?h)) [120] = Some [1, 2, 3]"
    by (simp add: spec_commands_def sample_host_def sample_spec block_size_def)
  ultimately show ?thesis by auto
qed

theorem create_after_delete_overlaps_witness:
  "\<exists>s s' e e'. bmfs_create [122] (of_nat 20) s = Some s' \<and> findfile (Some [122]) (Directory s') = Some (Some (e, 0)) \<and>
    findfile (Some [121]) (Directory s') = Some (Some (e', 1)) \<and> StartingBlock (entry_of e) = StartingBlock (entry_of e')"
proof -
  let ?cs = "[Create_file [120] 2, Create_file [121] 28, Delete_file [120]]"
  let ?h = "sample_host 41943040" and ?c = "image 41943040 (replicate 512 0) [] []"
  have h: "disk_file ?h = Some ?c" "disk_holds ?c []" "length ?c \<le> disk_room ?h" "short_files (local_files ?h)"
    "2 ^ 31 \<le> local_room ?h" "blocks ?c = 20" "length ?c = 41943040"
    using sample_host_ok [of 41943040] by (simp_all add: block_size_def)
  have "list_all command_ok ?cs" "creates_before_deletes ?cs" "list_ex creates_file ?cs \<longrightarrow> none_deleted []"
    by (simp_all add: file_name_def none_deleted_def)
  from commands_history [OF h(1-5) this, of "[98]" "[100]"] obtain c where
    c: "disk_holds c (fst (spec_commands (can_create ?h) 20 ?cs ([], local_files ?h)))" "length c = 41943040"
    unfolding h(6) h(7) by blast
  have a: "fst (spec_commands (can_create ?h) 20 ?cs ([], local_files ?h)) = [(None, 1, []), (Some [121], 14, [])]"
    by (simp add: spec_commands_def sample_host_def sample_spec)
  let ?s = "open_disk c (start_state ?h)"
  have o: "opened ?s [(None, 1, []), (Some [121], 14, [])]" "content (disk ?s) = c"
    using open_disk_opened [OF c(1) [unfolded a], of "start_state ?h"] c(2) by (simp_all add: sample_host_def)
  show ?thesis
    using create_after_delete_overlaps [OF o(1), of "[122]" 20] o(2) c(2)
    by (auto simp: file_name_def blocks_for_def blocks_def block_size_def)
qed

text \<open>Sixty-four files of one block each.\<close>

lemma unat_small_name: "i < 64 \<Longrightarrow> unat (of_nat (i + 2) :: u8) = i + 2"
  using unat_of_nat [of "i + 2", where 'a = 8] by (simp del: of_nat_add)

lemma position_None_set: "position nm a = None \<longleftrightarrow> (\<forall>f \<in> set a. fst f \<noteq> Some nm)"
  by (induction a) (auto simp: position_simps)

definition many_files :: "nat \<Rightarrow> afile list" where
  "many_files k = map (\<lambda>i. (Some [of_nat (i + 2)], 1, [])) [0..<k]"

lemma many_files_created:
  "k \<le> 64 \<Longrightarrow> spec_commands creates 512 (map (\<lambda>i. Create_file [of_nat (i + 2)] 2) [0..<k]) ([], l) = (many_files k, l)"
proof (induction k)
  case (Suc k)
  have "(of_nat (i + 2) :: u8) \<noteq> of_nat (k + 2)" if "i < k" for i
  proof -
    have "unat (of_nat (i + 2) :: u8) = i + 2" "unat (of_nat (k + 2) :: u8) = k + 2"
      using that Suc.prems by (intro unat_small_name; simp)+
    then show ?thesis using that by (auto simp: word_unat_eq_iff)
  qed
  then have "position [of_nat (k + 2)] (many_files k) = None" by (auto simp: position_None many_files_def)
  moreover have "first_block (many_files k) k = 1 + k"
    by (simp add: first_block_def many_files_def comp_def reserved_def sum_list_triv)
  ultimately have "create_file 512 [of_nat (k + 2)] 2 (many_files k) = many_files (Suc k)"
    using Suc.prems by (simp add: create_file_def blocks_for_def many_files_def)
  then show ?case using Suc by (simp add: spec_commands_def)
qed (simp add: spec_commands_def many_files_def)

theorem full_directory_loses_files_witness:
  "\<exists>s s'. bmfs_create [70] (of_nat 2) s = Some s' \<and> findfile (Some [3]) (Directory s') = Some None"
proof -
  let ?cs = "map (\<lambda>i. Create_file [of_nat (i + 2)] 2) [0..<64] @ [Delete_file [2]]"
  let ?h = "sample_host 1073741824" and ?c = "image 1073741824 (replicate 512 0) [] []"
  let ?a = "(None, 1, []) # map (\<lambda>i. (Some [of_nat (i + 2)], 1, [])) [1..<64]"
  have h: "disk_file ?h = Some ?c" "disk_holds ?c []" "length ?c \<le> disk_room ?h" "short_files (local_files ?h)"
    "2 ^ 31 \<le> local_room ?h" "blocks ?c = 512" "length ?c = 1073741824"
    using sample_host_ok [of 1073741824] by (simp_all add: block_size_def)
  have two: "(of_nat (i + 2) :: u8) \<noteq> 0 \<and> (of_nat (i + 2) :: u8) \<noteq> 1" if "i < 64" for i
    using unat_small_name [OF that] that by (auto simp: word_unat_eq_iff)
  have before: "creates_before_deletes (map (\<lambda>i. Create_file [of_nat (i + 2)] 2) xs @ [Delete_file [2]])" for xs :: "nat list"
    by (induction xs) simp_all
  have "list_all command_ok ?cs" using two by (simp add: file_name_def list_all_iff del: of_nat_add)
  moreover have "list_ex creates_file ?cs \<longrightarrow> none_deleted []" by (simp add: none_deleted_def)
  ultimately obtain c where
    c: "disk_holds c (fst (spec_commands (can_create ?h) 512 ?cs ([], local_files ?h)))" "length c = 1073741824"
    using commands_history [OF h(1-5) _ before, of _ "[98]" "[100]"] unfolding h(6,7) by blast
  have "many_files 64 = (Some [2], 1, []) # tl ?a" by (simp add: many_files_def upt_conv_Cons)
  then have "delete_file [2] (many_files 64) = ?a"
    by (simp add: delete_file_def position_simps reserved_def bytes_of_def)
  then have a: "fst (spec_commands (can_create ?h) 512 ?cs ([], local_files ?h)) = ?a"
    using many_files_created [of 64 "can_create ?h" "local_files ?h"] by (simp add: spec_commands_def)
  let ?s = "open_disk c (start_state ?h)"
  have o: "opened ?s ?a" "content (disk ?s) = c"
    using open_disk_opened [OF c(1) [unfolded a], of "start_state ?h"] c(2) by (simp_all add: sample_host_def)
  define a :: "afile list" where "a = ?a"
  have "(of_nat (i + 2) :: u8) \<noteq> 70" if "i < 64" for i
    using unat_small_name [OF that] that by (auto simp: word_unat_eq_iff)
  then have "position [70] a = None" by (simp add: a_def position_None_set del: of_nat_add)
  moreover have "length a = 64" "fst (a ! 0) = None" "fst (a ! 1) = Some [3]" by (simp_all add: a_def)
  ultimately obtain s' where s': "bmfs_create [70] (of_nat 2) ?s = Some s'"
    "\<forall>i nm. i < 64 \<and> fst (a ! i) = Some nm \<longrightarrow> findfile (Some nm) (Directory s') = Some None"
    using full_directory_loses_files [OF o(1) [folded a_def], of "[70]" 2] o(2) c(2)
    by (auto simp: file_name_def blocks_for_def blocks_def block_size_def)
  have "findfile (Some [3]) (Directory s') = Some None"
    using s'(2) [rule_format, of 1 "[3]"] \<open>fst (a ! 1) = Some [3]\<close> by simp
  then show ?thesis using s'(1) by blast
qed

theorem initialize_writes_image_witness:
  "\<exists>h'. bmfs_main [[98], [100], str_bytes ''initialize'', digits_text 10 6 @ unit_text 2, [120], [121], [122]] []
      (sample_host 6291456\<lparr>local_files := Map.empty([120] \<mapsto> replicate 512 7, [121] \<mapsto> [1, 2], [122] \<mapsto> [3])\<rparr>) = Some (0, h')"
proof -
  let ?h = "sample_host 6291456\<lparr>local_files := Map.empty([120] \<mapsto> replicate 512 7, [121] \<mapsto> [1, 2], [122] \<mapsto> [3])\<rparr>"
  show ?thesis
    using initialize_writes_image [of ?h "[120]" "replicate 512 7" "[121]" "[1, 2]" "[122]" "[3]" 6 2 "[98]" "[100]" "[]"]
    by (auto simp: sample_host_def)
qed

end
