(* ===== verification/Spec2Isabelle.thy ===== *)
theory Spec2Isabelle
  imports
    Memlib Pmem Shared Timer Keyboard Video Rtc Bga Console Interrupts Loader Boot Selftests Reports
    CString Ctype Printf Scanf System Stdin Usercalls Chario
    Commands Fractals Fractalcmd Painting Shell Session Terminal Tests Diskmain
begin

text \<open>
  A model of SO-REALTIME, a small operating system for one 64-bit processor: its kernel (\<open>src/Kernel\<close>), the one
  user program, a shell with its C library (\<open>src/Userland/CodeModule\<close>), and the tool that packs both into an
  image (\<open>src/Toolchain/ModulePacker\<close>), and the tool that keeps files on the disk the system boots from
  (\<open>src/Bootloader/BMFS\<close>).

  The parts and how they meet. The tool appends the modules to the kernel. The start of the kernel copies them to
  their addresses and clears its own data; its \<open>main\<close> sets up the table of system calls, the interrupt table, the
  memory and the shared memory, and jumps to the user program. From then on the kernel is entered by two
  interrupts, of the timer and of the keyboard, and by the software interrupt of the system calls. The timer
  counts and runs tasks, of which the clock in the corner of the screen is the only one; the keyboard fills a
  buffer that the call \<open>read\<close> empties by polling; \<open>write\<close> goes to the text screen. The library turns these calls
  into C's \<open>stdio\<close>; the shell reads keys, edits a line, splits it in place and runs one of twelve commands.
  The disk tool runs on the host and shares nothing with the kernel but the image it writes.

  Conventions. A C structure is a record, an enumeration a datatype, a number a word of its width, and memory a
  function from 64-bit addresses to bytes where the code works with raw addresses. Linked structures that only
  their own component follows (the chunk lists of the heaps, the tree of the buddy allocator, the table of shared
  memory) are lists and trees of their nodes. An operation that may fault or not return has an \<open>option\<close> result:
  \<open>None\<close> is an access through NULL or outside an object, a division by zero, an endless loop, or input that has
  not come, and for the keyboard a look-up outside its table; each theory says which. Values that no C code of the repository determines are arguments: what ports
  deliver, addresses the linker chooses, the name of the processor, the interrupts that arrive during a call.

  The theories, from the bottom up:
  \<^item> \<open>Prelude\<close>: types, hints and generic lemmas. \<open>CLib\<close> (\<open>lib.c\<close>): \<open>memset\<close>, \<open>memcpy\<close>, \<open>memcmp\<close>; the word loop of
    \<open>memcpy\<close> has the effect of the byte loop. \<open>NumBase\<close>: the two conversions of numbers to strings.
  \<^item> \<open>Allocator\<close>: what an allocator promises, as a locale with lemmas about histories of calls; it is interpreted
    on the kernel heap, the process heap and the memory interface.
  \<^item> \<open>Kmem\<close> (\<open>kmem.c\<close>), \<open>Pmem\<close> (\<open>pmem.c\<close>), \<open>Buddy\<close> and \<open>Memlib\<close> (\<open>buddy.c\<close>, \<open>memlib.c\<close>): live blocks as a map from
    addresses to sizes; every operation on every branch, and any history from the boot on, keeps them apart. The
    tree of the buddy allocator keeps its nodes in the kernel heap, so \<open>Memlib\<close> relates both. The recursion of
    \<open>buddy_alloc\<close> is a \<open>partial_function\<close>, as it diverges for a request of 0 bytes; \<open>first_fit\<close>, \<open>splits\<close> and \<open>grab\<close>
    say without it what becomes of every request.
  \<^item> \<open>Shared\<close> (\<open>shared.c\<close>): the table of named blocks on top of both allocators, its invariant and counting. A
    missing structure is an answer of \<open>shmget\<close>, a missing place for the name a fault, as in the code.
  \<^item> \<open>Timer\<close> (\<open>timer.c\<close>), \<open>Keyboard\<close> (\<open>keyboard.c\<close>, a queue of 64 characters under a stated condition), \<open>Rtc\<close>
    (\<open>rtc.c\<close>), \<open>Video\<close> (\<open>video.c\<close>), \<open>Bga\<close> (\<open>bga.c\<close>), \<open>Console\<close> (\<open>naiveConsole.c\<close>), \<open>Interrupts\<close>
    (\<open>interrupts.c\<close>): the drivers, each on its own state, with what each operation changes and that nothing else
    does. \<open>Reports\<close>: the printing of the buddy tree and of the graphics adapter's registers.
  \<^item> \<open>Loader\<close> (\<open>moduleLoader.c\<close> and the packer) and \<open>Boot\<close> (the first half of \<open>kernel.c\<close>, \<open>_loader.c\<close>): what the
    packer builds, the start of the kernel unpacks, where the output of the packer is none of the files it reads: it is
    emptied before they are opened. \<open>Selftests\<close>: the tests of shared memory in \<open>kernel.c\<close>.
  \<^item> \<open>Syscalls\<close> (\<open>syscalls.c\<close>, \<open>main\<close> of \<open>kernel.c\<close>): one state \<open>machine\<close> of all drivers, the table and every handler.
    Interrupts that arrive during a call are a list of events, consumed by the waiting loops; it bounds these
    loops, and \<open>None\<close> means that the call still waits at its end. \<open>System\<close>: the invariant of the machine, kept by
    all interrupts and by all calls with sound arguments, from the boot on. \<open>Stdin\<close>: reading under polling.
  \<^item> \<open>CString\<close>, \<open>Ctype\<close>, \<open>Printf\<close>, \<open>Scanf\<close> (\<open>lib/string.c\<close>, \<open>ctype.c\<close>, \<open>stdlib.c\<close>, \<open>stdio.c\<close>): the user library on lists
    of characters; what is written is the sequence of characters per descriptor, what is read a list.
    \<open>Usercalls\<close> (\<open>lib/syscalls.c\<close>): the library's side of the calls, and that the sequences of \<open>Printf\<close> are what the
    kernel shows. \<open>Chario\<close>: single characters from the machine, as a locale of character sources with the keyboard
    and the data module as its interpretations, and that the lists of \<open>Scanf\<close> are what the kernel delivers.
  \<^item> \<open>Commands\<close>, \<open>Fractalcmd\<close> (\<open>shell/commands.c\<close>), \<open>Fractals\<close> (\<open>shell/fractals.c\<close>, with the rounding of the floating
    point unit on rational numbers), \<open>Painting\<close> (their calls on the machine and the picture in the frame buffer),
    \<open>Shell\<close> (\<open>shell/shell.c\<close>), \<open>Cmdrel\<close> (a locale of the relations between sessions that every command respects, with
    two interpretations), \<open>Session\<close> (\<open>codeModule.c\<close>): the program refines an interpreter of whole lines. The call \<open>exit\<close>
    halts the processor, so a session that has \<open>exited\<close> runs no further code: no prompt and no later key. \<open>Terminal\<close>: the
    same loop on the machine, from the interrupt of a key to the cells of the screen.
    \<open>Tests\<close> (\<open>tests/tests.c\<close>): the test programs of the library, which pass but for the one of \<open>malloc\<close>.
  \<^item> \<open>Streams\<close>: the part of C's \<open>stdio\<close> that the disk tool uses, on files as lists of bytes. \<open>Bmfs\<close> (\<open>bmfs.c\<close>, the
    directory and the commands on it), \<open>Diskimage\<close> (\<open>initialize\<close> and \<open>main\<close>), \<open>Disks\<close> and \<open>Diskmain\<close>: a directory as a
    list of files, what each command does to it, and that runs of the program refine this. The two ways in which
    the tool loses data are theorems: a file created after a deletion may overlap another, and a full directory
    hides files.

  Bounds. Loops that end are structural or have a measure; loops over a counted number of passes have that
  number as an argument, which is the one the code counts (\<open>mandel_loop\<close>, \<open>fill_pixels\<close>, \<open>memset_loop\<close>). No theorem
  depends on fuel of an arbitrary size.

  Not modelled. \<open>system/scheduling/scheduling.c\<close> is not part of the build and is not valid C at this commit; there
  is one process, the field \<open>m_process\<close>. The tests of \<open>kernel.c\<close> that are comments are left out. The assembly
  routines give access to ports, registers and interrupts; what the C code gets from them is an argument. Pure64,
  the assembly that runs before the kernel, is left out. Of the host that runs the disk tool, errors while reading
  a file that was opened are left out; the space on the host's disk, the memory for a buffer and the permission to
  create a file are fields of \<open>host\<close>. The disk is not one of the files that the tool copies from or to. In
  \<open>Terminal\<close> the start of the shell, with the question for the name, is not run on the machine, and its theorem is
  about sessions without backspaces whose only call of the kernel is \<open>clear\<close>. The kernel's memory is not checked
  against overlapping objects of different components beyond what the theorems state; one such overlap is proved
  to exist (\<open>first_block_overlaps_kernel_heap\<close>).
\<close>

end
